(* ===== verification/Prelude.thy ===== *)
theory Prelude
  imports Main "HOL-Library.Word" "HOL-Library.Monad_Syntax"
begin

unbundle bit_operations_syntax

text \<open>
  Shared vocabulary of the development: the machine types of the C code, memory blocks as
  lists with checked accesses (\<open>None\<close> is an access outside the block, undefined behaviour
  in C), and the arithmetic of power-of-two masks on 32-bit words that the lock-free ring
  buffer and the JACK cycle code share.
\<close>

section \<open>Machine types\<close>

type_synonym byte = "8 word"
type_synonym u32 = "32 word"
type_synonym u64 = "64 word"

named_theorems mem_simps \<open>evaluation of checked memory accesses\<close>
named_theorems ring_arith \<open>masked word arithmetic as arithmetic on natural numbers\<close>

section \<open>Memory blocks\<close>

text \<open>
  \<open>memcpy dst d src s n\<close> copies \<open>n\<close> items from offset \<open>s\<close> of one block to offset \<open>d\<close> of
  another one. The two blocks never overlap where the code uses it.
\<close>

definition memcpy :: "'a list \<Rightarrow> nat \<Rightarrow> 'a list \<Rightarrow> nat \<Rightarrow> nat \<Rightarrow> 'a list option" where
  "memcpy dst d src s n =
     (if s + n \<le> length src \<and> d + n \<le> length dst
      then Some (take d dst @ take n (drop s src) @ drop (d + n) dst)
      else None)"

definition load :: "'a list \<Rightarrow> nat \<Rightarrow> 'a option" where
  "load m i = (if i < length m then Some (m ! i) else None)"

definition store :: "'a list \<Rightarrow> nat \<Rightarrow> 'a \<Rightarrow> 'a list option" where
  "store m i x = (if i < length m then Some (m[i := x]) else None)"

lemma load_in [mem_simps]: "i < length m \<Longrightarrow> load m i = Some (m ! i)"
  by (simp add: load_def)

lemma load_Some_iff: "load m i = Some x \<longleftrightarrow> i < length m \<and> x = m ! i"
  by (auto simp: load_def)

lemma store_in [mem_simps]: "i < length m \<Longrightarrow> store m i x = Some (m[i := x])"
  by (simp add: store_def)

lemma store_Some_iff: "store m i x = Some m' \<longleftrightarrow> i < length m \<and> m' = m[i := x]"
  by (auto simp: store_def)

lemma memcpy_in [mem_simps]:
  "s + n \<le> length src \<Longrightarrow> d + n \<le> length dst \<Longrightarrow>
   memcpy dst d src s n = Some (take d dst @ take n (drop s src) @ drop (d + n) dst)"
  by (simp add: memcpy_def)

lemma memcpy_length: "memcpy dst d src s n = Some r \<Longrightarrow> length r = length dst"
  by (auto simp: memcpy_def split: if_splits)

lemma memcpy_nth:
  assumes "memcpy dst d src s n = Some r" and "i < length dst"
  shows "r ! i = (if d \<le> i \<and> i < d + n then src ! (s + (i - d)) else dst ! i)"
proof -
  from assms(1) have b: "s + n \<le> length src" "d + n \<le> length dst"
    and r: "r = take d dst @ take n (drop s src) @ drop (d + n) dst"
    by (auto simp: memcpy_def split: if_splits)
  have len: "length (take d dst) = d" "length (take n (drop s src)) = n"
    using b by auto
  show ?thesis
    using b assms(2) by (auto simp: r nth_append len)
qed

text \<open>\<open>memset\<close> with a constant item.\<close>

definition memset :: "'a list \<Rightarrow> nat \<Rightarrow> 'a \<Rightarrow> nat \<Rightarrow> 'a list option" where
  "memset dst d x n =
     (if d + n \<le> length dst then Some (take d dst @ replicate n x @ drop (d + n) dst) else None)"

lemma memset_in [mem_simps]:
  "d + n \<le> length dst \<Longrightarrow>
   memset dst d x n = Some (take d dst @ replicate n x @ drop (d + n) dst)"
  by (simp add: memset_def)

section \<open>Allocated resources\<close>

text \<open>
  The resources that are allocated and not yet freed; freeing one that is not allocated is \<open>None\<close>.
\<close>

definition release :: "'r list \<Rightarrow> 'r \<Rightarrow> 'r list option" where
  "release live r = (if r \<in> set live then Some (remove1 r live) else None)"

section \<open>Waiting for a thread\<close>

text \<open>
  The loops of naps of the two audio drivers: \<open>stops k\<close> tells whether the thread has stopped after the \<open>k\<close>-th nap.
\<close>

fun poll :: "(nat \<Rightarrow> bool) \<Rightarrow> nat \<Rightarrow> nat \<Rightarrow> bool" where
  "poll stops k 0 = False"
| "poll stops k (Suc n) = (stops k \<or> poll stops (k + 1) n)"

section \<open>Slices of a circular block\<close>

text \<open>
  \<open>ring_slice b r n\<close> is what a reader sees that starts at offset \<open>r\<close> of the block \<open>b\<close> and
  takes \<open>n\<close> items, wrapping round at the end of the block.
\<close>

definition ring_slice :: "'a list \<Rightarrow> nat \<Rightarrow> nat \<Rightarrow> 'a list" where
  "ring_slice b r n = map (\<lambda>i. b ! ((r + i) mod length b)) [0..<n]"

lemma length_ring_slice [simp]: "length (ring_slice b r n) = n"
  by (simp add: ring_slice_def)

lemma ring_slice_0 [simp]: "ring_slice b r 0 = []"
  by (simp add: ring_slice_def)

lemma nth_ring_slice [simp]: "i < n \<Longrightarrow> ring_slice b r n ! i = b ! ((r + i) mod length b)"
  by (simp add: ring_slice_def)

lemma ring_slice_straight:
  "r + n \<le> length b \<Longrightarrow> ring_slice b r n = take n (drop r b)"
  by (rule nth_equalityI) auto

lemma ring_slice_append:
  "ring_slice b r (m + n) = ring_slice b r m @ ring_slice b ((r + m) mod length b) n"
  unfolding ring_slice_def upt_add_eq_append [OF le0] map_append
  by (rule arg_cong2 [where f = append], simp, rule nth_equalityI)
    (auto simp: add.assoc mod_add_left_eq)

lemma ring_slice_wrapped:
  assumes "r < length b" and "length b \<le> r + n" and "r + n \<le> 2 * length b"
  shows "ring_slice b r n = drop r b @ take (r + n - length b) b"
proof -
  have "ring_slice b r ((length b - r) + (r + n - length b)) = drop r b @ take (r + n - length b) b"
    using assms unfolding ring_slice_append by (simp add: ring_slice_straight)
  then show ?thesis using assms by simp
qed

lemma take_ring_slice: "take m (ring_slice b r n) = ring_slice b r (min m n)"
  by (rule nth_equalityI) auto

lemma drop_ring_slice:
  "m \<le> n \<Longrightarrow> drop m (ring_slice b r n) = ring_slice b ((r + m) mod length b) (n - m)"
  using ring_slice_append [of b r m "n - m"] by simp

lemma ring_slice_cong:
  assumes "length b' = length b"
    and "\<And>i. i < n \<Longrightarrow> b' ! ((r + i) mod length b) = b ! ((r + i) mod length b)"
  shows "ring_slice b' r n = ring_slice b r n"
  using assms by (intro nth_equalityI) auto

text \<open>
  Two different distances below the block's length from one start lead to different slots:
  the fact behind every "the writer does not touch what the reader sees" argument.
\<close>

lemma ring_pos_inject:
  assumes "i < (S::nat)" and "j < S" and "(r + i) mod S = (r + j) mod S"
  shows "i = j"
proof -
  have *: "x = y" if "x \<le> y" "y < S" "(r + x) mod S = (r + y) mod S" for x y
  proof -
    from that(1,3) have "S dvd (r + y) - (r + x)"
      by (metis add_left_mono mod_eq_dvd_iff_nat)
    then have "S dvd y - x" by simp
    with that(1,2) show ?thesis by (auto dest: dvd_imp_le)
  qed
  show ?thesis
    using assms *[of i j] *[of j i] by (metis nat_le_linear)
qed

section \<open>Masked word arithmetic\<close>

lemma unat_and_mask:
  fixes x :: "'a::len word"
  assumes "k < LENGTH('a)"
  shows "unat (x AND (2 ^ k - 1)) = unat x mod 2 ^ k"
proof -
  have "x AND (2 ^ k - 1) = take_bit k x"
    by (simp add: take_bit_eq_mask mask_eq_decr_exp)
  then show ?thesis
    by (simp only: unsigned_take_bit_eq) (simp add: take_bit_eq_mod)
qed

lemma unat_pow2:
  assumes "k < LENGTH('a::len)"
  shows "unat (2 ^ k :: 'a word) = 2 ^ k"
proof -
  have "unat (2 ^ k :: 'a word) = unat (word_of_nat (2 ^ k) :: 'a word)"
    by simp
  then show ?thesis
    using assms by (simp only: unsigned_of_nat) (simp add: take_bit_nat_eq_self_iff)
qed

text \<open>
  A masked 32-bit expression only depends on its integer value modulo the power of two: the
  wrap-around at \<open>2 ^ 32\<close> disappears.
\<close>

lemma unat_masked_int [ring_arith]:
  assumes "k < 32"
  shows "unat ((word_of_int X :: u32) AND (2 ^ k - 1)) = nat (X mod 2 ^ k)"
proof -
  have "unat (word_of_int X :: u32) = nat (X mod 2 ^ 32)"
    by (simp add: unsigned_of_int take_bit_eq_mod)
  then have "unat ((word_of_int X :: u32) AND (2 ^ k - 1)) = nat (X mod 2 ^ 32) mod 2 ^ k"
    using assms by (subst unat_and_mask) simp_all
  also have "\<dots> = nat ((X mod 2 ^ 32) mod 2 ^ k)"
    by (simp add: nat_mod_distrib nat_power_eq)
  also have "(X mod 2 ^ 32) mod 2 ^ k = X mod 2 ^ k"
    using le_imp_power_dvd [of k 32 "2 :: int"] assms by (simp add: mod_mod_cancel)
  finally show ?thesis .
qed

lemma nat_diff_mod:
  assumes "a < (M::nat)" and "b < M"
  shows "nat ((int a - int b) mod int M) = (if b \<le> a then a - b else M + a - b)"
proof (cases "b \<le> a")
  case True
  with assms have "(int a - int b) mod int M = int a - int b"
    by (intro mod_pos_pos_trivial) auto
  with True show ?thesis by simp
next
  case False
  have "(int a - int b) mod int M = (int a - int b + int M) mod int M" by simp
  also have "\<dots> = int a - int b + int M"
    using False assms by (intro mod_pos_pos_trivial) auto
  finally show ?thesis using False assms by simp
qed

lemma masked_diff [ring_arith]:
  fixes a b :: u32
  assumes "k < 32" and "unat a < 2 ^ k" and "unat b < 2 ^ k"
  shows "unat ((a - b) AND (2 ^ k - 1)) =
    (if unat b \<le> unat a then unat a - unat b else 2 ^ k + unat a - unat b)"
proof -
  have "a - b = word_of_int (int (unat a) - int (unat b))" by simp
  then have "unat ((a - b) AND (2 ^ k - 1)) = nat ((int (unat a) - int (unat b)) mod int (2 ^ k))"
    using assms(1) by (simp only: unat_masked_int of_nat_power of_nat_numeral)
  then show ?thesis
    using nat_diff_mod [OF assms(2,3)] by (simp only:)
qed

text \<open>The room of a ring buffer: one slot less than what is not in use.\<close>

lemma masked_diff_minus_1 [ring_arith]:
  fixes a b :: u32
  assumes "k < 32" and "unat a < 2 ^ k" and "unat b < 2 ^ k"
  shows "unat ((a - b - 1) AND (2 ^ k - 1)) =
    (if unat b < unat a then unat a - unat b - 1 else 2 ^ k + unat a - unat b - 1)"
proof -
  have "a - b - 1 = word_of_int (int (unat a) - int (unat b) - 1)" by simp
  then have eq: "unat ((a - b - 1) AND (2 ^ k - 1)) =
      nat ((int (unat a) - int (unat b) - 1) mod int (2 ^ k))"
    using assms(1) by (simp only: unat_masked_int of_nat_power of_nat_numeral)
  show ?thesis
  proof (cases "unat b + 1 < 2 ^ k")
    case True
    have "int (unat a) - int (unat b) - 1 = int (unat a) - int (unat b + 1)" by simp
    with eq nat_diff_mod [OF assms(2) True] show ?thesis by (auto simp only: split: if_splits)
  next
    case False
    with assms(3) have b: "unat b + 1 = 2 ^ k" by simp
    then have "int (unat a) - int (unat b) - 1 = int (unat a) - int (2 ^ k)"
      by (metis diff_diff_eq of_nat_1 of_nat_add)
    also have "\<dots> mod int (2 ^ k) = int (unat a)"
      using assms(2) by (simp only: minus_mod_self2 flip: zmod_int) simp
    finally show ?thesis using eq assms(2) b by simp
  qed
qed

text \<open>Advancing a head.\<close>

lemma masked_advance [ring_arith]:
  fixes h n :: u32
  assumes "k < 32"
  shows "unat ((h + n - 2 ^ k) AND (2 ^ k - 1)) = (unat h + unat n) mod 2 ^ k"
proof -
  have "h + n - 2 ^ k = word_of_int (int (unat h) + int (unat n) - 2 ^ k)"
    by simp
  then have "unat ((h + n - 2 ^ k) AND (2 ^ k - 1)) =
      nat ((int (unat h) + int (unat n) - 2 ^ k) mod 2 ^ k)"
    using assms by (simp only: unat_masked_int)
  also have "(int (unat h) + int (unat n) - 2 ^ k) mod 2 ^ k = int ((unat h + unat n) mod 2 ^ k)"
    by (simp add: zmod_int)
  finally show ?thesis by simp
qed

end
