(* ===== verification/RingBuffer.thy ===== *)
theory RingBuffer
  imports Prelude
begin

unbundle bit_operations_syntax

text \<open>
  The lock-free byte ring buffer of \<^verbatim>\<open>src/src/ringbuffer.c\<close> and
  \<^verbatim>\<open>src/src/ringbuffer.h\<close>, one operation after the other as a sequential data structure.
  The heads, the size and the mask are C \<open>unsigned int\<close> values, 32-bit words that wrap
  round; \<open>rb->buf\<close> is a memory block whose accesses are checked. Memory barriers order
  accesses of two threads and have no effect here: the interleaving of the two ends is in
  the theory \<open>RingBufferSPSC\<close>.
\<close>

section \<open>State\<close>

record ringbuffer =
  rb_buf :: "byte list"
  rb_write_head :: u32
  rb_read_head :: u32
  rb_size :: u32
  rb_mask :: u32

section \<open>Creation and disposal\<close>

text \<open>
  \<open>for(i = 1; i < n; i *= 2); return i;\<close> The loop variable wraps round, so for a request
  above \<open>2 ^ 31\<close> the loop does not end: \<open>None\<close>.
\<close>

partial_function (option) next_pow_loop :: "u32 \<Rightarrow> u32 \<Rightarrow> u32 option" where
  "next_pow_loop n i = (if i < n then next_pow_loop n (i * 2) else Some i)"

definition next_pow_of_two :: "u32 \<Rightarrow> u32 option" where
  "next_pow_of_two n = next_pow_loop n 1"

text \<open>
  The allocator is the C library's: \<open>hdr\<close> tells whether \<open>malloc\<close> of the structure
  succeeds, \<open>malloc n\<close> is the block of \<open>n\<close> bytes it returns, if any. The first component
  of the result is the sequence of allocations and releases.
\<close>

datatype block = Header | Buffer

datatype mem_event = Malloc block | Free block

definition rb_create ::
  "bool \<Rightarrow> (nat \<Rightarrow> byte list option) \<Rightarrow> u32 \<Rightarrow> (mem_event list \<times> ringbuffer option) option" where
  "rb_create hdr malloc n =
     (if \<not> hdr then Some ([], None)
      else do {
        sz \<leftarrow> next_pow_of_two n;
        (case malloc (unat sz) of
           None \<Rightarrow> Some ([Malloc Header, Free Header], None)
         | Some b \<Rightarrow>
             Some ([Malloc Header, Malloc Buffer],
                   Some \<lparr>rb_buf = b, rb_write_head = 0, rb_read_head = 0,
                         rb_size = sz, rb_mask = sz - 1\<rparr>))
      })"

text \<open>A structure that \<open>rb_create\<close> returned has a buffer, so both blocks are released.\<close>

fun rb_free :: "ringbuffer option \<Rightarrow> mem_event list" where
  "rb_free None = []"
| "rb_free (Some rb) = [Free Buffer, Free Header]"

section \<open>Operations\<close>

definition rb_reset :: "ringbuffer \<Rightarrow> ringbuffer" where
  "rb_reset rb = rb\<lparr>rb_write_head := 0, rb_read_head := 0\<rparr>"

definition rb_empty :: "ringbuffer \<Rightarrow> bool" where
  "rb_empty rb = (rb_read_head rb = rb_write_head rb)"

definition rb_write_space :: "ringbuffer \<Rightarrow> u32" where
  "rb_write_space rb = (rb_read_head rb - rb_write_head rb - 1) AND rb_mask rb"

definition rb_read_space :: "ringbuffer \<Rightarrow> u32" where
  "rb_read_space rb = (rb_write_head rb - rb_read_head rb) AND rb_mask rb"

definition rb_write :: "ringbuffer \<Rightarrow> byte list \<Rightarrow> u32 \<Rightarrow> (ringbuffer \<times> u32) option" where
  "rb_write rb src bytes =
     (let n = rb_write_space rb;
          bytes = (if bytes > n then n else bytes);
          write_end = (rb_write_head rb + bytes - rb_size rb) AND rb_mask rb
      in do {
        b \<leftarrow> (if rb_write_head rb > write_end
              then let n = rb_size rb - rb_write_head rb in do {
                     b \<leftarrow> memcpy (rb_buf rb) (unat (rb_write_head rb)) src 0 (unat n);
                     memcpy b 0 src (unat n) (unat write_end)
                   }
              else memcpy (rb_buf rb) (unat (rb_write_head rb)) src 0 (unat bytes));
        Some (rb\<lparr>rb_buf := b, rb_write_head := write_end\<rparr>, bytes)
      })"

definition rb_write_advance :: "ringbuffer \<Rightarrow> u32 \<Rightarrow> ringbuffer" where
  "rb_write_advance rb bytes =
     rb\<lparr>rb_write_head := (rb_write_head rb + bytes - rb_size rb) AND rb_mask rb\<rparr>"

definition rb_read ::
  "ringbuffer \<Rightarrow> byte list \<Rightarrow> u32 \<Rightarrow> (ringbuffer \<times> byte list \<times> u32) option" where
  "rb_read rb dest bytes =
     (let n = rb_read_space rb;
          bytes = (if bytes > n then n else bytes);
          read_end = (rb_read_head rb + bytes - rb_size rb) AND rb_mask rb
      in do {
        d \<leftarrow> (if rb_read_head rb > read_end
              then let n = rb_size rb - rb_read_head rb in do {
                     d \<leftarrow> memcpy dest 0 (rb_buf rb) (unat (rb_read_head rb)) (unat n);
                     memcpy d (unat n) (rb_buf rb) 0 (unat read_end)
                   }
              else memcpy dest 0 (rb_buf rb) (unat (rb_read_head rb)) (unat bytes));
        Some (rb\<lparr>rb_read_head := read_end\<rparr>, d, bytes)
      })"

definition rb_peek :: "ringbuffer \<Rightarrow> byte list \<Rightarrow> u32 \<Rightarrow> (byte list \<times> u32) option" where
  "rb_peek rb dest bytes =
     (let n = rb_read_space rb;
          bytes = (if bytes > n then n else bytes);
          read_end = (rb_read_head rb + bytes - rb_size rb) AND rb_mask rb
      in do {
        d \<leftarrow> (if rb_read_head rb > read_end
              then let n = rb_size rb - rb_read_head rb in do {
                     d \<leftarrow> memcpy dest 0 (rb_buf rb) (unat (rb_read_head rb)) (unat n);
                     memcpy d (unat n) (rb_buf rb) 0 (unat read_end)
                   }
              else memcpy dest 0 (rb_buf rb) (unat (rb_read_head rb)) (unat bytes));
        Some (d, bytes)
      })"

definition rb_read_advance :: "ringbuffer \<Rightarrow> u32 \<Rightarrow> ringbuffer" where
  "rb_read_advance rb bytes =
     rb\<lparr>rb_read_head := (rb_read_head rb + bytes - rb_size rb) AND rb_mask rb\<rparr>"

section \<open>Invariant and abstraction\<close>

text \<open>
  What \<open>rb_create\<close> establishes and every operation keeps: the size is a power of two, the
  mask is the size less one, the block has that size, and both heads are offsets into it.
\<close>

definition rb_ok :: "ringbuffer \<Rightarrow> bool" where
  "rb_ok rb \<longleftrightarrow>
     (\<exists>k<32. rb_size rb = 2 ^ k) \<and> rb_mask rb = rb_size rb - 1 \<and>
     length (rb_buf rb) = unat (rb_size rb) \<and>
     rb_write_head rb < rb_size rb \<and> rb_read_head rb < rb_size rb"

text \<open>The bytes written and not yet read, oldest first, and how many of them fit.\<close>

definition rb_contents :: "ringbuffer \<Rightarrow> byte list" where
  "rb_contents rb = ring_slice (rb_buf rb) (unat (rb_read_head rb)) (unat (rb_read_space rb))"

definition rb_capacity :: "ringbuffer \<Rightarrow> nat" where
  "rb_capacity rb = unat (rb_size rb) - 1"

section \<open>The operations on natural numbers\<close>

text \<open>
  Under the invariant the masked words are the expected numbers. \<open>rb_cases\<close> unpacks a ring
  buffer into a size \<open>S\<close>, a write offset \<open>w\<close> and a read offset \<open>r\<close>.
\<close>

lemma rb_cases:
  assumes "rb_ok rb"
  obtains k where "k < 32" and "rb_size rb = 2 ^ k" and "rb_mask rb = 2 ^ k - 1"
    and "length (rb_buf rb) = 2 ^ k" and "unat (rb_size rb) = 2 ^ k"
    and "unat (rb_write_head rb) < 2 ^ k" and "unat (rb_read_head rb) < 2 ^ k"
  using assms unfolding rb_ok_def word_less_nat_alt by (auto simp: unat_pow2)

lemma rb_okI:
  assumes "k < 32" and "rb_size rb = 2 ^ k" and "rb_mask rb = 2 ^ k - 1"
    and "length (rb_buf rb) = 2 ^ k"
    and "unat (rb_write_head rb) < 2 ^ k" and "unat (rb_read_head rb) < 2 ^ k"
  shows "rb_ok rb"
  using assms unfolding rb_ok_def word_less_nat_alt by (auto simp: unat_pow2)

lemma rb_read_space_nat:
  assumes "rb_ok rb"
  shows "unat (rb_read_space rb) =
    (if rb_read_head rb \<le> rb_write_head rb
     then unat (rb_write_head rb) - unat (rb_read_head rb)
     else unat (rb_size rb) + unat (rb_write_head rb) - unat (rb_read_head rb))"
  using assms
  by (elim rb_cases) (simp add: rb_read_space_def ring_arith word_le_nat_alt)

lemma rb_read_space_less: "rb_ok rb \<Longrightarrow> unat (rb_read_space rb) < unat (rb_size rb)"
  by (subst rb_read_space_nat, assumption, elim rb_cases) (auto simp: word_le_nat_alt)

lemma rb_write_space_nat:
  assumes "rb_ok rb"
  shows "unat (rb_write_space rb) = rb_capacity rb - unat (rb_read_space rb)"
  using assms
  by (elim rb_cases)
    (auto simp: rb_write_space_def rb_read_space_def rb_capacity_def ring_arith)

lemma rb_write_offset:
  assumes "rb_ok rb"
  shows "unat (rb_write_head rb) =
    (unat (rb_read_head rb) + unat (rb_read_space rb)) mod unat (rb_size rb)"
  using assms by (elim rb_cases) (auto simp: rb_read_space_def ring_arith)

lemma rb_head_advance:
  assumes "rb_ok rb"
  shows "unat ((h + n - rb_size rb) AND rb_mask rb) = (unat h + unat n) mod unat (rb_size rb)"
  using assms by (elim rb_cases) (simp add: ring_arith)

lemma length_rb_contents [simp]: "length (rb_contents rb) = unat (rb_read_space rb)"
  by (simp add: rb_contents_def)

lemma rb_empty_iff: "rb_ok rb \<Longrightarrow> rb_empty rb \<longleftrightarrow> rb_contents rb = []"
proof -
  assume ok: "rb_ok rb"
  have "rb_contents rb = [] \<longleftrightarrow> unat (rb_read_space rb) = 0"
    by (metis length_0_conv length_rb_contents)
  also have "\<dots> \<longleftrightarrow> unat (rb_read_head rb) = unat (rb_write_head rb)"
    using ok by (elim rb_cases) (auto simp: rb_read_space_def ring_arith)
  finally show ?thesis by (auto simp: rb_empty_def word_unat_eq_iff)
qed

section \<open>The two-part copies\<close>

lemma copy_out:
  assumes "r < length b" and "n < length b" and "n \<le> length dest"
  shows "(if (r + n) mod length b < r
          then do { d \<leftarrow> memcpy dest 0 b r (length b - r);
                    memcpy d (length b - r) b 0 ((r + n) mod length b) }
          else memcpy dest 0 b r n) = Some (ring_slice b r n @ drop n dest)"
proof (cases "r + n < length b")
  case True
  then show ?thesis using assms by (simp add: memcpy_in ring_slice_straight)
next
  case False
  with assms have e: "(r + n) mod length b = r + n - length b"
    by (metis add_less_mono le_mod_geq mod_less nat_less_le not_less less_diff_conv2)
  with False assms show ?thesis
    by (auto simp: memcpy_in ring_slice_wrapped)
qed

lemma copy_in:
  assumes w: "w < length b" and n: "n < length b" and src: "n \<le> length src"
  obtains b' where
    "(if (w + n) mod length b < w
      then do { c \<leftarrow> memcpy b w src 0 (length b - w);
                memcpy c 0 src (length b - w) ((w + n) mod length b) }
      else memcpy b w src 0 n) = Some b'"
    and "length b' = length b"
    and "\<And>i. i < n \<Longrightarrow> b' ! ((w + i) mod length b) = src ! i"
    and "\<And>i. n \<le> i \<Longrightarrow> i < length b \<Longrightarrow>
           b' ! ((w + i) mod length b) = b ! ((w + i) mod length b)"
proof (cases "w + n < length b")
  case True
  let ?b' = "take w b @ take n src @ drop (w + n) b"
  have eq: "memcpy b w src 0 n = Some ?b'"
    using True src by (simp add: memcpy_in)
  show thesis
  proof (rule that [of ?b'])
    show "length ?b' = length b" using eq by (rule memcpy_length)
    show "?b' ! ((w + i) mod length b) = src ! i" if "i < n" for i
      using memcpy_nth [OF eq, of "w + i"] True that by simp
    show "?b' ! ((w + i) mod length b) = b ! ((w + i) mod length b)"
      if "n \<le> i" "i < length b" for i
    proof -
      have "(w + i) mod length b < w \<or> w + n \<le> (w + i) mod length b"
        using True w that by (cases "w + i < length b") (auto simp: le_mod_geq)
      moreover have "(w + i) mod length b < length b"
        using w by (intro mod_less_divisor) auto
      ultimately show ?thesis using memcpy_nth [OF eq, of "(w + i) mod length b"] by auto
    qed
  qed (use True eq in simp)
next
  case False
  define e where "e = w + n - length b"
  have e: "(w + n) mod length b = e" "e < w"
    using False w n by (auto simp: e_def le_mod_geq)
  obtain b1 where b1: "memcpy b w src 0 (length b - w) = Some b1"
    using memcpy_in [of 0 "length b - w" src w b] False src w n by force
  note len1 = memcpy_length [OF b1]
  obtain b2 where b2: "memcpy b1 0 src (length b - w) e = Some b2"
    using memcpy_in [of "length b - w" e src 0 b1] False src w n len1 e
    by (force simp: e_def)
  note len2 = memcpy_length [OF b2]
  have nth: "b2 ! j = (if j < e then src ! (length b - w + j)
      else if w \<le> j then src ! (j - w) else b ! j)" if "j < length b" for j
    using that memcpy_nth [OF b1, of j] memcpy_nth [OF b2, of j] len1 w e by auto
  show thesis
  proof (rule that [of b2])
    show "length b2 = length b" using len1 len2 by simp
    show "b2 ! ((w + i) mod length b) = src ! i" if "i < n" for i
    proof (cases "w + i < length b")
      case True
      then show ?thesis using nth [of "w + i"] e by simp
    next
      case F: False
      then have "(w + i) mod length b = w + i - length b" "w + i - length b < e"
        using that w n False by (auto simp: le_mod_geq e_def)
      then show ?thesis using nth [of "w + i - length b"] w F n that e by simp
    qed
    show "b2 ! ((w + i) mod length b) = b ! ((w + i) mod length b)"
      if "n \<le> i" "i < length b" for i
    proof -
      have "(w + i) mod length b = w + i - length b" "e \<le> w + i - length b"
        "w + i - length b < w"
        using that w False by (auto simp: le_mod_geq e_def)
      then show ?thesis using nth [of "w + i - length b"] w that by simp
    qed
  qed (use b1 b2 e in simp)
qed

section \<open>What the operations do\<close>

lemma unat_if_greater: "unat (if x > n then n else x) = min (unat x) (unat (n :: u32))"
  by (auto simp: word_less_nat_alt min_def)

text \<open>
  The two parts of the copy of \<open>rb_write\<close> fill the slots from the write head on and leave the
  other slots alone; the write head moves past them.
\<close>

lemma rb_write_slots:
  assumes ok: "rb_ok rb" and src: "min (unat bytes) (unat (rb_write_space rb)) \<le> length src"
  obtains b' we n where "rb_write rb src bytes = Some (rb\<lparr>rb_buf := b', rb_write_head := we\<rparr>, n)"
    and "n = (if bytes > rb_write_space rb then rb_write_space rb else bytes)"
    and "we = (rb_write_head rb + n - rb_size rb) AND rb_mask rb"
    and "length b' = length (rb_buf rb)"
    and "\<And>i. i < unat n \<Longrightarrow> b' ! ((unat (rb_write_head rb) + i) mod unat (rb_size rb)) = src ! i"
    and "\<And>i. unat n \<le> i \<Longrightarrow> i < unat (rb_size rb) \<Longrightarrow>
      b' ! ((unat (rb_write_head rb) + i) mod unat (rb_size rb)) =
      rb_buf rb ! ((unat (rb_write_head rb) + i) mod unat (rb_size rb))"
proof -
  define S where "S = unat (rb_size rb)"
  define w where "w = unat (rb_write_head rb)"
  define nw where "nw = (if bytes > rb_write_space rb then rb_write_space rb else bytes)"
  define n where "n = unat nw"
  define we where "we = (rb_write_head rb + nw - rb_size rb) AND rb_mask rb"
  have S: "length (rb_buf rb) = S" "w < S"
    using ok by (auto simp: rb_ok_def S_def w_def word_less_nat_alt)
  have n: "n = min (unat bytes) (unat (rb_write_space rb))"
    unfolding n_def nw_def by (rule unat_if_greater)
  have room: "n < S"
    using rb_read_space_less [OF ok] rb_write_space_nat [OF ok]
    unfolding n S_def rb_capacity_def by auto
  have we: "unat we = (w + n) mod S"
    unfolding we_def rb_head_advance [OF ok] by (simp add: w_def n_def S_def)
  have src': "n \<le> length src" using src n by simp
  obtain b' where b': "(if (w + n) mod S < w
      then do { b \<leftarrow> memcpy (rb_buf rb) w src 0 (S - w); memcpy b 0 src (S - w) ((w + n) mod S) }
      else memcpy (rb_buf rb) w src 0 n) = Some b'"
    and b'_slots: "length b' = S" "\<And>i. i < n \<Longrightarrow> b' ! ((w + i) mod S) = src ! i"
      "\<And>i. n \<le> i \<Longrightarrow> i < S \<Longrightarrow> b' ! ((w + i) mod S) = rb_buf rb ! ((w + i) mod S)"
    using copy_in [of w "rb_buf rb" n src] S room src' by auto
  have diff: "unat (rb_size rb - rb_write_head rb) = S - w"
    using S by (simp add: unat_sub_if' w_def S_def)
  have "rb_write rb src bytes = Some (rb\<lparr>rb_buf := b', rb_write_head := we\<rparr>, nw)"
    using b' unfolding rb_write_def Let_def nw_def [symmetric] we_def [symmetric]
    by (auto simp: word_less_nat_alt we diff bind_eq_Some_conv split: if_splits
        simp flip: w_def n_def)
  from that [OF this nw_def we_def] show thesis
    using b'_slots S by (simp flip: w_def n_def S_def)
qed

text \<open>
  \<open>rb_write\<close> appends as many of the requested bytes as fit and returns their number; it
  never leaves the block.
\<close>

lemma rb_write_spec:
  assumes ok: "rb_ok rb" and src: "min (unat bytes) (unat (rb_write_space rb)) \<le> length src"
  obtains rb' n where "rb_write rb src bytes = Some (rb', n)"
    and "unat n = min (unat bytes) (unat (rb_write_space rb))"
    and "rb_ok rb'" and "rb_contents rb' = rb_contents rb @ take (unat n) src"
    and "rb_size rb' = rb_size rb" and "rb_read_head rb' = rb_read_head rb"
proof -
  from ok obtain k where k: "k < 32" "rb_size rb = 2 ^ k" "rb_mask rb = 2 ^ k - 1"
    "length (rb_buf rb) = 2 ^ k" "unat (rb_size rb) = 2 ^ k"
    "unat (rb_write_head rb) < 2 ^ k" "unat (rb_read_head rb) < 2 ^ k"
    by (rule rb_cases)
  obtain b' we nw
    where res: "rb_write rb src bytes = Some (rb\<lparr>rb_buf := b', rb_write_head := we\<rparr>, nw)"
    and nw: "nw = (if bytes > rb_write_space rb then rb_write_space rb else bytes)"
    and we: "we = (rb_write_head rb + nw - rb_size rb) AND rb_mask rb"
    and len: "length b' = length (rb_buf rb)"
    and new: "\<And>i. i < unat nw \<Longrightarrow>
      b' ! ((unat (rb_write_head rb) + i) mod unat (rb_size rb)) = src ! i"
    and old: "\<And>i. unat nw \<le> i \<Longrightarrow> i < unat (rb_size rb) \<Longrightarrow>
      b' ! ((unat (rb_write_head rb) + i) mod unat (rb_size rb)) =
      rb_buf rb ! ((unat (rb_write_head rb) + i) mod unat (rb_size rb))"
    by (rule rb_write_slots [OF ok src]) (rule that; assumption)
  define S where "S = unat (rb_size rb)"
  define w where "w = unat (rb_write_head rb)"
  define r where "r = unat (rb_read_head rb)"
  define m where "m = unat (rb_read_space rb)"
  define n where "n = unat nw"
  note ABB = S_def [symmetric] w_def [symmetric] r_def [symmetric] m_def [symmetric] n_def [symmetric]
  have S: "length (rb_buf rb) = S" "length b' = S" "S = 2 ^ k" using k len by (auto simp: S_def)
  have n: "n = min (unat bytes) (unat (rb_write_space rb))"
    unfolding n_def nw by (rule unat_if_greater)
  have room: "m + n < S"
    using rb_read_space_less [OF ok] rb_write_space_nat [OF ok]
    unfolding n m_def S_def rb_capacity_def by auto
  have w: "w = (r + m) mod S" using rb_write_offset [OF ok] by (simp add: ABB)
  let ?rb' = "rb\<lparr>rb_buf := b', rb_write_head := we\<rparr>"
  have we': "unat we = (w + n) mod S"
    unfolding we rb_head_advance [OF ok] by (simp add: ABB)
  have ok': "rb_ok ?rb'"
    by (rule rb_okI [OF k(1)]) (use k we' S in auto)
  have m': "unat (rb_read_space ?rb') = m + n"
  proof -
    let ?m' = "unat (rb_read_space ?rb')"
    have "unat we = (r + ?m') mod S"
      using rb_write_offset [OF ok'] by (simp add: ABB)
    moreover have "unat we = (r + (m + n)) mod S"
      by (simp add: we' w mod_add_left_eq add.assoc)
    ultimately have eq: "(r + ?m') mod S = (r + (m + n)) mod S" by simp
    have "?m' < S" using rb_read_space_less [OF ok'] by (simp add: ABB)
    from ring_pos_inject [OF this room eq] show ?thesis .
  qed
  have "rb_contents ?rb' = rb_contents rb @ take n src"
  proof -
    have "ring_slice b' r (m + n) = ring_slice b' r m @ ring_slice b' w n"
      using ring_slice_append [of b' r m n] S w by simp
    also have "ring_slice b' w n = take n src"
      by (rule nth_equalityI) (use src n new S in \<open>auto simp: ABB\<close>)
    also have "ring_slice b' r m = ring_slice (rb_buf rb) r m"
    proof (rule ring_slice_cong)
      fix i assume i: "i < m"
      have "(w + (S - m + i)) mod S = (r + (m + (S - m + i))) mod S"
        by (simp add: w mod_add_left_eq add.assoc)
      also have "\<dots> = (r + i) mod S"
        using room by (simp add: add.left_commute)
      finally show "b' ! ((r + i) mod length (rb_buf rb)) = rb_buf rb ! ((r + i) mod length (rb_buf rb))"
        using old [of "S - m + i"] i room S by (simp add: ABB)
    qed (simp add: S)
    finally show ?thesis
      unfolding rb_contents_def m' by (simp add: ABB)
  qed
  with ok' n show thesis
    by (intro that [OF res]) (simp_all add: ABB)
qed

text \<open>
  \<open>rb_peek\<close> copies the oldest bytes to the front of the destination; \<open>rb_read\<close> also drops
  them from the buffer.
\<close>

lemma rb_peek_spec:
  assumes ok: "rb_ok rb" and dest: "min (unat bytes) (unat (rb_read_space rb)) \<le> length dest"
  obtains n where "unat n = min (unat bytes) (unat (rb_read_space rb))"
    and "rb_peek rb dest bytes = Some (take (unat n) (rb_contents rb) @ drop (unat n) dest, n)"
proof -
  from ok obtain k where k: "k < 32" "rb_size rb = 2 ^ k" "rb_mask rb = 2 ^ k - 1"
    "length (rb_buf rb) = 2 ^ k" "unat (rb_size rb) = 2 ^ k"
    "unat (rb_write_head rb) < 2 ^ k" "unat (rb_read_head rb) < 2 ^ k"
    by (rule rb_cases)
  define r where "r = unat (rb_read_head rb)"
  define m where "m = unat (rb_read_space rb)"
  define nw where "nw = (if bytes > rb_read_space rb then rb_read_space rb else bytes)"
  define n where "n = unat nw"
  define re where "re = (rb_read_head rb + nw - rb_size rb) AND rb_mask rb"
  have S: "unat (rb_size rb) = length (rb_buf rb)" "r < length (rb_buf rb)"
    "m < length (rb_buf rb)"
    using k rb_read_space_less [OF ok] by (auto simp: r_def m_def)
  have n: "n = min (unat bytes) m"
    unfolding n_def nw_def m_def by (rule unat_if_greater)
  have re: "unat re = (r + n) mod length (rb_buf rb)"
    unfolding re_def rb_head_advance [OF ok] by (simp add: r_def n_def S)
  have diff: "unat (rb_size rb - rb_read_head rb) = length (rb_buf rb) - r"
    using S by (simp add: unat_sub_if' r_def)
  have "n < length (rb_buf rb)" "n \<le> length dest"
    using n S dest by (auto simp: m_def)
  note copy = copy_out [OF S(2) this]
  have peek: "rb_peek rb dest bytes = Some (ring_slice (rb_buf rb) r n @ drop n dest, nw)"
    using copy unfolding rb_peek_def Let_def nw_def [symmetric] re_def [symmetric]
    by (auto simp: word_less_nat_alt re diff bind_eq_Some_conv split: if_splits
        simp flip: r_def n_def)
  have "ring_slice (rb_buf rb) r n = take n (rb_contents rb)"
    using n by (simp add: rb_contents_def take_ring_slice min_absorb1 flip: r_def m_def)
  with peek n show thesis by (intro that [of nw]) (simp_all add: n_def m_def)
qed

lemma rb_read_eq_peek:
  "rb_read rb dest bytes =
     map_option (\<lambda>(d, n). (rb_read_advance rb n, d, n)) (rb_peek rb dest bytes)"
  by (simp add: rb_read_def rb_peek_def rb_read_advance_def Let_def map_option_bind comp_def)

text \<open>Dropping and claiming bytes without a copy.\<close>

lemma rb_read_advance_spec:
  assumes ok: "rb_ok rb" and n: "unat n \<le> unat (rb_read_space rb)"
  shows "rb_ok (rb_read_advance rb n)"
    and "rb_contents (rb_read_advance rb n) = drop (unat n) (rb_contents rb)"
    and "unat (rb_read_space (rb_read_advance rb n)) = unat (rb_read_space rb) - unat n"
proof -
  from ok obtain k where k: "k < 32" "rb_size rb = 2 ^ k" "rb_mask rb = 2 ^ k - 1"
    "length (rb_buf rb) = 2 ^ k" "unat (rb_size rb) = 2 ^ k"
    "unat (rb_write_head rb) < 2 ^ k" "unat (rb_read_head rb) < 2 ^ k"
    by (rule rb_cases)
  let ?S = "unat (rb_size rb)" and ?rb' = "rb_read_advance rb n"
  let ?r = "unat (rb_read_head rb)" and ?m = "unat (rb_read_space rb)"
  have S: "length (rb_buf rb) = ?S" "0 < ?S" using k by auto
  have r': "unat (rb_read_head ?rb') = (?r + unat n) mod ?S"
    by (simp add: rb_read_advance_def rb_head_advance [OF ok])
  show ok': "rb_ok ?rb'"
    by (rule rb_okI [OF k(1)]) (use k r' in \<open>auto simp: rb_read_advance_def\<close>)
  have "(?r + (unat n + unat (rb_read_space ?rb'))) mod ?S = (?r + ?m) mod ?S"
    using rb_write_offset [OF ok] rb_write_offset [OF ok'] r'
    by (simp add: rb_read_advance_def mod_add_left_eq add.assoc)
  then have dvd: "(?r + unat n + unat (rb_read_space ?rb')) mod ?S = (?r + unat n + (?m - unat n)) mod ?S"
    using n by (simp add: add.assoc)
  show m': "unat (rb_read_space ?rb') = ?m - unat n"
    using ring_pos_inject [OF _ _ dvd] rb_read_space_less [OF ok] rb_read_space_less [OF ok']
    by (simp add: rb_read_advance_def)
  show "rb_contents ?rb' = drop (unat n) (rb_contents rb)"
    unfolding rb_contents_def m' using n r' S by (simp add: drop_ring_slice rb_read_advance_def)
qed

lemma rb_read_spec:
  assumes ok: "rb_ok rb" and dest: "min (unat bytes) (unat (rb_read_space rb)) \<le> length dest"
  obtains rb' n where "unat n = min (unat bytes) (unat (rb_read_space rb))"
    and "rb_read rb dest bytes = Some (rb', take (unat n) (rb_contents rb) @ drop (unat n) dest, n)"
    and "rb_ok rb'" and "rb_contents rb' = drop (unat n) (rb_contents rb)"
    and "rb_size rb' = rb_size rb"
proof -
  obtain n where n: "unat n = min (unat bytes) (unat (rb_read_space rb))"
    and peek: "rb_peek rb dest bytes = Some (take (unat n) (rb_contents rb) @ drop (unat n) dest, n)"
    using rb_peek_spec [OF assms] by blast
  from n have le: "unat n \<le> unat (rb_read_space rb)" by simp
  show thesis
    by (rule that [OF n _ rb_read_advance_spec(1,2) [OF ok le]])
      (simp_all add: rb_read_eq_peek peek rb_read_advance_def)
qed

lemma rb_write_advance_spec:
  assumes ok: "rb_ok rb" and n: "unat n \<le> unat (rb_write_space rb)"
  shows "rb_ok (rb_write_advance rb n)"
    and "take (unat (rb_read_space rb)) (rb_contents (rb_write_advance rb n)) = rb_contents rb"
    and "unat (rb_read_space (rb_write_advance rb n)) = unat (rb_read_space rb) + unat n"
proof -
  from ok obtain k where k: "k < 32" "rb_size rb = 2 ^ k" "rb_mask rb = 2 ^ k - 1"
    "length (rb_buf rb) = 2 ^ k" "unat (rb_size rb) = 2 ^ k"
    "unat (rb_write_head rb) < 2 ^ k" "unat (rb_read_head rb) < 2 ^ k"
    by (rule rb_cases)
  let ?S = "unat (rb_size rb)" and ?rb' = "rb_write_advance rb n"
  let ?r = "unat (rb_read_head rb)" and ?m = "unat (rb_read_space rb)"
  have w': "unat (rb_write_head ?rb') = (unat (rb_write_head rb) + unat n) mod ?S"
    by (simp add: rb_write_advance_def rb_head_advance [OF ok])
  show ok': "rb_ok ?rb'"
    by (rule rb_okI [OF k(1)]) (use k w' in \<open>auto simp: rb_write_advance_def\<close>)
  have room: "?m + unat n < ?S"
    using rb_read_space_less [OF ok] rb_write_space_nat [OF ok] n by (simp add: rb_capacity_def)
  have "(?r + unat (rb_read_space ?rb')) mod ?S = (?r + (?m + unat n)) mod ?S"
    using rb_write_offset [OF ok] rb_write_offset [OF ok'] w'
    by (simp add: rb_write_advance_def mod_add_left_eq add.assoc)
  then show m': "unat (rb_read_space ?rb') = ?m + unat n"
    using ring_pos_inject [OF _ room] rb_read_space_less [OF ok']
    by (simp add: rb_write_advance_def)
  show "take ?m (rb_contents ?rb') = rb_contents rb"
    unfolding rb_contents_def m' by (simp add: take_ring_slice rb_write_advance_def)
qed

lemma rb_reset_spec:
  assumes "rb_ok rb"
  shows "rb_ok (rb_reset rb)" and "rb_contents (rb_reset rb) = []"
    and "rb_capacity (rb_reset rb) = rb_capacity rb"
proof -
  show ok: "rb_ok (rb_reset rb)"
    using assms by (elim rb_cases) (rule rb_okI, auto simp: rb_reset_def)
  show "rb_contents (rb_reset rb) = []"
    using rb_empty_iff [OF ok] by (simp add: rb_empty_def rb_reset_def)
qed (simp add: rb_capacity_def rb_reset_def)

text \<open>Nothing changes the capacity.\<close>

lemma rb_write_capacity: "rb_write r src k = Some (r', j) \<Longrightarrow> rb_capacity r' = rb_capacity r"
  by (auto simp: rb_write_def rb_capacity_def Let_def split: bind_splits if_splits)

lemma rb_read_capacity: "rb_read r dest k = Some (r', d, j) \<Longrightarrow> rb_capacity r' = rb_capacity r"
  by (auto simp: rb_read_def rb_capacity_def Let_def split: bind_splits if_splits)

section \<open>The interface the clients rely on\<close>

text \<open>
  The input cache, the cycle counter and the MIDI queues of the JACK and PortAudio drivers use
  the ring buffer as a bounded queue of bytes. \<open>byte_fifo\<close> is that contract.
\<close>

locale byte_fifo =
  fixes ok :: "'r \<Rightarrow> bool"
    and contents :: "'r \<Rightarrow> byte list"
    and capacity :: "'r \<Rightarrow> nat"
    and put :: "'r \<Rightarrow> byte list \<Rightarrow> u32 \<Rightarrow> ('r \<times> u32) option"
    and get :: "'r \<Rightarrow> byte list \<Rightarrow> u32 \<Rightarrow> ('r \<times> byte list \<times> u32) option"
    and peek :: "'r \<Rightarrow> byte list \<Rightarrow> u32 \<Rightarrow> (byte list \<times> u32) option"
    and room :: "'r \<Rightarrow> u32"
    and used :: "'r \<Rightarrow> u32"
  assumes used_contents: "ok r \<Longrightarrow> unat (used r) = length (contents r)"
    and room_contents: "ok r \<Longrightarrow> unat (room r) + length (contents r) = capacity r"
    and put_law: "ok r \<Longrightarrow> min (unat n) (unat (room r)) \<le> length src \<Longrightarrow>
      \<exists>r' k. put r src n = Some (r', k) \<and> unat k = min (unat n) (unat (room r)) \<and>
        ok r' \<and> contents r' = contents r @ take (unat k) src \<and> capacity r' = capacity r"
    and get_law: "ok r \<Longrightarrow> min (unat n) (unat (used r)) \<le> length dest \<Longrightarrow>
      \<exists>r' k. get r dest n = Some (r', take (unat k) (contents r) @ drop (unat k) dest, k) \<and>
        unat k = min (unat n) (unat (used r)) \<and>
        ok r' \<and> contents r' = drop (unat k) (contents r) \<and> capacity r' = capacity r"
    and peek_law: "ok r \<Longrightarrow> min (unat n) (unat (used r)) \<le> length dest \<Longrightarrow>
      \<exists>k. peek r dest n = Some (take (unat k) (contents r) @ drop (unat k) dest, k) \<and>
        unat k = min (unat n) (unat (used r))"
begin

lemma put_fits:
  assumes "ok r" and "n \<le> room r" and "unat n \<le> length src"
  obtains r' where "put r src n = Some (r', n)" and "ok r'"
    and "contents r' = contents r @ take (unat n) src" and "capacity r' = capacity r"
proof -
  have "unat n \<le> unat (room r)" using assms(2) by (simp add: word_le_nat_alt)
  then show thesis
    using put_law [OF assms(1), of n src] assms(3) that
    by (metis min_absorb1 word_unat_eq_iff)
qed

lemma get_exact:
  assumes "ok r" and "n \<le> used r" and "unat n \<le> length dest"
  obtains r' where
    "get r dest n = Some (r', take (unat n) (contents r) @ drop (unat n) dest, n)"
    and "ok r'" and "contents r' = drop (unat n) (contents r)" and "capacity r' = capacity r"
proof -
  have "unat n \<le> unat (used r)" using assms(2) by (simp add: word_le_nat_alt)
  then show thesis
    using get_law [OF assms(1), of n dest] assms(3) that
    by (metis min_absorb1 word_unat_eq_iff)
qed

lemma peek_exact:
  assumes "ok r" and "n \<le> used r" and "unat n \<le> length dest"
  shows "peek r dest n = Some (take (unat n) (contents r) @ drop (unat n) dest, n)"
proof -
  have "unat n \<le> unat (used r)" using assms(2) by (simp add: word_le_nat_alt)
  then show ?thesis
    using peek_law [OF assms(1), of n dest] assms(3)
    by (metis min_absorb1 word_unat_eq_iff)
qed

lemma contents_within: "ok r \<Longrightarrow> length (contents r) \<le> capacity r"
  using room_contents by fastforce

end

interpretation rb: byte_fifo rb_ok rb_contents rb_capacity rb_write rb_read rb_peek
  rb_write_space rb_read_space
proof
  fix r :: ringbuffer and n src dest
  assume ok: "rb_ok r"
  show "unat (rb_read_space r) = length (rb_contents r)" by simp
  show "unat (rb_write_space r) + length (rb_contents r) = rb_capacity r"
    using rb_write_space_nat [OF ok] rb_read_space_less [OF ok] by (simp add: rb_capacity_def)
  show "\<exists>r' k. rb_write r src n = Some (r', k) \<and> unat k = min (unat n) (unat (rb_write_space r)) \<and>
      rb_ok r' \<and> rb_contents r' = rb_contents r @ take (unat k) src \<and> rb_capacity r' = rb_capacity r"
    if "min (unat n) (unat (rb_write_space r)) \<le> length src"
    by (rule rb_write_spec [OF ok that]) (auto simp: rb_capacity_def)
  show "\<exists>r' k. rb_read r dest n = Some (r', take (unat k) (rb_contents r) @ drop (unat k) dest, k) \<and>
      unat k = min (unat n) (unat (rb_read_space r)) \<and>
      rb_ok r' \<and> rb_contents r' = drop (unat k) (rb_contents r) \<and> rb_capacity r' = rb_capacity r"
    if "min (unat n) (unat (rb_read_space r)) \<le> length dest"
    by (rule rb_read_spec [OF ok that]) (auto simp: rb_capacity_def)
  show "\<exists>k. rb_peek r dest n = Some (take (unat k) (rb_contents r) @ drop (unat k) dest, k) \<and>
      unat k = min (unat n) (unat (rb_read_space r))"
    if "min (unat n) (unat (rb_read_space r)) \<le> length dest"
    by (rule rb_peek_spec [OF ok that]) auto
qed

section \<open>Whole histories\<close>

text \<open>
  A client's calls as a list: writes of the first \<open>n\<close> bytes of a source block and reads of up
  to \<open>n\<close> bytes into a destination block. \<open>fifo_run\<close> performs them and collects the bytes the
  buffer accepted and the bytes it delivered.
\<close>

datatype fifo_call = Put "byte list" u32 | Get "byte list" u32

fun call_fits :: "fifo_call \<Rightarrow> bool" where
  "call_fits (Put src n) = (unat n \<le> length src)"
| "call_fits (Get dest n) = (unat n \<le> length dest)"

fun fifo_run ::
  "('r \<Rightarrow> byte list \<Rightarrow> u32 \<Rightarrow> ('r \<times> u32) option) \<Rightarrow>
   ('r \<Rightarrow> byte list \<Rightarrow> u32 \<Rightarrow> ('r \<times> byte list \<times> u32) option) \<Rightarrow>
   'r \<Rightarrow> fifo_call list \<Rightarrow> ('r \<times> byte list \<times> byte list) option" where
  "fifo_run put get r [] = Some (r, [], [])"
| "fifo_run put get r (Put src n # cs) = do {
     (r, k) \<leftarrow> put r src n;
     (r, accepted, delivered) \<leftarrow> fifo_run put get r cs;
     Some (r, take (unat k) src @ accepted, delivered)
   }"
| "fifo_run put get r (Get dest n # cs) = do {
     (r, d, k) \<leftarrow> get r dest n;
     (r, accepted, delivered) \<leftarrow> fifo_run put get r cs;
     Some (r, accepted, take (unat k) d @ delivered)
   }"

context byte_fifo
begin

lemma run_fifo:
  assumes "ok r" and "list_all call_fits cs"
  shows "\<exists>r' accepted delivered. fifo_run put get r cs = Some (r', accepted, delivered) \<and>
    ok r' \<and> capacity r' = capacity r \<and> contents r @ accepted = delivered @ contents r'"
  using assms
proof (induction cs arbitrary: r)
  case Nil
  then show ?case by simp
next
  case (Cons c cs)
  show ?case
  proof (cases c)
    case (Put src n)
    then have "min (unat n) (unat (room r)) \<le> length src"
      using Cons.prems(2) by (simp add: min.coboundedI1)
    from put_law [OF Cons.prems(1) this] obtain r1 k where "put r src n = Some (r1, k)" "ok r1"
      "contents r1 = contents r @ take (unat k) src" "capacity r1 = capacity r" by blast
    with Cons.IH [of r1] Cons.prems Put show ?thesis by auto
  next
    case (Get dest n)
    then have "min (unat n) (unat (used r)) \<le> length dest"
      using Cons.prems(2) by (simp add: min.coboundedI1)
    from get_law [OF Cons.prems(1) this] obtain r1 k
      where r1: "get r dest n = Some (r1, take (unat k) (contents r) @ drop (unat k) dest, k)"
        "ok r1" "contents r1 = drop (unat k) (contents r)" "capacity r1 = capacity r"
        and k: "unat k = min (unat n) (unat (used r))"
      by blast
    have take: "take (unat k) (take (unat k) (contents r) @ drop (unat k) dest) = take (unat k) (contents r)"
      using k used_contents [OF Cons.prems(1)] by simp
    from Cons.IH [of r1] Cons.prems Get r1 obtain r' acc del
      where run: "fifo_run put get r1 cs = Some (r', acc, del)" "ok r'" "capacity r' = capacity r"
        and hist: "drop (unat k) (contents r) @ acc = del @ contents r'"
      by auto
    have "contents r @ acc = (take (unat k) (contents r) @ del) @ contents r'"
      unfolding append_assoc hist [symmetric] by (simp flip: append_assoc)
    then show ?thesis using Get r1(1) run take by auto
  qed
qed

end

section \<open>Creation\<close>

lemma next_pow_loop_pow2:
  assumes "n \<le> 2 ^ 31" and "j \<le> 31"
  shows "\<exists>m. j \<le> m \<and> m \<le> 31 \<and> next_pow_loop n (2 ^ j) = Some (2 ^ m) \<and> n \<le> 2 ^ m \<and>
    (j < m \<longrightarrow> 2 ^ (m - 1) < n)"
  using assms(2)
proof (induction "31 - j" arbitrary: j)
  case 0
  then have "j = 31" by simp
  with assms(1) show ?case
    by (intro exI [of _ 31]) (simp add: next_pow_loop.simps [of n 2147483648] leD)
next
  case (Suc d)
  show ?case
  proof (cases "2 ^ j < n")
    case True
    from Suc.hyps have "d = 31 - Suc j" "Suc j \<le> 31" by auto
    from Suc.hyps(1) [OF this] obtain m where
      "Suc j \<le> m" "m \<le> 31" "next_pow_loop n (2 ^ Suc j) = Some (2 ^ m)" "n \<le> 2 ^ m"
      "Suc j < m \<longrightarrow> 2 ^ (m - 1) < n" by blast
    moreover from this True have "2 ^ (m - 1) < n"
      by (cases "m = Suc j") auto
    ultimately show ?thesis
      using True by (intro exI [of _ m]) (auto simp: next_pow_loop.simps [of n "2 ^ j"] mult.commute)
  next
    case False
    then show ?thesis
      using Suc.prems by (intro exI [of _ j]) (simp add: next_pow_loop.simps [of n "2 ^ j"])
  qed
qed

lemma next_pow_loop_diverges:
  assumes ret: "next_pow_loop n i = Some r"
  shows "i = 0 \<or> (\<exists>j\<le>31. i = 2 ^ j) \<longrightarrow> n \<le> 2 ^ 31"
proof (rule next_pow_loop.raw_induct
    [where P = "\<lambda>n i r. i = 0 \<or> (\<exists>j\<le>31. i = 2 ^ j) \<longrightarrow> n \<le> 2 ^ 31", OF _ ret])
  fix f :: "u32 \<Rightarrow> u32 \<Rightarrow> u32 option" and n i r :: u32
  assume IH: "\<And>n i r. f n i = Some r \<Longrightarrow> i = 0 \<or> (\<exists>j\<le>31. i = 2 ^ j) \<longrightarrow> n \<le> 2 ^ 31"
    and eq: "(if i < n then f n (i * 2) else Some i) = Some r"
  show "i = 0 \<or> (\<exists>j\<le>31. i = 2 ^ j) \<longrightarrow> n \<le> 2 ^ 31"
  proof
    assume i: "i = 0 \<or> (\<exists>j\<le>31. i = 2 ^ j)"
    show "n \<le> 2 ^ 31"
    proof (cases "i < n")
      case True
      with eq have ret': "f n (i * 2) = Some r" by simp
      have "i * 2 = 0 \<or> (\<exists>j\<le>31. i * 2 = 2 ^ j)"
      proof (cases "\<exists>j<31. i = 2 ^ j")
        case True
        then obtain j where "j < 31" "i * 2 = 2 ^ Suc j" by auto
        then show ?thesis by (intro disjI2 exI [of _ "Suc j"]) simp
      next
        case False
        with i have "i = 0 \<or> i = 2 ^ 31" by (metis le_neq_implies_less)
        then show ?thesis by auto
      qed
      with IH [OF ret'] show ?thesis by simp
    next
      case False
      have "i \<le> 2 ^ 31"
      proof (cases "i = 0")
        case False
        with i obtain j where "j \<le> 31" "i = 2 ^ j" by auto
        then show ?thesis
          using power_increasing [of j 31 "2::nat"] by (simp add: word_le_nat_alt unat_pow2)
      qed simp
      with False show ?thesis by simp
    qed
  qed
qed

lemma next_pow_of_two_spec:
  assumes "n \<le> 2 ^ 31"
  obtains m where "m < 32" and "next_pow_of_two n = Some (2 ^ m)" and "n \<le> 2 ^ m"
    and "0 < m \<longrightarrow> 2 ^ (m - 1) < n"
proof -
  obtain m where "m \<le> 31" "next_pow_loop n (2 ^ 0) = Some (2 ^ m)" "n \<le> 2 ^ m"
    "0 < m \<longrightarrow> 2 ^ (m - 1) < n"
    using next_pow_loop_pow2 [OF assms, of 0] by blast
  then show thesis by (intro that [of m]) (simp_all add: next_pow_of_two_def)
qed

lemma next_pow_of_two_None: "2 ^ 31 < n \<Longrightarrow> next_pow_of_two n = None"
  using next_pow_loop_diverges [of n 1] unfolding next_pow_of_two_def
  by (cases "next_pow_loop n 1") (auto intro: exI [of _ 0])

section \<open>Properties\<close>

text \<open>
  C1: whatever sequence of writes and reads a client performs on a valid ring buffer, no call
  accesses memory outside the buffer or the client's blocks, the invariant is kept, and the
  buffer is a byte queue: what was stored at the start followed by the accepted bytes is the
  delivered bytes followed by what is stored at the end.
\<close>

theorem rb_history_is_fifo:
  assumes "rb_ok rb" and "list_all call_fits cs"
  shows "\<exists>rb' accepted delivered. fifo_run rb_write rb_read rb cs = Some (rb', accepted, delivered) \<and>
    rb_ok rb' \<and> rb_capacity rb' = rb_capacity rb \<and>
    rb_contents rb @ accepted = delivered @ rb_contents rb'"
  using assms by (rule rb.run_fifo)

definition ring_example :: ringbuffer where
  "ring_example = \<lparr>rb_buf = [10, 11, 12, 13], rb_write_head = 1, rb_read_head = 3,
     rb_size = 4, rb_mask = 3\<rparr>"

lemma ring_example_ok: "rb_ok ring_example"
  by (rule rb_okI [of 2]) (simp_all add: ring_example_def)

theorem rb_history_is_fifo_witness:
  "\<exists>rb' accepted delivered.
     fifo_run rb_write rb_read ring_example [Get [0, 0] 2, Put [1, 2, 3] 3, Get [0, 0, 0] 3] =
       Some (rb', accepted, delivered) \<and>
     rb_ok rb' \<and> rb_capacity rb' = rb_capacity ring_example \<and>
     rb_contents ring_example @ accepted = delivered @ rb_contents rb'"
  by (rule rb_history_is_fifo [OF ring_example_ok]) simp

text \<open>
  C8: \<^verbatim>\<open>incudine_ringbuffer_create\<close> returns for the sizes up to \<open>2 ^ 31\<close> and for no
  other: above, the doubling loop variable wraps to zero and the loop runs forever (provided
  the allocation of the structure, which comes first, succeeds).
\<close>

theorem rb_create_terminates_iff:
  "rb_create True malloc n \<noteq> None \<longleftrightarrow> n \<le> 2 ^ 31"
proof
  assume "rb_create True malloc n \<noteq> None"
  then have "next_pow_of_two n \<noteq> None" by (auto simp: rb_create_def bind_eq_Some_conv)
  then show "n \<le> 2 ^ 31" using next_pow_of_two_None [of n] by (meson not_le)
next
  assume "n \<le> 2 ^ 31"
  then obtain m where "next_pow_of_two n = Some (2 ^ m)" by (rule next_pow_of_two_spec)
  then show "rb_create True malloc n \<noteq> None" by (auto simp: rb_create_def split: option.splits)
qed

text \<open>
  A created buffer is valid and empty, can take at least the requested bytes less one, and
  its size is the least power of two not below the request. If an allocation fails, the result
  is \<^verbatim>\<open>NULL\<close> and whatever was allocated is released; disposal of the result releases
  each allocated block once.
\<close>

theorem rb_create_correct:
  assumes malloc: "\<And>k b. malloc k = Some b \<Longrightarrow> length b = k"
    and res: "rb_create hdr malloc n = Some (events, p)"
  shows "count_list (events @ rb_free p) (Malloc x) = count_list (events @ rb_free p) (Free x) \<and>
    (case p of None \<Rightarrow> hdr \<longrightarrow> malloc (unat (the (next_pow_of_two n))) = None
     | Some rb \<Rightarrow> rb_ok rb \<and> rb_contents rb = [] \<and> n \<le> rb_size rb \<and>
         (\<exists>m. unat (rb_size rb) = 2 ^ m \<and> (0 < m \<longrightarrow> 2 ^ (m - 1) < unat n)))"
proof (cases hdr)
  case False
  with res show ?thesis by (auto simp: rb_create_def)
next
  case hdr: True
  have "n \<le> 2 ^ 31" using res hdr rb_create_terminates_iff [of malloc n] by auto
  then obtain m where m: "m < 32" "next_pow_of_two n = Some (2 ^ m)" "n \<le> 2 ^ m"
    "0 < m \<longrightarrow> 2 ^ (m - 1) < n" by (rule next_pow_of_two_spec)
  have um: "unat (2 ^ m :: u32) = 2 ^ m" using m(1) by (simp add: unat_pow2)
  show ?thesis
  proof (cases "malloc (2 ^ m)")
    case None
    then have "events = [Malloc Header, Free Header]" "p = None"
      using res hdr m(2) um by (auto simp: rb_create_def)
    then show ?thesis using m(2) um None by (cases x) auto
  next
    case (Some b)
    define rb where "rb = \<lparr>rb_buf = b, rb_write_head = 0, rb_read_head = 0,
      rb_size = 2 ^ m, rb_mask = 2 ^ m - 1\<rparr>"
    have p: "events = [Malloc Header, Malloc Buffer]" "p = Some rb"
      using res hdr m(2) um Some by (auto simp: rb_create_def rb_def)
    have ok: "rb_ok rb"
      by (rule rb_okI [OF m(1)]) (use malloc [OF Some] in \<open>simp_all add: rb_def\<close>)
    have "rb_contents rb = []"
      using rb_empty_iff [OF ok] by (simp add: rb_empty_def rb_def)
    moreover have "2 ^ (m - 1) < unat n" if "0 < m"
      using m(4) m(1) that by (simp add: word_less_nat_alt unat_pow2)
    ultimately show ?thesis
      using p ok m(3) um by (cases x) (auto simp: rb_def)
  qed
qed

theorem rb_create_correct_witness:
  "\<exists>rb. rb_create True (\<lambda>k. Some (replicate k 0xAA)) 5 = Some ([Malloc Header, Malloc Buffer], Some rb) \<and>
     rb_ok rb \<and> rb_contents rb = [] \<and> 5 \<le> rb_size rb"
proof -
  have loop: "next_pow_of_two 5 = Some 8"
    by (simp add: next_pow_of_two_def next_pow_loop.simps)
  then obtain rb where rb: "rb_create True (\<lambda>k. Some (replicate k 0xAA)) 5 =
      Some ([Malloc Header, Malloc Buffer], Some rb)"
    by (simp add: rb_create_def)
  from rb_create_correct [OF _ this] show ?thesis using rb by auto
qed

text \<open>
  The amounts a write and a read move. A write of \<open>bytes\<close> bytes moves the smaller of the
  request and the free space, a read the smaller of the request and the stored bytes; the free
  space and the stored bytes always add up to the size less one; peeking delivers what a read
  would, and changes nothing.
\<close>

theorem rb_transfer_amounts:
  assumes ok: "rb_ok rb"
    and src: "unat bytes \<le> length src" and dest: "unat bytes \<le> length dest"
  shows "(\<exists>rb' k. rb_write rb src bytes = Some (rb', k) \<and> unat k = min (unat bytes) (unat (rb_write_space rb))
           \<and> unat (rb_read_space rb') = unat (rb_read_space rb) + unat k
           \<and> unat (rb_write_space rb') = unat (rb_write_space rb) - unat k) \<and>
         (\<exists>rb' d k. rb_read rb dest bytes = Some (rb', d, k) \<and> rb_peek rb dest bytes = Some (d, k)
           \<and> unat k = min (unat bytes) (unat (rb_read_space rb))
           \<and> take (unat k) d = take (unat k) (rb_contents rb) \<and> drop (unat k) d = drop (unat k) dest
           \<and> unat (rb_read_space rb') = unat (rb_read_space rb) - unat k
           \<and> unat (rb_write_space rb') = unat (rb_write_space rb) + unat k) \<and>
         unat (rb_write_space rb) + unat (rb_read_space rb) = unat (rb_size rb) - 1"
proof (intro conjI)
  have src': "min (unat bytes) (unat (rb_write_space rb)) \<le> length src" using src by simp
  from rb.put_law [OF ok src'] obtain rb' k where w: "rb_write rb src bytes = Some (rb', k)"
    "unat k = min (unat bytes) (unat (rb_write_space rb))" "rb_ok rb'"
    "rb_contents rb' = rb_contents rb @ take (unat k) src" "rb_capacity rb' = rb_capacity rb" by blast
  have len: "unat k \<le> length src" using w(2) src by simp
  have "unat (rb_read_space rb') = unat (rb_read_space rb) + unat k"
    using arg_cong [OF w(4), of length] len by simp
  moreover have "unat (rb_write_space rb') + unat (rb_read_space rb') =
      unat (rb_write_space rb) + unat (rb_read_space rb)"
    using rb.room_contents [OF ok] rb.room_contents [OF w(3)] w(5) by simp
  ultimately show "\<exists>rb' k. rb_write rb src bytes = Some (rb', k) \<and> unat k = min (unat bytes) (unat (rb_write_space rb))
           \<and> unat (rb_read_space rb') = unat (rb_read_space rb) + unat k
           \<and> unat (rb_write_space rb') = unat (rb_write_space rb) - unat k"
    using w(1,2) by (intro exI [of _ rb'] exI [of _ k]) auto
  have dest': "min (unat bytes) (unat (rb_read_space rb)) \<le> length dest" using dest by simp
  from rb.get_law [OF ok dest'] obtain rb' k
    where r: "rb_read rb dest bytes = Some (rb', take (unat k) (rb_contents rb) @ drop (unat k) dest, k)"
    "unat k = min (unat bytes) (unat (rb_read_space rb))" "rb_ok rb'"
    "rb_contents rb' = drop (unat k) (rb_contents rb)" "rb_capacity rb' = rb_capacity rb" by blast
  have "unat (rb_read_space rb') = unat (rb_read_space rb) - unat k"
    using arg_cong [OF r(4), of length] by simp
  moreover from this have "unat (rb_write_space rb') = unat (rb_write_space rb) + unat k"
    using rb.room_contents [OF ok] rb.room_contents [OF r(3)] r(2,5) by simp
  moreover have "rb_peek rb dest bytes = Some (take (unat k) (rb_contents rb) @ drop (unat k) dest, k)"
    using r(1) by (auto simp: rb_read_eq_peek)
  ultimately show "\<exists>rb' d k. rb_read rb dest bytes = Some (rb', d, k) \<and> rb_peek rb dest bytes = Some (d, k)
           \<and> unat k = min (unat bytes) (unat (rb_read_space rb))
           \<and> take (unat k) d = take (unat k) (rb_contents rb) \<and> drop (unat k) d = drop (unat k) dest
           \<and> unat (rb_read_space rb') = unat (rb_read_space rb) - unat k
           \<and> unat (rb_write_space rb') = unat (rb_write_space rb) + unat k"
    using r(1,2)
    by (intro exI [of _ rb'] exI [of _ "take (unat k) (rb_contents rb) @ drop (unat k) dest"]
        exI [of _ k]) auto
  show "unat (rb_write_space rb) + unat (rb_read_space rb) = unat (rb_size rb) - 1"
    using rb.room_contents [OF ok] by (simp add: rb_capacity_def)
qed

theorem rb_transfer_amounts_witness:
  "(\<exists>rb' k. rb_write ring_example [1, 2] 2 = Some (rb', k) \<and> unat k = 1) \<and>
   (\<exists>rb' d k. rb_read ring_example [0, 0] 2 = Some (rb', d, k) \<and> unat k = 2)"
  using rb_transfer_amounts [OF ring_example_ok, of 2 "[1, 2]" "[0, 0]"]
  by (auto simp: ring_example_def rb_write_space_def rb_read_space_def)

end
