(* ===== verification/RingBufferSPSC.thy ===== *)
theory RingBufferSPSC
  imports RingBuffer
begin

unbundle bit_operations_syntax

text \<open>
  The ring buffer of \<^verbatim>\<open>src/src/ringbuffer.c\<close> under its intended use: one thread
  calls \<^verbatim>\<open>incudine_ringbuffer_write\<close> while another one calls
  \<^verbatim>\<open>incudine_ringbuffer_read\<close>, without a lock. A call is split at its accesses to the
  shared structure: the load of the other end's head, each byte of the two \<^verbatim>\<open>memcpy\<close>
  calls, and the store of the own head that \<^verbatim>\<open>write_memory_barrier\<close> orders after the
  copies. The two threads interleave at these points in any order (sequential consistency,
  which the barriers of the code provide for these accesses).
\<close>

section \<open>State and steps\<close>

text \<open>
  Where each thread is. \<open>Writing src n i we\<close>: \<open>n\<close> bytes of \<open>src\<close> are to be written, \<open>i\<close> are
  copied, and the head will become \<open>we\<close>. \<open>Reading acc n re\<close>: the bytes \<open>acc\<close> of \<open>n\<close> are
  already in the destination block and the head will become \<open>re\<close>.
\<close>

datatype writer = Writer_idle | Writing "byte list" u32 nat u32

datatype reader = Reader_idle | Reading "byte list" u32 u32

text \<open>
  The last two components are the history: all bytes whose write was completed, and all bytes
  whose read was completed.
\<close>

record spsc =
  shared :: ringbuffer
  writer :: writer
  reader :: reader
  written :: "byte list"
  delivered :: "byte list"

text \<open>
  The slot of the byte number \<open>i\<close> of a copy that starts at head \<open>h\<close> and ends at head \<open>e\<close>: two
  parts if it wraps (\<open>h > e\<close>), one part otherwise.
\<close>

definition copy_slot :: "ringbuffer \<Rightarrow> u32 \<Rightarrow> u32 \<Rightarrow> nat \<Rightarrow> nat" where
  "copy_slot rb h e i =
     (if h > e \<and> unat (rb_size rb - h) \<le> i then i - unat (rb_size rb - h) else unat h + i)"

inductive spsc_step :: "spsc \<Rightarrow> spsc \<Rightarrow> bool" where
  write_begin:
    "\<lbrakk>writer s = Writer_idle;
      n = (if bytes > rb_write_space (shared s) then rb_write_space (shared s) else bytes);
      unat n \<le> length src;
      we = (rb_write_head (shared s) + n - rb_size (shared s)) AND rb_mask (shared s)\<rbrakk>
     \<Longrightarrow> spsc_step s (s\<lparr>writer := Writing src n 0 we\<rparr>)"
| write_byte:
    "\<lbrakk>writer s = Writing src n i we; i < unat n;
      store (rb_buf (shared s)) (copy_slot (shared s) (rb_write_head (shared s)) we i) (src ! i) = Some b\<rbrakk>
     \<Longrightarrow> spsc_step s (s\<lparr>shared := (shared s)\<lparr>rb_buf := b\<rparr>, writer := Writing src n (Suc i) we\<rparr>)"
| write_end:
    "writer s = Writing src n (unat n) we
     \<Longrightarrow> spsc_step s (s\<lparr>shared := (shared s)\<lparr>rb_write_head := we\<rparr>, writer := Writer_idle,
           written := written s @ take (unat n) src\<rparr>)"
| read_begin:
    "\<lbrakk>reader s = Reader_idle;
      n = (if bytes > rb_read_space (shared s) then rb_read_space (shared s) else bytes);
      re = (rb_read_head (shared s) + n - rb_size (shared s)) AND rb_mask (shared s)\<rbrakk>
     \<Longrightarrow> spsc_step s (s\<lparr>reader := Reading [] n re\<rparr>)"
| read_byte:
    "\<lbrakk>reader s = Reading acc n re; length acc < unat n;
      load (rb_buf (shared s)) (copy_slot (shared s) (rb_read_head (shared s)) re (length acc)) = Some x\<rbrakk>
     \<Longrightarrow> spsc_step s (s\<lparr>reader := Reading (acc @ [x]) n re\<rparr>)"
| read_end:
    "\<lbrakk>reader s = Reading acc n re; length acc = unat n\<rbrakk>
     \<Longrightarrow> spsc_step s (s\<lparr>shared := (shared s)\<lparr>rb_read_head := re\<rparr>, reader := Reader_idle,
           delivered := delivered s @ acc\<rparr>)"

text \<open>A valid buffer with both threads outside any call; its contents count as written.\<close>

definition spsc_start :: "ringbuffer \<Rightarrow> spsc" where
  "spsc_start rb = \<lparr>shared = rb, writer = Writer_idle, reader = Reader_idle,
     written = rb_contents rb, delivered = []\<rparr>"

inductive spsc_reachable :: "ringbuffer \<Rightarrow> spsc \<Rightarrow> bool" for rb where
  start: "spsc_reachable rb (spsc_start rb)"
| step: "spsc_reachable rb s \<Longrightarrow> spsc_step s t \<Longrightarrow> spsc_reachable rb t"

section \<open>The invariant\<close>

fun writer_ok :: "ringbuffer \<Rightarrow> writer \<Rightarrow> bool" where
  "writer_ok rb Writer_idle = True"
| "writer_ok rb (Writing src n i we) =
     (i \<le> unat n \<and> unat n \<le> length src \<and> unat n \<le> unat (rb_write_space rb) \<and>
      unat we = (unat (rb_write_head rb) + unat n) mod unat (rb_size rb) \<and>
      (\<forall>j<i. rb_buf rb ! ((unat (rb_write_head rb) + j) mod unat (rb_size rb)) = src ! j))"

fun reader_ok :: "ringbuffer \<Rightarrow> reader \<Rightarrow> bool" where
  "reader_ok rb Reader_idle = True"
| "reader_ok rb (Reading acc n re) =
     (length acc \<le> unat n \<and> unat n \<le> unat (rb_read_space rb) \<and>
      unat re = (unat (rb_read_head rb) + unat n) mod unat (rb_size rb) \<and>
      acc = take (length acc) (rb_contents rb))"

definition spsc_inv :: "spsc \<Rightarrow> bool" where
  "spsc_inv s \<longleftrightarrow>
     rb_ok (shared s) \<and> delivered s @ rb_contents (shared s) = written s \<and>
     writer_ok (shared s) (writer s) \<and> reader_ok (shared s) (reader s)"

lemma copy_slot_mod:
  assumes "rb_ok rb" and "unat h < unat (rb_size rb)" and "n < unat (rb_size rb)" and "i < n"
    and "unat e = (unat h + n) mod unat (rb_size rb)"
  shows "copy_slot rb h e i = (unat h + i) mod unat (rb_size rb)"
proof -
  have diff: "unat (rb_size rb - h) = unat (rb_size rb) - unat h"
    using assms(2) by (simp add: unat_sub_if')
  show ?thesis
  proof (cases "unat h + n < unat (rb_size rb)")
    case True
    then show ?thesis using assms by (simp add: copy_slot_def word_less_nat_alt)
  next
    case False
    then have "unat e = unat h + n - unat (rb_size rb)"
      using assms by (simp add: le_mod_geq)
    then show ?thesis
      using False assms diff by (auto simp: copy_slot_def word_less_nat_alt le_mod_geq)
  qed
qed

text \<open>A byte stored in the free part of the buffer does not change its contents.\<close>

lemma contents_store_free:
  assumes ok: "rb_ok rb" and i: "i < unat (rb_write_space rb)"
  defines "p \<equiv> (unat (rb_write_head rb) + i) mod unat (rb_size rb)"
  shows "rb_contents (rb\<lparr>rb_buf := (rb_buf rb)[p := x]\<rparr>) = rb_contents rb"
proof -
  let ?S = "unat (rb_size rb)" and ?r = "unat (rb_read_head rb)" and ?m = "unat (rb_read_space rb)"
  have len: "length (rb_buf rb) = ?S" using ok by (simp add: rb_ok_def)
  have p: "p = (?r + (?m + i)) mod ?S"
    by (simp add: p_def rb_write_offset [OF ok] mod_add_left_eq add.assoc)
  have "?m + i < ?S"
    using i rb_write_space_nat [OF ok] rb_read_space_less [OF ok] by (simp add: rb_capacity_def)
  then have "p \<noteq> (?r + j) mod ?S" if "j < ?m" for j
    using ring_pos_inject [of "?m + i" ?S j ?r] that p by auto
  then show ?thesis
    unfolding rb_contents_def by (simp add: rb_read_space_def) (rule ring_slice_cong, auto simp: len)
qed

lemma shared_fields_store [simp]:
  "rb_read_space (rb\<lparr>rb_buf := b\<rparr>) = rb_read_space rb"
  "rb_write_space (rb\<lparr>rb_buf := b\<rparr>) = rb_write_space rb"
  by (simp_all add: rb_read_space_def rb_write_space_def)

lemma rb_ok_store: "rb_ok rb \<Longrightarrow> length b = length (rb_buf rb) \<Longrightarrow> rb_ok (rb\<lparr>rb_buf := b\<rparr>)"
  by (simp add: rb_ok_def)

text \<open>Publishing the bytes of a finished copy, and releasing the slots of a finished read.\<close>

lemma publish_write:
  fixes n :: u32
  assumes ok: "rb_ok rb" and n: "unat n \<le> unat (rb_write_space rb)"
    and we: "unat we = (unat (rb_write_head rb) + unat n) mod unat (rb_size rb)"
    and src: "unat n \<le> length src"
    and copied: "\<forall>j<unat n. rb_buf rb ! ((unat (rb_write_head rb) + j) mod unat (rb_size rb)) = src ! j"
  shows "rb_ok (rb\<lparr>rb_write_head := we\<rparr>)"
    and "rb_contents (rb\<lparr>rb_write_head := we\<rparr>) = rb_contents rb @ take (unat n) src"
    and "unat (rb_read_space (rb\<lparr>rb_write_head := we\<rparr>)) = unat (rb_read_space rb) + unat n"
proof -
  let ?rb' = "rb_write_advance rb n" and ?m = "unat (rb_read_space rb)"
  have "we = (rb_write_head rb + n - rb_size rb) AND rb_mask rb"
    by (simp add: word_unat_eq_iff we rb_head_advance [OF ok])
  then have rb': "rb\<lparr>rb_write_head := we\<rparr> = ?rb'" by (simp add: rb_write_advance_def)
  note adv = rb_write_advance_spec [OF ok n]
  show "rb_ok (rb\<lparr>rb_write_head := we\<rparr>)"
    and "unat (rb_read_space (rb\<lparr>rb_write_head := we\<rparr>)) = ?m + unat n"
    using adv by (simp_all add: rb')
  have len: "length (rb_buf rb) = unat (rb_size rb)" using ok by (simp add: rb_ok_def)
  have "drop ?m (rb_contents ?rb') = ring_slice (rb_buf rb) (unat (rb_write_head rb)) (unat n)"
    using adv(3) by (simp add: rb_contents_def drop_ring_slice len rb_write_offset [OF ok] rb_write_advance_def)
  also have "\<dots> = take (unat n) src"
    by (rule nth_equalityI) (use copied src len in auto)
  finally show "rb_contents (rb\<lparr>rb_write_head := we\<rparr>) = rb_contents rb @ take (unat n) src"
    using adv(2) append_take_drop_id [of ?m "rb_contents ?rb'"] by (simp add: rb')
qed

lemma publish_read:
  fixes n :: u32
  assumes ok: "rb_ok rb" and n: "unat n \<le> unat (rb_read_space rb)"
    and re: "unat re = (unat (rb_read_head rb) + unat n) mod unat (rb_size rb)"
  shows "rb_ok (rb\<lparr>rb_read_head := re\<rparr>)"
    and "rb_contents (rb\<lparr>rb_read_head := re\<rparr>) = drop (unat n) (rb_contents rb)"
    and "unat (rb_write_space (rb\<lparr>rb_read_head := re\<rparr>)) = unat (rb_write_space rb) + unat n"
proof -
  have "re = (rb_read_head rb + n - rb_size rb) AND rb_mask rb"
    by (simp add: word_unat_eq_iff re rb_head_advance [OF ok])
  then have rb': "rb\<lparr>rb_read_head := re\<rparr> = rb_read_advance rb n" by (simp add: rb_read_advance_def)
  note adv = rb_read_advance_spec [OF ok n]
  show "rb_ok (rb\<lparr>rb_read_head := re\<rparr>)"
    and "rb_contents (rb\<lparr>rb_read_head := re\<rparr>) = drop (unat n) (rb_contents rb)"
    using adv by (simp_all add: rb')
  show "unat (rb_write_space (rb\<lparr>rb_read_head := re\<rparr>)) = unat (rb_write_space rb) + unat n"
    using rb_write_space_nat [OF ok] rb_write_space_nat [OF adv(1)] adv(3) n
      rb_read_space_less [OF ok]
    by (simp add: rb' rb_capacity_def rb_read_advance_def)
qed

section \<open>Every step keeps the invariant\<close>

lemma spsc_inv_start: "rb_ok rb \<Longrightarrow> spsc_inv (spsc_start rb)"
  by (simp add: spsc_inv_def spsc_start_def)

lemma room_less: "rb_ok rb \<Longrightarrow> unat (rb_write_space rb) < unat (rb_size rb)"
  using rb_write_space_nat [of rb] rb_read_space_less [of rb] by (simp add: rb_capacity_def)

lemma spsc_step_inv:
  assumes "spsc_step s t" and "spsc_inv s"
  shows "spsc_inv t"
  using assms
proof (induction rule: spsc_step.induct)
  case (write_begin s n bytes src we)
  have "unat n \<le> unat (rb_write_space (shared s))"
    by (simp add: write_begin.hyps(2) unat_if_greater)
  with write_begin show ?case
    by (simp add: spsc_inv_def rb_head_advance)
next
  case (write_byte s src n i we b)
  let ?rb = "shared s"
  let ?p = "(unat (rb_write_head ?rb) + i) mod unat (rb_size ?rb)"
  from write_byte.prems write_byte.hyps(1) have ok: "rb_ok ?rb" and w: "writer_ok ?rb (Writing src n i we)"
    and r: "reader_ok ?rb (reader s)" and hist: "delivered s @ rb_contents ?rb = written s"
    by (auto simp: spsc_inv_def)
  have slot: "copy_slot ?rb (rb_write_head ?rb) we i = ?p"
    by (rule copy_slot_mod [OF ok, where n = "unat n"])
      (use ok w write_byte.hyps(2) room_less [OF ok] in \<open>auto simp: rb_ok_def word_less_nat_alt\<close>)
  have b: "b = (rb_buf ?rb)[?p := src ! i]" "?p < length (rb_buf ?rb)"
    using write_byte.hyps(3) by (auto simp: store_Some_iff slot)
  have i: "i < unat (rb_write_space ?rb)" using w write_byte.hyps(2) by simp
  have cont: "rb_contents (?rb\<lparr>rb_buf := b\<rparr>) = rb_contents ?rb"
    unfolding b(1) by (rule contents_store_free [OF ok i])
  have slots: "b ! ((unat (rb_write_head ?rb) + j) mod unat (rb_size ?rb)) = src ! j" if "j < Suc i" for j
  proof (cases "j = i")
    case False
    then have "(unat (rb_write_head ?rb) + j) mod unat (rb_size ?rb) \<noteq> ?p"
      using that i room_less [OF ok] ring_pos_inject [of j "unat (rb_size ?rb)" i] by auto
    then show ?thesis using False that w b by auto
  qed (use b in simp)
  have "reader_ok (?rb\<lparr>rb_buf := b\<rparr>) (reader s)"
    using r by (cases "reader s") (auto simp: cont)
  then show ?case
    using ok w hist cont slots b write_byte.hyps(2) rb_ok_store [of ?rb b]
    by (auto simp: spsc_inv_def)
next
  case (write_end s src n we)
  let ?rb = "shared s"
  from write_end have ok: "rb_ok ?rb" and w: "writer_ok ?rb (Writing src n (unat n) we)"
    and r: "reader_ok ?rb (reader s)" and hist: "delivered s @ rb_contents ?rb = written s"
    by (auto simp: spsc_inv_def)
  have pub: "rb_ok (?rb\<lparr>rb_write_head := we\<rparr>)"
    "rb_contents (?rb\<lparr>rb_write_head := we\<rparr>) = rb_contents ?rb @ take (unat n) src"
    "unat (rb_read_space (?rb\<lparr>rb_write_head := we\<rparr>)) = unat (rb_read_space ?rb) + unat n"
    using w by (auto intro!: publish_write [OF ok])
  have "reader_ok (?rb\<lparr>rb_write_head := we\<rparr>) (reader s)"
    using r by (cases "reader s") (auto simp: pub)
  then show ?case using pub hist by (simp add: spsc_inv_def)
next
  case (read_begin s n bytes re)
  have "unat n \<le> unat (rb_read_space (shared s))"
    by (simp add: read_begin.hyps(2) unat_if_greater)
  with read_begin show ?case
    by (simp add: spsc_inv_def rb_head_advance)
next
  case (read_byte s acc n re x)
  let ?rb = "shared s"
  from read_byte have ok: "rb_ok ?rb" and r: "reader_ok ?rb (Reading acc n re)"
    by (auto simp: spsc_inv_def)
  have slot: "copy_slot ?rb (rb_read_head ?rb) re (length acc) =
      (unat (rb_read_head ?rb) + length acc) mod unat (rb_size ?rb)"
    by (rule copy_slot_mod [OF ok, where n = "unat n"])
      (use ok r read_byte.hyps(2) rb_read_space_less [OF ok] in \<open>auto simp: rb_ok_def word_less_nat_alt\<close>)
  have len: "length acc < unat (rb_read_space ?rb)" using r read_byte.hyps(2) by simp
  have "x = rb_contents ?rb ! length acc"
    using read_byte.hyps(3) len ok by (simp add: load_Some_iff slot rb_contents_def rb_ok_def)
  then have "acc @ [x] = take (Suc (length acc)) (rb_contents ?rb)"
    using r len by (simp add: take_Suc_conv_app_nth)
  then show ?case using read_byte by (simp add: spsc_inv_def)
next
  case (read_end s acc n re)
  let ?rb = "shared s"
  from read_end have ok: "rb_ok ?rb" and r: "reader_ok ?rb (Reading acc n re)"
    and w: "writer_ok ?rb (writer s)" and hist: "delivered s @ rb_contents ?rb = written s"
    by (auto simp: spsc_inv_def)
  have pub: "rb_ok (?rb\<lparr>rb_read_head := re\<rparr>)"
    "rb_contents (?rb\<lparr>rb_read_head := re\<rparr>) = drop (unat n) (rb_contents ?rb)"
    "unat (rb_write_space (?rb\<lparr>rb_read_head := re\<rparr>)) = unat (rb_write_space ?rb) + unat n"
    using r by (auto intro!: publish_read [OF ok])
  have "writer_ok (?rb\<lparr>rb_read_head := re\<rparr>) (writer s)"
    using w by (cases "writer s") (auto simp: pub)
  moreover have "acc @ drop (unat n) (rb_contents ?rb) = rb_contents ?rb"
    using r read_end.hyps(2) by (metis append_take_drop_id reader_ok.simps(2))
  ultimately show ?case using pub hist by (simp add: spsc_inv_def)
qed

lemma spsc_reachable_inv: "spsc_reachable rb s \<Longrightarrow> rb_ok rb \<Longrightarrow> spsc_inv s"
  by (induction rule: spsc_reachable.induct) (auto intro: spsc_inv_start spsc_step_inv)

section \<open>A write call alone is the sequential operation\<close>

lemma store_slot_ok:
  assumes "spsc_inv s" and "writer s = Writing src n i we" and "i < unat n"
  shows "store (rb_buf (shared s)) (copy_slot (shared s) (rb_write_head (shared s)) we i) x =
      Some ((rb_buf (shared s))[(unat (rb_write_head (shared s)) + i) mod unat (rb_size (shared s)) := x])"
    and "copy_slot (shared s) (rb_write_head (shared s)) we i < length (rb_buf (shared s))"
    and "copy_slot (shared s) (rb_write_head (shared s)) we i =
      (unat (rb_write_head (shared s)) + i) mod unat (rb_size (shared s))"
proof -
  let ?rb = "shared s"
  from assms have ok: "rb_ok ?rb" and w: "writer_ok ?rb (Writing src n i we)"
    by (auto simp: spsc_inv_def)
  have S: "0 < unat (rb_size ?rb)" "length (rb_buf ?rb) = unat (rb_size ?rb)"
    "unat (rb_write_head ?rb) < unat (rb_size ?rb)"
    using ok by (auto simp: rb_ok_def word_less_nat_alt)
  show slot: "copy_slot ?rb (rb_write_head ?rb) we i =
      (unat (rb_write_head ?rb) + i) mod unat (rb_size ?rb)"
    by (rule copy_slot_mod [OF ok S(3) _ assms(3)]) (use w room_less [OF ok] in auto)
  show "copy_slot ?rb (rb_write_head ?rb) we i < length (rb_buf ?rb)"
    using S by (simp add: slot)
  then show "store (rb_buf ?rb) (copy_slot ?rb (rb_write_head ?rb) we i) x =
      Some ((rb_buf ?rb)[(unat (rb_write_head ?rb) + i) mod unat (rb_size ?rb) := x])"
    by (simp add: store_in slot)
qed

lemma load_slot_ok:
  assumes "spsc_inv s" and "reader s = Reading acc n re" and "length acc < unat n"
  shows "copy_slot (shared s) (rb_read_head (shared s)) re (length acc) < length (rb_buf (shared s))"
    and "copy_slot (shared s) (rb_read_head (shared s)) re (length acc) =
      (unat (rb_read_head (shared s)) + length acc) mod unat (rb_size (shared s))"
proof -
  let ?rb = "shared s"
  from assms have ok: "rb_ok ?rb" and r: "reader_ok ?rb (Reading acc n re)"
    by (auto simp: spsc_inv_def)
  have S: "0 < unat (rb_size ?rb)" "length (rb_buf ?rb) = unat (rb_size ?rb)"
    "unat (rb_read_head ?rb) < unat (rb_size ?rb)"
    using ok by (auto simp: rb_ok_def word_less_nat_alt)
  show slot: "copy_slot ?rb (rb_read_head ?rb) re (length acc) =
      (unat (rb_read_head ?rb) + length acc) mod unat (rb_size ?rb)"
    by (rule copy_slot_mod [OF ok S(3) _ assms(3)]) (use r rb_read_space_less [OF ok] in auto)
  show "copy_slot ?rb (rb_read_head ?rb) re (length acc) < length (rb_buf ?rb)"
    using S by (simp add: slot)
qed

text \<open>The copy loop, run to its end without steps of the reader.\<close>

lemma write_bytes_run:
  assumes "spsc_inv s" and "writer s = Writing src n i we"
  shows "\<exists>b. spsc_step\<^sup>*\<^sup>* s (s\<lparr>shared := (shared s)\<lparr>rb_buf := b\<rparr>, writer := Writing src n (unat n) we\<rparr>) \<and>
    length b = length (rb_buf (shared s)) \<and>
    (\<forall>j<unat (rb_size (shared s)).
       b ! ((unat (rb_write_head (shared s)) + j) mod unat (rb_size (shared s))) =
       (if i \<le> j \<and> j < unat n then src ! j
        else rb_buf (shared s) ! ((unat (rb_write_head (shared s)) + j) mod unat (rb_size (shared s)))))"
  using assms
proof (induction "unat n - i" arbitrary: s i)
  case 0
  then have i: "i = unat n" by (simp add: spsc_inv_def)
  with 0 have "s\<lparr>shared := (shared s)\<lparr>rb_buf := rb_buf (shared s)\<rparr>, writer := Writing src n (unat n) we\<rparr> = s"
    by (cases s) simp
  with i show ?case
    by (intro exI [of _ "rb_buf (shared s)"]) auto
next
  case (Suc d)
  let ?w = "unat (rb_write_head (shared s))" and ?S = "unat (rb_size (shared s))"
  from Suc.hyps have i: "i < unat n" and d: "d = unat n - Suc i" by auto
  let ?b1 = "(rb_buf (shared s))[(?w + i) mod ?S := src ! i]"
  let ?t = "s\<lparr>shared := (shared s)\<lparr>rb_buf := ?b1\<rparr>, writer := Writing src n (Suc i) we\<rparr>"
  have step: "spsc_step s ?t"
    using spsc_step.write_byte [OF Suc.prems(2) i store_slot_ok(1) [OF Suc.prems i]] .
  then have "spsc_inv ?t" using Suc.prems(1) by (rule spsc_step_inv)
  from Suc.hyps(1) [OF d this] obtain b where
    run: "spsc_step\<^sup>*\<^sup>* ?t (?t\<lparr>shared := (shared ?t)\<lparr>rb_buf := b\<rparr>, writer := Writing src n (unat n) we\<rparr>)"
    and len: "length b = length (rb_buf (shared s))"
    and nth: "\<forall>j<?S. b ! ((?w + j) mod ?S) =
      (if Suc i \<le> j \<and> j < unat n then src ! j else ?b1 ! ((?w + j) mod ?S))" by auto
  have n: "unat n < ?S" and lenS: "length (rb_buf (shared s)) = ?S"
    using Suc.prems room_less [of "shared s"] by (auto simp: spsc_inv_def rb_ok_def)
  have b1: "?b1 ! ((?w + j) mod ?S) = (if j = i then src ! i else rb_buf (shared s) ! ((?w + j) mod ?S))"
    if "j < ?S" for j
    using ring_pos_inject [of j ?S i ?w] that i n lenS by (auto simp: nth_list_update)
  have "b ! ((?w + j) mod ?S) = (if i \<le> j \<and> j < unat n then src ! j else rb_buf (shared s) ! ((?w + j) mod ?S))"
    if "j < ?S" for j
    using nth [rule_format, OF that] b1 [OF that] i by auto
  moreover have "spsc_step\<^sup>*\<^sup>* s (s\<lparr>shared := (shared s)\<lparr>rb_buf := b\<rparr>, writer := Writing src n (unat n) we\<rparr>)"
    using step run by simp
  ultimately show ?case using len by blast
qed

lemma ring_positions:
  assumes "p < (S::nat)" and "w < S"
  obtains j where "j < S" and "p = (w + j) mod S"
proof (cases "w \<le> p")
  case True
  then show thesis using assms by (intro that [of "p - w"]) auto
next
  case False
  then show thesis using assms by (intro that [of "S - w + p"]) (auto simp: le_mod_geq)
qed

section \<open>Properties\<close>

text \<open>
  C2: in every state the two threads can reach from a valid buffer, in whatever order their
  steps interleave, the bytes delivered so far followed by the bytes in the buffer are exactly
  the bytes written so far: nothing is lost, duplicated, reordered or torn, and the buffer
  stays valid.
\<close>

theorem spsc_linearizable:
  assumes "rb_ok rb" and "spsc_reachable rb s"
  shows "rb_ok (shared s) \<and> delivered s @ rb_contents (shared s) = written s"
  using spsc_reachable_inv [OF assms(2,1)] by (simp add: spsc_inv_def)

lemma spsc_example_reachable:
  "spsc_reachable ring_example
     ((spsc_start ring_example)\<lparr>reader := Reading [13] 2 1\<rparr>)"
proof -
  have "spsc_reachable ring_example ((spsc_start ring_example)\<lparr>reader := Reading [] 2 1\<rparr>)"
    by (rule spsc_reachable.step [OF spsc_reachable.start], rule spsc_step.read_begin [where bytes = 2])
      (simp_all add: spsc_start_def ring_example_def rb_read_space_def)
  then have "spsc_reachable ring_example
      ((spsc_start ring_example)\<lparr>reader := Reading [] 2 1\<rparr>\<lparr>reader := Reading ([] @ [13]) 2 1\<rparr>)"
    by (rule spsc_reachable.step [OF _ spsc_step.read_byte])
      (simp_all add: spsc_start_def ring_example_def load_def copy_slot_def)
  then show ?thesis by simp
qed

theorem spsc_linearizable_witness:
  "\<exists>s. spsc_reachable ring_example s \<and> reader s = Reading [13] 2 1 \<and>
     rb_ok (shared s) \<and> delivered s @ rb_contents (shared s) = written s"
  using spsc_linearizable [OF ring_example_ok spsc_example_reachable] spsc_example_reachable
  by auto

text \<open>
  C3: no data race. Whenever one thread is about to store a byte and the other one is about to
  load one, the two slots are different, and both are inside the block.
\<close>

theorem spsc_no_data_race:
  assumes ok: "rb_ok rb" and reach: "spsc_reachable rb s"
    and w: "writer s = Writing src n i we" "i < unat n"
    and r: "reader s = Reading acc m re" "length acc < unat m"
  shows "copy_slot (shared s) (rb_write_head (shared s)) we i \<noteq>
           copy_slot (shared s) (rb_read_head (shared s)) re (length acc) \<and>
         copy_slot (shared s) (rb_write_head (shared s)) we i < length (rb_buf (shared s)) \<and>
         copy_slot (shared s) (rb_read_head (shared s)) re (length acc) < length (rb_buf (shared s))"
proof -
  let ?rb = "shared s" and ?S = "unat (rb_size (shared s))" and ?r = "unat (rb_read_head (shared s))"
  let ?u = "unat (rb_read_space (shared s))"
  have inv: "spsc_inv s" using spsc_reachable_inv [OF reach ok] .
  then have ok': "rb_ok ?rb" and wok: "writer_ok ?rb (writer s)" and rok: "reader_ok ?rb (reader s)"
    by (auto simp: spsc_inv_def)
  have "i < unat (rb_write_space ?rb)" "length acc < ?u"
    using wok rok w r by auto
  then have "?u + i < ?S" "length acc < ?S" "length acc \<noteq> ?u + i"
    using rb_write_space_nat [OF ok'] rb_read_space_less [OF ok'] by (auto simp: rb_capacity_def)
  then have "(?r + (?u + i)) mod ?S \<noteq> (?r + length acc) mod ?S"
    using ring_pos_inject [of "?u + i" ?S "length acc" ?r] by auto
  then have distinct: "copy_slot ?rb (rb_write_head ?rb) we i \<noteq> copy_slot ?rb (rb_read_head ?rb) re (length acc)"
    unfolding store_slot_ok(3) [OF inv w] load_slot_ok(2) [OF inv r] rb_write_offset [OF ok']
    by (simp add: mod_add_left_eq add.assoc)
  show ?thesis
    using distinct store_slot_ok(2) [OF inv w] load_slot_ok(1) [OF inv r] by blast
qed

lemma spsc_example2_reachable:
  "spsc_reachable ring_example
     ((spsc_start ring_example)\<lparr>reader := Reading [13] 2 1, writer := Writing [7] 1 0 2\<rparr>)"
proof -
  have "spsc_reachable ring_example
     ((spsc_start ring_example)\<lparr>reader := Reading [13] 2 1\<rparr>\<lparr>writer := Writing [7] 1 0 2\<rparr>)"
    by (rule spsc_reachable.step [OF spsc_example_reachable], rule spsc_step.write_begin [where bytes = 1])
      (simp_all add: spsc_start_def ring_example_def rb_write_space_def)
  then show ?thesis by (simp add: spsc_start_def)
qed

theorem spsc_no_data_race_witness:
  "copy_slot ring_example 1 2 0 \<noteq> copy_slot ring_example 3 1 1 \<and>
   copy_slot ring_example 1 2 0 < 4 \<and> copy_slot ring_example 3 1 1 < 4"
  using spsc_no_data_race [OF ring_example_ok spsc_example2_reachable, of "[7]" 1 0 2 "[13]" 2 1]
  by (simp add: spsc_start_def ring_example_def)

text \<open>
  A \<^verbatim>\<open>incudine_ringbuffer_write\<close> call that is not interleaved with the reader takes
  the steps of this model to the result the sequential definition computes: the same buffer,
  the same head, the same accepted bytes.
\<close>

theorem spsc_write_refines:
  assumes inv: "spsc_inv s" and idle: "writer s = Writer_idle"
    and src: "unat bytes \<le> length src"
    and seq: "rb_write (shared s) src bytes = Some (rb', n)"
  shows "spsc_step\<^sup>*\<^sup>* s (s\<lparr>shared := rb', written := written s @ take (unat n) src\<rparr>)"
proof -
  let ?rb = "shared s"
  have ok: "rb_ok ?rb" using inv by (simp add: spsc_inv_def)
  have src': "min (unat bytes) (unat (rb_write_space ?rb)) \<le> length src" using src by simp
  obtain b' we n' where seq': "rb_write ?rb src bytes = Some (?rb\<lparr>rb_buf := b', rb_write_head := we\<rparr>, n')"
    and n': "n' = (if bytes > rb_write_space ?rb then rb_write_space ?rb else bytes)"
    and we: "we = (rb_write_head ?rb + n' - rb_size ?rb) AND rb_mask ?rb"
    and len: "length b' = length (rb_buf ?rb)"
    and new: "\<And>i. i < unat n' \<Longrightarrow> b' ! ((unat (rb_write_head ?rb) + i) mod unat (rb_size ?rb)) = src ! i"
    and old: "\<And>i. unat n' \<le> i \<Longrightarrow> i < unat (rb_size ?rb) \<Longrightarrow>
      b' ! ((unat (rb_write_head ?rb) + i) mod unat (rb_size ?rb)) =
      rb_buf ?rb ! ((unat (rb_write_head ?rb) + i) mod unat (rb_size ?rb))"
    by (rule rb_write_slots [OF ok src']) (rule that; assumption)
  have res: "rb' = ?rb\<lparr>rb_buf := b', rb_write_head := we\<rparr>" "n = n'" using seq seq' by auto
  have n: "unat n \<le> length src"
    using src by (auto simp: res n' word_less_nat_alt)
  let ?s1 = "s\<lparr>writer := Writing src n 0 we\<rparr>"
  have s1: "spsc_step s ?s1"
    by (rule spsc_step.write_begin [OF idle _ n]) (simp_all add: res n' we)
  have inv1: "spsc_inv ?s1" by (rule spsc_step_inv [OF s1 inv])
  obtain b where run: "spsc_step\<^sup>*\<^sup>* ?s1 (?s1\<lparr>shared := (shared ?s1)\<lparr>rb_buf := b\<rparr>,
      writer := Writing src n (unat n) we\<rparr>)"
    and lenb: "length b = length (rb_buf ?rb)"
    and nth: "\<forall>j<unat (rb_size ?rb). b ! ((unat (rb_write_head ?rb) + j) mod unat (rb_size ?rb)) =
       (if j < unat n then src ! j
        else rb_buf ?rb ! ((unat (rb_write_head ?rb) + j) mod unat (rb_size ?rb)))"
    using write_bytes_run [OF inv1, of src n 0 we] by auto
  have "b = b'"
  proof (rule nth_equalityI)
    fix p assume "p < length b"
    then obtain j where "j < unat (rb_size ?rb)"
      "p = (unat (rb_write_head ?rb) + j) mod unat (rb_size ?rb)"
      using ring_positions [of p "unat (rb_size ?rb)" "unat (rb_write_head ?rb)"] ok lenb
      by (auto simp: rb_ok_def word_less_nat_alt)
    then show "b ! p = b' ! p" using nth new [of j] old [of j] res(2) by auto
  qed (simp add: len lenb)
  moreover have "spsc_step (?s1\<lparr>shared := ?rb\<lparr>rb_buf := b\<rparr>, writer := Writing src n (unat n) we\<rparr>)
      (s\<lparr>shared := ?rb\<lparr>rb_buf := b, rb_write_head := we\<rparr>, written := written s @ take (unat n) src\<rparr>)"
    using spsc_step.write_end [of "?s1\<lparr>shared := ?rb\<lparr>rb_buf := b\<rparr>, writer := Writing src n (unat n) we\<rparr>" src n we]
    idle by (cases s) simp
  ultimately show ?thesis
    using s1 run res(1) by simp
qed

theorem spsc_write_refines_witness:
  "\<exists>rb' n. rb_write ring_example [7, 8] 2 = Some (rb', n) \<and>
     spsc_step\<^sup>*\<^sup>* (spsc_start ring_example)
       ((spsc_start ring_example)\<lparr>shared := rb',
          written := written (spsc_start ring_example) @ take (unat n) [7, 8]\<rparr>)"
proof -
  have inv: "spsc_inv (spsc_start ring_example)" by (rule spsc_inv_start [OF ring_example_ok])
  have "rb_write ring_example [7, 8] 2 = Some (ring_example\<lparr>rb_buf := [10, 7, 12, 13], rb_write_head := 2\<rparr>, 1)"
    by (simp add: rb_write_def rb_write_space_def ring_example_def memcpy_def Let_def)
  with spsc_write_refines [OF inv, of 2 "[7, 8]"] show ?thesis
    by (force simp: spsc_start_def)
qed

text \<open>The own steps a thread still has to take before its call returns.\<close>

fun writer_steps :: "writer \<Rightarrow> nat" where
  "writer_steps Writer_idle = 0"
| "writer_steps (Writing src n i we) = Suc (unat n - i)"

fun reader_steps :: "reader \<Rightarrow> nat" where
  "reader_steps Reader_idle = 0"
| "reader_steps (Reading acc n re) = Suc (unat n - length acc)"

text \<open>
  C4: the calls are wait-free. In every reachable state a thread inside a call can take its
  next step whatever the other thread is doing, each own step brings it one step closer to
  its return, and at most as many steps as the buffer has slots remain.
\<close>

theorem spsc_wait_free:
  assumes ok: "rb_ok rb" and reach: "spsc_reachable rb s"
  shows "writer_steps (writer s) \<le> unat (rb_size (shared s)) \<and>
    reader_steps (reader s) \<le> unat (rb_size (shared s)) \<and>
    (writer s \<noteq> Writer_idle \<longrightarrow> (\<exists>t. spsc_step s t \<and> reader t = reader s \<and>
       Suc (writer_steps (writer t)) = writer_steps (writer s))) \<and>
    (reader s \<noteq> Reader_idle \<longrightarrow> (\<exists>t. spsc_step s t \<and> writer t = writer s \<and>
       Suc (reader_steps (reader t)) = reader_steps (reader s)))"
proof (intro conjI impI)
  have inv: "spsc_inv s" using spsc_reachable_inv [OF reach ok] .
  then have ok': "rb_ok (shared s)" and wok: "writer_ok (shared s) (writer s)"
    and rok: "reader_ok (shared s) (reader s)" by (auto simp: spsc_inv_def)
  show "writer_steps (writer s) \<le> unat (rb_size (shared s))"
    using wok room_less [OF ok'] by (cases "writer s") auto
  show "reader_steps (reader s) \<le> unat (rb_size (shared s))"
    using rok rb_read_space_less [OF ok'] by (cases "reader s") auto
  show "\<exists>t. spsc_step s t \<and> reader t = reader s \<and>
      Suc (writer_steps (writer t)) = writer_steps (writer s)" if "writer s \<noteq> Writer_idle"
  proof -
    from that obtain src n i we where w: "writer s = Writing src n i we" by (cases "writer s") auto
    show ?thesis
    proof (cases "i < unat n")
      case True
      from spsc_step.write_byte [OF w this store_slot_ok(1) [OF inv w this]]
      show ?thesis using True w by (intro exI conjI) (assumption, simp_all)
    next
      case False
      then have "writer s = Writing src n (unat n) we" using w wok by simp
      from spsc_step.write_end [OF this] show ?thesis
        using w False by (intro exI conjI) (assumption, simp_all)
    qed
  qed
  show "\<exists>t. spsc_step s t \<and> writer t = writer s \<and>
      Suc (reader_steps (reader t)) = reader_steps (reader s)" if "reader s \<noteq> Reader_idle"
  proof -
    from that obtain acc n re where r: "reader s = Reading acc n re" by (cases "reader s") auto
    show ?thesis
    proof (cases "length acc < unat n")
      case True
      from spsc_step.read_byte [OF r this load_in [OF load_slot_ok(1) [OF inv r this]]]
      show ?thesis using True r by (intro exI conjI) (assumption, simp_all)
    next
      case False
      then have "length acc = unat n" using r rok by simp
      from spsc_step.read_end [OF r this] show ?thesis
        using r False by (intro exI conjI) (assumption, simp_all)
    qed
  qed
qed

theorem spsc_wait_free_witness:
  "\<exists>t. spsc_step ((spsc_start ring_example)\<lparr>reader := Reading [13] 2 1\<rparr>) t \<and>
     Suc (reader_steps (reader t)) = 2"
  using spsc_wait_free [OF ring_example_ok spsc_example_reachable] by (auto simp: spsc_start_def)

end
