(* ===== verification/OscSlip.thy ===== *)
theory OscSlip
  imports Prelude
begin

text \<open>
  The SLIP framing (RFC 1055) of OSC packets over streams and serial lines:
  \<^verbatim>\<open>osc_slip_encode\<close>, \<^verbatim>\<open>osc_slip_decode\<close> and
  \<^verbatim>\<open>is_slip_msg\<close> of \<^verbatim>\<open>src/src/network/osc.c\<close>. The decoder works in
  place: the destination pointer is the source pointer. Indices are natural numbers: an index
  never exceeds twice the block's length plus two (\<open>slip_frame_length\<close>), far from the end of
  the range of the C indices for the stream buffers of a few kilobytes.
\<close>

section \<open>Code\<close>

definition SLIP_END :: byte where "SLIP_END = 0xC0"
definition SLIP_ESC :: byte where "SLIP_ESC = 0xDB"
definition SLIP_ESC_END :: byte where "SLIP_ESC_END = 0xDC"
definition SLIP_ESC_ESC :: byte where "SLIP_ESC_ESC = 0xDD"

named_theorems slip_codes
lemmas [slip_codes] = SLIP_END_def SLIP_ESC_def SLIP_ESC_END_def SLIP_ESC_ESC_def

text \<open>The loop of the encoder, from source index \<open>i\<close> and destination index \<open>j\<close>.\<close>

function slip_encode_loop ::
  "byte list \<Rightarrow> byte list \<Rightarrow> nat \<Rightarrow> nat \<Rightarrow> nat \<Rightarrow> (byte list \<times> nat) option" where
  "slip_encode_loop src dest len i j =
     (if i < len then do {
        x \<leftarrow> load src i;
        (dest, j) \<leftarrow>
          (if x = SLIP_END then do {
             dest \<leftarrow> store dest j SLIP_ESC;
             dest \<leftarrow> store dest (j + 1) SLIP_ESC_END;
             Some (dest, j + 1)
           } else if x = SLIP_ESC then do {
             dest \<leftarrow> store dest j SLIP_ESC;
             dest \<leftarrow> store dest (j + 1) SLIP_ESC_ESC;
             Some (dest, j + 1)
           } else do {
             dest \<leftarrow> store dest j x;
             Some (dest, j)
           });
        slip_encode_loop src dest len (i + 1) (j + 1)
      } else Some (dest, j))"
  by pat_completeness auto
termination
  by (relation "measure (\<lambda>(src, dest, len, i, j). len - i)") auto

declare slip_encode_loop.simps [simp del]

definition slip_encode :: "byte list \<Rightarrow> byte list \<Rightarrow> nat \<Rightarrow> (byte list \<times> nat) option" where
  "slip_encode src dest len = do {
     dest \<leftarrow> store dest 0 SLIP_END;
     (dest, j) \<leftarrow> slip_encode_loop src dest len 0 1;
     dest \<leftarrow> store dest j SLIP_END;
     dest \<leftarrow> store dest (j + 1) 0;
     Some (dest, j + 1)
   }"

text \<open>The loop of the decoder. The byte after an escape is read without a look at \<open>maxlen\<close>.\<close>

function slip_decode_loop :: "byte list \<Rightarrow> nat \<Rightarrow> nat \<Rightarrow> nat \<Rightarrow> (byte list \<times> nat) option" where
  "slip_decode_loop buf maxlen i j =
     (if i < maxlen then do {
        x \<leftarrow> load buf i;
        (if x = SLIP_END then
           (if i \<noteq> 0 then Some (buf, j) else slip_decode_loop buf maxlen (i + 1) j)
         else if x = SLIP_ESC then do {
           y \<leftarrow> load buf (i + 1);
           (if y = SLIP_ESC_END then do {
              buf \<leftarrow> store buf j SLIP_END;
              slip_decode_loop buf maxlen (i + 2) (j + 1)
            } else if y = SLIP_ESC_ESC then do {
              buf \<leftarrow> store buf j SLIP_ESC;
              slip_decode_loop buf maxlen (i + 2) (j + 1)
            } else slip_decode_loop buf maxlen (i + 2) j)
         } else do {
           buf \<leftarrow> store buf j x;
           slip_decode_loop buf maxlen (i + 1) (j + 1)
         })
      } else Some (buf, j))"
  by pat_completeness auto
termination
  by (relation "measure (\<lambda>(buf, maxlen, i, j). maxlen - i)") auto

declare slip_decode_loop.simps [simp del]

definition slip_decode :: "byte list \<Rightarrow> nat \<Rightarrow> (byte list \<times> nat) option" where
  "slip_decode buf maxlen = slip_decode_loop buf maxlen 0 0"

text \<open>
  \<open>while (i > 0) if (buf[i--] == SLIP_END) return 1;\<close> from \<open>i = len - 1\<close>, with the result of
  \<^verbatim>\<open>recv\<close> as the signed length: the byte at index 0 is never looked at.
\<close>

function is_slip_loop :: "byte list \<Rightarrow> int \<Rightarrow> bool option" where
  "is_slip_loop buf i =
     (if 0 < i then do {
        x \<leftarrow> load buf (nat i);
        (if x = SLIP_END then Some True else is_slip_loop buf (i - 1))
      } else Some False)"
  by pat_completeness auto
termination
  by (relation "measure (\<lambda>(buf, i). nat i)") auto

declare is_slip_loop.simps [simp del]

definition is_slip_msg :: "byte list \<Rightarrow> int \<Rightarrow> bool option" where
  "is_slip_msg buf len = is_slip_loop buf (len - 1)"

section \<open>Frames\<close>

text \<open>The frame of a packet as RFC 1055 describes it.\<close>

definition slip_escape :: "byte \<Rightarrow> byte list" where
  "slip_escape x =
     (if x = SLIP_END then [SLIP_ESC, SLIP_ESC_END]
      else if x = SLIP_ESC then [SLIP_ESC, SLIP_ESC_ESC] else [x])"

definition slip_frame :: "byte list \<Rightarrow> byte list" where
  "slip_frame xs = SLIP_END # concat (map slip_escape xs) @ [SLIP_END]"

lemma slip_escape_length: "length (slip_escape x) \<in> {1, 2}"
  by (simp add: slip_escape_def)

lemma slip_frame_length: "length xs + 2 \<le> length (slip_frame xs) \<and> length (slip_frame xs) \<le> 2 * length xs + 2"
proof (induction xs)
  case (Cons x xs)
  then show ?case using slip_escape_length [of x] by (auto simp: slip_frame_def)
qed (simp add: slip_frame_def)

lemma slip_frame_inner: "SLIP_END \<notin> set (concat (map slip_escape xs))"
  by (induction xs) (auto simp: slip_escape_def slip_codes)

section \<open>The encoder\<close>

lemma list_update_split: "j < length m \<Longrightarrow> m[j := x] = take j m @ x # drop (Suc j) m"
  by (rule upd_conv_take_nth_drop)

text \<open>One pass of the loop writes the escaped form of one byte.\<close>

lemma slip_encode_step:
  "(if x = SLIP_END then do {
      dest \<leftarrow> store dest j SLIP_ESC;
      dest \<leftarrow> store dest (j + 1) SLIP_ESC_END;
      Some (dest, j + 1)
    } else if x = SLIP_ESC then do {
      dest \<leftarrow> store dest j SLIP_ESC;
      dest \<leftarrow> store dest (j + 1) SLIP_ESC_ESC;
      Some (dest, j + 1)
    } else do {
      dest \<leftarrow> store dest j x;
      Some (dest, j)
    }) =
   (if j + length (slip_escape x) \<le> length dest
    then Some (take j dest @ slip_escape x @ drop (j + length (slip_escape x)) dest,
               j + length (slip_escape x) - 1)
    else None)"
  by (auto simp: store_def slip_escape_def list_update_split Suc_le_eq)

lemma slip_encode_loop_spec:
  assumes "i \<le> len" and "len \<le> length src" and "j \<le> length dest"
  defines "out \<equiv> concat (map slip_escape (take (len - i) (drop i src)))"
  shows "slip_encode_loop src dest len i j =
    (if j + length out \<le> length dest
     then Some (take j dest @ out @ drop (j + length out) dest, j + length out) else None)"
  using assms(1,3) unfolding out_def
proof (induction "len - i" arbitrary: i j dest)
  case 0
  then show ?case by (subst slip_encode_loop.simps) simp
next
  case (Suc d)
  let ?e = "slip_escape (src ! i)"
  let ?rest = "concat (map slip_escape (take (len - Suc i) (drop (Suc i) src)))"
  from Suc.hyps(2) have i: "i < len" and d: "d = len - Suc i" by auto
  have out: "concat (map slip_escape (take (len - i) (drop i src))) = ?e @ ?rest"
    using i assms(2) by (simp add: Cons_nth_drop_Suc [symmetric] Suc_diff_Suc [symmetric])
  have e: "1 \<le> length ?e" using slip_escape_length [of "src ! i"] by auto
  show ?case
  proof (cases "j + length ?e \<le> length dest")
    case True
    let ?dest = "take j dest @ ?e @ drop (j + length ?e) dest"
    have e': "Suc (j + length ?e - Suc 0) = j + length ?e" using e by simp
    have "slip_encode_loop src dest len i j =
        slip_encode_loop src ?dest len (Suc i) (j + length ?e)"
      using i assms(2) True e'
      by (subst slip_encode_loop.simps) (simp add: load_in slip_encode_step [simplified])
    also have "\<dots> = (if j + length ?e + length ?rest \<le> length dest
      then Some (take (j + length ?e) ?dest @ ?rest @ drop (j + length ?e + length ?rest) ?dest,
                 j + length ?e + length ?rest) else None)"
      using Suc.hyps(1) [OF d, of "j + length ?e" ?dest] i True by simp
    finally show ?thesis
      unfolding out using True by (simp add: ac_simps)
  next
    case False
    then show ?thesis
      unfolding out using i assms(2)
      by (subst slip_encode_loop.simps) (simp add: load_in slip_encode_step [simplified])
  qed
qed

lemma slip_encode_spec:
  assumes "len \<le> length src"
  shows "slip_encode src dest len =
    (let f = slip_frame (take len src) in
     if length f < length dest then Some (f @ [0] @ drop (Suc (length f)) dest, length f) else None)"
proof (cases "dest = []")
  case True
  then show ?thesis by (simp add: slip_encode_def store_def)
next
  case False
  define out where "out = concat (map slip_escape (take len src))"
  have f: "slip_frame (take len src) = SLIP_END # out @ [SLIP_END]"
    by (simp add: slip_frame_def out_def)
  let ?d0 = "dest[0 := SLIP_END]"
  have loop: "slip_encode_loop src ?d0 len 0 1 =
      (if 1 + length out \<le> length dest
       then Some (SLIP_END # out @ drop (1 + length out) dest, 1 + length out) else None)"
    using slip_encode_loop_spec [of 0 len src 1 ?d0] assms False
    by (cases dest) (simp_all add: out_def Suc_le_eq)
  show ?thesis
    using False loop unfolding f
    by (auto simp: slip_encode_def store_def list_update_append list_update_split
        drop_eq_Nil Let_def Suc_le_eq not_less)
qed

section \<open>The decoder\<close>

text \<open>
  On escaped input the write index never passes the read index, so the in-place decoder reads
  only bytes it has not overwritten.
\<close>

lemma slip_decode_loop_frame:
  assumes "drop i buf = concat (map slip_escape ys) @ SLIP_END # rest"
    and "0 < i" and "j \<le> i" and "i \<le> length buf"
    and "i + length (concat (map slip_escape ys)) < maxlen"
  shows "\<exists>buf'. slip_decode_loop buf maxlen i j = Some (buf', j + length ys) \<and>
    length buf' = length buf \<and> take (j + length ys) buf' = take j buf @ ys"
  using assms
proof (induction ys arbitrary: buf i j)
  case Nil
  then have d: "drop i buf = SLIP_END # rest" by simp
  then have "i < length buf" by (metis drop_eq_Nil list.distinct(1) not_le)
  moreover have "buf ! i = SLIP_END" using d by (rule nth_via_drop)
  ultimately show ?case
    using Nil by (subst slip_decode_loop.simps) (simp add: load_in)
next
  case (Cons y ys)
  let ?e = "slip_escape y"
  define b where "b = buf[j := y]"
  have drop_e: "drop i buf = ?e @ concat (map slip_escape ys) @ SLIP_END # rest"
    using Cons.prems(1) by simp
  have len: "i + length ?e < length buf"
    using arg_cong [OF drop_e, of length] by simp
  have e_nth: "buf ! (i + k) = ?e ! k" if "k < length ?e" for k
  proof -
    have "buf ! (i + k) = drop i buf ! k" using len that by simp
    also have "\<dots> = ?e ! k" using that by (simp add: drop_e nth_append)
    finally show ?thesis .
  qed
  have e: "1 \<le> length ?e" using slip_escape_length [of y] by auto
  have step: "slip_decode_loop buf maxlen i j = slip_decode_loop b maxlen (i + length ?e) (j + 1)"
    using e_nth [of 0] e_nth [of 1] len Cons.prems
    by (subst slip_decode_loop.simps)
      (auto simp: slip_escape_def load_in store_in b_def slip_codes split: if_splits)
  have "drop (i + length ?e) b = drop (i + length ?e) buf"
    using Cons.prems(3) e by (simp add: b_def drop_update_cancel)
  also have "\<dots> = concat (map slip_escape ys) @ SLIP_END # rest"
    using arg_cong [OF drop_e, of "drop (length ?e)"] by (simp add: add.commute)
  finally obtain buf' where
    "slip_decode_loop b maxlen (i + length ?e) (j + 1) = Some (buf', j + 1 + length ys)"
    "length buf' = length b" "take (j + 1 + length ys) buf' = take (j + 1) b @ ys"
    using Cons.IH [of "i + length ?e" b "j + 1"] Cons.prems len e by (auto simp: b_def)
  moreover have "take (j + 1) b = take j buf @ [y]"
    using Cons.prems(3) len e by (simp add: b_def take_Suc_conv_app_nth)
  ultimately show ?case using step by (auto simp: b_def)
qed

lemma slip_decode_frame:
  assumes "length (slip_frame xs) \<le> maxlen"
  shows "\<exists>buf'. slip_decode (slip_frame xs @ rest) maxlen = Some (buf', length xs) \<and>
    length buf' = length (slip_frame xs @ rest) \<and> take (length xs) buf' = xs"
proof -
  let ?buf = "slip_frame xs @ rest"
  have "slip_decode ?buf maxlen = slip_decode_loop ?buf maxlen 1 0"
    unfolding slip_decode_def using assms slip_frame_length [of xs]
    by (subst slip_decode_loop.simps) (simp add: load_def slip_frame_def)
  moreover have "drop 1 ?buf = concat (map slip_escape xs) @ SLIP_END # rest"
    by (simp add: slip_frame_def)
  ultimately show ?thesis
    using slip_decode_loop_frame [of 1 ?buf xs rest 0 maxlen] assms
    by (auto simp: slip_frame_def)
qed

text \<open>
  On any input, escaped or not, the decoder stays within the first \<open>maxlen + 1\<close> bytes and
  never writes more than it has read.
\<close>

lemma slip_decode_loop_unfold:
  assumes "maxlen < length buf" and "j \<le> i" and "i < maxlen"
  shows "slip_decode_loop buf maxlen i j =
    (if buf ! i = SLIP_END then
       (if i \<noteq> 0 then Some (buf, j) else slip_decode_loop buf maxlen (i + 1) j)
     else if buf ! i = SLIP_ESC then
       (if buf ! (i + 1) = SLIP_ESC_END
        then slip_decode_loop (buf[j := SLIP_END]) maxlen (i + 2) (j + 1)
        else if buf ! (i + 1) = SLIP_ESC_ESC
        then slip_decode_loop (buf[j := SLIP_ESC]) maxlen (i + 2) (j + 1)
        else slip_decode_loop buf maxlen (i + 2) j)
     else slip_decode_loop (buf[j := buf ! i]) maxlen (i + 1) (j + 1))"
  using assms by (subst slip_decode_loop.simps) (simp add: load_in store_in)

lemma slip_decode_loop_total:
  assumes "maxlen < length buf" and "j \<le> i"
  shows "\<exists>buf' j'. slip_decode_loop buf maxlen i j = Some (buf', j') \<and>
    length buf' = length buf \<and> j' \<le> max j maxlen \<and> drop maxlen buf' = drop maxlen buf"
  using assms
proof (induction "maxlen - i" arbitrary: buf i j rule: less_induct)
  case less
  show ?case
  proof (cases "i < maxlen")
    case False
    then show ?thesis by (subst slip_decode_loop.simps) simp
  next
    case True
    define P where "P r \<longleftrightarrow> (\<exists>buf' j'. r = Some (buf', j') \<and> length buf' = length buf \<and>
        j' \<le> max j maxlen \<and> drop maxlen buf' = drop maxlen buf)" for r
    have IH: "P (slip_decode_loop (buf[j := x]) maxlen i' j1)"
      if "i < i'" "j1 \<le> i'" "j1 = j \<or> j1 = j + 1" for x i' j1
    proof -
      have "maxlen - i' < maxlen - i" using that True by simp
      from less.hyps [OF this, of "buf[j := x]" j1] show ?thesis
        unfolding P_def using that less.prems True by (auto simp: max_def)
    qed
    have IH0: "P (slip_decode_loop buf maxlen i' j)" if "i < i'" for i'
      using IH [of i' j "buf ! j"] that less.prems by simp
    have "P (Some (buf, j))" by (simp add: P_def)
    then have "P (slip_decode_loop buf maxlen i j)"
      unfolding slip_decode_loop_unfold [OF less.prems True]
      using less.prems by (simp add: IH IH0)
    then show ?thesis by (simp add: P_def)
  qed
qed

section \<open>Message detection\<close>

lemma is_slip_loop_spec:
  assumes "i < int (length buf)"
  shows "is_slip_loop buf i = Some (\<exists>k. 0 < k \<and> int k \<le> i \<and> buf ! k = SLIP_END)"
  using assms
proof (induction "nat i" arbitrary: i)
  case 0
  then show ?case by (subst is_slip_loop.simps) auto
next
  case (Suc n)
  then have i: "0 < i" "nat i < length buf" "n = nat (i - 1)" by auto
  have "is_slip_loop buf (i - 1) = Some (\<exists>k. 0 < k \<and> int k \<le> i - 1 \<and> buf ! k = SLIP_END)"
    using Suc.hyps(1) [OF i(3)] Suc.prems by simp
  moreover have "(\<exists>k. 0 < k \<and> int k \<le> i \<and> buf ! k = SLIP_END) \<longleftrightarrow>
      buf ! nat i = SLIP_END \<or> (\<exists>k. 0 < k \<and> int k \<le> i - 1 \<and> buf ! k = SLIP_END)"
  proof
    assume "\<exists>k. 0 < k \<and> int k \<le> i \<and> buf ! k = SLIP_END"
    then obtain k where k: "0 < k" "int k \<le> i" "buf ! k = SLIP_END" by blast
    then have "k = nat i \<or> int k \<le> i - 1" by auto
    with k show "buf ! nat i = SLIP_END \<or> (\<exists>k. 0 < k \<and> int k \<le> i - 1 \<and> buf ! k = SLIP_END)"
      by blast
  next
    assume "buf ! nat i = SLIP_END \<or> (\<exists>k. 0 < k \<and> int k \<le> i - 1 \<and> buf ! k = SLIP_END)"
    then show "\<exists>k. 0 < k \<and> int k \<le> i \<and> buf ! k = SLIP_END"
      using i(1) by (auto intro: exI [of _ "nat i"])
  qed
  ultimately show ?case
    using i by (subst is_slip_loop.simps) (simp add: load_in)
qed

section \<open>Properties\<close>

text \<open>
  C5: the encoder writes exactly the RFC 1055 frame of the first \<open>len\<close> bytes of the source
  followed by a zero byte, returns the frame's length, and needs a destination block longer
  than the frame: otherwise it writes outside it.
\<close>

theorem slip_encode_is_frame:
  assumes "len \<le> length src"
  shows "slip_encode src dest len =
    (let f = slip_frame (take len src) in
     if length f < length dest then Some (f @ [0] @ drop (Suc (length f)) dest, length f) else None)"
  using assms by (rule slip_encode_spec)

theorem slip_encode_is_frame_witness:
  "slip_encode [1, 0xC0, 0xDB] [9, 9, 9, 9, 9, 9, 9, 9, 0xFF] 3 =
     Some ([0xC0, 1, 0xDB, 0xDC, 0xDB, 0xDD, 0xC0, 0, 0xFF], 7)"
  using slip_encode_is_frame [of 3 "[1, 0xC0, 0xDB]" "[9, 9, 9, 9, 9, 9, 9, 9, 0xFF]"]
  by (simp add: slip_frame_def slip_escape_def slip_codes Let_def drop_Cons')

text \<open>
  C6: round trip. Decoding in place the block the encoder filled gives back the packet and its
  length, for every packet and every destination block of at least twice the packet's length
  plus three bytes.
\<close>

theorem slip_decode_encode:
  assumes "len \<le> length src" and "2 * len + 3 \<le> length dest"
  shows "\<exists>buf n buf'. slip_encode src dest len = Some (buf, n) \<and>
    slip_decode buf n = Some (buf', len) \<and> take len buf' = take len src \<and>
    length buf' = length dest"
proof -
  let ?f = "slip_frame (take len src)"
  have f: "length ?f < length dest"
    using slip_frame_length [of "take len src"] assms by simp
  show ?thesis
    using slip_decode_frame [of "take len src" "length ?f" "0 # drop (Suc (length ?f)) dest"] f assms
    by (auto simp: slip_encode_spec Let_def min_def)
qed

theorem slip_decode_encode_witness:
  "\<exists>buf n buf'. slip_encode [1, 0xC0, 0xDB] (replicate 9 0xFF) 3 = Some (buf, n) \<and>
    slip_decode buf n = Some (buf', 3) \<and> take 3 buf' = take 3 [1, 0xC0, 0xDB] \<and>
    length buf' = length (replicate 9 (0xFF :: byte))"
  by (rule slip_decode_encode) simp_all

text \<open>
  C7: on arbitrary received bytes the decoder terminates, touches no byte behind index
  \<open>maxlen\<close>, changes none from there on, and returns at most \<open>maxlen\<close>. The byte at index
  \<open>maxlen\<close> itself has to exist: a message that ends with an escape byte makes the decoder
  look at it.
\<close>

theorem slip_decode_bounded:
  assumes "maxlen < length buf"
  shows "\<exists>buf' n. slip_decode buf maxlen = Some (buf', n) \<and> n \<le> maxlen \<and>
    length buf' = length buf \<and> drop maxlen buf' = drop maxlen buf"
  using slip_decode_loop_total [OF assms, of 0 0] by (auto simp: slip_decode_def)

theorem slip_decode_bounded_witness:
  "\<exists>buf' n. slip_decode [0xC0, 7, 0xDB, 0] 3 = Some (buf', n) \<and> n \<le> 3 \<and>
    length buf' = length [0xC0, 7, 0xDB, 0 :: byte] \<and> drop 3 buf' = drop 3 [0xC0, 7, 0xDB, 0]"
  by (rule slip_decode_bounded) simp

text \<open>
  A chunk of received bytes counts as the end of a SLIP message exactly when an END byte
  stands at a position other than the first one; a chunk of one END byte does not.
\<close>

theorem is_slip_msg_iff:
  assumes "len \<le> int (length buf)"
  shows "is_slip_msg buf len = Some (\<exists>k. 0 < k \<and> int k < len \<and> buf ! k = SLIP_END) \<and>
    is_slip_msg [SLIP_END] 1 = Some False"
  using is_slip_loop_spec [of "len - 1" buf] is_slip_loop_spec [of 0 "[SLIP_END]"] assms
  by (auto simp: is_slip_msg_def)

theorem is_slip_msg_iff_witness: "is_slip_msg [0xC0, 7, 0xC0] 3 = Some True"
proof -
  have "\<exists>k>0. int k < 3 \<and> [0xC0, 7, 0xC0] ! k = SLIP_END"
    by (intro exI [of _ 2]) (simp add: SLIP_END_def)
  with is_slip_msg_iff [of 3 "[0xC0, 7, 0xC0]"] show ?thesis by simp
qed

end
