(* ===== verification/SampleRing.thy ===== *)
theory SampleRing
  imports Prelude Complex_Main
begin

text \<open>
  The block operations on samples of \<^verbatim>\<open>src/src/util.c\<close>: copies from and mixing
  into a circular sample buffer, circular shifts of a byte block, analysis windows, zero
  padding and the multiply-accumulate kernel of the partitioned convolution.

  A sample is a C \<^verbatim>\<open>float\<close> or \<^verbatim>\<open>double\<close>, here any type with the
  arithmetic operations the code applies; no law of arithmetic is assumed, so the results hold
  for floating-point numbers, in the order of operations of the code. \<open>unsigned long\<close> and
  \<open>size_t\<close> are 64-bit words. The blocks have fewer than \<open>2 ^ 60\<close> samples, so the byte counts
  of the copies do not wrap round and a copy is counted in samples.
\<close>

section \<open>Circular sample buffers\<close>

definition copy_from_ring_buffer ::
  "'a list \<Rightarrow> 'a list \<Rightarrow> u64 \<Rightarrow> u64 \<Rightarrow> u64 \<Rightarrow> 'a list option" where
  "copy_from_ring_buffer dest ring bufsize write_offset items =
     (if bufsize \<le> items then
        (if write_offset = 0 then memcpy dest 0 ring 0 (unat bufsize)
         else let last = bufsize - write_offset in do {
                dest \<leftarrow> memcpy dest 0 ring (unat write_offset) (unat last);
                memcpy dest (unat last) ring 0 (unat write_offset)
              })
      else if items < write_offset then
        memcpy dest 0 ring (unat (write_offset - items)) (unat items)
      else if write_offset = 0 then
        memcpy dest 0 ring (unat (bufsize - items)) (unat items)
      else let os2 = items - write_offset; os1 = bufsize - os2 in do {
        dest \<leftarrow> memcpy dest 0 ring (unat os1) (unat os2);
        memcpy dest (unat os2) ring 0 (unat write_offset)
      })"

text \<open>\<open>while (n--) *p++ += *q++;\<close>\<close>

primrec add_loop :: "'a::plus list \<Rightarrow> nat \<Rightarrow> 'a list \<Rightarrow> nat \<Rightarrow> nat \<Rightarrow> 'a list option" where
  "add_loop ring p src q 0 = Some ring"
| "add_loop ring p src q (Suc n) = do {
     x \<leftarrow> load ring p;
     y \<leftarrow> load src q;
     ring \<leftarrow> store ring p (x + y);
     add_loop ring (p + 1) src (q + 1) n
   }"

definition copy_to_ring_output_buffer ::
  "'a::plus list \<Rightarrow> 'a list \<Rightarrow> u64 \<Rightarrow> u64 \<Rightarrow> u64 \<Rightarrow> 'a list option" where
  "copy_to_ring_output_buffer ring src bufsize read_offset items =
     (let last = bufsize - read_offset; right = unat read_offset in
      if bufsize \<le> items then do {
        ring \<leftarrow> add_loop ring right src 0 (unat last);
        add_loop ring 0 src (unat last) (unat read_offset)
      }
      else if items \<le> last then add_loop ring right src 0 (unat items)
      else if read_offset = 0 then add_loop ring 0 src 0 (unat items)
      else let os2 = bufsize - read_offset; os1 = items - os2 in do {
        ring \<leftarrow> add_loop ring right src 0 (unat os2);
        add_loop ring 0 src (unat os2) (unat os1)
      })"

section \<open>Circular shifts of a byte block\<close>

text \<open>
  \<open>for (i = size; i > bytes; i--) *--rptr = *--lptr;\<close> The counter is an \<^verbatim>\<open>int\<close> that
  is converted to \<^verbatim>\<open>size_t\<close> for the comparison; a pointer that would move below the
  block ends in an access outside it, and a counter that would leave the range of
  \<^verbatim>\<open>int\<close> is undefined too: both are \<open>None\<close>.
\<close>

function rshift_loop :: "'a list \<Rightarrow> nat \<Rightarrow> nat \<Rightarrow> int \<Rightarrow> u64 \<Rightarrow> 'a list option" where
  "rshift_loop buf rptr lptr i bytes =
     (if (word_of_int i :: u64) > bytes then
        if lptr = 0 \<or> rptr = 0 \<or> i = - (2 ^ 31) then None
        else do {
          x \<leftarrow> load buf (lptr - 1);
          buf \<leftarrow> store buf (rptr - 1) x;
          rshift_loop buf (rptr - 1) (lptr - 1) (i - 1) bytes
        }
      else Some buf)"
  by pat_completeness auto
termination
  by (relation "measure (\<lambda>(buf, rptr, lptr, i, bytes). lptr)") auto

declare rshift_loop.simps [simp del]

definition circular_rshift ::
  "'a list \<Rightarrow> 'a list \<Rightarrow> u64 \<Rightarrow> u64 \<Rightarrow> ('a list \<times> 'a list) option" where
  "circular_rshift buf tmp bytes sz = do {
     tmp \<leftarrow> memcpy tmp 0 buf (unat (sz - bytes)) (unat bytes);
     buf \<leftarrow> rshift_loop buf (unat sz) (unat (sz - bytes)) (sint (ucast sz :: 32 word)) bytes;
     buf \<leftarrow> memcpy buf 0 tmp 0 (unat bytes);
     Some (buf, tmp)
   }"

text \<open>\<open>for (i = 0; i < size - bytes; i++) *lptr++ = *rptr++;\<close>\<close>

function lshift_loop :: "'a list \<Rightarrow> nat \<Rightarrow> nat \<Rightarrow> int \<Rightarrow> u64 \<Rightarrow> ('a list \<times> nat) option" where
  "lshift_loop buf lptr rptr i n =
     (if (word_of_int i :: u64) < n then
        (if rptr < length buf \<and> i < 2 ^ 31 - 1 then do {
           buf' \<leftarrow> store buf lptr (buf ! rptr);
           lshift_loop buf' (lptr + 1) (rptr + 1) (i + 1) n
         } else None)
      else Some (buf, lptr))"
  by pat_completeness auto
termination
  by (relation "measure (\<lambda>(buf, lptr, rptr, i, n). length buf - rptr)")
    (auto simp: store_def split: if_splits)

declare lshift_loop.simps [simp del]

definition circular_lshift ::
  "'a list \<Rightarrow> 'a list \<Rightarrow> u64 \<Rightarrow> u64 \<Rightarrow> ('a list \<times> 'a list) option" where
  "circular_lshift buf tmp bytes sz = do {
     tmp \<leftarrow> memcpy tmp 0 buf 0 (unat bytes);
     (buf, lptr) \<leftarrow> lshift_loop buf 0 (unat bytes) 0 (sz - bytes);
     buf \<leftarrow> memcpy buf lptr tmp 0 (unat bytes);
     Some (buf, tmp)
   }"

section \<open>Windows and padding\<close>

text \<open>\<open>for (i = 0; i < n; i++) buf[i] *= f(i);\<close> with the factor read from a window or constant.\<close>

primrec scale_loop :: "'a::times list \<Rightarrow> (nat \<Rightarrow> 'a option) \<Rightarrow> nat \<Rightarrow> nat \<Rightarrow> 'a list option" where
  "scale_loop buf f i 0 = Some buf"
| "scale_loop buf f i (Suc n) = do {
     x \<leftarrow> load buf i;
     y \<leftarrow> f i;
     buf \<leftarrow> store buf i (x * y);
     scale_loop buf f (i + 1) n
   }"

definition apply_window :: "'a::times list \<Rightarrow> 'a list \<Rightarrow> nat \<Rightarrow> 'a list option" where
  "apply_window buf win winsize = scale_loop buf (load win) 0 winsize"

definition apply_scaled_window :: "'a::times list \<Rightarrow> 'a list \<Rightarrow> nat \<Rightarrow> 'a \<Rightarrow> 'a list option" where
  "apply_scaled_window buf win winsize mult =
     scale_loop buf (\<lambda>i. do { w \<leftarrow> load win i; Some (w * mult) }) 0 winsize"

definition apply_scaled_rectwin :: "'a::times list \<Rightarrow> nat \<Rightarrow> 'a \<Rightarrow> 'a list option" where
  "apply_scaled_rectwin buf winsize mult = scale_loop buf (\<lambda>i. Some mult) 0 winsize"

definition apply_zero_padding :: "'a::zero list \<Rightarrow> nat \<Rightarrow> nat \<Rightarrow> 'a list option" where
  "apply_zero_padding buf offset sz =
     (if offset < sz then memset buf offset 0 (sz - offset) else Some buf)"

section \<open>The kernel of the partitioned convolution\<close>

text \<open>
  \<open>out\<close>, \<open>fdl\<close> and \<open>ir\<close> are three separate blocks of interleaved real and imaginary parts;
  \<open>f\<close>, \<open>q\<close> and \<open>i\<close> are the offsets of the pointers into them. The inner loop handles one
  partition of \<open>block_size\<close> samples, the outer one wraps the pointer into the frequency-domain
  delay line.
\<close>

function pconv_block ::
  "'a::{plus,minus,times} list \<Rightarrow> 'a list \<Rightarrow> nat \<Rightarrow> 'a list \<Rightarrow> nat \<Rightarrow> nat \<Rightarrow> nat
     \<Rightarrow> ('a list \<times> nat \<times> nat) option" where
  "pconv_block out fdl f ir q i block_size =
     (if i < block_size then do {
        f0 \<leftarrow> load fdl f; f1 \<leftarrow> load fdl (f + 1);
        i0 \<leftarrow> load ir q; i1 \<leftarrow> load ir (q + 1);
        x \<leftarrow> load out i;
        out \<leftarrow> store out i (x + (f0 * i0 - f1 * i1));
        y \<leftarrow> load out (i + 1);
        out \<leftarrow> store out (i + 1) (y + (f0 * i1 + f1 * i0));
        pconv_block out fdl (f + 2) ir (q + 2) (i + 2) block_size
      } else Some (out, f, q))"
  by pat_completeness auto
termination
  by (relation "measure (\<lambda>(out, fdl, f, ir, q, i, block_size). block_size - i)") auto

declare pconv_block.simps [simp del]

primrec pconv_loop ::
  "'a::{plus,minus,times} list \<Rightarrow> 'a list \<Rightarrow> nat \<Rightarrow> 'a list \<Rightarrow> nat \<Rightarrow> nat \<Rightarrow> nat \<Rightarrow> nat
     \<Rightarrow> 'a list option" where
  "pconv_loop out fdl f ir q fdl_size block_size 0 = Some out"
| "pconv_loop out fdl f ir q fdl_size block_size (Suc partitions) = do {
     (out, f, q) \<leftarrow> pconv_block out fdl f ir q 0 block_size;
     pconv_loop out fdl (if fdl_size \<le> f then 0 else f) ir q fdl_size block_size partitions
   }"

definition pconv_multiply_partitions ::
  "'a::{plus,minus,times,zero} list \<Rightarrow> 'a list \<Rightarrow> 'a list \<Rightarrow> nat \<Rightarrow> nat \<Rightarrow> nat \<Rightarrow> nat
     \<Rightarrow> 'a list option" where
  "pconv_multiply_partitions out fdl ir fdl_size fdl_read_head block_size partitions = do {
     out \<leftarrow> memset out 0 0 block_size;
     pconv_loop out fdl fdl_read_head ir 0 fdl_size block_size partitions
   }"

section \<open>Rectangular and polar form\<close>

text \<open>
  \<open>hyp\<close> and \<open>atan\<close> stand for \<^verbatim>\<open>hypot\<close> and \<^verbatim>\<open>atan2\<close> of the C library, \<open>co\<close> and \<open>si\<close> for
  \<^verbatim>\<open>cos\<close> and \<^verbatim>\<open>sin\<close>. The first argument of each loop is the block, the second one
  the offset of the pointer.
\<close>

record 'a sample_complex =
  real_part :: 'a
  imag_part :: 'a

record 'a sample_polar =
  mag :: 'a
  phase :: 'a

text \<open>A polar block is the same memory as a complex one.\<close>

definition as_polar :: "'a sample_complex \<Rightarrow> 'a sample_polar" where
  "as_polar z = \<lparr>mag = real_part z, phase = imag_part z\<rparr>"

definition as_complex :: "'a sample_polar \<Rightarrow> 'a sample_complex" where
  "as_complex z = \<lparr>real_part = mag z, imag_part = phase z\<rparr>"

primrec complex_to_polar ::
  "('a \<Rightarrow> 'a \<Rightarrow> 'a) \<Rightarrow> ('a \<Rightarrow> 'a \<Rightarrow> 'a) \<Rightarrow> 'a sample_complex list \<Rightarrow> nat \<Rightarrow> nat
     \<Rightarrow> 'a sample_complex list option" where
  "complex_to_polar hyp atan b p 0 = Some b"
| "complex_to_polar hyp atan b p (Suc n) = do {
     z \<leftarrow> load b p;
     b \<leftarrow> store b p
       \<lparr>real_part = hyp (real_part z) (imag_part z), imag_part = atan (imag_part z) (real_part z)\<rparr>;
     complex_to_polar hyp atan b (p + 1) n
   }"

primrec polar_to_complex ::
  "('a::times \<Rightarrow> 'a) \<Rightarrow> ('a \<Rightarrow> 'a) \<Rightarrow> 'a sample_polar list \<Rightarrow> nat \<Rightarrow> nat
     \<Rightarrow> 'a sample_polar list option" where
  "polar_to_complex co si b p 0 = Some b"
| "polar_to_complex co si b p (Suc n) = do {
     z \<leftarrow> load b p;
     b \<leftarrow> store b p \<lparr>mag = mag z * co (phase z), phase = mag z * si (phase z)\<rparr>;
     polar_to_complex co si b (p + 1) n
   }"

section \<open>Reading the latest samples\<close>

text \<open>
  The \<open>n\<close> latest samples of a circular buffer whose next write goes to offset \<open>w\<close>, oldest
  first.
\<close>

definition latest_samples :: "'a list \<Rightarrow> nat \<Rightarrow> nat \<Rightarrow> 'a list" where
  "latest_samples ring w n = ring_slice ring ((w + length ring - n) mod length ring) n"

lemma copy_from_ring_buffer_spec:
  assumes B: "length ring = unat bufsize" and w: "write_offset < bufsize"
    and n: "n = min (unat items) (unat bufsize)" and dest: "n \<le> length dest"
  shows "copy_from_ring_buffer dest ring bufsize write_offset items =
    Some (latest_samples ring (unat write_offset) n @ drop n dest)"
proof -
  have w': "unat write_offset < length ring" using w B by (simp add: word_less_nat_alt)
  consider (all) "bufsize \<le> items" | (left) "items < bufsize" "items < write_offset"
    | (zero) "items < bufsize" "write_offset \<le> items" "write_offset = 0"
    | (wrap) "items < bufsize" "write_offset \<le> items" "write_offset \<noteq> 0"
    by fastforce
  then show ?thesis
  proof cases
    case all
    then have nB: "n = length ring" using n B by (simp add: word_le_nat_alt)
    have last: "unat (bufsize - write_offset) = length ring - unat write_offset"
      using w' B by (simp add: unat_sub_if')
    have slice: "latest_samples ring (unat write_offset) n =
        drop (unat write_offset) ring @ take (unat write_offset) ring"
      using ring_slice_wrapped [of "unat write_offset" ring n] w' nB
      by (simp add: latest_samples_def)
    show ?thesis
    proof (cases "write_offset = 0")
      case True
      with all slice dest nB B show ?thesis
        by (simp add: copy_from_ring_buffer_def memcpy_in)
    next
      case False
      with all slice dest nB last w' show ?thesis
        by (simp add: copy_from_ring_buffer_def memcpy_in Let_def)
    qed
  next
    case left
    then have k: "n = unat items" "n < unat write_offset" using n B by (auto simp: word_less_nat_alt)
    then have "unat (write_offset - items) = unat write_offset - n"
      "(unat write_offset + length ring - n) mod length ring = unat write_offset - n"
      using w' by (simp_all add: unat_sub_if' le_mod_geq)
    with left dest w' k show ?thesis
      by (simp add: copy_from_ring_buffer_def latest_samples_def memcpy_in ring_slice_straight not_le)
  next
    case zero
    then have k: "n = unat items" "n < length ring" using n B by (auto simp: word_less_nat_alt)
    then have os: "unat (bufsize - items) = length ring - n" using B by (simp add: unat_sub_if')
    have "\<not> bufsize \<le> items" "\<not> items < write_offset" using zero by auto
    then have "copy_from_ring_buffer dest ring bufsize write_offset items =
        memcpy dest 0 ring (length ring - n) n"
      using zero k(1) unfolding copy_from_ring_buffer_def os by simp
    moreover have "latest_samples ring (unat write_offset) n = take n (drop (length ring - n) ring)"
      using k(2) \<open>write_offset = 0\<close> unfolding latest_samples_def
      by (cases "n = 0") (simp_all add: ring_slice_straight)
    ultimately show ?thesis using dest k(2) by (simp add: memcpy_in)
  next
    case wrap
    define wo where "wo = unat write_offset"
    have k: "n = unat items" "n < length ring" "wo \<le> n" "0 < wo" "wo < length ring"
      using wrap n w' B by (simp_all add: word_less_nat_alt word_le_nat_alt wo_def unat_gt_0)
    have "ring_slice ring ((wo + length ring - n) mod length ring) n =
        drop (length ring - (n - wo)) ring @ take wo ring"
    proof (cases "wo = n")
      case True
      then show ?thesis using k by (simp add: ring_slice_straight)
    next
      case False
      then have "(wo + length ring - n) mod length ring = wo + length ring - n" using k by simp
      then show ?thesis using k False ring_slice_wrapped [of "wo + length ring - n" ring n]
        by (simp add: add.commute)
    qed
    moreover have "unat (items - write_offset) = n - wo"
      "unat (bufsize - (items - write_offset)) = length ring - (n - wo)"
      using k B by (auto simp: unat_sub_if' wo_def)
    moreover have "\<not> bufsize \<le> items" "\<not> items < write_offset" using wrap by auto
    ultimately show ?thesis
      using wrap(3) dest k unfolding copy_from_ring_buffer_def latest_samples_def
      by (simp add: memcpy_in Let_def flip: wo_def)
  qed
qed

section \<open>Mixing into a circular buffer\<close>

lemma add_loop_spec:
  assumes "p + n \<le> length ring" and "q + n \<le> length src"
  shows "\<exists>r. add_loop ring p src q n = Some r \<and> length r = length ring \<and>
    (\<forall>i<length ring. r ! i = (if p \<le> i \<and> i < p + n then ring ! i + src ! (q + (i - p)) else ring ! i))"
  using assms
proof (induction n arbitrary: ring p q)
  case (Suc n)
  let ?r1 = "ring[p := ring ! p + src ! q]"
  obtain r where r: "add_loop ?r1 (p + 1) src (q + 1) n = Some r" "length r = length ring"
    "\<forall>i<length ring. r ! i = (if p + 1 \<le> i \<and> i < p + 1 + n
       then ?r1 ! i + src ! (q + 1 + (i - (p + 1))) else ?r1 ! i)"
    using Suc.IH [of "p + 1" ?r1 "q + 1"] Suc.prems by auto
  have "r ! i = (if p \<le> i \<and> i < p + Suc n then ring ! i + src ! (q + (i - p)) else ring ! i)"
    if "i < length ring" for i
    using r(3) that by (cases "i = p") (auto simp: nth_list_update Suc_diff_le Suc_diff_Suc)
  then show ?case
    using r(1,2) Suc.prems by (auto simp: load_in store_in)
qed auto

lemma copy_to_ring_spec:
  assumes B: "length ring = unat bufsize" and ro: "read_offset < bufsize"
    and n: "n = min (unat items) (unat bufsize)" and src: "n \<le> length src"
  shows "\<exists>r. copy_to_ring_output_buffer ring src bufsize read_offset items = Some r \<and>
    length r = length ring \<and>
    (\<forall>k<length ring. let i = (unat read_offset + k) mod length ring in
       r ! i = (if k < n then ring ! i + src ! k else ring ! i))"
proof -
  define B' where "B' = length ring"
  define o' where "o' = unat read_offset"
  have o': "o' < B'" using ro B by (simp add: B'_def o'_def word_less_nat_alt)
  have uB: "unat bufsize = B'" using B by (simp add: B'_def)
  have last: "unat (bufsize - read_offset) = B' - o'" using o' uB by (simp add: unat_sub_if' o'_def)
  let ?goal = "\<lambda>r. length r = length ring \<and>
    (\<forall>k<length ring. let i = (unat read_offset + k) mod length ring in
       r ! i = (if k < n then ring ! i + src ! k else ring ! i))"
  have one: ?thesis if le: "o' + n \<le> B'"
    and eq: "copy_to_ring_output_buffer ring src bufsize read_offset items = add_loop ring o' src 0 n"
  proof -
    obtain r where r: "add_loop ring o' src 0 n = Some r" "length r = length ring"
      "\<forall>i<length ring. r ! i = (if o' \<le> i \<and> i < o' + n then ring ! i + src ! (i - o') else ring ! i)"
    proof -
      have "o' + n \<le> length ring" "0 + n \<le> length src" using le src by (simp_all add: B'_def)
      from add_loop_spec [OF this] show ?thesis using that by (auto simp only: add_0)
    qed
    have "?goal r"
    proof (intro conjI allI impI)
      fix k assume k: "k < length ring"
      show "let i = (unat read_offset + k) mod length ring in
          r ! i = (if k < n then ring ! i + src ! k else ring ! i)"
        using r(3) k o' le
        by (cases "o' + k < B'") (auto simp: Let_def B'_def o'_def [symmetric] le_mod_geq)
    qed (rule r(2))
    then show ?thesis using eq r(1) by auto
  qed
  have two: ?thesis if ge: "B' \<le> o' + n" and nB: "n \<le> B'"
    and eq: "copy_to_ring_output_buffer ring src bufsize read_offset items =
      do { ring \<leftarrow> add_loop ring o' src 0 (B' - o'); add_loop ring 0 src (B' - o') (o' + n - B') }"
  proof -
    obtain r1 where r1: "add_loop ring o' src 0 (B' - o') = Some r1" "length r1 = length ring"
      "\<forall>i<length ring. r1 ! i = (if o' \<le> i \<and> i < o' + (B' - o') then ring ! i + src ! (i - o') else ring ! i)"
    proof -
      have "o' + (B' - o') \<le> length ring" "0 + (B' - o') \<le> length src"
        using ge o' src by (simp_all add: B'_def)
      from add_loop_spec [OF this] show ?thesis using that by (auto simp only: add_0)
    qed
    obtain r where r: "add_loop r1 0 src (B' - o') (o' + n - B') = Some r" "length r = length ring"
      "\<forall>i<length ring. r ! i = (if i < o' + n - B' then r1 ! i + src ! (B' - o' + i) else r1 ! i)"
    proof -
      have "0 + (o' + n - B') \<le> length r1" "B' - o' + (o' + n - B') \<le> length src"
        using ge nB o' src r1(2) by (simp_all add: B'_def)
      from add_loop_spec [OF this] show ?thesis using that r1(2) by (auto simp only: add_0 diff_zero le0 simp_thms)
    qed
    have "?goal r"
    proof (intro conjI allI impI)
      fix k assume k: "k < length ring"
      show "let i = (unat read_offset + k) mod length ring in
          r ! i = (if k < n then ring ! i + src ! k else ring ! i)"
        using r(3) r1(3) k o' ge nB
        by (cases "o' + k < B'") (auto simp: Let_def B'_def o'_def [symmetric] le_mod_geq)
    qed (rule r(2))
    then show ?thesis using eq r(1) r1(1) by auto
  qed
  show ?thesis
  proof (cases "o' + n \<le> B' \<and> \<not> bufsize \<le> items")
    case True
    then have "n = unat items" "items \<le> bufsize - read_offset"
      using n uB last by (auto simp: word_le_nat_alt)
    with True show ?thesis
      by (intro one) (auto simp: copy_to_ring_output_buffer_def Let_def o'_def)
  next
    case False
    show ?thesis
    proof (cases "bufsize \<le> items")
      case True
      then have "n = B'" using n uB by (simp add: word_le_nat_alt)
      with True show ?thesis
        by (intro two) (auto simp: copy_to_ring_output_buffer_def Let_def last o'_def [symmetric])
    next
      case F: False
      with False have k: "n = unat items" "n < B'" "B' < o' + n"
        using n uB by (auto simp: word_le_nat_alt)
      then have "\<not> items \<le> bufsize - read_offset" "read_offset \<noteq> 0"
        using last o' by (auto simp: word_le_nat_alt o'_def)
      moreover have "unat (items - (bufsize - read_offset)) = o' + n - B'"
        using k o' unfolding unat_sub_if' [of items "bufsize - read_offset"] last by auto
      ultimately show ?thesis
        using F k by (intro two) (auto simp: copy_to_ring_output_buffer_def Let_def last o'_def [symmetric])
    qed
  qed
qed

section \<open>Circular shifts rotate the block\<close>

lemma rshift_loop_spec:
  assumes "unat bytes \<le> i" and "i \<le> length buf" and "i < 2 ^ 31"
  shows "rshift_loop buf i (i - unat bytes) (int i) bytes =
    Some (take (unat bytes) buf @ take (i - unat bytes) buf @ drop i buf)"
  using assms
proof (induction i arbitrary: buf)
  case 0
  then have "bytes = 0" by (simp add: unat_eq_0)
  then show ?case by (simp add: rshift_loop.simps [of buf 0])
next
  case (Suc i)
  have conv: "(word_of_int (int (Suc i)) :: u64) > bytes \<longleftrightarrow> unat bytes < Suc i"
    using Suc.prems(3) take_bit_nat_eq_self [of "Suc i" 64]
    by (simp add: word_less_nat_alt unsigned_of_nat flip: of_nat_Suc)
  show ?case
  proof (cases "unat bytes < Suc i")
    case False
    with Suc.prems(1) have b: "unat bytes = Suc i" by simp
    show ?thesis using False conv unfolding b by (subst rshift_loop.simps) simp
  next
    case True
    let ?b = "unat bytes"
    let ?buf = "buf[i := buf ! (i - ?b)]"
    have pos: "Suc i - ?b = Suc (i - ?b)" using True by simp
    have "rshift_loop buf (Suc i) (Suc i - ?b) (int (Suc i)) bytes =
        rshift_loop ?buf i (i - ?b) (int i) bytes"
      using True conv Suc.prems unfolding pos
      by (subst rshift_loop.simps) (simp add: load_in store_in)
    also have "\<dots> = Some (take ?b ?buf @ take (i - ?b) ?buf @ drop i ?buf)"
      using True Suc.prems by (intro Suc.IH) auto
    also have "drop i ?buf = buf ! (i - ?b) # drop (Suc i) buf"
      using Suc.prems by (simp add: drop_update_swap Cons_nth_drop_Suc [symmetric])
    also have "take (i - ?b) ?buf @ buf ! (i - ?b) # drop (Suc i) buf =
        take (Suc i - ?b) buf @ drop (Suc i) buf"
      using True Suc.prems by (simp add: pos take_Suc_conv_app_nth)
    finally show ?thesis using True Suc.prems by simp
  qed
qed

lemma circular_rshift_spec:
  assumes "unat bytes \<le> length buf" and "unat sz = length buf" and "length buf < 2 ^ 31"
    and "unat bytes \<le> length tmp"
  shows "circular_rshift buf tmp bytes sz =
    Some (rotate (length buf - unat bytes) buf,
          drop (length buf - unat bytes) buf @ drop (unat bytes) tmp)"
proof -
  let ?b = "unat bytes" and ?n = "length buf"
  have d: "unat (sz - bytes) = ?n - ?b" using assms(1,2) by (simp add: unat_sub_if')
  have i: "sint (ucast sz :: 32 word) = int ?n"
    using assms(2,3) by (simp add: signed_ucast_eq uint_nat signed_take_bit_int_eq_self)
  have "rshift_loop buf ?n (?n - ?b) (int ?n) bytes = Some (take ?b buf @ take (?n - ?b) buf)"
    using rshift_loop_spec [of bytes ?n buf] assms by simp
  moreover have "rotate (?n - ?b) buf = drop (?n - ?b) buf @ take (?n - ?b) buf"
    using assms(1) by (cases "?b = 0") (simp_all add: rotate_drop_take)
  ultimately show ?thesis
    using assms by (simp add: circular_rshift_def memcpy_in d i)
qed

lemma lshift_loop_spec:
  assumes "j \<le> unat n" and "unat n + b = length buf" and "length buf < 2 ^ 31"
  shows "lshift_loop buf j (j + b) (int j) n =
    Some (take j buf @ take (unat n - j) (drop (j + b) buf) @ drop (unat n) buf, unat n)"
  using assms
proof (induction "unat n - j" arbitrary: j buf)
  case 0
  then have j: "unat n = j" by simp
  then have "\<not> (word_of_int (int j) :: u64) < n"
    using 0(4,3) take_bit_nat_eq_self [of j 64] by (simp add: word_less_nat_alt unsigned_of_nat)
  then show ?case using j by (subst lshift_loop.simps) simp
next
  case (Suc k)
  let ?buf = "buf[j := buf ! (j + b)]"
  have j: "j < unat n" "j + b < length buf" using Suc.hyps(2) Suc.prems by auto
  then have "(word_of_int (int j) :: u64) < n"
    using Suc.prems take_bit_nat_eq_self [of j 64] by (simp add: word_less_nat_alt unsigned_of_nat)
  then have "lshift_loop buf j (j + b) (int j) n = lshift_loop ?buf (Suc j) (Suc j + b) (int (Suc j)) n"
    using j Suc.prems by (subst lshift_loop.simps) (simp add: store_in add.commute)
  also have "\<dots> = Some (take (Suc j) ?buf @ take (unat n - Suc j) (drop (Suc j + b) ?buf) @ drop (unat n) ?buf, unat n)"
    using Suc.hyps(2) Suc.prems by (intro Suc.hyps(1)) auto
  also have "take (Suc j) ?buf = take j buf @ [buf ! (j + b)]"
    using j by (simp add: take_Suc_conv_app_nth)
  also have "drop (Suc j + b) ?buf = drop (Suc (j + b)) buf" by simp
  also have "drop (unat n) ?buf = drop (unat n) buf" using j by simp
  also have "(take j buf @ [buf ! (j + b)]) @ take (unat n - Suc j) (drop (Suc (j + b)) buf) @ drop (unat n) buf =
      take j buf @ take (unat n - j) (drop (j + b) buf) @ drop (unat n) buf"
    using j by (simp add: Cons_nth_drop_Suc [OF j(2), symmetric] take_Cons' )
  finally show ?case .
qed

lemma circular_lshift_spec:
  assumes "unat bytes \<le> length buf" and "unat sz = length buf" and "length buf < 2 ^ 31"
    and "unat bytes \<le> length tmp"
  shows "circular_lshift buf tmp bytes sz =
    Some (rotate (unat bytes) buf, take (unat bytes) buf @ drop (unat bytes) tmp)"
proof -
  let ?b = "unat bytes" and ?n = "length buf"
  have d: "unat (sz - bytes) = ?n - ?b" using assms(1,2) by (simp add: unat_sub_if')
  have "lshift_loop buf 0 ?b 0 (sz - bytes) = Some (drop ?b buf @ drop (?n - ?b) buf, ?n - ?b)"
    using lshift_loop_spec [of 0 "sz - bytes" ?b buf] assms(1,3) by (simp add: d)
  moreover have "rotate ?b buf = drop ?b buf @ take ?b buf"
    using assms(1) by (cases "?b = ?n") (simp_all add: rotate_drop_take)
  ultimately show ?thesis
    using assms by (simp add: circular_lshift_def memcpy_in)
qed

text \<open>
  Both circular shifts rotate the block, the right one by \<open>bytes\<close> to the right and the left one by
  \<open>bytes\<close> to the left, so that one undoes the other; the block may be as long as \<open>2 ^ 31 - 1\<close> bytes and the
  scratch block needs \<open>bytes\<close> bytes.
\<close>

theorem circular_shifts_rotate:
  assumes "unat bytes \<le> length buf" and "unat sz = length buf" and "length buf < 2 ^ 31"
    and "unat bytes \<le> length tmp"
  shows "map_option fst (circular_lshift buf tmp bytes sz) = Some (rotate (unat bytes) buf) \<and>
    map_option fst (circular_rshift buf tmp bytes sz) = Some (rotate (length buf - unat bytes) buf) \<and>
    do { (b, t) \<leftarrow> circular_rshift buf tmp bytes sz; circular_lshift b t bytes sz } =
      Some (buf, drop (length buf - unat bytes) buf @ drop (unat bytes) tmp)"
proof -
  let ?r = "rotate (length buf - unat bytes) buf"
  have "rotate (unat bytes) ?r = buf"
    using assms(1) by (simp add: rotate_rotate)
  moreover have "take (unat bytes) ?r = drop (length buf - unat bytes) buf"
    using assms(1) by (cases "unat bytes = 0") (simp_all add: rotate_drop_take)
  ultimately show ?thesis
    using assms circular_lshift_spec [of bytes ?r sz "drop (length buf - unat bytes) buf @ drop (unat bytes) tmp"]
    by (simp add: circular_lshift_spec circular_rshift_spec)
qed

theorem circular_shifts_rotate_witness:
  "map_option fst (circular_rshift [1, 2, 3, 4, 5 :: nat] [0, 0] 2 5) = Some [4, 5, 1, 2, 3] \<and>
   map_option fst (circular_lshift [1, 2, 3, 4, 5 :: nat] [0, 0] 2 5) = Some [3, 4, 5, 1, 2]"
  using circular_shifts_rotate [of 2 "[1, 2, 3, 4, 5 :: nat]" 5 "[0, 0]"]
  by (simp add: rotate_drop_take)

section \<open>The partitioned convolution\<close>

text \<open>
  The real (even \<open>x\<close>) or imaginary (odd \<open>x\<close>) part of the complex product of the bins at
  offset \<open>x\<close> of two interleaved blocks.
\<close>

definition cmul_at :: "'a::{plus,minus,times} list \<Rightarrow> nat \<Rightarrow> 'a list \<Rightarrow> nat \<Rightarrow> nat \<Rightarrow> 'a" where
  "cmul_at fdl f ir q x =
     (if even x then fdl ! (f + x) * ir ! (q + x) - fdl ! (f + x + 1) * ir ! (q + x + 1)
      else fdl ! (f + x - 1) * ir ! (q + x) + fdl ! (f + x) * ir ! (q + x - 1))"

lemma pconv_block_spec:
  assumes "even B" and "even i" and "i \<le> B" and "B \<le> length out"
    and "f + B \<le> length fdl" and "q + B \<le> length ir"
  shows "\<exists>r. pconv_block out fdl (f + i) ir (q + i) i B = Some (r, f + B, q + B) \<and>
    length r = length out \<and>
    (\<forall>x<length out. r ! x = (if i \<le> x \<and> x < B then out ! x + cmul_at fdl f ir q x else out ! x))"
  using assms
proof (induction "B - i" arbitrary: i out rule: less_induct)
  case less
  show ?case
  proof (cases "i < B")
    case False
    then show ?thesis using less.prems by (subst pconv_block.simps) auto
  next
    case True
    then have i2: "i + 2 \<le> B" using less.prems(1,2) by (elim evenE) simp
    let ?out = "out[i := out ! i + cmul_at fdl f ir q i,
                    i + 1 := out ! (i + 1) + cmul_at fdl f ir q (i + 1)]"
    obtain r where r: "pconv_block ?out fdl (f + (i + 2)) ir (q + (i + 2)) (i + 2) B = Some (r, f + B, q + B)"
      "length r = length ?out"
      "\<forall>x<length ?out. r ! x =
        (if i + 2 \<le> x \<and> x < B then ?out ! x + cmul_at fdl f ir q x else ?out ! x)"
    proof -
      have "B - (i + 2) < B - i" "even (i + 2)" "B \<le> length ?out" using less.prems i2 by auto
      then show ?thesis using less.hyps [of "i + 2" ?out] less.prems(1,5,6) i2 that by blast
    qed
    have "pconv_block out fdl (f + i) ir (q + i) i B =
        pconv_block ?out fdl (f + (i + 2)) ir (q + (i + 2)) (i + 2) B"
      using True i2 less.prems
      by (subst pconv_block.simps) (simp add: load_in store_in cmul_at_def)
    moreover have "r ! x = (if i \<le> x \<and> x < B then out ! x + cmul_at fdl f ir q x else out ! x)"
      if "x < length out" for x
    proof -
      consider "x < i" | "x = i" | "x = i + 1" | "i + 2 \<le> x" by linarith
      then show ?thesis using r(3) that i2 by cases auto
    qed
    ultimately show ?thesis using r(1,2) by auto
  qed
qed

lemma pconv_loop_spec:
  assumes "even B" and "0 < B" and "B \<le> length out"
    and "K * B \<le> length fdl" and "h < K" and "q + P * B \<le> length ir"
  shows "\<exists>r. pconv_loop out fdl (h * B) ir q (K * B) B P = Some r \<and> length r = length out \<and>
    (\<forall>x<length out. r ! x =
      (if x < B then foldl (\<lambda>s k. s + cmul_at fdl ((h + k) mod K * B) ir (q + k * B) x) (out ! x) [0..<P]
       else out ! x))"
  using assms
proof (induction P arbitrary: out h q)
  case (Suc P)
  have hB: "h * B + B \<le> K * B" using Suc.prems(5) mult_le_mono1 [of "Suc h" K B] by simp
  obtain r1 where r1: "pconv_block out fdl (h * B) ir q 0 B = Some (r1, h * B + B, q + B)"
    "length r1 = length out"
    "\<forall>x<length out. r1 ! x = (if x < B then out ! x + cmul_at fdl (h * B) ir q x else out ! x)"
    using pconv_block_spec [of B 0 out "h * B" fdl q ir] Suc.prems hB by auto
  define h' where "h' = Suc h mod K"
  have h': "h' < K" "(if K * B \<le> h * B + B then 0 else h * B + B) = h' * B"
    using Suc.prems(2,5) mult_le_cancel2 [of K B "Suc h"]
    by (auto simp: h'_def mod_Suc add.commute)
  have shift: "(h' + k) mod K = (h + Suc k) mod K" for k
    by (simp add: h'_def mod_add_left_eq)
  obtain r where r: "pconv_loop r1 fdl (h' * B) ir (q + B) (K * B) B P = Some r" "length r = length r1"
    "\<forall>x<length r1. r ! x = (if x < B
       then foldl (\<lambda>s k. s + cmul_at fdl ((h' + k) mod K * B) ir (q + B + k * B) x) (r1 ! x) [0..<P]
       else r1 ! x)"
    using Suc.IH [of r1 h' "q + B"] Suc.prems h'(1) r1(2) by (auto simp: algebra_simps)
  have "foldl (\<lambda>s k. s + cmul_at fdl ((h' + k) mod K * B) ir (q + B + k * B) x) (out ! x + cmul_at fdl (h * B) ir q x) [0..<P]
      = foldl (\<lambda>s k. s + cmul_at fdl ((h + k) mod K * B) ir (q + k * B) x) (out ! x) [0..<Suc P]" for x
    using Suc.prems(5)
    by (simp add: upt_conv_Cons shift foldl_map add.assoc flip: map_Suc_upt del: upt_Suc)
  then have "\<forall>x<length out. r ! x = (if x < B
       then foldl (\<lambda>s k. s + cmul_at fdl ((h + k) mod K * B) ir (q + k * B) x) (out ! x) [0..<Suc P]
       else out ! x)"
    using r(3) r1(2,3) by auto
  then show ?case using r(1,2) r1(1,2) h'(2) by simp
qed simp

text \<open>
  C10. For a delay line of \<open>K\<close> partitions and a read head on the partition \<open>h\<close>, the kernel stays inside
  its three blocks and leaves in the bin at offset \<open>x\<close> the sum, taken in this order and starting from zero, of
  the complex products of the partition \<open>(h + k) mod K\<close> of the delay line with the partition \<open>k\<close> of the
  impulse response; the output behind the block is unchanged.
\<close>

theorem pconv_multiply_partitions_correct:
  fixes out :: "'a::{plus,minus,times,zero} list"
  assumes "even B" and "0 < B" and "B \<le> length out"
    and "K * B \<le> length fdl" and "h < K" and "P * B \<le> length ir"
  shows "\<exists>r. pconv_multiply_partitions out fdl ir (K * B) (h * B) B P = Some r \<and>
    length r = length out \<and>
    (\<forall>x<B. r ! x = foldl (\<lambda>s k. s + cmul_at fdl ((h + k) mod K * B) ir (k * B) x) 0 [0..<P]) \<and>
    drop B r = drop B out"
proof -
  let ?out = "replicate B (0 :: 'a) @ drop B out"
  have len: "length ?out = length out" using assms(3) by simp
  obtain r where r: "pconv_loop ?out fdl (h * B) ir 0 (K * B) B P = Some r" "length r = length out"
    "\<forall>x<length out. r ! x = (if x < B
      then foldl (\<lambda>s k. s + cmul_at fdl ((h + k) mod K * B) ir (0 + k * B) x) (?out ! x) [0..<P]
      else ?out ! x)"
    using pconv_loop_spec [of B ?out K fdl h 0 P ir] assms unfolding len by auto
  have "drop B r = drop B out"
    using r(2,3) by (intro nth_equalityI) (auto simp: nth_append)
  moreover have "r ! x = foldl (\<lambda>s k. s + cmul_at fdl ((h + k) mod K * B) ir (k * B) x) 0 [0..<P]"
    if "x < B" for x
    using r(3) that assms(3) by (simp add: nth_append)
  moreover have "pconv_multiply_partitions out fdl ir (K * B) (h * B) B P = Some r"
    using r(1) assms(3) by (simp add: pconv_multiply_partitions_def memset_in)
  ultimately show ?thesis using r(2) by blast
qed

theorem pconv_multiply_partitions_correct_witness:
  "\<exists>r. pconv_multiply_partitions [9, 9 :: int] [1, 2, 3, 4] [5, 6, 7, 8] (2 * 2) (1 * 2) 2 2 = Some r \<and>
    (\<forall>x<2. r ! x = foldl (\<lambda>s k. s + cmul_at [1, 2, 3, 4] ((1 + k) mod 2 * 2) [5, 6, 7, 8] (k * 2) x) 0 [0..<2])"
  using pconv_multiply_partitions_correct [of 2 "[9, 9 :: int]" 2 "[1, 2, 3, 4]" 1 2 "[5, 6, 7, 8]"]
  by auto

section \<open>Copies, mixing and windows\<close>

text \<open>
  C9. \<open>copy_from_ring_buffer\<close> delivers the latest \<open>min items bufsize\<close> samples of the circular buffer,
  oldest first, at the start of the destination, and touches nothing else.
\<close>

theorem copy_from_ring_buffer_latest:
  assumes "length ring = unat bufsize" and "write_offset < bufsize"
    and "min (unat items) (unat bufsize) \<le> length dest" 
  shows "copy_from_ring_buffer dest ring bufsize write_offset items =
    Some (latest_samples ring (unat write_offset) (min (unat items) (unat bufsize)) @
          drop (min (unat items) (unat bufsize)) dest)"
  using assms by (intro copy_from_ring_buffer_spec) simp_all

theorem copy_from_ring_buffer_latest_witness:
  "copy_from_ring_buffer [0, 0, 0, 0, 0 :: nat] [10, 11, 12, 13] 4 1 3 = Some [12, 13, 10, 0, 0]"
  using copy_from_ring_buffer_latest [of "[10, 11, 12, 13 :: nat]" 4 1 3 "[0, 0, 0, 0, 0]"]
  by (simp add: latest_samples_def ring_slice_def upt_rec)

text \<open>
  \<open>copy_to_ring_output_buffer\<close> adds the first \<open>min items bufsize\<close> samples of the source to the
  samples of the circular buffer from the read offset on, wrapping round, each slot at most once, and leaves the
  other slots as they are.
\<close>

theorem copy_to_ring_output_buffer_mixes:
  assumes "length ring = unat bufsize" and "read_offset < bufsize"
    and "min (unat items) (unat bufsize) \<le> length src"
  shows "\<exists>r. copy_to_ring_output_buffer ring src bufsize read_offset items = Some r \<and>
    length r = length ring \<and>
    (\<forall>k<length ring. let i = (unat read_offset + k) mod length ring in
       r ! i = (if k < min (unat items) (unat bufsize) then ring ! i + src ! k else ring ! i))"
  using assms by (intro copy_to_ring_spec) simp_all

theorem copy_to_ring_output_buffer_mixes_witness:
  "\<exists>r. copy_to_ring_output_buffer [10, 20, 30, 40 :: nat] [1, 2, 3] 4 2 3 = Some r \<and>
    (\<forall>k<4. let i = (2 + k) mod 4 in
       r ! i = (if k < 3 then [10, 20, 30, 40] ! i + [1, 2, 3] ! k else [10, 20, 30, 40] ! i))"
  using copy_to_ring_output_buffer_mixes [of "[10, 20, 30, 40 :: nat]" 4 2 3 "[1, 2, 3]"]
  by (auto simp: Let_def)

lemma scale_loop_spec:
  assumes "\<And>x. i \<le> x \<Longrightarrow> x < i + n \<Longrightarrow> f x = Some (g x)" and "i + n \<le> length buf"
  shows "scale_loop buf f i n =
    Some (take i buf @ map (\<lambda>x. buf ! x * g x) [i..<i + n] @ drop (i + n) buf)"
  using assms
proof (induction n arbitrary: buf i)
  case (Suc n)
  let ?buf = "buf[i := buf ! i * g i]"
  have "scale_loop buf f i (Suc n) = scale_loop ?buf f (i + 1) n"
    using Suc.prems by (simp add: load_in store_in)
  also have "\<dots> = Some (take (i + 1) ?buf @ map (\<lambda>x. ?buf ! x * g x) [i + 1..<i + 1 + n] @ drop (i + 1 + n) ?buf)"
    using Suc.prems by (intro Suc.IH) auto
  also have "take (i + 1) ?buf = take i buf @ [buf ! i * g i]"
    using Suc.prems by (simp add: take_Suc_conv_app_nth)
  finally show ?case using Suc.prems by (simp add: upt_conv_Cons del: upt_Suc)
qed simp

text \<open>
  The analysis windows multiply exactly the first \<open>winsize\<close> samples by the window, by the scaled
  window or by the constant, and zero padding clears exactly the samples from the offset up to the size; all
  other samples keep their value.
\<close>

theorem windows_functional:
  fixes buf win :: "'a::{times,zero} list"
  assumes "n \<le> length buf" and "n \<le> length win"
  shows "apply_window buf win n = Some (map (\<lambda>x. buf ! x * win ! x) [0..<n] @ drop n buf) \<and>
    apply_scaled_window buf win n c = Some (map (\<lambda>x. buf ! x * (win ! x * c)) [0..<n] @ drop n buf) \<and>
    apply_scaled_rectwin buf n c = Some (map (\<lambda>x. buf ! x * c) [0..<n] @ drop n buf) \<and>
    apply_zero_padding buf k n = Some (take k buf @ replicate (n - k) 0 @ drop (max k n) buf)"
proof -
  have "apply_zero_padding buf k n = Some (take k buf @ replicate (n - k) 0 @ drop (max k n) buf)"
    using assms(1) by (cases "k < n") (auto simp: apply_zero_padding_def memset_in max_def)
  then show ?thesis
    using assms
      scale_loop_spec [of 0 n "load win" "\<lambda>x. win ! x" buf]
      scale_loop_spec [of 0 n "\<lambda>i. do { w \<leftarrow> load win i; Some (w * c) }" "\<lambda>x. win ! x * c" buf]
      scale_loop_spec [of 0 n "\<lambda>i. Some c" "\<lambda>x. c" buf]
    by (simp add: apply_window_def apply_scaled_window_def apply_scaled_rectwin_def load_in)
qed

theorem windows_functional_witness:
  "apply_window [1, 2, 3 :: nat] [4, 5] 2 = Some [4, 10, 3] \<and>
   apply_zero_padding [1, 2, 3 :: nat] 1 2 = Some [1, 0, 3]"
  using windows_functional [of 2 "[1, 2, 3 :: nat]" "[4, 5]" 0 1] by (simp add: upt_rec)

lemma complex_to_polar_spec:
  assumes "p + n \<le> length b"
  shows "complex_to_polar hyp atan b p n =
    Some (take p b @
      map (\<lambda>z. \<lparr>real_part = hyp (real_part z) (imag_part z), imag_part = atan (imag_part z) (real_part z)\<rparr>)
        (take n (drop p b)) @ drop (p + n) b)"
  using assms
  by (induction n arbitrary: b p)
    (simp_all add: load_in store_in take_Suc_conv_app_nth Cons_nth_drop_Suc [symmetric])

lemma polar_to_complex_spec:
  assumes "p + n \<le> length b"
  shows "polar_to_complex co si b p n =
    Some (take p b @ map (\<lambda>z. \<lparr>mag = mag z * co (phase z), phase = mag z * si (phase z)\<rparr>)
        (take n (drop p b)) @ drop (p + n) b)"
  using assms
  by (induction n arbitrary: b p)
    (simp_all add: load_in store_in take_Suc_conv_app_nth Cons_nth_drop_Suc [symmetric])

text \<open>
  In exact arithmetic, with \<^verbatim>\<open>hypot\<close>, \<^verbatim>\<open>atan2\<close>, \<^verbatim>\<open>cos\<close> and \<^verbatim>\<open>sin\<close> the real
  functions of these names, the destructive conversion to polar form followed by the one back restores the block.
\<close>

theorem polar_roundtrip:
  fixes b :: "real sample_complex list"
  assumes "n \<le> length b"
  shows "do {
    r \<leftarrow> complex_to_polar (\<lambda>x y. sqrt (x\<^sup>2 + y\<^sup>2)) (\<lambda>y x. Arg (Complex x y)) b 0 n;
    polar_to_complex cos sin (map as_polar r) 0 n } = Some (map as_polar b)"
proof -
  have pt: "sqrt (x\<^sup>2 + y\<^sup>2) * cos (Arg (Complex x y)) = x \<and>
      sqrt (x\<^sup>2 + y\<^sup>2) * sin (Arg (Complex x y)) = y" for x y
    using rcis_cmod_Arg [of "Complex x y"] by (simp add: complex_eq_iff complex_norm)
  then have "do {
      r \<leftarrow> complex_to_polar (\<lambda>x y. sqrt (x\<^sup>2 + y\<^sup>2)) (\<lambda>y x. Arg (Complex x y)) b 0 n;
      polar_to_complex cos sin (map as_polar r) 0 n } =
    Some (map as_polar (take n b) @ map as_polar (drop n b))"
    using assms
    by (simp add: complex_to_polar_spec polar_to_complex_spec as_polar_def [abs_def] o_def take_map drop_map)
  then show ?thesis by (simp flip: map_append)
qed

theorem polar_roundtrip_witness:
  "do {
    r \<leftarrow> complex_to_polar (\<lambda>x y. sqrt (x\<^sup>2 + y\<^sup>2)) (\<lambda>y x. Arg (Complex x y))
      [\<lparr>real_part = 3, imag_part = 4\<rparr>] 0 1;
    polar_to_complex cos sin (map as_polar r) 0 1 } = Some [\<lparr>mag = 3, phase = 4 :: real\<rparr>]"
  using polar_roundtrip [of 1 "[\<lparr>real_part = 3, imag_part = 4\<rparr>]"] by (simp add: as_polar_def)

end
