(* ===== verification/MidiTuning.thy ===== *)
theory MidiTuning
  imports Prelude Complex_Main
begin

text \<open>
  The MIDI bulk tuning dump readers of \<^verbatim>\<open>src/src/util.c\<close>: \<^verbatim>\<open>set_freqs_from_midi\<close> walks over an array
  of PortMidi events (four message bytes, four time stamp bytes), \<^verbatim>\<open>set_freqs_from_midi_data_format\<close>
  over a plain block of three-byte words. The \<^verbatim>\<open>float\<close> variants \<^verbatim>\<open>set_ffreqs_from_midi\<close> and
  \<^verbatim>\<open>set_ffreqs_from_midi_data_format\<close> have the same text with another sample type.

  Frequencies are real numbers (the rounding of the sample type is not modelled), blocks are lists
  with checked accesses, and the pointers and indices are offsets.
\<close>

section \<open>Frequency data\<close>

text \<open>The frequency of a 21-bit word: a semitone and a fraction of \<open>1 / 2 ^ 14\<close> semitones.\<close>

definition tuning_freq :: "byte \<Rightarrow> byte \<Rightarrow> byte \<Rightarrow> real" where
  "tuning_freq x y z =
     8.1758 * 2 powr ((real (unat x) + real (push_bit 7 (unat y) OR unat z) / 2 ^ 14) / 12)"

text \<open>
  The macro \<^verbatim>\<open>update_tuning_freq\<close>. Its argument \<open>i\<close> is used where the macro text uses it: \<open>post\<close> is 1
  where the caller passes \<^verbatim>\<open>j++\<close> and 0 where it passes \<^verbatim>\<open>j\<close>, so \<open>j\<close> only advances when a frequency is
  stored. \<open>Inl\<close> is the early return, with the returned index.
\<close>

definition update_tuning_freq ::
  "byte list \<Rightarrow> real list \<Rightarrow> nat \<Rightarrow> nat \<Rightarrow> nat \<Rightarrow> nat \<Rightarrow> nat
     \<Rightarrow> (nat \<times> real list + real list \<times> nat) option" where
  "update_tuning_freq ev freqs j post x y z = do {
     a \<leftarrow> load ev x; b \<leftarrow> load ev y; c \<leftarrow> load ev z;
     if (a OR b OR c) AND 0x80 \<noteq> 0 then Some (Inl (j, freqs))
     else if a AND b AND c \<noteq> 0x7f then do {
       freqs \<leftarrow> store freqs j (tuning_freq a b c);
       Some (Inr (freqs, j + post))
     }
     else Some (Inr (freqs, j))
   }"

text \<open>Sequencing of updates with the early return of the macro.\<close>

definition and_then ::
  "(nat \<times> real list + real list \<times> nat) option
     \<Rightarrow> (real list \<Rightarrow> nat \<Rightarrow> (nat \<times> real list) option) \<Rightarrow> (nat \<times> real list) option" where
  "and_then r k = (case r of None \<Rightarrow> None
     | Some (Inl ret) \<Rightarrow> Some ret
     | Some (Inr (freqs, j)) \<Rightarrow> k freqs j)"

lemma and_then_simps [simp]:
  "and_then None k = None"
  "and_then (Some (Inl ret)) k = Some ret"
  "and_then (Some (Inr (freqs, j))) k = k freqs j"
  by (simp_all add: and_then_def)

lemma and_then_cong [fundef_cong]:
  "r = r' \<Longrightarrow> (\<And>freqs j. r' = Some (Inr (freqs, j)) \<Longrightarrow> k freqs j = k' freqs j) \<Longrightarrow>
   and_then r k = and_then r' k'"
  by (auto simp: and_then_def split: option.splits sum.splits)

lemma update_mono:
  "update_tuning_freq ev freqs j post x y z = Some (Inr (freqs', j')) \<Longrightarrow> j \<le> j'"
  by (auto simp: update_tuning_freq_def split: bind_splits if_splits)

section \<open>PortMidi events\<close>

text \<open>The loop of \<^verbatim>\<open>set_freqs_from_midi\<close>; a cycle reads four notes from three events.\<close>

function freqs_loop :: "byte list \<Rightarrow> real list \<Rightarrow> nat \<Rightarrow> nat \<Rightarrow> nat \<Rightarrow> (nat \<times> real list) option" where
  "freqs_loop ev freqs x i j =
     (if j < 128 then
        and_then (update_tuning_freq ev freqs j 1 x (x + 1) i) (\<lambda>freqs j1.
        and_then (update_tuning_freq ev freqs j1 1 (i + 1) (i + 2) (i + 3)) (\<lambda>freqs j2.
        and_then (update_tuning_freq ev freqs j2 1 (i + 8) (i + 9) (i + 10)) (\<lambda>freqs j3.
        and_then (update_tuning_freq ev freqs j3 0 (i + 11) (i + 16) (i + 17)) (\<lambda>freqs j4.
          freqs_loop ev freqs (i + 18) (i + 24) (j4 + 1)))))
      else Some (0, freqs))"
  by pat_completeness auto
termination
  by (relation "measure (\<lambda>(ev, freqs, x, i, j). 128 - j)") (auto dest!: update_mono)

declare freqs_loop.simps [simp del]

text \<open>The name: 16 characters and the terminating zero.\<close>

function name_loop :: "byte list \<Rightarrow> byte list \<Rightarrow> nat \<Rightarrow> nat \<Rightarrow> byte list option" where
  "name_loop ev name i j =
     (if j < 16 then
        let i = (if j mod 4 = 6 mod 4 then i + 4 else i) in do {
          c \<leftarrow> load ev i;
          name \<leftarrow> store name j c;
          name_loop ev name (i + 1) (j + 1)
        }
      else store name j 0)"
  by pat_completeness auto
termination
  by (relation "measure (\<lambda>(ev, name, i, j). 16 - j)") auto

declare name_loop.simps [simp del]

definition set_freqs_from_midi ::
  "byte list \<Rightarrow> real list \<Rightarrow> byte list \<Rightarrow> (nat \<times> real list \<times> byte list) option" where
  "set_freqs_from_midi ev freqs name = do {
     name \<leftarrow> name_loop ev name (6 + 4) 0;
     (let x = 22 * 2 - 22 mod 4 in do {
        (ret, freqs) \<leftarrow> freqs_loop ev freqs x (x + 2 + 4) 0;
        Some (ret, freqs, name)
      })
   }"

definition set_ffreqs_from_midi :: "byte list \<Rightarrow> real list \<Rightarrow> (nat \<times> real list) option" where
  "set_ffreqs_from_midi ev freqs =
     (let x = 22 * 2 - 22 mod 4 in freqs_loop ev freqs x (x + 2 + 4) 0)"

section \<open>Plain frequency data\<close>

text \<open>
  The loop of \<^verbatim>\<open>set_freqs_from_midi_data_format\<close>; \<open>d\<close> is the offset of the pointer. It is moved over
  the third byte of a word only when a frequency is stored. The counter is an \<^verbatim>\<open>int\<close>, so a block of more than
  \<open>2 ^ 31 - 1\<close> words is not representable.
\<close>

function data_loop :: "byte list \<Rightarrow> real list \<Rightarrow> nat \<Rightarrow> nat \<Rightarrow> u32 \<Rightarrow> (nat \<times> real list) option" where
  "data_loop data freqs d i n =
     (if i < unat n then do {
        x \<leftarrow> load data d; y \<leftarrow> load data (d + 1); z \<leftarrow> load data (d + 2);
        if (x OR y OR z) AND 0x80 \<noteq> 0 then Some (i, freqs)
        else if i = 2 ^ 31 - 1 then None
        else if x AND y AND z = 0x7f then data_loop data freqs (d + 2) (i + 1) n
        else do {
          freqs \<leftarrow> store freqs i (tuning_freq x y z);
          data_loop data freqs (d + 3) (i + 1) n
        }
      } else Some (0, freqs))"
  by pat_completeness auto
termination
  by (relation "measure (\<lambda>(data, freqs, d, i, n). unat n - i)") auto

declare data_loop.simps [simp del]

definition set_freqs_from_midi_data_format ::
  "real list \<Rightarrow> byte list \<Rightarrow> u32 \<Rightarrow> (nat \<times> real list) option" where
  "set_freqs_from_midi_data_format freqs data n = data_loop data freqs 0 0 n"

definition set_ffreqs_from_midi_data_format ::
  "real list \<Rightarrow> byte list \<Rightarrow> u32 \<Rightarrow> (nat \<times> real list) option" where
  "set_ffreqs_from_midi_data_format freqs data n = data_loop data freqs 0 0 n"

section \<open>The message behind the events\<close>

text \<open>Byte \<open>k\<close> of the message is at offset \<open>pm_pos k\<close> of the event array.\<close>

definition pm_pos :: "nat \<Rightarrow> nat" where
  "pm_pos k = k div 4 * 8 + k mod 4"

text \<open>The three bytes of note \<open>n\<close>, from a reader of message bytes.\<close>

definition word_valid :: "(nat \<Rightarrow> byte) \<Rightarrow> nat \<Rightarrow> bool" where
  "word_valid m k \<longleftrightarrow> (m k OR m (k + 1) OR m (k + 2)) AND 0x80 = 0"

definition word_changes :: "(nat \<Rightarrow> byte) \<Rightarrow> nat \<Rightarrow> bool" where
  "word_changes m k \<longleftrightarrow> m k AND m (k + 1) AND m (k + 2) \<noteq> 0x7f"

definition word_freq :: "(nat \<Rightarrow> byte) \<Rightarrow> nat \<Rightarrow> real" where
  "word_freq m k = tuning_freq (m k) (m (k + 1)) (m (k + 2))"

abbreviation pm_byte :: "byte list \<Rightarrow> nat \<Rightarrow> byte" where
  "pm_byte ev k \<equiv> ev ! pm_pos k"

text \<open>The offsets of the words of the group \<open>g\<close> of four notes.\<close>

lemma pm_pos_shift: "pm_pos (k + 12 * g) = pm_pos k + 24 * g"
  using div_mult_self2 [of 4 k "3 * g"] mod_mult_self2 [of k 4 "3 * g"] by (simp add: pm_pos_def)

lemma pm_pos_shift_1: "pm_pos (k + 12 * g + 1) = pm_pos (k + 1) + 24 * g"
  using pm_pos_shift [of "k + 1" g] by (simp only: add.assoc add.commute [of 1])

lemma pm_pos_shift_2: "pm_pos (k + 12 * g + 2) = pm_pos (k + 2) + 24 * g"
  using pm_pos_shift [of "k + 2" g] by (simp only: add.assoc add.commute [of 2])

lemma pm_pos_group:
  "pm_pos (22 + 12 * g) = 42 + 24 * g" "pm_pos (22 + 12 * g + 1) = 42 + 24 * g + 1"
  "pm_pos (22 + 12 * g + 2) = 48 + 24 * g"
  "pm_pos (25 + 12 * g) = 48 + 24 * g + 1" "pm_pos (25 + 12 * g + 1) = 48 + 24 * g + 2"
  "pm_pos (25 + 12 * g + 2) = 48 + 24 * g + 3"
  "pm_pos (28 + 12 * g) = 48 + 24 * g + 8" "pm_pos (28 + 12 * g + 1) = 48 + 24 * g + 9"
  "pm_pos (28 + 12 * g + 2) = 48 + 24 * g + 10"
  "pm_pos (31 + 12 * g) = 48 + 24 * g + 11" "pm_pos (31 + 12 * g + 1) = 48 + 24 * g + 16"
  "pm_pos (31 + 12 * g + 2) = 48 + 24 * g + 17"
  unfolding pm_pos_shift pm_pos_shift_1 pm_pos_shift_2 by (simp_all add: pm_pos_def)

lemma pm_pos_mono: "j \<le> k \<Longrightarrow> pm_pos j \<le> pm_pos k"
proof -
  assume "j \<le> k"
  have "pm_pos n = n + 4 * (n div 4)" for n
    using mult_div_mod_eq [of 4 n] by (simp add: pm_pos_def)
  then show ?thesis using \<open>j \<le> k\<close> div_le_mono [OF \<open>j \<le> k\<close>, of 4] by simp
qed

lemma pm_pos_Suc: "pm_pos (Suc m) = pm_pos m + (if m mod 4 = 3 then 5 else 1)"
  using mult_div_mod_eq [of 4 m] by (simp add: pm_pos_def mod_Suc div_Suc)

text \<open>The update for the word at byte \<open>k\<close> of the message.\<close>

definition word_update :: "byte list \<Rightarrow> real list \<Rightarrow> nat \<Rightarrow> nat \<Rightarrow> nat
     \<Rightarrow> (nat \<times> real list + real list \<times> nat) option" where
  "word_update ev freqs j post k =
     update_tuning_freq ev freqs j post (pm_pos k) (pm_pos (k + 1)) (pm_pos (k + 2))"

lemma word_update_eq:
  assumes "pm_pos (k + 2) < length ev" and "j < length freqs"
  shows "word_update ev freqs j post k =
    Some (if \<not> word_valid (pm_byte ev) k then Inl (j, freqs)
      else if word_changes (pm_byte ev) k then Inr (freqs[j := word_freq (pm_byte ev) k], j + post)
      else Inr (freqs, j))"
  using assms pm_pos_mono [of k "k + 2"] pm_pos_mono [of "k + 1" "k + 2"]
  by (simp add: word_update_def update_tuning_freq_def load_in store_in word_valid_def
      word_changes_def word_freq_def)

lemma freqs_loop_group:
  "freqs_loop ev freqs (42 + 24 * g) (48 + 24 * g) j =
     (if j < 128 then
        and_then (word_update ev freqs j 1 (22 + 12 * g)) (\<lambda>freqs j1.
        and_then (word_update ev freqs j1 1 (25 + 12 * g)) (\<lambda>freqs j2.
        and_then (word_update ev freqs j2 1 (28 + 12 * g)) (\<lambda>freqs j3.
        and_then (word_update ev freqs j3 0 (31 + 12 * g)) (\<lambda>freqs j4.
          freqs_loop ev freqs (42 + 24 * Suc g) (48 + 24 * Suc g) (j4 + 1)))))
      else Some (0, freqs))"
proof -
  have next_group: "42 + 24 * Suc g = 48 + 24 * g + 18" "48 + 24 * Suc g = 48 + 24 * g + 24" by simp_all
  show ?thesis
    unfolding word_update_def pm_pos_group next_group by (subst freqs_loop.simps) (rule refl)
qed

section \<open>Complete dumps\<close>

text \<open>The slots \<open>a\<close> to \<open>b - 1\<close> filled from \<open>f\<close>.\<close>

definition fill :: "real list \<Rightarrow> (nat \<Rightarrow> real) \<Rightarrow> nat \<Rightarrow> nat \<Rightarrow> real list" where
  "fill xs f a b = map (\<lambda>i. if a \<le> i \<and> i < b then f i else xs ! i) [0..<length xs]"

lemma length_fill [simp]: "length (fill xs f a b) = length xs"
  by (simp add: fill_def)

lemma fill_empty [simp]: "b \<le> a \<Longrightarrow> fill xs f a b = xs"
  unfolding fill_def by (rule nth_equalityI) auto

lemma fill_first: "a < b \<Longrightarrow> fill (xs[a := f a]) f (Suc a) b = fill xs f a b"
  unfolding fill_def by (rule nth_equalityI) (auto simp: nth_list_update le_less_Suc_eq not_less_eq_eq)

lemma fill_cong: "(\<And>k. a \<le> k \<Longrightarrow> k < b \<Longrightarrow> f k = g k) \<Longrightarrow> fill xs f a b = fill xs g a b"
  unfolding fill_def by (rule map_cong) auto

lemma fill_from_0: "b \<le> length xs \<Longrightarrow> fill xs f 0 b = map f [0..<b] @ drop b xs"
  unfolding fill_def by (rule nth_equalityI) (auto simp: nth_append)

abbreviation note_freq :: "byte list \<Rightarrow> nat \<Rightarrow> real" where
  "note_freq ev n \<equiv> word_freq (pm_byte ev) (22 + 3 * n)"

lemma freqs_loop_prefix:
  assumes "816 \<le> length ev" and "128 \<le> length freqs" and "4 * g \<le> n" and "n \<le> 128"
    and "\<And>k. 4 * g \<le> k \<Longrightarrow> k < n \<Longrightarrow>
      word_valid (pm_byte ev) (22 + 3 * k) \<and> word_changes (pm_byte ev) (22 + 3 * k)"
    and "n < 128 \<Longrightarrow> \<not> word_valid (pm_byte ev) (22 + 3 * n)"
  shows "freqs_loop ev freqs (42 + 24 * g) (48 + 24 * g) (4 * g) =
    Some (if n < 128 then n else 0, fill freqs (note_freq ev) (4 * g) n)"
  using assms
proof (induction "32 - g" arbitrary: g freqs)
  case 0
  then have "g = 32" "n = 128" by auto
  then show ?case by (simp add: freqs_loop.simps)
next
  case (Suc d)
  let ?m = "pm_byte ev" and ?f = "note_freq ev"
  have g: "g < 32" using Suc.hyps(2) by simp
  have k: "22 + 3 * (4 * g) = 22 + 12 * g" "22 + 3 * (4 * g + 1) = 25 + 12 * g"
    "22 + 3 * (4 * g + 2) = 28 + 12 * g" "22 + 3 * (4 * g + 3) = 31 + 12 * g" by simp_all
  have in_ev: "pm_pos (22 + 12 * g + 2) < length ev" "pm_pos (25 + 12 * g + 2) < length ev"
    "pm_pos (28 + 12 * g + 2) < length ev" "pm_pos (31 + 12 * g + 2) < length ev"
    using g Suc.prems(1) unfolding pm_pos_group by simp_all
  have good: "word_valid ?m (22 + 3 * (4 * g + r)) \<and> word_changes ?m (22 + 3 * (4 * g + r))"
    if "4 * g + r < n" for r
    using Suc.prems(5) [of "4 * g + r"] that by simp
  have bad: "\<not> word_valid ?m (22 + 3 * (4 * g + r))" if "n = 4 * g + r" "r < 4" for r
    using Suc.prems(6) that g by simp
  note step = freqs_loop_group [of ev freqs g "4 * g"] word_update_eq [OF in_ev(1)]
    word_update_eq [OF in_ev(2)] word_update_eq [OF in_ev(3)] word_update_eq [OF in_ev(4)]
  consider "n = 4 * g" | "n = 4 * g + 1" | "n = 4 * g + 2" | "n = 4 * g + 3" | "4 * Suc g \<le> n"
    using Suc.prems(3) by fastforce
  then show ?case
  proof cases
    case 1
    then show ?thesis using bad [of 0] g Suc.prems(2) unfolding k by (simp add: step)
  next
    case 2
    then show ?thesis using bad [of 1] good [of 0] g Suc.prems(2)
        fill_first [of "4 * g" n freqs "note_freq ev"] unfolding k
      by (simp add: step)
  next
    case 3
    then show ?thesis using bad [of 2] good [of 0] good [of 1] g Suc.prems(2)
        fill_first [of "4 * g" n freqs ?f] fill_first [of "Suc (4 * g)" n _ ?f] unfolding k
      by (simp add: step)
  next
    case 4
    then show ?thesis using bad [of 3] good [of 0] good [of 1] good [of 2] g Suc.prems(2)
        fill_first [of "4 * g" n freqs ?f] fill_first [of "Suc (4 * g)" n _ ?f]
        fill_first [of "Suc (Suc (4 * g))" n _ ?f] unfolding k
      by (simp add: step)
  next
    case 5
    let ?freqs = "freqs[4 * g := ?f (4 * g), Suc (4 * g) := ?f (4 * g + 1),
      Suc (Suc (4 * g)) := ?f (4 * g + 2), Suc (Suc (Suc (4 * g))) := ?f (4 * g + 3)]"
    have j: "4 * Suc g = Suc (Suc (Suc (Suc (4 * g))))" by simp
    have "freqs_loop ev freqs (42 + 24 * g) (48 + 24 * g) (4 * g) =
        freqs_loop ev ?freqs (42 + 24 * Suc g) (48 + 24 * Suc g) (4 * Suc g)"
    proof -
      have f: "?f (4 * g) = word_freq ?m (22 + 12 * g)" "?f (4 * g + 1) = word_freq ?m (25 + 12 * g)"
        "?f (4 * g + 2) = word_freq ?m (28 + 12 * g)" "?f (4 * g + 3) = word_freq ?m (31 + 12 * g)"
        unfolding k by (rule refl)+
      show ?thesis
        using 5 good [of 0] good [of 1] good [of 2] good [of 3] g Suc.prems(2) unfolding j f k
        by (simp add: step)
    qed
    also have "\<dots> = Some (if n < 128 then n else 0, fill ?freqs ?f (4 * Suc g) n)"
      using 5 Suc.hyps(2) Suc.prems by (intro Suc.hyps(1)) auto
    also have "fill ?freqs ?f (4 * Suc g) n = fill freqs ?f (4 * g) n"
      using 5 fill_first [of "4 * g" n freqs ?f] fill_first [of "Suc (4 * g)" n _ ?f]
        fill_first [of "Suc (Suc (4 * g))" n _ ?f] fill_first [of "Suc (Suc (Suc (4 * g)))" n _ ?f]
      unfolding j by simp
    finally show ?thesis .
  qed
qed

lemma name_loop_spec:
  assumes "816 \<le> length ev" and "j \<le> 16" and "16 < length name"
    and i: "i = (if j mod 4 = 2 then pm_pos (6 + j) - 4 else pm_pos (6 + j))"
  shows "name_loop ev name i j = Some (take j name @ map (\<lambda>k. pm_byte ev (6 + k)) [j..<16] @ 0 # drop 17 name)"
  using assms
proof (induction "16 - j" arbitrary: j i name)
  case 0
  then have "j = 16" by simp
  with 0 show ?case
    by (subst name_loop.simps) (simp add: store_in upd_conv_take_nth_drop)
next
  case (Suc d)
  have j: "j < 16" using Suc.hyps(2) by simp
  have pos: "(if j mod 4 = 6 mod 4 then i + 4 else i) = pm_pos (6 + j)"
    unfolding Suc.prems(4) pm_pos_def using j by simp
  have ni: "pm_pos (6 + j) + 1 = (if Suc j mod 4 = 2 then pm_pos (6 + Suc j) - 4 else pm_pos (6 + Suc j))"
  proof -
    have "Suc j mod 4 = 2 \<longleftrightarrow> (6 + j) mod 4 = 3" by presburger
    then show ?thesis using pm_pos_Suc [of "6 + j"] by simp
  qed
  have "pm_pos (6 + j) < length ev" using pm_pos_mono [of "6 + j" 22] j Suc.prems(1)
    by (simp add: pm_pos_def)
  then have "name_loop ev name i j = name_loop ev (name[j := pm_byte ev (6 + j)]) (pm_pos (6 + j) + 1) (Suc j)"
    using j Suc.prems(3) by (subst name_loop.simps) (simp only: Let_def pos, simp add: load_in store_in)
  also have "\<dots> = Some (take (Suc j) (name[j := pm_byte ev (6 + j)]) @
      map (\<lambda>k. pm_byte ev (6 + k)) [Suc j..<16] @ 0 # drop 17 (name[j := pm_byte ev (6 + j)]))"
    using Suc.hyps(2) Suc.prems j ni by (intro Suc.hyps(1)) auto
  finally show ?case
    using j Suc.prems(3) by (simp add: take_Suc_conv_app_nth upt_conv_Cons)
qed

text \<open>
  C11. For a dump without "no change" words, held in at least 102 PortMidi events, \<open>set_freqs_from_midi\<close>
  stores the 16 characters of the name and the frequency of every note up to the first word that has a byte
  above 127, leaves the other frequencies and returns the number of that note, or fills all 128 notes
  and returns 0.
\<close>

theorem set_freqs_from_midi_correct:
  assumes "816 \<le> length ev" and "128 \<le> length freqs" and "16 < length name" and "n \<le> 128"
    and "\<And>k. k < n \<Longrightarrow>
      word_valid (pm_byte ev) (22 + 3 * k) \<and> word_changes (pm_byte ev) (22 + 3 * k)"
    and "n < 128 \<Longrightarrow> \<not> word_valid (pm_byte ev) (22 + 3 * n)"
  shows "set_freqs_from_midi ev freqs name =
    Some (if n < 128 then n else 0, map (note_freq ev) [0..<n] @ drop n freqs,
      map (\<lambda>k. pm_byte ev (6 + k)) [0..<16] @ 0 # drop 17 name) \<and>
    set_ffreqs_from_midi ev freqs =
    Some (if n < 128 then n else 0, map (note_freq ev) [0..<n] @ drop n freqs)"
proof -
  have "name_loop ev name (6 + 4) 0 = Some (map (\<lambda>k. pm_byte ev (6 + k)) [0..<16] @ 0 # drop 17 name)"
    using name_loop_spec [of ev 0 name 10] assms(1,3) by (simp add: pm_pos_def)
  moreover have "freqs_loop ev freqs 42 48 0 =
      Some (if n < 128 then n else 0, map (note_freq ev) [0..<n] @ drop n freqs)"
    using freqs_loop_prefix [of ev freqs 0 n] assms by (simp add: fill_from_0)
  ultimately show ?thesis
    by (simp add: set_freqs_from_midi_def set_ffreqs_from_midi_def Let_def)
qed

theorem set_freqs_from_midi_correct_witness:
  "set_freqs_from_midi (replicate 816 0x80) (replicate 128 0) (replicate 17 1) =
     Some (0, replicate 128 0, replicate 16 0x80 @ [0])"
proof -
  let ?ev = "replicate 816 0x80 :: byte list"
  have b: "pm_byte ?ev k = 0x80" if "k \<le> 405" for k
    using pm_pos_mono [OF that] by (simp add: pm_pos_def)
  have "map (\<lambda>k. pm_byte ?ev (6 + k)) [0..<16] = replicate 16 0x80"
    by (rule nth_equalityI) (simp_all add: b)
  then show ?thesis
    using set_freqs_from_midi_correct [of ?ev "replicate 128 0" "replicate 17 1" 0]
    by (simp add: word_valid_def b)
qed

section \<open>Dumps with a word that means no change\<close>

lemma freqs_loop_overrun:
  assumes "length ev = 816" and "128 \<le> length freqs" and "g \<le> 32"
    and "\<And>k. k < 128 \<Longrightarrow> word_valid (pm_byte ev) (22 + 3 * k)"
    and "j < 4 * g \<or> j = 4 * g \<and>
      (\<exists>k<128. 4 * g \<le> k \<and> k mod 4 \<noteq> 3 \<and> \<not> word_changes (pm_byte ev) (22 + 3 * k))"
  shows "freqs_loop ev freqs (42 + 24 * g) (48 + 24 * g) j = None"
  using assms
proof (induction "32 - g" arbitrary: g freqs j)
  case 0
  then have g: "g = 32" and j: "j < 128" by auto
  have "word_update ev freqs j 1 (22 + 12 * g) = None"
    using 0 g by (simp add: word_update_def update_tuning_freq_def pm_pos_def load_def bind_eq_None_conv)
  then show ?case using j by (simp add: freqs_loop_group)
next
  case (Suc d)
  let ?m = "pm_byte ev"
  have g: "g < 32" using Suc.hyps(2) by simp
  have j: "j \<le> 4 * g" using Suc.prems(5) by auto
  have in_ev: "pm_pos (22 + 12 * g + 2) < length ev" "pm_pos (25 + 12 * g + 2) < length ev"
    "pm_pos (28 + 12 * g + 2) < length ev" "pm_pos (31 + 12 * g + 2) < length ev"
    using g Suc.prems(1) unfolding pm_pos_group by simp_all
  have valid: "word_valid ?m (22 + 12 * g)" "word_valid ?m (25 + 12 * g)"
    "word_valid ?m (28 + 12 * g)" "word_valid ?m (31 + 12 * g)"
    using Suc.prems(4) [of "4 * g"] Suc.prems(4) [of "4 * g + 1"]
      Suc.prems(4) [of "4 * g + 2"] Suc.prems(4) [of "4 * g + 3"] g by simp_all
  have upd: "\<exists>fr'. word_update ev fr i post k =
      Some (Inr (fr', if word_changes ?m k then i + post else i)) \<and> length fr' = length fr"
    if "pm_pos (k + 2) < length ev" "word_valid ?m k" "i < 128" "128 \<le> length fr" for fr i post k
    using that by (simp add: word_update_eq)
  define c where "c k = (if word_changes ?m k then 1 else 0 :: nat)" for k
  have c_le: "c k \<le> 1" for k by (simp add: c_def)
  have upd': "\<exists>fr'. word_update ev fr i post k = Some (Inr (fr', i + c k * post)) \<and> length fr' = length fr"
    if "pm_pos (k + 2) < length ev" "word_valid ?m k" "i < 128" "128 \<le> length fr" for fr i post k
    using upd [OF that, of post] by (cases "word_changes ?m k") (simp_all add: c_def)
  obtain f1 where f1: "word_update ev freqs j 1 (22 + 12 * g) = Some (Inr (f1, j + c (22 + 12 * g) * 1))"
    "length f1 = length freqs"
    using upd' [OF in_ev(1) valid(1), of j freqs 1] j g Suc.prems(2) by auto
  define j1 where "j1 = j + c (22 + 12 * g)"
  obtain f2 where f2: "word_update ev f1 j1 1 (25 + 12 * g) = Some (Inr (f2, j1 + c (25 + 12 * g) * 1))"
    "length f2 = length freqs"
    using upd' [OF in_ev(2) valid(2), of j1 f1 1] j g Suc.prems(2) f1(2) c_le [of "22 + 12 * g"]
    by (auto simp: j1_def)
  define j2 where "j2 = j1 + c (25 + 12 * g)"
  obtain f3 where f3: "word_update ev f2 j2 1 (28 + 12 * g) = Some (Inr (f3, j2 + c (28 + 12 * g) * 1))"
    "length f3 = length freqs"
    using upd' [OF in_ev(3) valid(3), of j2 f2 1] j g Suc.prems(2) f2(2) c_le [of "22 + 12 * g"]
      c_le [of "25 + 12 * g"]
    by (auto simp: j1_def j2_def)
  define j3 where "j3 = j2 + c (28 + 12 * g)"
  have j3: "j3 \<le> j + 3" "j \<le> j3"
    using c_le [of "22 + 12 * g"] c_le [of "25 + 12 * g"] c_le [of "28 + 12 * g"]
    by (simp_all add: j1_def j2_def j3_def)
  obtain f4 where f4: "word_update ev f3 j3 0 (31 + 12 * g) = Some (Inr (f4, j3 + c (31 + 12 * g) * 0))"
    "length f4 = length freqs"
    using upd' [OF in_ev(4) valid(4), of j3 f3 0] j j3 g Suc.prems(2) f3(2) by auto
  have "freqs_loop ev freqs (42 + 24 * g) (48 + 24 * g) j =
      freqs_loop ev f4 (42 + 24 * Suc g) (48 + 24 * Suc g) (j3 + 1)"
    using f1(1) f2(1) f3(1) f4(1) j g j3(2)
    by (simp add: freqs_loop_group flip: j1_def j2_def j3_def)
  also have "\<dots> = None"
  proof (rule Suc.hyps(1))
    show "j3 + 1 < 4 * Suc g \<or> j3 + 1 = 4 * Suc g \<and>
      (\<exists>k<128. 4 * Suc g \<le> k \<and> k mod 4 \<noteq> 3 \<and> \<not> word_changes ?m (22 + 3 * k))"
    proof (cases "j3 + 1 < 4 * Suc g")
      case False
      with j j3 have eq: "j = 4 * g" "j3 = j + 3" by auto
      then have "c (22 + 12 * g) = 1" "c (25 + 12 * g) = 1" "c (28 + 12 * g) = 1"
        using c_le [of "22 + 12 * g"] c_le [of "25 + 12 * g"] c_le [of "28 + 12 * g"]
        by (simp_all add: j1_def j2_def j3_def)
      moreover have c1: "word_changes ?m k" if "c k = 1" for k
        using that by (cases "word_changes ?m k") (simp_all add: c_def)
      moreover have "22 + 3 * (4 * g) = 22 + 12 * g" "22 + 3 * (4 * g + 1) = 25 + 12 * g"
        "22 + 3 * (4 * g + 2) = 28 + 12 * g" by simp_all
      ultimately have ch: "word_changes ?m (22 + 3 * (4 * g))" "word_changes ?m (22 + 3 * (4 * g + 1))"
        "word_changes ?m (22 + 3 * (4 * g + 2))"
        by (simp_all only: c1)
      obtain k where k: "k < 128" "4 * g \<le> k" "k mod 4 \<noteq> 3" "\<not> word_changes ?m (22 + 3 * k)"
        using Suc.prems(5) eq(1) by auto
      have "k \<noteq> 4 * g" "k \<noteq> 4 * g + 1" "k \<noteq> 4 * g + 2" using ch k(4) by auto
      moreover have "k \<noteq> 4 * g + 3" using k(3) by auto
      ultimately have "4 * Suc g \<le> k" using k(2) by simp
      with k eq show ?thesis by auto
    qed blast
  qed (use Suc.hyps(2) Suc.prems f4(2) g in auto)
  finally show ?case .
qed

text \<open>
  In a dump of exactly 102 events whose words are all valid, one word \<open>7F 7F 7F\<close> ("no change") for a note
  that is not the last one of its group of four makes \<open>set_freqs_from_midi\<close> read behind the events: the
  macro's argument \<open>j++\<close> is not evaluated when no frequency is stored, so the note count falls behind the data.
\<close>

theorem set_freqs_no_change_overrun:
  assumes "length ev = 816" and "128 \<le> length freqs"
    and "\<And>k. k < 128 \<Longrightarrow> word_valid (pm_byte ev) (22 + 3 * k)"
    and "k < 128" and "k mod 4 \<noteq> 3" and "\<not> word_changes (pm_byte ev) (22 + 3 * k)"
  shows "set_freqs_from_midi ev freqs name = None \<and> set_ffreqs_from_midi ev freqs = None"
proof -
  have "freqs_loop ev freqs 42 48 0 = None"
    using freqs_loop_overrun [of ev freqs 0 0] assms by auto
  then show ?thesis
    by (simp add: set_freqs_from_midi_def set_ffreqs_from_midi_def bind_eq_None_conv)
qed

theorem set_freqs_no_change_overrun_witness:
  "set_freqs_from_midi (replicate 816 0x7f) (replicate 128 0) (replicate 17 0) = None"
proof -
  have "pm_byte (replicate 816 0x7f :: byte list) k = 0x7f" if "k \<le> 405" for k
    using pm_pos_mono [OF that] by (simp add: pm_pos_def)
  then show ?thesis
    using set_freqs_no_change_overrun [of "replicate 816 0x7f" "replicate 128 0" 0 "replicate 17 0"]
    by (simp add: word_valid_def word_changes_def)
qed

section \<open>Plain data blocks\<close>

lemma data_loop_prefix:
  assumes "d + 3 * (unat n - i) \<le> length data" and "unat n < 2 ^ 31" and "unat n \<le> length freqs"
    and "i \<le> b" and "b \<le> unat n"
    and "\<And>k. i \<le> k \<Longrightarrow> k < b \<Longrightarrow> word_valid (nth data) (d + 3 * (k - i)) \<and>
      word_changes (nth data) (d + 3 * (k - i))"
    and "b < unat n \<Longrightarrow> \<not> word_valid (nth data) (d + 3 * (b - i))"
  shows "data_loop data freqs d i n =
    Some (if b < unat n then b else 0, fill freqs (\<lambda>k. word_freq (nth data) (d + 3 * (k - i))) i b)"
  using assms
proof (induction "b - i" arbitrary: i d freqs)
  case 0
  then have "b = i" by simp
  with 0 show ?case
    by (subst data_loop.simps) (auto simp: load_in word_valid_def)
next
  case (Suc e)
  let ?fr = "freqs[i := word_freq (nth data) d]"
  have i: "i < b" "i < unat n" "d + 2 < length data" using Suc.hyps(2) Suc.prems by auto
  have shift: "d + 3 * (k - i) = d + 3 + 3 * (k - Suc i)" if "Suc i \<le> k" for k
    using that by simp
  have "data_loop data freqs d i n = data_loop data ?fr (d + 3) (Suc i) n"
    using i Suc.prems(2,3) Suc.prems(6) [of i]
    by (subst data_loop.simps) (simp add: load_in store_in word_valid_def word_changes_def word_freq_def)
  also have "\<dots> = Some (if b < unat n then b else 0,
      fill ?fr (\<lambda>k. word_freq (nth data) (d + 3 + 3 * (k - Suc i))) (Suc i) b)"
  proof (rule Suc.hyps(1))
    show "word_valid (nth data) (d + 3 + 3 * (k - Suc i)) \<and> word_changes (nth data) (d + 3 + 3 * (k - Suc i))"
      if "Suc i \<le> k" "k < b" for k
      using Suc.prems(6) [of k] that shift [of k] by simp
    show "\<not> word_valid (nth data) (d + 3 + 3 * (b - Suc i))" if "b < unat n"
      using Suc.prems(7) that shift [of b] i by simp
  qed (use Suc.hyps(2) Suc.prems i in auto)
  also have "fill ?fr (\<lambda>k. word_freq (nth data) (d + 3 + 3 * (k - Suc i))) (Suc i) b =
      fill freqs (\<lambda>k. word_freq (nth data) (d + 3 * (k - i))) i b"
  proof -
    let ?f = "\<lambda>k. word_freq (nth data) (d + 3 * (k - i))"
    have "fill ?fr (\<lambda>k. word_freq (nth data) (d + 3 + 3 * (k - Suc i))) (Suc i) b = fill ?fr ?f (Suc i) b"
      by (rule fill_cong) (simp only: shift)
    also have "\<dots> = fill freqs ?f i b" using fill_first [of i b freqs ?f] i(1) by simp
    finally show ?thesis .
  qed
  finally show ?case .
qed

text \<open>
  For plain frequency data without "no change" words \<open>set_freqs_from_midi_data_format\<close> stores the frequency
  of every note up to the first word with a byte above 127, whose number it returns, or of all notes and
  returns 0.
\<close>

theorem set_freqs_data_format_correct:
  assumes "3 * unat n \<le> length data" and "unat n < 2 ^ 31" and "unat n \<le> length freqs"
    and "b \<le> unat n"
    and "\<And>k. k < b \<Longrightarrow> word_valid (nth data) (3 * k) \<and> word_changes (nth data) (3 * k)"
    and "b < unat n \<Longrightarrow> \<not> word_valid (nth data) (3 * b)"
  shows "set_freqs_from_midi_data_format freqs data n =
    Some (if b < unat n then b else 0, map (\<lambda>k. word_freq (nth data) (3 * k)) [0..<b] @ drop b freqs) \<and>
    set_ffreqs_from_midi_data_format freqs data n = set_freqs_from_midi_data_format freqs data n"
  using data_loop_prefix [of 0 n 0 data freqs b] assms
  by (simp add: set_freqs_from_midi_data_format_def set_ffreqs_from_midi_data_format_def fill_from_0)

theorem set_freqs_data_format_correct_witness:
  "set_freqs_from_midi_data_format [0, 0] [69, 0, 0, 0x80, 0, 0] 2 = Some (1, [tuning_freq 69 0 0, 0])"
  using set_freqs_data_format_correct [of 2 "[69, 0, 0, 0x80, 0, 0]" "[0, 0]" 1]
  by (simp add: word_valid_def word_changes_def word_freq_def)

text \<open>
  When the first word is \<open>7F 7F 7F\<close> ("no change"), \<open>set_freqs_from_midi_data_format\<close> leaves its third
  byte unread, so the note \<open>k\<close> gets the frequency of the bytes \<open>3k - 1\<close>, \<open>3k\<close> and \<open>3k + 1\<close> instead of its
  own word: the scan is one byte behind.
\<close>

theorem set_freqs_data_format_desync:
  assumes "3 * unat n \<le> length data" and "unat n < 2 ^ 31" and "unat n \<le> length freqs"
    and "0 < unat n" and "word_valid (nth data) 0" and "\<not> word_changes (nth data) 0"
    and "\<And>k. 1 \<le> k \<Longrightarrow> k < unat n \<Longrightarrow>
      word_valid (nth data) (3 * k - 1) \<and> word_changes (nth data) (3 * k - 1)"
  shows "set_freqs_from_midi_data_format freqs data n =
    Some (0, fill freqs (\<lambda>k. word_freq (nth data) (3 * k - 1)) 1 (unat n))"
proof -
  have "data_loop data freqs 0 0 n = data_loop data freqs 2 1 n"
  proof -
    have "load data 0 = Some (data ! 0)" "load data (0 + 1) = Some (data ! 1)"
      "load data (0 + 2) = Some (data ! Suc (Suc 0))"
    proof -
      have "2 < length data" using assms(1,4) by linarith
      then show "load data 0 = Some (data ! 0)" "load data (0 + 1) = Some (data ! 1)"
        "load data (0 + 2) = Some (data ! Suc (Suc 0))" by (auto simp: load_def numeral_2_eq_2)
    qed
    then show ?thesis
      using assms(2-6) by (subst data_loop.simps) (simp add: word_valid_def word_changes_def flip: numeral_2_eq_2)
  qed
  also have "\<dots> = Some (0, fill freqs (\<lambda>k. word_freq (nth data) (2 + 3 * (k - 1))) 1 (unat n))"
  proof -
    have "2 + 3 * (k - 1) = 3 * k - 1" if "1 \<le> k" for k :: nat using that by simp
    then show ?thesis
      using data_loop_prefix [of 2 n 1 data freqs "unat n"] assms by simp
  qed
  also have "fill freqs (\<lambda>k. word_freq (nth data) (2 + 3 * (k - 1))) 1 (unat n) =
      fill freqs (\<lambda>k. word_freq (nth data) (3 * k - 1)) 1 (unat n)"
  proof (rule fill_cong)
    show "word_freq (nth data) (2 + 3 * (k - 1)) = word_freq (nth data) (3 * k - 1)" if "1 \<le> k" for k
    proof -
      have "2 + 3 * (k - 1) = 3 * k - 1" using that by simp
      then show ?thesis by (simp only:)
    qed
  qed
  finally show ?thesis by (simp add: set_freqs_from_midi_data_format_def)
qed

theorem set_freqs_data_format_desync_witness:
  "set_freqs_from_midi_data_format [0, 0] [0x7f, 0x7f, 0x7f, 69, 0, 0] 2 = Some (0, [0, tuning_freq 0x7f 69 0])"
  using set_freqs_data_format_desync [of 2 "[0x7f, 0x7f, 0x7f, 69, 0, 0]" "[0, 0]"]
  by (simp add: word_valid_def word_changes_def word_freq_def fill_def le_less_Suc_eq upt_rec)

end
