(* ===== verification/OscMem.thy ===== *)
theory OscMem
  imports Prelude
begin

text \<open>
  The memory of the OSC code (\<^verbatim>\<open>src/src/network/osc.c\<close>): one block of bytes that holds the
  received or composed packet, pointers as offsets into it, 32-bit accesses of a little-endian
  machine, \<^verbatim>\<open>htonl\<close> as the reversal of the bytes of a word, and \<^verbatim>\<open>strlen\<close>. An access outside
  the block is \<open>None\<close>.
\<close>

named_theorems word_mem \<open>32-bit accesses as byte lists\<close>

section \<open>Bytes of a word\<close>

definition bytes_of :: "u32 \<Rightarrow> byte list" where
  "bytes_of w = [ucast w, ucast (drop_bit 8 w), ucast (drop_bit 16 w), ucast (drop_bit 24 w)]"

definition of_bytes :: "byte list \<Rightarrow> u32" where
  "of_bytes bs = ucast (bs ! 0) OR push_bit 8 (ucast (bs ! 1)) OR push_bit 16 (ucast (bs ! 2))
     OR push_bit 24 (ucast (bs ! 3))"

definition htonl :: "u32 \<Rightarrow> u32" where
  "htonl w = of_bytes (rev (bytes_of w))"

lemma length_bytes_of [simp]: "length (bytes_of w) = 4"
  by (simp add: bytes_of_def)

lemma of_bytes_of [simp]: "of_bytes (bytes_of w) = w"
proof (rule bit_word_eqI)
  fix n assume "n < LENGTH(32)"
  consider "n < 8" | "8 \<le> n" "n < 16" | "16 \<le> n" "n < 24" | "24 \<le> n" by linarith
  then show "bit (of_bytes (bytes_of w)) n = bit w n"
    using \<open>n < LENGTH(32)\<close> by cases (auto simp: of_bytes_def bytes_of_def bit_simps)
qed

lemma bytes_of_of:
  assumes "length bs = 4"
  shows "bytes_of (of_bytes bs) = bs"
proof -
  obtain a b c d where bs: "bs = [a, b, c, d]"
    using assms by (auto simp: length_Suc_conv eval_nat_numeral)
  show ?thesis
    unfolding bs bytes_of_def of_bytes_def
    by (simp, intro conjI; rule bit_word_eqI; auto simp: bit_simps dest: bit_imp_le_length)
qed

lemma bytes_of_htonl [simp]: "bytes_of (htonl w) = rev (bytes_of w)"
  by (simp add: htonl_def bytes_of_of)

lemma htonl_htonl [simp]: "htonl (htonl w) = w"
  unfolding htonl_def [of "htonl w"] by simp

lemma unat_small [word_mem]: "n < 2 ^ 32 \<Longrightarrow> unat (word_of_nat n :: u32) = n"
  by (simp add: unsigned_of_nat take_bit_nat_eq_self)

lemma sint_of_nat: "n < 2 ^ 31 \<Longrightarrow> sint (word_of_nat n :: u32) = int n"
  by (simp add: signed_of_nat signed_take_bit_int_eq_self)

lemma sint_small [word_mem]: "unat w < 2 ^ 31 \<Longrightarrow> sint (w :: u32) = int (unat w)"
  using sint_of_nat [of "unat w"] by simp

text \<open>Counts of values, stored in a signed \<^verbatim>\<open>char\<close>.\<close>

lemma ucast_count: "ucast (word_of_nat k :: u32) = (word_of_nat k :: byte)"
  by (rule bit_word_eqI) (simp add: bit_simps)

lemma sint_count: "n < 128 \<Longrightarrow> sint (word_of_nat n :: byte) = int n"
  by (simp add: signed_of_nat signed_take_bit_int_eq_self)

lemma scast_count:
  assumes "n < 128"
  shows "scast (word_of_nat n :: byte) = (word_of_nat n :: u32)"
proof -
  have "word_of_int (sint (word_of_nat n :: byte)) = (word_of_nat n :: u32)"
    using sint_count [OF assms] by simp
  then show ?thesis by simp
qed

section \<open>32-bit accesses\<close>

definition load32 :: "byte list \<Rightarrow> nat \<Rightarrow> u32 option" where
  "load32 m p = (if p + 4 \<le> length m then Some (of_bytes (take 4 (drop p m))) else None)"

definition store32 :: "byte list \<Rightarrow> nat \<Rightarrow> u32 \<Rightarrow> byte list option" where
  "store32 m p w = memcpy m p (bytes_of w) 0 4"

lemma load32_in [word_mem]: "p + 4 \<le> length m \<Longrightarrow> load32 m p = Some (of_bytes (take 4 (drop p m)))"
  by (simp add: load32_def)

lemma store32_in [word_mem]:
  "p + 4 \<le> length m \<Longrightarrow> store32 m p w = Some (take p m @ bytes_of w @ drop (p + 4) m)"
  by (simp add: store32_def memcpy_in)

text \<open>Copying a word copies its bytes.\<close>

lemma copy32:
  assumes "p + 4 \<le> length m" and "q + 4 \<le> length m"
  shows "do { w \<leftarrow> load32 m p; store32 m q w } = Some (take q m @ take 4 (drop p m) @ drop (q + 4) m)"
  using assms by (simp add: load32_in store32_in bytes_of_of)

section \<open>C strings\<close>

definition strlen :: "byte list \<Rightarrow> nat \<Rightarrow> nat option" where
  "strlen m p =
     (if 0 \<in> set (drop p m) then Some (length (takeWhile (\<lambda>b. b \<noteq> 0) (drop p m))) else None)"

text \<open>The bytes of the string at \<open>p\<close>.\<close>

definition cstr :: "byte list \<Rightarrow> nat \<Rightarrow> byte list option" where
  "cstr m p = (if 0 \<in> set (drop p m) then Some (takeWhile (\<lambda>b. b \<noteq> 0) (drop p m)) else None)"

lemma strlen_cstr: "strlen m p = map_option length (cstr m p)"
  by (simp add: strlen_def cstr_def)

lemma cstr_eq:
  assumes "take (length s + 1) (drop p m) = s @ [0]" and "0 \<notin> set s"
  shows "cstr m p = Some s"
proof -
  have d: "drop p m = s @ 0 # drop (length s + 1) (drop p m)"
    using append_take_drop_id [of "length s + 1" "drop p m"] assms(1) by simp
  have "takeWhile (\<lambda>b. b \<noteq> 0) (s @ 0 # r) = s" for r
    using assms(2) by (subst takeWhile_append2) auto
  then show ?thesis
    unfolding cstr_def by (subst (1 2) d) simp
qed

lemma strlen_eq:
  "take (length s + 1) (drop p m) = s @ [0] \<Longrightarrow> 0 \<notin> set s \<Longrightarrow> strlen m p = Some (length s)"
  by (simp add: strlen_cstr cstr_eq)

section \<open>Padding\<close>

text \<open>\<^verbatim>\<open>OSC_FIX_SIZE\<close> on offsets and on \<^verbatim>\<open>uint32_t\<close>.\<close>

definition osc_fix_size :: "nat \<Rightarrow> nat" where
  "osc_fix_size n = n + 4 - (n AND 3)"

definition osc_fix_size32 :: "u32 \<Rightarrow> u32" where
  "osc_fix_size32 n = n + 4 - (n AND 3)"

lemma osc_fix_size_eq: "osc_fix_size n = 4 * (n div 4 + 1)"
proof -
  have "n AND 3 = n mod 4" using take_bit_eq_mask [of 2 n]
    by (simp add: take_bit_eq_mod mask_eq_exp_minus_1)
  then show ?thesis unfolding osc_fix_size_def by presburger
qed

text \<open>A string with its terminator, padded to a multiple of four bytes.\<close>

definition osc_pad :: "byte list \<Rightarrow> byte list" where
  "osc_pad s = s @ replicate (4 - length s mod 4) 0"

lemma osc_pad_zero: "osc_pad s = s @ 0 # replicate (3 - length s mod 4) 0"
  using mod_less_divisor [of 4 "length s"] unfolding osc_pad_def
  by (simp flip: replicate_Suc add: Suc_diff_le)

lemma length_osc_pad: "length (osc_pad s) = osc_fix_size (length s)"
  unfolding osc_pad_def osc_fix_size_eq by (simp, presburger)

lemma osc_fix_size32_bytes:
  assumes "unat n + 7 < 2 ^ 32"
  shows "unat (osc_fix_size32 (n + 3)) = 4 * ((unat n + 3) div 4 + 1)"
proof -
  let ?x = "n + 3"
  have x: "unat ?x = unat n + 3" using assms by (subst unat_plus_simple [THEN iffD1]) (auto simp: word_le_nat_alt unat_word_ariths)
  have x4: "unat (?x + 4) = unat ?x + 4" using assms x by (simp add: unat_word_ariths)
  have "unat (?x AND 3) = unat ?x mod 4"
    using unat_and_mask [of 2 ?x] by simp
  then have "unat (?x + 4 - (?x AND 3)) = unat ?x + 4 - unat ?x mod 4"
    using x4 by (simp add: unat_sub_if')
  then show ?thesis
    unfolding osc_fix_size32_def by (simp add: x, presburger)
qed

lemma osc_fix_size32_words:
  assumes "unat n + 7 < 2 ^ 32"
  shows "unat (drop_bit 2 (osc_fix_size32 (n + 3))) = (unat n + 3) div 4 + 1"
  using osc_fix_size32_bytes [OF assms] by (simp add: drop_bit_eq_div unat_div)

end
