(* ===== verification/OscMsg.thy ===== *)
theory OscMsg
  imports OscMem
begin

text \<open>
  OSC messages in memory (\<^verbatim>\<open>src/src/network/osc.c\<close>): checking the address pattern, indexing the
  values of a message or a bundle, composing a message.

  The table \<open>ibuf\<close> is an array of pointers: slot 0 points to the type tags, slot 1 to the free memory, the
  values follow from slot 2 on, and the slot behind the last value holds the start of the free memory again.
  \<open>tbuf\<close> is a \<^verbatim>\<open>char\<close> array: its slot 0 counts the required values, their type tags follow.
\<close>

section \<open>Address patterns\<close>

text \<open>\<^verbatim>\<open>check_osc_pattern\<close>: \<open>address\<close> and \<open>types\<close> are the caller's C strings, with their zero.\<close>

function pattern_loop :: "byte list \<Rightarrow> byte list \<Rightarrow> nat \<Rightarrow> (nat + int) option" where
  "pattern_loop buf address i = do {
     a \<leftarrow> load buf i; b \<leftarrow> load address i;
     if a \<noteq> 0 \<and> b \<noteq> 0 then
       (if a \<noteq> b then Some (Inr 0) else pattern_loop buf address (i + 1))
     else if a \<noteq> b then Some (Inr 0) else Some (Inl i)
   }"
  by pat_completeness auto
termination
  by (relation "measure (\<lambda>(buf, address, i). length buf - i)") (auto simp: load_Some_iff)

declare pattern_loop.simps [simp del]

text \<open>\<^verbatim>\<open>strcmp\<close> of two C strings, as the test for equality.\<close>

function strcmp_eq :: "byte list \<Rightarrow> nat \<Rightarrow> byte list \<Rightarrow> nat \<Rightarrow> bool option" where
  "strcmp_eq m p m' q = do {
     a \<leftarrow> load m p; b \<leftarrow> load m' q;
     if a \<noteq> b then Some False
     else if a = 0 then Some True
     else strcmp_eq m (p + 1) m' (q + 1)
   }"
  by pat_completeness auto
termination
  by (relation "measure (\<lambda>(m, p, m', q). length m - p)") (auto simp: load_Some_iff)

declare strcmp_eq.simps [simp del]

definition check_osc_pattern :: "byte list \<Rightarrow> byte list \<Rightarrow> byte list \<Rightarrow> int option" where
  "check_osc_pattern buf address types = do {
     r \<leftarrow> pattern_loop buf address 0;
     case r of
       Inr ret \<Rightarrow> Some ret
     | Inl i \<Rightarrow> do {
         eq \<leftarrow> strcmp_eq types 0 buf (osc_fix_size i + 1);
         Some (if eq then 1 else 0)
       }
   }"

section \<open>Indexing the values\<close>

definition tag :: "char \<Rightarrow> byte" where
  "tag c = of_char c"

text \<open>
  How many 32-bit words the value at \<open>p\<close> takes; \<open>None\<close> inside for the type tags without a value
  (the \<^verbatim>\<open>default\<close> branch).
\<close>

definition value_words :: "byte list \<Rightarrow> nat \<Rightarrow> byte \<Rightarrow> nat option option" where
  "value_words m p t =
     (if t \<in> {tag CHR ''f'', tag CHR ''i'', tag CHR ''c''} then Some (Some 1)
      else if t \<in> {tag CHR ''d'', tag CHR ''h''} then Some (Some 2)
      else if t \<in> {tag CHR ''s'', tag CHR ''S''} then do {
        n \<leftarrow> strlen m p;
        Some (Some (n div 4 + 1))
      }
      else if t = tag CHR ''b'' then do {
        n \<leftarrow> load32 m p;
        Some (Some (unat (drop_bit 2 (osc_fix_size32 (n + 3)))))
      }
      else if t = tag CHR ''t'' then Some (Some 2)
      else if t = tag CHR ''m'' then Some (Some 1)
      else Some None)"

text \<open>What \<^verbatim>\<open>index_osc_values_le\<close> does to the bytes of the value before it moves on.\<close>

definition value_swap :: "byte list \<Rightarrow> nat \<Rightarrow> byte \<Rightarrow> byte list option" where
  "value_swap m p t =
     (if t \<in> {tag CHR ''f'', tag CHR ''i'', tag CHR ''c''} then do {
        w \<leftarrow> load32 m p;
        store32 m p (htonl w)
      }
      else if t \<in> {tag CHR ''d'', tag CHR ''h''} then do {
        tmp \<leftarrow> load32 m p;
        w \<leftarrow> load32 m (p + 4);
        m \<leftarrow> store32 m p (htonl w);
        store32 m (p + 4) (htonl tmp)
      }
      else if t = tag CHR ''b'' then do {
        w \<leftarrow> load32 m p;
        store32 m p (htonl w)
      }
      else Some m)"

lemma value_swap_length: "value_swap m p t = Some m' \<Longrightarrow> length m' = length m"
  by (auto simp: value_swap_def load32_def store32_def memcpy_def split: if_splits bind_splits)

text \<open>
  The loop over the type tags, shared by the two indexing functions; \<open>swap\<close> selects the one with
  the byte swap. The counter \<open>i\<close> is an \<^verbatim>\<open>int\<close>.
\<close>

type_synonym index_state = "byte list \<times> nat list \<times> nat \<times> byte list \<times> nat \<times> nat"

function index_loop ::
  "bool \<Rightarrow> byte list \<Rightarrow> nat \<Rightarrow> nat \<Rightarrow> nat list \<Rightarrow> nat \<Rightarrow> byte list \<Rightarrow> nat \<Rightarrow> nat \<Rightarrow> index_state option" where
  "index_loop swap m ttag dat ibuf res tbuf tb i =
     (if ttag < length m then
        let t = m ! ttag; p = dat + 4 * i in
        if t = 0 then Some (m, ibuf, res, tbuf, tb, i)
        else do {
          ibuf \<leftarrow> store ibuf res p;
          tbuf \<leftarrow> store tbuf tb t;
          m' \<leftarrow> (if swap then value_swap m p t else Some m);
          w \<leftarrow> value_words m' p t;
          case w of
            None \<Rightarrow> index_loop swap m' (ttag + 1) dat ibuf res tbuf tb i
          | Some n \<Rightarrow>
              if i + n < 2 ^ 31
              then index_loop swap m' (ttag + 1) dat ibuf (res + 1) tbuf (tb + 1) (i + n)
              else None
        }
      else None)"
  by pat_completeness auto
termination
  by (relation "measure (\<lambda>(swap, m, ttag, dat, ibuf, res, tbuf, tb, i). length m - ttag)")
    (auto simp: value_swap_length split: if_splits)

declare index_loop.simps [simp del]

text \<open>The table position of the first value, from the count of required values, a signed \<^verbatim>\<open>char\<close>.\<close>

definition required_values :: "byte list \<Rightarrow> int option" where
  "required_values tbuf = do { c \<leftarrow> load tbuf 0; Some (sint c) }"

text \<open>The common end: the slots for the free memory and the count.\<close>

definition index_end ::
  "nat list \<Rightarrow> byte list \<Rightarrow> nat \<Rightarrow> nat \<Rightarrow> nat \<Rightarrow> (nat list \<times> byte list) option" where
  "index_end ibuf tbuf res vals free = do {
     ibuf \<leftarrow> store ibuf res free;
     tbuf \<leftarrow> store tbuf 0 (word_of_int (int res - int vals));
     ibuf \<leftarrow> store ibuf 1 free;
     Some (ibuf, tbuf)
   }"

definition index_osc_values ::
  "byte list \<Rightarrow> nat \<Rightarrow> nat list \<Rightarrow> byte list \<Rightarrow> nat \<Rightarrow> nat \<Rightarrow> (nat list \<times> byte list \<times> nat) option" where
  "index_osc_values m oscbuf ibuf tbuf types_start data_start = do {
     ibuf \<leftarrow> store ibuf 0 (oscbuf + types_start);
     rv \<leftarrow> required_values tbuf;
     if rv < - 1 then None
     else let vals = nat (2 + rv); dat = oscbuf + data_start in do {
       (m', ibuf, res, tbuf, tb, i) \<leftarrow>
         index_loop False m (oscbuf + types_start) dat ibuf vals tbuf (nat (1 + rv)) 0;
       (ibuf, tbuf) \<leftarrow> index_end ibuf tbuf res vals (dat + 4 * i);
       Some (ibuf, tbuf, i)
     }
   }"

definition index_osc_values_le ::
  "byte list \<Rightarrow> nat \<Rightarrow> nat list \<Rightarrow> byte list \<Rightarrow> nat \<Rightarrow> nat
     \<Rightarrow> (byte list \<times> nat list \<times> byte list \<times> nat) option" where
  "index_osc_values_le m oscbuf ibuf tbuf types_start data_start =
     (let dat = oscbuf + data_start in do {
       ibuf \<leftarrow> store ibuf 0 (oscbuf + types_start);
       (m, ibuf, res, tbuf, tb, i) \<leftarrow>
         index_loop True m (oscbuf + types_start) dat ibuf 2 tbuf 1 0;
       (ibuf, tbuf) \<leftarrow> index_end ibuf tbuf res 2 (dat + 4 * i);
       tbuf \<leftarrow> store tbuf tb 0;
       Some (m, ibuf, tbuf, i)
     })"

section \<open>Composing a message\<close>

text \<open>\<open>for (; *s != 0; i++) tmp[i] = *s++;\<close> The result is the block and the final \<open>i\<close>.\<close>

function copy_str :: "byte list \<Rightarrow> nat \<Rightarrow> nat \<Rightarrow> byte list \<Rightarrow> nat \<Rightarrow> (byte list \<times> nat) option" where
  "copy_str m tmp i src q = do {
     c \<leftarrow> load src q;
     if c = 0 then Some (m, i)
     else do {
       m \<leftarrow> store m (tmp + i) c;
       copy_str m tmp (i + 1) src (q + 1)
     }
   }"
  by pat_completeness auto
termination
  by (relation "measure (\<lambda>(m, tmp, i, src, q). length src - q)") (auto simp: load_Some_iff)

declare copy_str.simps [simp del]

text \<open>Address pattern and type tags: the block, \<open>ttag_start\<close> and \<open>i\<close>.\<close>

definition write_header ::
  "byte list \<Rightarrow> nat \<Rightarrow> byte list \<Rightarrow> byte list \<Rightarrow> (byte list \<times> nat \<times> nat) option" where
  "write_header m msg address types = do {
     (m, i) \<leftarrow> copy_str m msg 0 address 0;
     let i = osc_fix_size i;
     m \<leftarrow> store m (msg + i) (tag CHR '','');
     let i = i + 1;
     let ttag_start = i;
     (m, i) \<leftarrow> copy_str m msg i types 0;
     Some (m, ttag_start, i)
   }"

definition osc_start_message ::
  "byte list \<Rightarrow> nat \<Rightarrow> nat \<Rightarrow> nat list \<Rightarrow> byte list \<Rightarrow> byte list \<Rightarrow> byte list
     \<Rightarrow> (byte list \<times> nat list \<times> byte list \<times> u32) option" where
  "osc_start_message m buf maxlen ibuf tbuf address types =
     (let msg = buf + 4 in do {
        m \<leftarrow> memset m msg 0 maxlen;
        (m, ttag_start, i) \<leftarrow> write_header m msg address types;
        tbuf \<leftarrow> store tbuf 0 0;
        (ibuf, tbuf, n) \<leftarrow> index_osc_values m msg ibuf tbuf ttag_start (osc_fix_size i);
        free \<leftarrow> load ibuf 1;
        let bytes = word_of_nat (free - msg);
        m \<leftarrow> store32 m buf (htonl bytes);
        Some (m, ibuf, tbuf, bytes)
      })"

definition osc_bundle_append_message ::
  "byte list \<Rightarrow> nat \<Rightarrow> nat list \<Rightarrow> byte list \<Rightarrow> byte list \<Rightarrow> byte list \<Rightarrow> nat
     \<Rightarrow> (byte list \<times> nat list \<times> byte list \<times> u32) option" where
  "osc_bundle_append_message m buf ibuf tbuf address types offset =
     (let len = buf + offset; msg = len + 4 in do {
        (m, ttag_start, i) \<leftarrow> write_header m msg address types;
        rv \<leftarrow> required_values tbuf;
        (ibuf, tbuf, n) \<leftarrow> index_osc_values m msg ibuf tbuf ttag_start (osc_fix_size i);
        c \<leftarrow> load tbuf 0;
        tbuf \<leftarrow> store tbuf 0 (c + word_of_int rv);
        free \<leftarrow> load ibuf 1;
        let bytes = word_of_nat (free - msg);
        m \<leftarrow> store32 m len (htonl bytes);
        Some (m, ibuf, tbuf, bytes + 4)
      })"

section \<open>Bundles\<close>

text \<open>
  The bounds check of \<^verbatim>\<open>index_osc_bundle_values\<close> adds the message lengths up. The sum of a length and 4 is
  computed in 32 bits, so the loop may not end: the outer \<open>None\<close> is a loop that runs forever, the inner one
  an access outside the block.
\<close>

partial_function (option) bundle_walk :: "byte list \<Rightarrow> nat \<Rightarrow> nat \<Rightarrow> nat option option" where
  "bundle_walk m len stop =
     (if len < stop then
        case load32 m len of
          None \<Rightarrow> Some None
        | Some w \<Rightarrow> bundle_walk m (len + unat (htonl w + 4)) stop
      else Some (Some len))"

text \<open>The second loop; it has the same step, without the wrap-around of the sum.\<close>

definition bundle_index_one ::
  "bool \<Rightarrow> byte list \<Rightarrow> nat list \<Rightarrow> byte list \<Rightarrow> nat \<Rightarrow> u32 \<Rightarrow> (byte list \<times> nat list \<times> byte list \<times> u32 \<times> nat) option" where
  "bundle_index_one swap m ibuf tbuf len rv =
     (let msg = len + 4 in do {
        slen \<leftarrow> strlen m msg;
        let ttag_start = osc_fix_size slen;
        slen \<leftarrow> strlen m (msg + ttag_start);
        let i = ttag_start + osc_fix_size slen;
        tbuf \<leftarrow> store tbuf 0 (ucast rv);
        (m, ibuf, tbuf) \<leftarrow>
          (if swap then do {
             (m, ibuf, tbuf, n) \<leftarrow> index_osc_values_le m msg ibuf tbuf ttag_start i;
             Some (m, ibuf, tbuf)
           } else do {
             (ibuf, tbuf, n) \<leftarrow> index_osc_values m msg ibuf tbuf ttag_start i;
             Some (m, ibuf, tbuf)
           });
        c \<leftarrow> load tbuf 0;
        w \<leftarrow> load32 m len;
        Some (m, ibuf, tbuf, rv + scast c, msg + unat (htonl w))
      })"

partial_function (option) bundle_index ::
  "bool \<Rightarrow> byte list \<Rightarrow> nat list \<Rightarrow> byte list \<Rightarrow> nat \<Rightarrow> u32 \<Rightarrow> nat
     \<Rightarrow> (byte list \<times> nat list \<times> byte list \<times> u32) option option" where
  "bundle_index swap m ibuf tbuf len rv stop =
     (case bundle_index_one swap m ibuf tbuf len rv of
        None \<Rightarrow> Some None
      | Some (m, ibuf, tbuf, rv, len) \<Rightarrow>
          if len < stop then bundle_index swap m ibuf tbuf len rv stop
          else Some (Some (m, ibuf, tbuf, rv)))"

definition index_osc_bundle_values ::
  "byte list \<Rightarrow> nat \<Rightarrow> nat list \<Rightarrow> byte list \<Rightarrow> u32 \<Rightarrow> bool
     \<Rightarrow> (byte list \<times> nat list \<times> byte list \<times> int) option option" where
  "index_osc_bundle_values m buf ibuf tbuf sz swap =
     (let stop = buf + unat sz + 4 in
      case bundle_walk m buf stop of
        None \<Rightarrow> None
      | Some None \<Rightarrow> Some None
      | Some (Some len) \<Rightarrow>
          if len \<noteq> stop then Some (Some (m, ibuf, tbuf, - 1))
          else case bundle_index swap m ibuf tbuf buf 0 stop of
            None \<Rightarrow> None
          | Some None \<Rightarrow> Some None
          | Some (Some (m, ibuf, tbuf, rv)) \<Rightarrow>
              Some (do {
                tbuf \<leftarrow> store tbuf 0 (ucast rv);
                Some (m, ibuf, tbuf, sint rv)
              }))"

section \<open>Values and their bytes\<close>

text \<open>
  A value is a type tag with its bytes. \<open>payload t pl\<close> says that \<open>pl\<close> is a value of the type \<open>t\<close> in the byte order
  of the machine; the network order is related to it by \<open>conv\<close>.
\<close>

definition is_value :: "byte \<Rightarrow> bool" where
  "is_value t \<longleftrightarrow> t \<in> set (map tag ''ficdhsSbtm'')"

definition payload :: "byte \<Rightarrow> byte list \<Rightarrow> bool" where
  "payload t pl \<longleftrightarrow>
     (if t \<in> set (map tag ''ficm'') then length pl = 4
      else if t \<in> set (map tag ''dht'') then length pl = 8
      else if t \<in> set (map tag ''sS'') then pl = osc_pad (takeWhile (\<lambda>b. b \<noteq> 0) pl)
      else if t = tag CHR ''b'' then
        let n = unat (of_bytes (take 4 pl)) in n + 7 < 2 ^ 32 \<and> length pl = 4 * ((n + 3) div 4 + 1)
      else pl = [])"

definition conv :: "bool \<Rightarrow> byte \<Rightarrow> byte list \<Rightarrow> byte list" where
  "conv swap t pl =
     (if \<not> swap then pl
      else if t \<in> set (map tag ''ficdh'') then rev pl
      else if t = tag CHR ''b'' then rev (take 4 pl) @ drop 4 pl
      else pl)"

lemma tags_eval:
  "tag CHR ''f'' = 102" "tag CHR ''i'' = 105" "tag CHR ''c'' = 99" "tag CHR ''d'' = 100"
  "tag CHR ''h'' = 104" "tag CHR ''s'' = 115" "tag CHR ''S'' = 83" "tag CHR ''b'' = 98"
  "tag CHR ''t'' = 116" "tag CHR ''m'' = 109" "tag CHR '','' = 44"
  by (simp_all add: tag_def of_char_of)

lemma length_conv [simp]: "length (conv swap t pl) = length pl"
  by (auto simp: conv_def min_def)

lemma conv_Nil [simp]: "conv swap t [] = []"
  by (simp add: conv_def)

lemma conv_False [simp]: "conv False t pl = pl"
  by (simp add: conv_def)

lemma payload_flag: "payload t pl \<Longrightarrow> \<not> is_value t \<Longrightarrow> pl = []"
  by (auto simp: payload_def is_value_def split: if_splits)

lemma payload_blob:
  "payload (tag CHR ''b'') pl = (let n = unat (of_bytes (take 4 pl)) in
     n + 7 < 2 ^ 32 \<and> length pl = 4 * ((n + 3) div 4 + 1))"
  by (simp add: payload_def tags_eval)

lemma slice_id:
  assumes "take (length pl) (drop p m) = pl"
  shows "take p m @ pl @ drop (p + length pl) m = m"
  by (metis append_take_drop_id assms add.commute drop_drop)

lemma slice_bound:
  assumes "take (length pl) (drop p m) = pl" and "pl \<noteq> []"
  shows "p + length pl \<le> length m"
  using arg_cong [OF assms(1), of length] assms(2) by (cases pl) (auto simp: min_def split: if_splits)

lemma slice_part:
  assumes "take (length pl) (drop p m) = pl" and "k + n \<le> length pl"
  shows "take n (drop (p + k) m) = take n (drop k pl)"
proof -
  have "take n (drop k pl) = take n (drop k (take (length pl) (drop p m)))" using assms(1) by simp
  then show ?thesis using assms(2) by (simp add: drop_take min_def add.commute)
qed

lemma value_swap_spec:
  assumes pl: "take (length pl) (drop p m) = pl" and ok: "payload t (conv True t pl)" and "pl \<noteq> []"
  shows "value_swap m p t = Some (take p m @ conv True t pl @ drop (p + length pl) m)"
proof -
  note bd = slice_bound [OF pl assms(3)]
  consider (one) "t \<in> set (map tag ''fic'')" | (two) "t \<in> set (map tag ''dh'')"
    | (blob) "t = tag CHR ''b''" | (other) "t \<notin> set (map tag ''ficdhb'')"
    by auto
  then show ?thesis
  proof cases
    case one
    then have "length pl = 4" "conv True t pl = rev pl"
      using ok by (auto simp: payload_def conv_def tags_eval)
    then show ?thesis
      using one bd pl by (auto simp: value_swap_def load32_in store32_in bytes_of_of)
  next
    case two
    then have len: "length pl = 8" and cv: "conv True t pl = rev pl"
      using ok by (auto simp: payload_def conv_def tags_eval)
    have parts: "take 4 (drop p m) = take 4 pl" "take 4 (drop (p + 4) m) = drop 4 pl"
      using slice_part [OF pl, of 0 4] slice_part [OF pl, of 4 4] len by simp_all
    have "rev pl = rev (drop 4 pl) @ rev (take 4 pl)"
      by (metis append_take_drop_id rev_append)
    then show ?thesis
      using two bd len unfolding cv
      by (auto simp: value_swap_def load32_in store32_in parts bytes_of_of tags_eval add.commute [of 8])
  next
    case blob
    then have len: "4 \<le> length pl" and cv: "conv True t pl = rev (take 4 pl) @ drop 4 pl"
      using ok by (auto simp: payload_def conv_def tags_eval Let_def)
    have "take 4 (drop p m) = take 4 pl" using slice_part [OF pl, of 0 4] len by simp
    moreover have "drop (p + 4) m = drop 4 pl @ drop (p + length pl) m"
    proof -
      have "drop (p + 4) m = drop (p + 4) (take p m @ pl @ drop (p + length pl) m)"
        by (simp only: slice_id [OF pl])
      then show ?thesis using bd len by simp
    qed
    ultimately show ?thesis
      using blob bd len unfolding cv
      by (simp add: value_swap_def load32_in store32_in bytes_of_of tags_eval)
  next
    case other
    then show ?thesis
      using slice_id [OF pl] by (auto simp: value_swap_def conv_def)
  qed
qed

lemma value_words_spec:
  assumes pl: "take (length pl) (drop p m) = pl" and ok: "payload t pl" and "is_value t"
  shows "value_words m p t = Some (Some (length pl div 4)) \<and> 4 dvd length pl \<and> pl \<noteq> []"
proof -
  consider (fix_) "t \<in> set (map tag ''ficdhtm'')" | (str) "t \<in> set (map tag ''sS'')"
    | (blob) "t = tag CHR ''b''"
    using assms(3) by (auto simp: is_value_def)
  then show ?thesis
  proof cases
    case fix_
    then show ?thesis using ok by (auto simp: payload_def value_words_def tags_eval)
  next
    case str
    define u where "u = takeWhile (\<lambda>b. b \<noteq> 0) pl"
    have "pl = osc_pad u" using str ok by (auto simp: payload_def tags_eval u_def)
    moreover have "0 \<notin> set u" unfolding u_def by (auto dest: set_takeWhileD)
    moreover note osc_pad_zero [of u]
    ultimately have "strlen m p = Some (length u)" and "length pl = 4 * (length u div 4 + 1)"
      using slice_part [OF pl, of 0 "length u + 1"] strlen_eq [of u p m] length_osc_pad [of u]
      by (auto simp: osc_fix_size_eq)
    then show ?thesis using str by (auto simp: value_words_def tags_eval)
  next
    case blob
    let ?n = "of_bytes (take 4 pl)"
    have len: "unat ?n + 7 < 2 ^ 32" "length pl = 4 * ((unat ?n + 3) div 4 + 1)"
      using ok unfolding blob payload_blob Let_def by blast+
    have l4: "4 \<le> length pl" by (subst len(2)) simp
    then have "pl \<noteq> []" by auto
    with slice_bound [OF pl] l4 have "p + 4 \<le> length m" by linarith
    then have "load32 m p = Some ?n"
      using slice_part [OF pl, of 0 4] l4 by (simp add: load32_in)
    then have "value_words m p t = Some (Some ((unat ?n + 3) div 4 + 1))"
      using blob osc_fix_size32_words [OF len(1)] by (simp add: value_words_def tags_eval)
    moreover have "4 dvd length pl" "length pl div 4 = (unat ?n + 3) div 4 + 1"
      unfolding len(2) by simp_all
    ultimately show ?thesis using \<open>pl \<noteq> []\<close> by simp
  qed
qed

lemma value_words_flag: "\<not> is_value t \<Longrightarrow> value_words m p t = Some None"
  by (auto simp: value_words_def is_value_def)

lemma value_swap_flag: "\<not> is_value t \<Longrightarrow> value_swap m p t = Some m"
  by (auto simp: value_swap_def is_value_def)

section \<open>The index loop\<close>

type_synonym arg = "byte \<times> byte list"

abbreviation arg_bytes :: "bool \<Rightarrow> arg list \<Rightarrow> byte list" where
  "arg_bytes swap args \<equiv> concat (map (\<lambda>(t, pl). conv swap t pl) args)"

abbreviation arg_raw :: "arg list \<Rightarrow> byte list" where
  "arg_raw args \<equiv> concat (map snd args)"

definition arg_values :: "arg list \<Rightarrow> arg list" where
  "arg_values args = filter (\<lambda>(t, pl). is_value t) args"

text \<open>Where the values start, the first one at \<open>p\<close>.\<close>

primrec arg_offsets :: "nat \<Rightarrow> arg list \<Rightarrow> nat list" where
  "arg_offsets p [] = []"
| "arg_offsets p (a # args) =
     (if is_value (fst a) then p # arg_offsets (p + length (snd a)) args else arg_offsets p args)"

definition args_ok :: "bool \<Rightarrow> arg list \<Rightarrow> bool" where
  "args_ok swap args \<longleftrightarrow> (\<forall>(t, pl) \<in> set args. t \<noteq> 0 \<and> payload t (conv swap t pl))"

lemma length_arg_offsets [simp]: "length (arg_offsets p args) = length (arg_values args)"
  by (induction args arbitrary: p) (auto simp: arg_values_def)

lemma length_arg_bytes [simp]: "length (arg_bytes swap args) = length (arg_raw args)"
  by (induction args) auto

lemma arg_bytes_False [simp]: "arg_bytes False args = arg_raw args"
  by (induction args) auto

lemma slice_Suc:
  "take (Suc n) (drop p m) = x # xs \<longleftrightarrow> p < length m \<and> m ! p = x \<and> take n (drop (Suc p) m) = xs"
  by (cases "p < length m") (auto simp flip: Cons_nth_drop_Suc)

text \<open>One round of the loop.\<close>

lemma index_loop_flag:
  assumes "tt < length m" and "m ! tt = t" and "t \<noteq> 0" and "\<not> is_value t"
    and "res < length ibuf" and "tb < length tbuf"
  shows "index_loop swap m tt dat ibuf res tbuf tb i =
    index_loop swap m (Suc tt) dat (ibuf[res := dat + 4 * i]) res (tbuf[tb := t]) tb i"
  using assms
  by (subst index_loop.simps) (simp add: Let_def store_in value_swap_flag value_words_flag)

lemma index_loop_value:
  assumes "tt < length m" and "m ! tt = t" and "t \<noteq> 0" and "is_value t"
    and "res < length ibuf" and "tb < length tbuf"
    and pl: "take (length pl) (drop (dat + 4 * i) m) = pl" and ok: "payload t (conv swap t pl)"
    and i: "i + length pl div 4 < 2 ^ 31"
  shows "index_loop swap m tt dat ibuf res tbuf tb i =
    index_loop swap (take (dat + 4 * i) m @ conv swap t pl @ drop (dat + 4 * i + length pl) m) (Suc tt) dat
      (ibuf[res := dat + 4 * i]) (res + 1) (tbuf[tb := t]) (tb + 1) (i + length pl div 4)"
proof -
  let ?p = "dat + 4 * i"
  let ?m = "take ?p m @ conv swap t pl @ drop (?p + length pl) m"
  have ne: "pl \<noteq> []"
    using value_words_spec [of "conv swap t pl" 0 "conv swap t pl" t] ok assms(4)
    by (metis drop0 length_0_conv length_conv take_all_iff order_refl)
  have "(if swap then value_swap m ?p t else Some m) = Some ?m"
    using value_swap_spec [OF pl _ ne] ok slice_id [OF pl] by (cases swap) simp_all
  moreover have "value_words ?m ?p t = Some (Some (length pl div 4))"
    using value_words_spec [of "conv swap t pl" ?p ?m t] ok assms(4) slice_bound [OF pl ne]
    by (simp add: min_def)
  ultimately show ?thesis
    using assms(1-6) i by (subst index_loop.simps) (simp add: Let_def store_in)
qed

lemma index_loop_spec:
  assumes "take (length args + 1) (drop tt m) = map fst args @ [0]"
    and "args_ok swap args"
    and "take (length (arg_raw args)) (drop p m) = arg_raw args"
    and "p = dat + 4 * i" and "tt + length args < p"
    and "res + length (arg_values args) < length ibuf" and "tb + length (arg_values args) < length tbuf"
    and "i + length (arg_raw args) div 4 < 2 ^ 31"
  shows "\<exists>ibuf' tbuf'. index_loop swap m tt dat ibuf res tbuf tb i =
      Some (take p m @ arg_bytes swap args @ drop (p + length (arg_raw args)) m,
        ibuf', res + length (arg_values args), tbuf', tb + length (arg_values args),
        i + length (arg_raw args) div 4) \<and>
    4 dvd length (arg_raw args) \<and>
    length ibuf' = length ibuf \<and> length tbuf' = length tbuf \<and>
    take (res + length (arg_values args)) ibuf' = take res ibuf @ arg_offsets p args \<and>
    take (tb + length (arg_values args)) tbuf' = take tb tbuf @ map fst (arg_values args)"
  using assms
proof (induction args arbitrary: m tt p i res tb ibuf tbuf)
  case Nil
  then have "tt < length m" "m ! tt = 0" by (simp_all add: slice_Suc)
  then show ?case
    by (subst index_loop.simps) (simp add: arg_values_def)
next
  case (Cons a args)
  obtain t pl where a: "a = (t, pl)" by (cases a)
  have tt: "tt < length m" "m ! tt = t" and tags: "take (length args + 1) (drop (Suc tt) m) = map fst args @ [0]"
    using Cons.prems(1) by (simp_all add: a slice_Suc)
  have t: "t \<noteq> 0" and ok: "payload t (conv swap t pl)" and oks: "args_ok swap args"
    using Cons.prems(2) by (auto simp: a args_ok_def)
  have res: "res < length ibuf" "tb < length tbuf" using Cons.prems(6,7) by auto
  let ?R = "arg_raw args"
  show ?case
  proof (cases "is_value t")
    case False
    then have [simp]: "pl = []" using payload_flag [OF ok] by (cases pl) (auto dest: arg_cong [of _ _ length])
    have vals: "arg_values (a # args) = arg_values args" "arg_offsets p (a # args) = arg_offsets p args"
      using False by (simp_all add: a arg_values_def)
    then show ?thesis
      using Cons.IH [OF tags oks, of p i res "ibuf[res := p]" tb "tbuf[tb := t]"] Cons.prems(3-8)
        index_loop_flag [OF tt t False res, of swap dat i] unfolding vals
      by (simp add: a)
  next
    case True
    have "take (length (pl @ ?R)) (drop p m) = pl @ ?R" using Cons.prems(3) by (simp add: a)
    then have pl: "take (length pl) (drop p m) = pl" and R: "take (length ?R) (drop (p + length pl) m) = ?R"
      using slice_part [of "pl @ ?R" p m 0 "length pl"] slice_part [of "pl @ ?R" p m "length pl" "length ?R"]
      by simp_all
    have dvd: "4 dvd length pl" and ne: "pl \<noteq> []"
      using value_words_spec [of "conv swap t pl" 0 "conv swap t pl" t] ok True
      by (auto dest: arg_cong [of _ _ length])
    have bd: "p + length pl \<le> length m" by (rule slice_bound [OF pl ne])
    define m1 where "m1 = take p m @ conv swap t pl @ drop (p + length pl) m"
    have len: "length m1 = length m" and upper: "\<And>k. drop (p + length pl + k) m1 = drop (p + length pl + k) m"
      and lower: "take (p + length pl) m1 = take p m @ conv swap t pl"
    proof -
      have "p < length m" using bd ne by (cases pl) auto
      then show "length m1 = length m" "take (p + length pl) m1 = take p m @ conv swap t pl"
        "\<And>k. drop (p + length pl + k) m1 = drop (p + length pl + k) m"
        using bd by (simp_all add: m1_def min_def add_ac)
    qed
    have t1: "take (length args + 1) (drop (Suc tt) m1) = map fst args @ [0]"
    proof -
      have "drop (Suc tt) m1 = drop (Suc tt) (take p m) @ conv swap t pl @ drop (p + length pl) m"
        using Cons.prems(5) bd by (simp add: m1_def)
      then have "take (length args + 1) (drop (Suc tt) m1) = take (length args + 1) (drop (Suc tt) (take p m))"
        using Cons.prems(5) bd by simp
      also have "\<dots> = take (length args + 1) (drop (Suc tt) m)"
        using Cons.prems(5) by (simp add: drop_take min_def)
      finally show ?thesis using tags by simp
    qed
    have R1: "take (length ?R) (drop (p + length pl) m1) = ?R" using R upper [of 0] by simp
    have p1: "p + length pl = dat + 4 * (i + length pl div 4)" using Cons.prems(4) dvd by auto
    have tt1: "Suc tt + length args < p + length pl" using Cons.prems(5) by simp
    have vals: "length (arg_values (a # args)) = Suc (length (arg_values args))"
      "map fst (arg_values (a # args)) = t # map fst (arg_values args)"
      "arg_offsets p (a # args) = p # arg_offsets (p + length pl) args"
      using True by (simp_all add: a arg_values_def)
    have res1: "res + 1 + length (arg_values args) < length (ibuf[res := p])"
      "tb + 1 + length (arg_values args) < length (tbuf[tb := t])"
      using Cons.prems(6,7) unfolding vals by simp_all
    have i1: "i + length pl div 4 + length ?R div 4 < 2 ^ 31"
      using Cons.prems(8) dvd by (simp add: a div_add add.assoc)
    obtain ibuf' tbuf' where *:
      "index_loop swap m1 (Suc tt) dat (ibuf[res := p]) (res + 1) (tbuf[tb := t]) (tb + 1) (i + length pl div 4) =
        Some (take (p + length pl) m1 @ arg_bytes swap args @ drop (p + length pl + length ?R) m1,
          ibuf', res + 1 + length (arg_values args), tbuf', tb + 1 + length (arg_values args),
          i + length pl div 4 + length ?R div 4)"
      "4 dvd length ?R" "length ibuf' = length (ibuf[res := p])" "length tbuf' = length (tbuf[tb := t])"
      "take (res + 1 + length (arg_values args)) ibuf' = take (res + 1) (ibuf[res := p]) @ arg_offsets (p + length pl) args"
      "take (tb + 1 + length (arg_values args)) tbuf' = take (tb + 1) (tbuf[tb := t]) @ map fst (arg_values args)"
      using Cons.IH [OF t1 oks R1 p1 tt1 res1 i1] by blast
    have "index_loop swap m tt dat ibuf res tbuf tb i =
        index_loop swap m1 (Suc tt) dat (ibuf[res := p]) (res + 1) (tbuf[tb := t]) (tb + 1) (i + length pl div 4)"
      using index_loop_value [OF tt t True res, of pl dat i swap] pl ok Cons.prems(4,8) dvd
      by (simp add: a m1_def div_add)
    moreover have "take (p + length pl) m1 @ arg_bytes swap args @ drop (p + length pl + length ?R) m1 =
        take p m @ arg_bytes swap (a # args) @ drop (p + length (arg_raw (a # args))) m"
      unfolding upper lower by (simp add: a add.assoc)
    ultimately have "index_loop swap m tt dat ibuf res tbuf tb i =
        Some (take p m @ arg_bytes swap (a # args) @ drop (p + length (arg_raw (a # args))) m,
          ibuf', res + length (arg_values (a # args)), tbuf', tb + length (arg_values (a # args)),
          i + length (arg_raw (a # args)) div 4)"
      using *(1,2) dvd unfolding vals by (simp add: a div_add)
    moreover have "take (res + length (arg_values (a # args))) ibuf' = take res ibuf @ arg_offsets p (a # args)"
      "take (tb + length (arg_values (a # args))) tbuf' = take tb tbuf @ map fst (arg_values (a # args))"
      using *(5,6) res unfolding vals by (simp_all add: take_Suc_conv_app_nth)
    moreover have "4 dvd length (arg_raw (a # args))" using *(2) dvd by (simp add: a)
    ultimately show ?thesis using *(3,4) unfolding length_list_update by blast
  qed
qed

section \<open>The indexing functions\<close>

text \<open>
  What the tables hold after an indexing: the pointer to the type tags, the start of the free memory (twice), \<open>k\<close>
  values indexed before and the new ones.
\<close>

definition indexed ::
  "nat list \<Rightarrow> byte list \<Rightarrow> nat \<Rightarrow> arg list \<Rightarrow> nat \<Rightarrow> nat \<Rightarrow> nat list \<Rightarrow> byte list \<Rightarrow> bool" where
  "indexed ibuf tbuf k args ttag p ibuf' tbuf' \<longleftrightarrow>
     (let n = length (arg_values args); free = p + length (arg_raw args) in
        length ibuf' = length ibuf \<and> length tbuf' = length tbuf \<and>
        ibuf' ! 0 = ttag \<and> ibuf' ! 1 = free \<and> ibuf' ! (2 + k + n) = free \<and>
        take (k + n) (drop 2 ibuf') = take k (drop 2 ibuf) @ arg_offsets p args \<and>
        tbuf' ! 0 = word_of_nat n \<and>
        take (k + n) (drop 1 tbuf') = take k (drop 1 tbuf) @ map fst (arg_values args))"

lemma index_end_indexed:
  assumes "take (2 + k + n) ibuf1 = take (2 + k) (ibuf[0 := ttag]) @ arg_offsets p args"
    and "take (1 + k + n) tbuf1 = take (1 + k) tbuf @ map fst (arg_values args)"
    and n: "n = length (arg_values args)" and "length ibuf1 = length ibuf" "length tbuf1 = length tbuf"
    and "2 + k + n < length ibuf" and "1 + k + n < length tbuf"
    and free: "free = p + length (arg_raw args)"
  shows "\<exists>ibuf' tbuf'. index_end ibuf1 tbuf1 (2 + k + n) (2 + k) free = Some (ibuf', tbuf') \<and>
    indexed ibuf tbuf k args ttag p ibuf' tbuf'"
proof -
  let ?i = "ibuf1[2 + k + n := free, 1 := free]" and ?t = "tbuf1[0 := word_of_nat n]"
  have "0 < length tbuf1" "1 < length ibuf1" using assms(4-7) by linarith+
  then have "index_end ibuf1 tbuf1 (2 + k + n) (2 + k) free = Some (?i, ?t)"
    using assms(4-7) by (simp add: index_end_def store_in)
  moreover have "take (k + n) (drop 2 ?i) = take k (drop 2 ibuf) @ arg_offsets p args"
  proof -
    have "take (k + n) (drop 2 ?i) = drop 2 (take (2 + k + n) ibuf1)"
      by (simp add: drop_take drop_update_swap take_update_cancel)
    also have "\<dots> = take k (drop 2 ibuf) @ arg_offsets p args"
      unfolding assms(1) using assms(6) by (simp add: drop_take)
    finally show ?thesis .
  qed
  moreover have "take (k + n) (drop 1 ?t) = take k (drop 1 tbuf) @ map fst (arg_values args)"
  proof -
    have "take (k + n) (drop 1 ?t) = drop 1 (take (1 + k + n) tbuf1)"
      by (simp add: drop_take)
    also have "\<dots> = take k (drop 1 tbuf) @ map fst (arg_values args)"
      unfolding assms(2) using assms(7) by (simp add: drop_take)
    finally show ?thesis .
  qed
  moreover have "?i ! 0 = ttag"
  proof -
    have "?i ! 0 = take (2 + k + n) ibuf1 ! 0" by simp
    also have "\<dots> = ttag" unfolding assms(1) using assms(6) by (cases ibuf) (simp_all add: nth_append)
    finally show ?thesis .
  qed
  moreover have "?t ! 0 = word_of_nat n" using assms(5,7) by (cases tbuf1) simp_all
  ultimately show ?thesis
    using assms(4-7) free unfolding indexed_def n [symmetric] by (simp add: Let_def)
qed

lemma index_osc_values_spec:
  assumes tags: "take (length args + 1) (drop (oscbuf + ts) m) = map fst args @ [0]"
    and ok: "args_ok False args"
    and raw: "take (length (arg_raw args)) (drop (oscbuf + ds) m) = arg_raw args"
    and ds: "ts + length args < ds"
    and k: "0 < length tbuf" "sint (tbuf ! 0) = int k"
    and room: "2 + k + length (arg_values args) < length ibuf" "1 + k + length (arg_values args) < length tbuf"
    and sz: "length (arg_raw args) div 4 < 2 ^ 31"
  shows "\<exists>ibuf' tbuf'. index_osc_values m oscbuf ibuf tbuf ts ds =
      Some (ibuf', tbuf', length (arg_raw args) div 4) \<and>
    indexed ibuf tbuf k args (oscbuf + ts) (oscbuf + ds) ibuf' tbuf' \<and> 4 dvd length (arg_raw args)"
proof -
  let ?p = "oscbuf + ds" and ?n = "length (arg_values args)"
  obtain ibuf1 tbuf1 where loop:
    "index_loop False m (oscbuf + ts) ?p (ibuf[0 := oscbuf + ts]) (2 + k) tbuf (1 + k) 0 =
      Some (take ?p m @ arg_bytes False args @ drop (?p + length (arg_raw args)) m,
        ibuf1, 2 + k + ?n, tbuf1, 1 + k + ?n, 0 + length (arg_raw args) div 4)"
    and dvd: "4 dvd length (arg_raw args)"
    and t1: "length ibuf1 = length (ibuf[0 := oscbuf + ts])" "length tbuf1 = length tbuf"
      "take (2 + k + ?n) ibuf1 = take (2 + k) (ibuf[0 := oscbuf + ts]) @ arg_offsets ?p args"
      "take (1 + k + ?n) tbuf1 = take (1 + k) tbuf @ map fst (arg_values args)"
    using index_loop_spec [OF tags ok raw, of ?p 0 "2 + k" "ibuf[0 := oscbuf + ts]" "1 + k" tbuf]
      ds room sz by auto
  obtain ibuf' tbuf' where e:
    "index_end ibuf1 tbuf1 (2 + k + ?n) (2 + k) (?p + length (arg_raw args)) = Some (ibuf', tbuf')"
    "indexed ibuf tbuf k args (oscbuf + ts) ?p ibuf' tbuf'"
    using index_end_indexed [OF t1(3,4) refl _ t1(2) room refl] t1(1) by auto
  have "nat (2 + int k) = 2 + k" "nat (1 + int k) = 1 + k" "0 < length ibuf" using room(1) by linarith+
  then have "index_osc_values m oscbuf ibuf tbuf ts ds = Some (ibuf', tbuf', length (arg_raw args) div 4)"
    using loop e(1) k room(1) dvd
    by (simp add: index_osc_values_def required_values_def load_in store_in Let_def)
  then show ?thesis using e(2) dvd by blast
qed

lemma index_osc_values_le_spec:
  assumes tags: "take (length args + 1) (drop (oscbuf + ts) m) = map fst args @ [0]"
    and ok: "args_ok True args"
    and raw: "take (length (arg_raw args)) (drop (oscbuf + ds) m) = arg_raw args"
    and ds: "ts + length args < ds"
    and room: "2 + length (arg_values args) < length ibuf" "1 + length (arg_values args) < length tbuf"
    and sz: "length (arg_raw args) div 4 < 2 ^ 31"
  shows "\<exists>ibuf' tbuf'. index_osc_values_le m oscbuf ibuf tbuf ts ds =
      Some (take (oscbuf + ds) m @ arg_bytes True args @ drop (oscbuf + ds + length (arg_raw args)) m,
        ibuf', tbuf'[1 + length (arg_values args) := 0], length (arg_raw args) div 4) \<and>
    indexed ibuf tbuf 0 args (oscbuf + ts) (oscbuf + ds) ibuf' tbuf' \<and> 4 dvd length (arg_raw args)"
proof -
  let ?p = "oscbuf + ds" and ?n = "length (arg_values args)"
  obtain ibuf1 tbuf1 where loop:
    "index_loop True m (oscbuf + ts) ?p (ibuf[0 := oscbuf + ts]) 2 tbuf 1 0 =
      Some (take ?p m @ arg_bytes True args @ drop (?p + length (arg_raw args)) m,
        ibuf1, 2 + ?n, tbuf1, 1 + ?n, 0 + length (arg_raw args) div 4)"
    and dvd: "4 dvd length (arg_raw args)"
    and t1: "length ibuf1 = length (ibuf[0 := oscbuf + ts])" "length tbuf1 = length tbuf"
      "take (2 + ?n) ibuf1 = take 2 (ibuf[0 := oscbuf + ts]) @ arg_offsets ?p args"
      "take (1 + ?n) tbuf1 = take 1 tbuf @ map fst (arg_values args)"
    using index_loop_spec [OF tags ok raw, of ?p 0 2 "ibuf[0 := oscbuf + ts]" 1 tbuf]
      ds room sz by auto
  obtain ibuf' tbuf' where e:
    "index_end ibuf1 tbuf1 (2 + ?n) 2 (?p + length (arg_raw args)) = Some (ibuf', tbuf')"
    "indexed ibuf tbuf 0 args (oscbuf + ts) ?p ibuf' tbuf'"
    using index_end_indexed [of 0 ?n ibuf1 ibuf "oscbuf + ts" ?p args tbuf1 tbuf, OF _ _ refl _ t1(2) _ _ refl]
      t1 room by auto
  have "length tbuf' = length tbuf" using e(2) by (simp add: indexed_def Let_def)
  moreover have "0 < length ibuf" using room(1) by linarith
  ultimately have "index_osc_values_le m oscbuf ibuf tbuf ts ds =
      Some (take ?p m @ arg_bytes True args @ drop (?p + length (arg_raw args)) m,
        ibuf', tbuf'[1 + ?n := 0], length (arg_raw args) div 4)"
    using loop e(1) room(2) dvd
    by (simp add: index_osc_values_le_def store_in Let_def)
  then show ?thesis using e(2) dvd by blast
qed

text \<open>The bytes that an entry of the table points to.\<close>

lemma arg_offsets_slices:
  assumes "take (length (arg_raw args)) (drop p m) = arg_raw args" and "j < length (arg_values args)"
    and "\<And>t pl. (t, pl) \<in> set args \<Longrightarrow> \<not> is_value t \<Longrightarrow> pl = []"
  shows "take (length (snd (arg_values args ! j))) (drop (arg_offsets p args ! j) m) = snd (arg_values args ! j)"
  using assms
proof (induction args arbitrary: p j)
  case (Cons a args)
  have "take (length (snd a @ arg_raw args)) (drop p m) = snd a @ arg_raw args" using Cons.prems(1) by simp
  then have sl: "take (length (snd a)) (drop p m) = snd a"
    "take (length (arg_raw args)) (drop (p + length (snd a)) m) = arg_raw args"
    using slice_part [of "snd a @ arg_raw args" p m 0 "length (snd a)"]
      slice_part [of "snd a @ arg_raw args" p m "length (snd a)" "length (arg_raw args)"] by simp_all
  show ?case
  proof (cases "is_value (fst a)")
    case True
    then show ?thesis
      using sl Cons.prems Cons.IH [of "p + length (snd a)" "j - 1"]
      by (cases j) (auto simp: arg_values_def split: prod.splits)
  next
    case False
    then have "snd a = []" using Cons.prems(3) by (cases a) auto
    then show ?thesis
      using False sl Cons.prems Cons.IH [of p j] by (auto simp: arg_values_def split: prod.splits)
  qed
qed (simp add: arg_values_def)

text \<open>A list of values in the byte order of the network.\<close>

definition net :: "arg list \<Rightarrow> arg list" where
  "net args = map (\<lambda>(t, pl). (t, conv True t pl)) args"

lemma conv_conv [simp]: "conv True t (conv True t pl) = pl"
proof -
  have "take 4 (rev (take 4 pl) @ drop 4 pl) = rev (take 4 pl)" by (cases "length pl < 4") simp_all
  moreover have "drop 4 (rev (take 4 pl) @ drop 4 pl) = drop 4 pl" by (cases "length pl < 4") simp_all
  ultimately show ?thesis by (simp add: conv_def)
qed

lemma net_simps [simp]:
  "map fst (net args) = map fst args" "length (net args) = length args"
  "length (arg_raw (net args)) = length (arg_raw args)" "arg_bytes True (net args) = arg_raw args"
  "length (arg_values (net args)) = length (arg_values args)"
  "map fst (arg_values (net args)) = map fst (arg_values args)"
  "arg_offsets p (net args) = arg_offsets p args"
  by (induction args arbitrary: p) (auto simp: net_def arg_values_def)

lemma args_ok_net: "args_ok False args \<Longrightarrow> args_ok True (net args)"
  by (auto simp: args_ok_def net_def)

section \<open>Composed messages\<close>

lemma copy_str_spec:
  assumes "drop q src = s @ 0 # r" and "0 \<notin> set s" and "tmp + i + length s \<le> length m"
  shows "copy_str m tmp i src q =
    Some (take (tmp + i) m @ s @ drop (tmp + i + length s) m, i + length s)"
  using assms
proof (induction s arbitrary: m i q)
  case Nil
  then have "q < length src" "src ! q = 0"
    by (cases "q < length src"; simp flip: Cons_nth_drop_Suc)+
  then show ?case by (subst copy_str.simps) (simp add: load_in)
next
  case (Cons c s)
  have q: "q < length src" using Cons.prems(1) by (cases "q < length src") simp_all
  then have "src ! q = c" "drop (Suc q) src = s @ 0 # r"
    using Cons.prems(1) Cons_nth_drop_Suc [OF q] by simp_all
  then show ?case
    using q Cons.prems Cons.IH [of "Suc q" "i + 1" "m[tmp + i := c]"]
    by (subst copy_str.simps) (simp add: load_in store_in take_Suc_conv_app_nth)
qed

lemma write_header_spec:
  assumes "drop 0 address = a @ 0 # ra" and "drop 0 types = t @ 0 # rt" and "0 \<notin> set a" "0 \<notin> set t"
    and z: "take (osc_fix_size (length a) + osc_fix_size (1 + length t)) (drop msg m) =
      replicate (osc_fix_size (length a) + osc_fix_size (1 + length t)) 0"
  shows "write_header m msg address types =
    Some (take msg m @ osc_pad a @ osc_pad (tag CHR '','' # t) @
        drop (msg + osc_fix_size (length a) + osc_fix_size (1 + length t)) m,
      osc_fix_size (length a) + 1, osc_fix_size (length a) + 1 + length t)"
proof -
  let ?A = "osc_fix_size (length a)" and ?T = "osc_fix_size (1 + length t)"
  have fx: "length a < ?A" "length t + 1 < ?T" unfolding osc_fix_size_eq by presburger+
  define P where "P = take msg m"
  define R where "R = drop (msg + ?A + ?T) m"
  let ?x = "replicate (?A - length a) (0 :: byte)" and ?y = "replicate (?T - 1 - length t) (0 :: byte)"
  have bd: "msg + ?A + ?T \<le> length m"
    using slice_bound [of "replicate (?A + ?T) 0" msg m] z fx by simp
  have "m = P @ replicate (?A + ?T) 0 @ R"
    using slice_id [of "replicate (?A + ?T) 0" msg m] z by (simp add: P_def R_def add.assoc)
  also have "replicate (?A + ?T) (0 :: byte) = replicate (length a) 0 @ ?x @ 0 # replicate (length t) 0 @ ?y"
  proof -
    have "?A + ?T = length a + ((?A - length a) + Suc (length t + (?T - 1 - length t)))" using fx by simp
    then show ?thesis by (simp only: replicate_add replicate_Suc append_assoc append_Cons)
  qed
  finally have m: "m = P @ replicate (length a) 0 @ ?x @ 0 # replicate (length t) 0 @ ?y @ R" by simp
  have P: "length P = msg" using bd by (simp add: P_def)
  have 1: "copy_str m msg 0 address 0 = Some (P @ a @ ?x @ 0 # replicate (length t) 0 @ ?y @ R, length a)"
  proof -
    have "drop (msg + length a) m = ?x @ 0 # replicate (length t) 0 @ ?y @ R" by (subst m) (simp add: P)
    then show ?thesis using copy_str_spec [OF assms(1,3), of msg 0 m] bd fx by (simp add: P_def)
  qed
  let ?m2 = "P @ a @ ?x @ tag CHR '','' # replicate (length t) 0 @ ?y @ R"
  have 2: "store (P @ a @ ?x @ 0 # replicate (length t) 0 @ ?y @ R) (msg + ?A) (tag CHR '','') = Some ?m2"
    using fx P by (simp add: store_def list_update_append)
  have 3: "copy_str ?m2 msg (?A + 1) types 0 =
      Some (P @ a @ ?x @ tag CHR '','' # t @ ?y @ R, ?A + 1 + length t)"
    using copy_str_spec [OF assms(2,4), of msg "?A + 1" ?m2] fx P by simp
  have "osc_pad a = a @ ?x" "osc_pad (tag CHR '','' # t) = tag CHR '','' # t @ ?y"
  proof -
    have "4 - k mod 4 = osc_fix_size k - k" for k unfolding osc_fix_size_eq by presburger
    then show "osc_pad a = a @ ?x" "osc_pad (tag CHR '','' # t) = tag CHR '','' # t @ ?y"
      unfolding osc_pad_def by simp_all
  qed
  then show ?thesis
    using 1 2 3 by (simp add: write_header_def Let_def R_def flip: P_def)
qed

text \<open>The values of a composed message: zeros, as many as the type tag asks for.\<close>

definition zero_payload :: "byte \<Rightarrow> byte list" where
  "zero_payload t = replicate (if t \<in> set (map tag ''dht'') then 8 else if is_value t then 4 else 0) 0"

definition zero_args :: "byte list \<Rightarrow> arg list" where
  "zero_args types = map (\<lambda>t. (t, zero_payload t)) types"

lemma of_bytes_zero: "of_bytes (0 # 0 # 0 # 0 # r) = 0"
  by (simp add: of_bytes_def)

lemma payload_zero: "payload t (zero_payload t)"
proof -
  have r4: "replicate 4 (0 :: byte) = [0, 0, 0, 0]" by (simp add: numeral_eq_Suc)
  have z: "zero_payload t = [0, 0, 0, 0]" if "t \<in> set (map tag ''ficmsSb'')"
    using that by (auto simp: zero_payload_def is_value_def tags_eval r4)
  consider "t \<in> set (map tag ''ficm'')" | "t \<in> set (map tag ''dht'')"
    | "t \<in> set (map tag ''sS'')" | "t = tag CHR ''b''" | "\<not> is_value t"
    by (auto simp: is_value_def)
  then show ?thesis
  proof cases
    case 1
    then show ?thesis using z by (auto simp: payload_def)
  next
    case 2
    then show ?thesis by (auto simp: payload_def zero_payload_def tags_eval)
  next
    case 3
    moreover have "osc_pad [] = [0, 0, 0, 0]" by (simp add: osc_pad_def r4)
    ultimately show ?thesis using z by (auto simp: payload_def tags_eval)
  next
    case 4
    then show ?thesis using z payload_blob [of "[0, 0, 0, 0]"] by (simp add: of_bytes_zero)
  next
    case 5
    then show ?thesis by (auto simp: payload_def zero_payload_def is_value_def)
  qed
qed

lemma zero_args_simps [simp]:
  "map fst (zero_args types) = types" "length (zero_args types) = length types"
  by (simp_all add: zero_args_def o_def)

lemma arg_raw_zero: "arg_raw (zero_args types) = replicate (length (arg_raw (zero_args types))) 0"
  by (induction types) (simp_all add: zero_args_def zero_payload_def replicate_add)

lemma args_ok_zero: "0 \<notin> set types \<Longrightarrow> args_ok False (zero_args types)"
  by (auto simp: args_ok_def zero_args_def payload_zero)

text \<open>The bytes of a message with these values, as OSC 1.0 lays them out.\<close>

definition osc_message :: "byte list \<Rightarrow> byte list \<Rightarrow> byte list" where
  "osc_message a t = osc_pad a @ osc_pad (tag CHR '','' # t) @ arg_raw (zero_args t)"

lemma length_osc_message:
  "length (osc_message a t) =
    osc_fix_size (length a) + osc_fix_size (1 + length t) + length (arg_raw (zero_args t))"
  by (simp add: osc_message_def length_osc_pad)

text \<open>
  The part that \<^verbatim>\<open>osc_start_message\<close> and \<^verbatim>\<open>osc_bundle_append_message\<close> share: header and index, in a cleared
  region.
\<close>

lemma compose_spec:
  assumes src: "address = a @ 0 # ra" "types = t @ 0 # rt" "0 \<notin> set a" "0 \<notin> set t"
    and z: "take (length (osc_message a t)) (drop msg m) = replicate (length (osc_message a t)) 0"
    and k: "0 < length tbuf" "sint (tbuf ! 0) = int k"
    and room: "2 + k + length (arg_values (zero_args t)) < length ibuf"
      "1 + k + length (arg_values (zero_args t)) < length tbuf"
    and sz: "length (osc_message a t) < 2 ^ 31"
  shows "\<exists>m' ibuf' tbuf'.
    write_header m msg address types = Some (m', osc_fix_size (length a) + 1, osc_fix_size (length a) + 1 + length t) \<and>
    m' = take msg m @ osc_message a t @ drop (msg + length (osc_message a t)) m \<and>
    index_osc_values m' msg ibuf tbuf (osc_fix_size (length a) + 1) (osc_fix_size (osc_fix_size (length a) + 1 + length t)) =
      Some (ibuf', tbuf', length (arg_raw (zero_args t)) div 4) \<and>
    indexed ibuf tbuf k (zero_args t) (msg + osc_fix_size (length a) + 1)
      (msg + osc_fix_size (length a) + osc_fix_size (1 + length t)) ibuf' tbuf'"
proof -
  let ?A = "osc_fix_size (length a)" and ?T = "osc_fix_size (1 + length t)" and ?z = "zero_args t"
  let ?N = "length (osc_message a t)"
  have AT: "osc_fix_size (?A + 1 + length t) = ?A + ?T" "0 < ?A" "length t + 1 < ?T"
    unfolding osc_fix_size_eq by (simp_all, presburger+)
  have N: "?N = ?A + ?T + length (arg_raw ?z)" by (rule length_osc_message)
  have zs: "take n (drop (msg + i) m) = replicate n 0" if "i + n \<le> ?N" for i n
    using slice_part [of "replicate ?N 0" msg m i n] z that by simp
  have bd: "msg + ?N \<le> length m"
    using slice_bound [of "replicate ?N 0" msg m] z AT(2) N by simp
  define m' where "m' = take msg m @ osc_pad a @ osc_pad (tag CHR '','' # t) @ drop (msg + ?A + ?T) m"
  have w: "write_header m msg address types = Some (m', ?A + 1, ?A + 1 + length t)"
    using write_header_spec [of address a ra types t rt msg m] src zs [of 0 "?A + ?T"] N by (simp add: m'_def)
  have "drop (msg + ?A + ?T) m = arg_raw ?z @ drop (msg + ?N) m"
  proof -
    have "take (length (arg_raw ?z)) (drop (msg + ?A + ?T) m) = arg_raw ?z"
      using zs [of "?A + ?T" "length (arg_raw ?z)"] arg_raw_zero [of t] N by (simp add: add.assoc)
    from arg_cong [OF slice_id [OF this], of "drop (msg + ?A + ?T)"] bd N show ?thesis
      by (simp add: add.assoc)
  qed
  then have m': "m' = take msg m @ osc_message a t @ drop (msg + ?N) m"
    by (simp add: m'_def osc_message_def)
  have "osc_message a t = osc_pad a @ (tag CHR '','' # t @ [0]) @
      replicate (3 - length (tag CHR '','' # t) mod 4) 0 @ arg_raw ?z"
    unfolding osc_message_def by (subst osc_pad_zero [of "tag CHR '','' # t"]) simp
  then have tags: "take (length ?z + 1) (drop (msg + (?A + 1)) m') = map fst ?z @ [0]"
    using bd unfolding m' by (simp add: length_osc_pad)
  have raw: "take (length (arg_raw ?z)) (drop (msg + (?A + ?T)) m') = arg_raw ?z"
    using bd N unfolding m' by (simp add: osc_message_def length_osc_pad)
  have rz: "length (arg_raw ?z) div 4 < 2 ^ 31"
    using N sz div_le_dividend [of "length (arg_raw ?z)" 4] by linarith
  have tA: "?A + 1 + length ?z < ?A + ?T" using AT(3) by simp
  obtain ibuf' tbuf' where "index_osc_values m' msg ibuf tbuf (?A + 1) (?A + ?T) =
      Some (ibuf', tbuf', length (arg_raw ?z) div 4)"
    "indexed ibuf tbuf k ?z (msg + (?A + 1)) (msg + (?A + ?T)) ibuf' tbuf'"
    using index_osc_values_spec [OF tags args_ok_zero [OF src(4)] raw tA k room rz] by blast
  then show ?thesis
    unfolding AT(1) using w m' by (simp only: add.assoc) blast
qed

lemma store32_prefix:
  "length P = p \<Longrightarrow> length old = 4 \<Longrightarrow> store32 (P @ old @ R) p w = Some (P @ bytes_of w @ R)"
  by (simp add: store32_in)

lemma free_of_indexed:
  assumes "indexed ibuf tbuf k (zero_args t) tt
      (msg + osc_fix_size (length a) + osc_fix_size (1 + length t)) ibuf' tbuf'" and "1 < length ibuf"
  shows "load ibuf' 1 = Some (msg + length (osc_message a t))"
  using assms by (simp add: indexed_def Let_def load_in length_osc_message)

text \<open>
  C12. \<open>osc_start_message\<close> writes, behind a big-endian length, exactly the OSC message with the given address
  pattern and type tags and zero values, clears the rest of the \<open>maxlen\<close> bytes and no other byte, returns
  the length of the message, and leaves in the tables the address and the tag of every value and the start of the
  free memory.
\<close>

theorem osc_start_message_correct:
  assumes "address = a @ 0 # ra" and "types = t @ 0 # rt" and "0 \<notin> set a" "0 \<notin> set t"
    and "buf + 4 + maxlen \<le> length m" and "length (osc_message a t) \<le> maxlen" and "maxlen < 2 ^ 31"
    and "2 + length (arg_values (zero_args t)) < length ibuf"
    and "1 + length (arg_values (zero_args t)) < length tbuf"
  shows "\<exists>ibuf' tbuf'. osc_start_message m buf maxlen ibuf tbuf address types =
      Some (take buf m @ rev (bytes_of (word_of_nat (length (osc_message a t)))) @ osc_message a t @
          replicate (maxlen - length (osc_message a t)) 0 @ drop (buf + 4 + maxlen) m,
        ibuf', tbuf', word_of_nat (length (osc_message a t))) \<and>
    indexed ibuf (tbuf[0 := 0]) 0 (zero_args t) (buf + 4 + osc_fix_size (length a) + 1)
      (buf + 4 + osc_fix_size (length a) + osc_fix_size (1 + length t)) ibuf' tbuf'"
proof -
  let ?N = "length (osc_message a t)" and ?t = "tbuf[0 := 0]"
  let ?A = "osc_fix_size (length a)"
  define m0 where "m0 = take (buf + 4) m @ replicate maxlen 0 @ drop (buf + 4 + maxlen) m"
  have m0: "memset m (buf + 4) 0 maxlen = Some m0" using assms(5) by (simp add: memset_in m0_def)
  have z: "take ?N (drop (buf + 4) m0) = replicate ?N 0" using assms(5,6) by (simp add: m0_def min_def)
  have t0: "0 < length ?t" "sint (?t ! 0) = int 0" using assms(9) by (cases tbuf; simp)+
  have room: "2 + 0 + length (arg_values (zero_args t)) < length ibuf"
    "1 + 0 + length (arg_values (zero_args t)) < length ?t" using assms(8,9) by simp_all
  have sz: "?N < 2 ^ 31" using assms(6,7) by linarith
  obtain ibuf' tbuf' where c:
    "write_header m0 (buf + 4) address types =
      Some (take (buf + 4) m0 @ osc_message a t @ drop (buf + 4 + ?N) m0, ?A + 1, ?A + 1 + length t)"
    "index_osc_values (take (buf + 4) m0 @ osc_message a t @ drop (buf + 4 + ?N) m0) (buf + 4) ibuf ?t
        (?A + 1) (osc_fix_size (?A + 1 + length t)) =
      Some (ibuf', tbuf', length (arg_raw (zero_args t)) div 4)"
    and i: "indexed ibuf ?t 0 (zero_args t) (buf + 4 + ?A + 1)
      (buf + 4 + ?A + osc_fix_size (1 + length t)) ibuf' tbuf'"
    using compose_spec [OF assms(1-4) z t0 room sz] by auto
  have free: "load ibuf' 1 = Some (buf + 4 + ?N)" using free_of_indexed [OF i] assms(8) by simp
  have split: "take (buf + 4) m0 = take buf m @ take 4 (drop buf m)"
  proof -
    have "take (buf + 4) m0 = take (buf + 4) m" using assms(5) by (simp add: m0_def)
    then show ?thesis by (simp only: take_add)
  qed
  have rest: "drop (buf + 4 + ?N) m0 = replicate (maxlen - ?N) 0 @ drop (buf + 4 + maxlen) m"
    using assms(5,6) by (simp add: m0_def)
  have "store32 (take (buf + 4) m0 @ osc_message a t @ drop (buf + 4 + ?N) m0) buf (htonl (word_of_nat ?N)) =
      Some (take buf m @ bytes_of (htonl (word_of_nat ?N)) @ osc_message a t @
        replicate (maxlen - ?N) 0 @ drop (buf + 4 + maxlen) m)"
    unfolding split rest append_assoc using assms(5) by (intro store32_prefix) simp_all
  moreover have "store tbuf 0 0 = Some ?t" using assms(9) by (intro store_in) linarith
  ultimately show ?thesis
    using m0 c free i by (simp add: osc_start_message_def Let_def)
qed

text \<open>
  C13. \<open>osc_bundle_append_message\<close>, called with \<open>k\<close> values indexed before and cleared memory at the offset,
  writes the length and the message there and nothing else, appends the addresses and tags of the new values
  to the tables, counts them and returns the length of the bundle element.
\<close>

theorem osc_bundle_append_message_correct:
  assumes "address = a @ 0 # ra" and "types = t @ 0 # rt" and "0 \<notin> set a" "0 \<notin> set t"
    and z: "take (length (osc_message a t)) (drop (buf + offset + 4) m) = replicate (length (osc_message a t)) 0"
    and k: "0 < length tbuf" "sint (tbuf ! 0) = int k"
    and room: "2 + k + length (arg_values (zero_args t)) < length ibuf"
      "1 + k + length (arg_values (zero_args t)) < length tbuf"
    and sz: "length (osc_message a t) < 2 ^ 31"
  shows "\<exists>ibuf' tbuf'. osc_bundle_append_message m buf ibuf tbuf address types offset =
      Some (take (buf + offset) m @ rev (bytes_of (word_of_nat (length (osc_message a t)))) @ osc_message a t @
          drop (buf + offset + 4 + length (osc_message a t)) m,
        ibuf', tbuf'[0 := word_of_nat (k + length (arg_values (zero_args t)))],
        word_of_nat (4 + length (osc_message a t))) \<and>
    indexed ibuf tbuf k (zero_args t) (buf + offset + 4 + osc_fix_size (length a) + 1)
      (buf + offset + 4 + osc_fix_size (length a) + osc_fix_size (1 + length t)) ibuf' tbuf'"
proof -
  let ?N = "length (osc_message a t)" and ?len = "buf + offset" and ?A = "osc_fix_size (length a)"
  let ?n = "length (arg_values (zero_args t))"
  obtain ibuf' tbuf' where c:
    "write_header m (?len + 4) address types =
      Some (take (?len + 4) m @ osc_message a t @ drop (?len + 4 + ?N) m, ?A + 1, ?A + 1 + length t)"
    "index_osc_values (take (?len + 4) m @ osc_message a t @ drop (?len + 4 + ?N) m) (?len + 4) ibuf tbuf
        (?A + 1) (osc_fix_size (?A + 1 + length t)) =
      Some (ibuf', tbuf', length (arg_raw (zero_args t)) div 4)"
    and i: "indexed ibuf tbuf k (zero_args t) (?len + 4 + ?A + 1)
      (?len + 4 + ?A + osc_fix_size (1 + length t)) ibuf' tbuf'"
    using compose_spec [OF assms(1-4) z k room sz] by auto
  have free: "load ibuf' 1 = Some (?len + 4 + ?N)" using free_of_indexed [OF i] room(1) by simp
  have ne: "osc_message a t \<noteq> []" by (simp add: osc_message_def osc_pad_def)
  have bd: "?len + 4 + ?N \<le> length m" using slice_bound [of "replicate ?N 0" "?len + 4" m] z ne by simp
  have split: "take (?len + 4) m = take ?len m @ take 4 (drop ?len m)" by (rule take_add)
  have st: "store32 (take (?len + 4) m @ osc_message a t @ drop (?len + 4 + ?N) m) ?len (htonl (word_of_nat ?N)) =
      Some (take ?len m @ bytes_of (htonl (word_of_nat ?N)) @ osc_message a t @ drop (?len + 4 + ?N) m)"
    unfolding split append_assoc using bd by (intro store32_prefix) simp_all
  have t0: "tbuf' ! 0 = word_of_nat ?n" "0 < length tbuf'" using i k(1) by (simp_all add: indexed_def Let_def)
  have rv: "required_values tbuf = Some (int k)" using k by (simp add: required_values_def load_in)
  have "osc_bundle_append_message m buf ibuf tbuf address types offset =
      Some (take ?len m @ bytes_of (htonl (word_of_nat ?N)) @ osc_message a t @ drop (?len + 4 + ?N) m,
        ibuf', tbuf'[0 := word_of_nat ?n + word_of_int (int k)], word_of_nat ?N + 4)"
    using c free st t0 rv
    by (simp add: osc_bundle_append_message_def Let_def load_in store_in)
  moreover have "word_of_nat ?n + word_of_int (int k) = (word_of_nat (k + ?n) :: byte)"
    "word_of_nat ?N + 4 = (word_of_nat (4 + ?N) :: u32)" by simp_all
  ultimately show ?thesis using i unfolding bytes_of_htonl by (simp only:) blast
qed

section \<open>Matching address patterns\<close>

lemma drop_step: "drop i xs = x # ys \<Longrightarrow> load xs i = Some x \<and> drop (Suc i) xs = ys"
  by (cases "i < length xs") (simp_all add: load_in flip: Cons_nth_drop_Suc)

lemma pattern_loop_spec:
  assumes "drop i buf = a @ 0 # r" and "drop i address = a' @ 0 # r'" and "0 \<notin> set a" "0 \<notin> set a'"
  shows "pattern_loop buf address i = Some (if a = a' then Inl (i + length a) else Inr 0)"
  using assms
proof (induction a arbitrary: i a')
  case Nil
  then show ?case
    by (cases a') (auto dest!: drop_step simp: pattern_loop.simps [of buf address i])
next
  case (Cons c a)
  from Cons.prems(1) have b: "load buf i = Some c" "drop (Suc i) buf = a @ 0 # r"
    by (auto dest: drop_step)
  show ?case
  proof (cases a')
    case Nil
    then show ?thesis
      using Cons.prems b by (auto dest!: drop_step simp: pattern_loop.simps [of buf address i])
  next
    case (Cons c' a'')
    with Cons.prems(2) have "load address i = Some c'" "drop (Suc i) address = a'' @ 0 # r'"
      by (auto dest: drop_step)
    then show ?thesis
      using Cons.prems(3,4) b Cons Cons.IH [of "Suc i" a'']
      by (subst pattern_loop.simps) auto
  qed
qed

lemma strcmp_eq_spec:
  assumes "drop p m = s @ 0 # r" and "drop q m' = s' @ 0 # r'" and "0 \<notin> set s" "0 \<notin> set s'"
  shows "strcmp_eq m p m' q = Some (s = s')"
  using assms
proof (induction s arbitrary: p q s')
  case Nil
  then show ?case
    by (cases s') (auto dest!: drop_step simp: strcmp_eq.simps [of m p m' q])
next
  case (Cons c s)
  from Cons.prems(1) have b: "load m p = Some c" "drop (Suc p) m = s @ 0 # r"
    by (auto dest: drop_step)
  show ?case
  proof (cases s')
    case Nil
    then show ?thesis
      using Cons.prems b by (auto dest!: drop_step simp: strcmp_eq.simps [of m p m' q])
  next
    case (Cons c' s'')
    with Cons.prems(2) have "load m' q = Some c'" "drop (Suc q) m' = s'' @ 0 # r'"
      by (auto dest: drop_step)
    then show ?thesis
      using Cons.prems(3,4) b Cons Cons.IH [of "Suc p" "Suc q" s'']
      by (subst strcmp_eq.simps) auto
  qed
qed

lemma replicate_few:
  "replicate 2 x = [x, x]" "replicate 3 x = [x, x, x]" "replicate 4 x = [x, x, x, x]"
  "replicate 12 x = [x, x, x, x, x, x, x, x, x, x, x, x]"
  by (simp_all add: numeral_eq_Suc)

text \<open>
  C14. On a received message with the address pattern \<open>a\<close>, the type tags \<open>t\<close> and arbitrary argument data (\<open>data\<close>, all the
  bytes of the receive buffer behind the padded type tags), \<open>check_osc_pattern\<close> returns 1 exactly when both are the
  expected ones and 0 otherwise, and stays inside the two strings.
\<close>

theorem check_osc_pattern_iff:
  assumes "buf = osc_pad a @ osc_pad (tag CHR '','' # t) @ data" and "0 \<notin> set a" "0 \<notin> set t"
    and "address = a' @ 0 # ra" and "types = t' @ 0 # rt" and "0 \<notin> set a'" "0 \<notin> set t'"
  shows "check_osc_pattern buf address types = Some (if a = a' \<and> t = t' then 1 else 0)"
proof -
  have "\<exists>ra. buf = a @ 0 # ra"
    unfolding assms(1) by (subst osc_pad_zero) simp
  then obtain r1 where 1: "drop 0 buf = a @ 0 # r1" by auto
  have "drop (osc_fix_size (length a) + 1) (osc_pad a @ z) = drop 1 z" for z :: "byte list"
    by (simp add: length_osc_pad)
  then have "drop (osc_fix_size (length a) + 1) buf = drop 1 (osc_pad (tag CHR '','' # t) @ data)"
    unfolding assms(1) .
  also have "\<dots> = t @ 0 # replicate (3 - length (tag CHR '','' # t) mod 4) 0 @ data"
    by (subst osc_pad_zero) simp
  finally have 2: "drop (osc_fix_size (length a) + 1) buf =
      t @ 0 # replicate (3 - length (tag CHR '','' # t) mod 4) 0 @ data" .
  have "pattern_loop buf address 0 = Some (if a = a' then Inl (0 + length a) else Inr 0)"
    using pattern_loop_spec [OF 1 _ assms(2,6)] assms(4) by simp
  moreover have "strcmp_eq types 0 buf (osc_fix_size (length a) + 1) = Some (t' = t)"
    using strcmp_eq_spec [of 0 types t' rt, OF _ 2 assms(7,3)] assms(5) by simp
  ultimately show ?thesis by (auto simp: check_osc_pattern_def)
qed

text \<open>The message \<^verbatim>\<open>/a ,i 440\<close>, checked against \<^verbatim>\<open>/a ,i\<close> and against \<^verbatim>\<open>/b ,i\<close>.\<close>

theorem check_osc_pattern_iff_witness:
  "check_osc_pattern [47, 97, 0, 0, 44, 105, 0, 0, 0, 0, 1, 184] [47, 97, 0] [105, 0] = Some 1 \<and>
   check_osc_pattern [47, 97, 0, 0, 44, 105, 0, 0, 0, 0, 1, 184] [47, 98, 0] [105, 0] = Some 0"
proof -
  have b: "[47, 97, 0, 0, 44, 105, 0, 0, 0, 0, 1, 184] =
      osc_pad [47, 97] @ osc_pad (tag CHR '','' # [105]) @ [0, 0, 1, 184]"
    by (simp add: osc_pad_def tags_eval replicate_few)
  show ?thesis
    using check_osc_pattern_iff [OF b, of "[47, 97, 0]" "[47, 97]" "[]" "[105, 0]" "[105]" "[]"]
      check_osc_pattern_iff [OF b, of "[47, 98, 0]" "[47, 98]" "[]" "[105, 0]" "[105]" "[]"]
    by simp
qed

section \<open>Receiving values\<close>

text \<open>
  C15. When the values of a received message are in network byte order, \<open>index_osc_values_le\<close> turns them, in place
  and touching no other byte, into the machine's byte order, and every entry of the table points to its value;
  the type tags of the values are copied and terminated, and their number is stored.
\<close>

theorem index_le_decodes_values:
  assumes "take (length args + 1) (drop (oscbuf + ts) m) = map fst args @ [0]"
    and "args_ok False args"
    and "take (length (arg_raw args)) (drop (oscbuf + ds) m) = arg_raw (net args)"
    and "ts + length args < ds"
    and "2 + length (arg_values args) < length ibuf" "1 + length (arg_values args) < length tbuf"
    and "length (arg_raw args) div 4 < 2 ^ 31"
  shows "\<exists>m' ibuf' tbuf'. index_osc_values_le m oscbuf ibuf tbuf ts ds =
      Some (m', ibuf', tbuf', length (arg_raw args) div 4) \<and>
    m' = take (oscbuf + ds) m @ arg_raw args @ drop (oscbuf + ds + length (arg_raw args)) m \<and>
    (\<forall>j < length (arg_values args).
      take (length (snd (arg_values args ! j))) (drop (ibuf' ! (2 + j)) m') = snd (arg_values args ! j)) \<and>
    ibuf' ! 1 = oscbuf + ds + length (arg_raw args) \<and>
    tbuf' ! 0 = word_of_nat (length (arg_values args)) \<and>
    take (length (arg_values args) + 1) (drop 1 tbuf') = map fst (arg_values args) @ [0]"
proof -
  let ?n = "length (arg_values args)" and ?p = "oscbuf + ds"
  let ?m = "take ?p m @ arg_raw args @ drop (?p + length (arg_raw args)) m"
  obtain ibuf' tbuf' where i:
    "index_osc_values_le m oscbuf ibuf tbuf ts ds =
      Some (?m, ibuf', tbuf'[1 + ?n := 0], length (arg_raw args) div 4)"
    "indexed ibuf tbuf 0 (net args) (oscbuf + ts) ?p ibuf' tbuf'"
    using index_osc_values_le_spec [of "net args" oscbuf ts m ds ibuf tbuf] args_ok_net [OF assms(2)] assms
    by (auto simp del: split_paired_Ex)
  have t: "length ibuf' = length ibuf" "length tbuf' = length tbuf"
    "take ?n (drop 2 ibuf') = arg_offsets ?p args" "take ?n (drop 1 tbuf') = map fst (arg_values args)"
    "ibuf' ! 1 = ?p + length (arg_raw args)" "tbuf' ! 0 = word_of_nat ?n"
    using i(2) by (simp_all add: indexed_def Let_def)
  have entry: "ibuf' ! (2 + j) = arg_offsets ?p args ! j" if "j < ?n" for j
    using that assms(5) t(1) by (simp flip: t(3))
  have "length (arg_raw (net args)) = length (arg_raw args)" by simp
  then have pm: "length (take ?p m) = ?p \<or> arg_raw args = []"
    using arg_cong [OF assms(3), of length] by (cases "arg_raw args") (auto simp: min_def split: if_splits)
  have vals: "take (length (snd (arg_values args ! j))) (drop (ibuf' ! (2 + j)) ?m) = snd (arg_values args ! j)"
    if "j < ?n" for j
    unfolding entry [OF that]
  proof (rule arg_offsets_slices [OF _ that])
    show "take (length (arg_raw args)) (drop ?p ?m) = arg_raw args"
    proof (cases "length (arg_raw args) = 0")
      case True
      then show ?thesis by (simp only: length_0_conv list.size take_0)
    next
      case False
      then have "length (take ?p m) = ?p" using pm by (metis length_0_conv)
      then show ?thesis by simp
    qed
    show "pl = []" if "(t, pl) \<in> set args" "\<not> is_value t" for t pl
      using that assms(2) payload_flag by (force simp: args_ok_def)
  qed
  have "take (?n + 1) (drop 1 (tbuf'[1 + ?n := 0])) = take ?n (drop 1 tbuf') @ [0]"
    using assms(6) t(2) by (simp add: take_Suc_conv_app_nth drop_update_swap)
  then show ?thesis
    using i(1) vals t by (intro exI conjI) (simp_all only: nth_list_update_neq, auto)
qed

theorem index_le_decodes_values_witness:
  "\<exists>m' ibuf' tbuf'. index_osc_values_le [105, 0, 0, 0, 0, 0, 0, 1] 0 [0, 0, 0, 0] [0, 0, 0] 0 4 =
      Some (m', ibuf', tbuf', 1) \<and> m' = [105, 0, 0, 0, 1, 0, 0, 0] \<and> take (Suc (Suc 0)) (drop 1 tbuf') = [105, 0]"
  using index_le_decodes_values [of "[(105, [1, 0, 0, 0])]" 0 0 "[105, 0, 0, 0, 0, 0, 0, 1]" 4 "[0, 0, 0, 0]" "[0, 0, 0]"]
  by (auto simp: args_ok_def payload_def net_def conv_def arg_values_def is_value_def tags_eval)

lemma example_message:
  "osc_message [47, 97] [105] = [47, 97, 0, 0, 44, 105, 0, 0, 0, 0, 0, 0]"
  by (simp add: osc_message_def osc_pad_def zero_args_def zero_payload_def is_value_def tags_eval replicate_few)

lemma example_values: "arg_values (zero_args [105]) = [(105, [0, 0, 0, 0])]"
  by (simp add: arg_values_def zero_args_def zero_payload_def is_value_def tags_eval replicate_few)

theorem osc_start_message_correct_witness:
  "\<exists>ibuf' tbuf'. osc_start_message ([1, 1, 1, 1] @ replicate 12 1 @ [1]) 0 12 [0, 0, 0, 0] [0, 0, 0] [47, 97, 0] [105, 0] =
      Some ([0, 0, 0, 12, 47, 97, 0, 0, 44, 105, 0, 0, 0, 0, 0, 0, 1], ibuf', tbuf', 12)"
  using osc_start_message_correct [of "[47, 97, 0]" "[47, 97]" "[]" "[105, 0]" "[105]" "[]" 0 12
      "[1, 1, 1, 1] @ replicate 12 1 @ [1]" "[0, 0, 0, 0]" "[0, 0, 0]"]
  by (simp add: example_message example_values bytes_of_def) blast

theorem osc_bundle_append_message_correct_witness:
  "\<exists>ibuf' tbuf'. osc_bundle_append_message ([0, 0, 0, 0, 0, 0] @ replicate 12 0) 0 [0, 0, 0, 0, 0] [1, 105, 0, 0] [47, 97, 0] [105, 0] 2 =
      Some ([0, 0, 0, 0, 0, 12, 47, 97, 0, 0, 44, 105, 0, 0, 0, 0, 0, 0], ibuf', tbuf'[0 := 2], 16)"
  using osc_bundle_append_message_correct [of "[47, 97, 0]" "[47, 97]" "[]" "[105, 0]" "[105]" "[]" 0 2
      "[0, 0, 0, 0, 0, 0] @ replicate 12 0" "[1, 105, 0, 0]" 1 "[0, 0, 0, 0, 0]"]
  by (simp add: example_message example_values bytes_of_def replicate_few)
    (elim exE conjE, intro exI, assumption)

end
