(* ===== verification/OscBundle.thy ===== *)
theory OscBundle
  imports OscMsg
begin

text \<open>
  \<^verbatim>\<open>index_osc_bundle_values\<close> of \<^verbatim>\<open>src/src/network/osc.c\<close> on well-formed bundles: the bounds check, the walk over
  the elements, and what the tables hold in the end, with and without the byte swap.
\<close>

section \<open>Elements of a bundle\<close>

text \<open>
  An element is an address pattern with its values. In memory it is the big-endian length and the
  message; the indexing starts at the comma of the type tag string, which it passes like a type tag without
  a value.
\<close>

type_synonym element = "byte list \<times> arg list"

definition comma_args :: "arg list \<Rightarrow> arg list" where
  "comma_args args = (tag CHR '','', []) # args"

definition message :: "byte list \<Rightarrow> arg list \<Rightarrow> byte list \<Rightarrow> byte list" where
  "message a args raw = osc_pad a @ osc_pad (tag CHR '','' # map fst args) @ raw"

definition element_of :: "byte list \<Rightarrow> arg list \<Rightarrow> byte list \<Rightarrow> byte list" where
  "element_of a args raw = rev (bytes_of (word_of_nat (length (message a args raw)))) @ message a args raw"

definition element_in :: "element \<Rightarrow> byte list" where
  "element_in e = element_of (fst e) (snd e) (arg_raw (snd e))"

definition element_out :: "bool \<Rightarrow> element \<Rightarrow> byte list" where
  "element_out swap e = element_of (fst e) (snd e) (arg_bytes swap (snd e))"

definition element_ok :: "bool \<Rightarrow> element \<Rightarrow> bool" where
  "element_ok swap e \<longleftrightarrow> 0 \<notin> set (fst e) \<and> args_ok swap (snd e) \<and>
     length (message (fst e) (snd e) (arg_raw (snd e))) < 2 ^ 31"

abbreviation element_values :: "element \<Rightarrow> nat" where
  "element_values e \<equiv> length (arg_values (snd e))"

text \<open>Where the values of the element start, from the start of the element.\<close>

definition values_start :: "element \<Rightarrow> nat" where
  "values_start e = 4 + osc_fix_size (length (fst e)) + osc_fix_size (1 + length (snd e))"

lemma length_message:
  "length (message a args raw) = osc_fix_size (length a) + osc_fix_size (1 + length args) + length raw"
  by (simp add: message_def length_osc_pad)

lemma length_element_out [simp]: "length (element_out swap e) = length (element_in e)"
  by (simp add: element_out_def element_in_def element_of_def length_message)

lemma length_element_in: "length (element_in e) = values_start e + length (arg_raw (snd e))"
  by (simp add: element_in_def element_of_def length_message values_start_def)

lemma comma_args_simps [simp]:
  "length (comma_args args) = Suc (length args)" "map fst (comma_args args) = tag CHR '','' # map fst args"
  "arg_raw (comma_args args) = arg_raw args" "arg_bytes swap (comma_args args) = arg_bytes swap args"
  "arg_values (comma_args args) = arg_values args" "arg_offsets p (comma_args args) = arg_offsets p args"
  by (simp_all add: comma_args_def arg_values_def is_value_def tags_eval)

lemma args_ok_comma [simp]: "args_ok swap (comma_args args) = args_ok swap args"
  by (auto simp: args_ok_def comma_args_def payload_def tags_eval)

lemma element_length_word:
  assumes "element_ok swap e" and "m = P @ element_in e @ R"
  shows "load32 m (length P) = Some (htonl (word_of_nat (length (element_in e) - 4)))"
proof -
  let ?w = "word_of_nat (length (element_in e) - 4) :: u32"
  have "m = P @ bytes_of (htonl ?w) @ message (fst e) (snd e) (arg_raw (snd e)) @ R"
    unfolding assms(2) by (simp add: element_in_def element_of_def)
  moreover have "load32 (P @ bytes_of w @ Q) (length P) = Some w" for w Q
    by (simp add: load32_in)
  ultimately show ?thesis by (simp only:)
qed

lemma element_length_unat:
  assumes "element_ok swap e"
  shows "unat (word_of_nat (length (element_in e) - 4) :: u32) = length (element_in e) - 4"
proof -
  have "length (element_in e) - 4 < 2 ^ 31"
    using assms by (simp add: element_ok_def element_in_def element_of_def)
  then show ?thesis by (intro unat_small) simp
qed

section \<open>The bounds check\<close>

lemma bundle_walk_ok:
  assumes "list_all (element_ok swap) es" and "m = P @ concat (map element_in es) @ R"
  shows "bundle_walk m (length P) (length P + length (concat (map element_in es))) =
    Some (Some (length P + length (concat (map element_in es))))"
  using assms
proof (induction es arbitrary: P)
  case Nil
  then show ?case by (subst bundle_walk.simps) simp
next
  case (Cons e es)
  let ?L = "length (element_in e)"
  have L: "4 < ?L" by (simp add: length_element_in values_start_def osc_fix_size_eq)
  have ok: "element_ok swap e" using Cons.prems(1) by simp
  have w: "load32 m (length P) = Some (htonl (word_of_nat (?L - 4)))"
    using element_length_word [OF ok, of m P] Cons.prems(2) by simp
  have "unat (word_of_nat (?L - 4) + 4 :: u32) = ?L"
  proof -
    have "?L - 4 < 2 ^ 31" using ok by (simp add: element_ok_def element_in_def element_of_def)
    then have "unat (word_of_nat (?L - 4 + 4) :: u32) = ?L - 4 + 4"
      by (intro unat_small) simp
    then show ?thesis using L by (simp add: add.commute)
  qed
  moreover have "element_in e \<noteq> []" using L by auto
  ultimately have "bundle_walk m (length P) (length P + length (concat (map element_in (e # es)))) =
      bundle_walk m (length (P @ element_in e)) (length (P @ element_in e) + length (concat (map element_in es)))"
    using w L by (subst bundle_walk.simps) (simp add: add.assoc)
  also have "\<dots> = Some (Some (length (P @ element_in e) + length (concat (map element_in es))))"
    using Cons.prems by (intro Cons.IH) simp_all
  finally show ?case by (simp add: add.assoc)
qed

text \<open>A length \<open>0xFFFFFFFC\<close> leaves the pointer where it is.\<close>

lemma bundle_walk_stuck:
  assumes ret: "bundle_walk m len stop = Some r" and "load32 m len = Some (htonl 0xFFFFFFFC)"
  shows "stop \<le> len"
proof (rule ccontr)
  assume "\<not> stop \<le> len"
  have "m' = m \<longrightarrow> len' = len \<longrightarrow> stop' = stop \<longrightarrow> False" if "bundle_walk m' len' stop' = Some r" for m' len' stop'
  proof (rule bundle_walk.raw_induct
      [where P = "\<lambda>m' len' stop' r. m' = m \<longrightarrow> len' = len \<longrightarrow> stop' = stop \<longrightarrow> False", OF _ that])
    fix f :: "byte list \<Rightarrow> nat \<Rightarrow> nat \<Rightarrow> nat option option" and m' len' stop' r
    assume IH: "\<And>m' len' stop' r. f m' len' stop' = Some r \<Longrightarrow> m' = m \<longrightarrow> len' = len \<longrightarrow> stop' = stop \<longrightarrow> False"
      and eq: "(if len' < stop' then case load32 m' len' of None \<Rightarrow> Some None
        | Some w \<Rightarrow> f m' (len' + unat (htonl w + 4)) stop' else Some (Some len')) = Some r"
    show "m' = m \<longrightarrow> len' = len \<longrightarrow> stop' = stop \<longrightarrow> False"
      using eq IH [of m len stop r] assms(2) \<open>\<not> stop \<le> len\<close> by auto
  qed
  then show False using ret by blast
qed

section \<open>One element\<close>

lemma bundle_index_one_spec:
  assumes m: "m = P @ element_in e @ R" and ok: "element_ok swap e"
    and k: "k + element_values e < 128"
    and room: "2 + k + element_values e < length ibuf" "1 + k + element_values e < length tbuf"
  shows "\<exists>ibuf' tbuf'. bundle_index_one swap m ibuf tbuf (length P) (word_of_nat k) =
      Some (P @ element_out swap e @ R, ibuf',
        if swap then tbuf'[1 + element_values e := 0] else tbuf',
        word_of_nat (k + element_values e), length (P @ element_in e)) \<and>
    indexed ibuf (tbuf[0 := word_of_nat k]) (if swap then 0 else k) (comma_args (snd e))
      (length P + 4 + osc_fix_size (length (fst e))) (length P + values_start e) ibuf' tbuf'"
proof -
  obtain a args where e: "e = (a, args)" by (cases e)
  let ?A = "osc_fix_size (length a)" and ?T = "osc_fix_size (1 + length args)"
  let ?c = "comma_args args" and ?msg = "length P + 4" and ?n = "length (arg_values args)"
  let ?N = "length (message a args (arg_raw args))"
  let ?t = "tbuf[0 := word_of_nat k :: byte]"
  define M where "M raw = P @ rev (bytes_of (word_of_nat ?N)) @ message a args raw @ R" for raw
  have mM: "m = M (arg_raw args)" by (simp add: m M_def e element_in_def element_of_def)
  have out: "P @ element_out swap e @ R = M (arg_bytes swap args)"
    by (simp add: M_def e element_out_def element_of_def length_message)
  have at_msg: "drop (?msg + i) (M raw) = drop i (message a args raw @ R)" for i raw
    by (simp add: M_def)
  have s1: "strlen m ?msg = Some (length a)"
    using at_msg [of 0 "arg_raw args"] ok osc_pad_zero [of a]
    by (intro strlen_eq) (simp_all add: mM message_def element_ok_def e)
  have tagstr: "drop ?A (message a args raw @ R) = (tag CHR '','' # map fst args) @ 0 #
      replicate (3 - length (tag CHR '','' # map fst args) mod 4) 0 @ raw @ R" for raw
    using osc_pad_zero [of "tag CHR '','' # map fst args"] by (simp add: message_def length_osc_pad)
  have nz: "0 \<notin> set (tag CHR '','' # map fst args)"
    using ok by (auto simp: element_ok_def e args_ok_def tags_eval)
  have dtag: "drop (?msg + ?A) m = (tag CHR '','' # map fst args) @ 0 #
      replicate (3 - length (tag CHR '','' # map fst args) mod 4) 0 @ arg_raw args @ R"
    unfolding mM at_msg tagstr ..
  have s2: "strlen m (?msg + ?A) = Some (1 + length args)"
    using strlen_eq [OF _ nz, of "?msg + ?A" m] by (simp add: dtag)
  have tags: "take (length ?c + 1) (drop (?msg + ?A) m) = map fst ?c @ [0]"
    unfolding dtag by simp
  have raw: "take (length (arg_raw ?c)) (drop (?msg + (?A + ?T)) m) = arg_raw ?c"
    using at_msg [of "?A + ?T" "arg_raw args"] by (simp add: mM message_def length_osc_pad)
  have ds: "?A + length ?c < ?A + ?T" unfolding osc_fix_size_eq comma_args_simps by presburger
  have kn: "?n < 128" "k < 128" using k by (simp_all add: e)
  have t0: "0 < length ?t" "sint (?t ! 0) = int k" "length ?t = length tbuf"
    using room(2) kn(2) by (cases tbuf; simp add: sint_count)+
  have sz: "length (arg_raw ?c) div 4 < 2 ^ 31"
    using ok by (simp add: element_ok_def e length_message less_mult_imp_div_less)
  have store0: "store tbuf 0 (ucast (word_of_nat k :: u32)) = Some ?t"
    using t0(1) by (simp add: store_in ucast_count)
  have len: "load32 (M raw) (length P) = Some (htonl (word_of_nat ?N))"
    "length P + 4 + unat (word_of_nat ?N :: u32) = length (P @ element_in e)" for raw
  proof -
    have "load32 (P @ bytes_of w @ Q) (length P) = Some w" for w Q by (simp add: load32_in)
    from this [of "htonl (word_of_nat ?N)"] show "load32 (M raw) (length P) = Some (htonl (word_of_nat ?N))"
      by (simp add: M_def)
    show "length P + 4 + unat (word_of_nat ?N :: u32) = length (P @ element_in e)"
      using element_length_unat [OF ok] by (simp add: e element_in_def element_of_def)
  qed
  have room': "2 + k + length (arg_values ?c) < length ibuf" "1 + k + length (arg_values ?c) < length ?t"
    using room t0(3) by (simp_all add: e)
  have start: "length P + values_start e = ?msg + (?A + ?T)" by (simp add: values_start_def e)
  show ?thesis
  proof (cases swap)
    case False
    have ok': "args_ok False ?c" using ok False by (simp add: element_ok_def e)
    obtain ibuf' tbuf' where i: "index_osc_values m ?msg ibuf ?t ?A (?A + ?T) =
        Some (ibuf', tbuf', length (arg_raw ?c) div 4)"
      "indexed ibuf ?t k ?c (?msg + ?A) (?msg + (?A + ?T)) ibuf' tbuf'"
      using index_osc_values_spec [OF tags ok' raw ds t0(1,2) room'] sz by blast
    have "load tbuf' 0 = Some (word_of_nat ?n)"
      using i(2) t0(1) by (simp add: indexed_def Let_def load_in)
    then have "bundle_index_one swap m ibuf tbuf (length P) (word_of_nat k) =
        Some (m, ibuf', tbuf', word_of_nat k + word_of_nat ?n, length (P @ element_in e))"
      using False s1 s2 store0 i(1) len kn
      by (simp add: bundle_index_one_def Let_def scast_count mM)
    moreover have "P @ element_out swap e @ R = m"
      unfolding out mM using False by (simp only: arg_bytes_False)
    ultimately show ?thesis
      unfolding start using False i(2) by (simp add: e)
  next
    case True
    have ok': "args_ok True ?c" using ok True by (simp add: element_ok_def e)
    obtain ibuf' tbuf' where i: "index_osc_values_le m ?msg ibuf ?t ?A (?A + ?T) =
        Some (take (?msg + (?A + ?T)) m @ arg_bytes True ?c @ drop (?msg + (?A + ?T) + length (arg_raw ?c)) m,
          ibuf', tbuf'[1 + ?n := 0], length (arg_raw ?c) div 4)"
      "indexed ibuf ?t 0 ?c (?msg + ?A) (?msg + (?A + ?T)) ibuf' tbuf'"
      using index_osc_values_le_spec [OF tags ok' raw ds _ _ sz, of ibuf ?t] room' by auto
    moreover have "take (?msg + (?A + ?T)) m @ arg_bytes True ?c @ drop (?msg + (?A + ?T) + length (arg_raw ?c)) m =
        M (arg_bytes True args)"
      by (simp add: mM M_def message_def length_osc_pad)
    moreover have "load (tbuf'[1 + ?n := 0]) 0 = Some (word_of_nat ?n)"
      using i(2) t0(1) by (simp add: indexed_def Let_def load_in)
    ultimately have "bundle_index_one swap m ibuf tbuf (length P) (word_of_nat k) =
        Some (M (arg_bytes True args), ibuf', tbuf'[1 + ?n := 0], word_of_nat k + word_of_nat ?n, length (P @ element_in e))"
      using True s1 s2 store0 len kn
      by (simp add: bundle_index_one_def Let_def scast_count)
    then show ?thesis
      unfolding start using True i(2) out by (auto simp: e)
  qed
qed

section \<open>The whole bundle\<close>

abbreviation elements_in :: "element list \<Rightarrow> byte list" where
  "elements_in es \<equiv> concat (map element_in es)"

definition values_count :: "element list \<Rightarrow> nat" where
  "values_count es = sum_list (map element_values es)"

primrec values_offsets :: "nat \<Rightarrow> element list \<Rightarrow> nat list" where
  "values_offsets p [] = []"
| "values_offsets p (e # es) =
     arg_offsets (p + values_start e) (snd e) @ values_offsets (p + length (element_in e)) es"

definition values_tags :: "element list \<Rightarrow> byte list" where
  "values_tags es = concat (map (\<lambda>e. map fst (arg_values (snd e))) es)"

lemma element_out_False [simp]: "element_out False e = element_in e"
  unfolding element_out_def element_in_def arg_bytes_False ..

lemma element_in_nonempty: "0 < length (element_in e)"
  by (simp add: length_element_in values_start_def)

lemma elements_in_step:
  "length P + length (elements_in (e # es)) \<le> length (P @ element_in e) \<longleftrightarrow> es = []"
  using element_in_nonempty by (cases es) auto

lemma bundle_index_spec:
  assumes "es \<noteq> []" and "list_all (element_ok False) es" and "m = P @ elements_in es @ R"
    and "k + values_count es < 128" and "2 + k + values_count es < length ibuf"
    and "1 + k + values_count es < length tbuf"
  shows "\<exists>ibuf' tbuf'. bundle_index False m ibuf tbuf (length P) (word_of_nat k) (length P + length (elements_in es)) =
      Some (Some (m, ibuf', tbuf', word_of_nat (k + values_count es))) \<and>
    length ibuf' = length ibuf \<and> length tbuf' = length tbuf \<and>
    ibuf' ! 1 = length P + length (elements_in es) \<and>
    take (k + values_count es) (drop 2 ibuf') = take k (drop 2 ibuf) @ values_offsets (length P) es \<and>
    take (k + values_count es) (drop 1 tbuf') = take k (drop 1 tbuf) @ values_tags es"
  using assms
proof (induction es arbitrary: P k ibuf tbuf)
  case (Cons e es)
  let ?n = "element_values e" and ?P = "P @ element_in e"
  have cnt: "values_count (e # es) = ?n + values_count es" by (simp add: values_count_def)
  have m: "m = P @ element_in e @ (elements_in es @ R)" and ok: "element_ok False e"
    using Cons.prems(2,3) by simp_all
  have rm: "k + ?n < 128" "2 + k + ?n < length ibuf" "1 + k + ?n < length tbuf"
    using Cons.prems(4-6) unfolding cnt by simp_all
  obtain ib tb where o: "bundle_index_one False m ibuf tbuf (length P) (word_of_nat k) =
      Some (m, ib, tb, word_of_nat (k + ?n), length ?P)"
    and i: "indexed ibuf (tbuf[0 := word_of_nat k]) k (comma_args (snd e))
      (length P + 4 + osc_fix_size (length (fst e))) (length P + values_start e) ib tb"
    using bundle_index_one_spec [OF m ok rm] m by auto
  have t: "length ib = length ibuf" "length tb = length tbuf"
    "ib ! 1 = length ?P"
    "take (k + ?n) (drop 2 ib) = take k (drop 2 ibuf) @ arg_offsets (length P + values_start e) (snd e)"
    "take (k + ?n) (drop 1 tb) = take k (drop 1 tbuf) @ map fst (arg_values (snd e))"
    using i by (simp_all add: indexed_def Let_def length_element_in)
  show ?case
  proof (cases "es = []")
    case True
    have "bundle_index False m ibuf tbuf (length P) (word_of_nat k) (length P + length (elements_in [e])) =
        Some (Some (m, ib, tb, word_of_nat (k + ?n)))"
      using o by (subst bundle_index.simps) simp
    then show ?thesis
      using t unfolding cnt True by (simp add: values_count_def values_tags_def)
  next
    case False
    let ?stop = "length P + length (elements_in (e # es))"
    have stop: "?stop = length ?P + length (elements_in es)" by simp
    have "length ?P < ?stop" using elements_in_step [of P e es] False by linarith
    then have eq: "bundle_index False m ibuf tbuf (length P) (word_of_nat k) ?stop =
        bundle_index False m ib tb (length ?P) (word_of_nat (k + ?n)) ?stop"
      using o by (subst bundle_index.simps) simp
    have prems: "list_all (element_ok False) es" "m = ?P @ elements_in es @ R"
      "k + ?n + values_count es < 128" "2 + (k + ?n) + values_count es < length ib"
      "1 + (k + ?n) + values_count es < length tb"
      using Cons.prems t(1,2) unfolding cnt by simp_all
    from Cons.IH [OF False prems] obtain ib' tb' where
      "bundle_index False m ib tb (length ?P) (word_of_nat (k + ?n)) (length ?P + length (elements_in es)) =
        Some (Some (m, ib', tb', word_of_nat (k + ?n + values_count es)))"
      "length ib' = length ib" "length tb' = length tb" "ib' ! 1 = length ?P + length (elements_in es)"
      "take (k + ?n + values_count es) (drop 2 ib') = take (k + ?n) (drop 2 ib) @ values_offsets (length ?P) es"
      "take (k + ?n + values_count es) (drop 1 tb') = take (k + ?n) (drop 1 tb) @ values_tags es"
      by blast
    then show ?thesis
      using eq t unfolding stop cnt by (intro exI [of _ ib'] exI [of _ tb']) (simp add: add.assoc values_tags_def)
  qed
qed simp

text \<open>
  C16. \<open>index_osc_bundle_values\<close> without the byte swap, on a well-formed bundle that starts with its first element's
  length: it ends, leaves the bytes alone, returns the number of values of all its messages, and the tables
  hold the addresses and the type tags of these values in order and the end of the bundle as free memory.
\<close>

theorem index_bundle_collects:
  assumes "es \<noteq> []" and "list_all (element_ok False) es" and "m = P @ elements_in es @ R"
    and "values_count es < 128" and "2 + values_count es < length ibuf" and "1 + values_count es < length tbuf"
    and "sz = word_of_nat (length (elements_in es) - 4)" and "length (elements_in es) < 2 ^ 32"
  shows "\<exists>ibuf' tbuf'. index_osc_bundle_values m (length P) ibuf tbuf sz False =
      Some (Some (m, ibuf', tbuf', int (values_count es))) \<and>
    take (values_count es) (drop 2 ibuf') = values_offsets (length P) es \<and>
    take (values_count es) (drop 1 tbuf') = values_tags es \<and>
    ibuf' ! 1 = length P + length (elements_in es) \<and>
    tbuf' ! 0 = word_of_nat (values_count es)"
proof -
  let ?stop = "length P + length (elements_in es)" and ?n = "values_count es"
  have four: "4 \<le> length (elements_in es)"
    using assms(1) by (cases es) (simp_all add: length_element_in values_start_def)
  then have stop: "length P + unat sz + 4 = ?stop"
    unfolding assms(7) using assms(8) by (subst unat_small) simp_all
  obtain ib tb where b: "bundle_index False m ibuf tbuf (length P) (word_of_nat 0) ?stop =
      Some (Some (m, ib, tb, word_of_nat (0 + ?n)))"
    "length tb = length tbuf" "ib ! 1 = ?stop"
    "take (0 + ?n) (drop 2 ib) = take 0 (drop 2 ibuf) @ values_offsets (length P) es"
    "take (0 + ?n) (drop 1 tb) = take 0 (drop 1 tbuf) @ values_tags es"
    using bundle_index_spec [OF assms(1-3), of 0 ibuf tbuf] assms(4-6) by auto
  have s: "sint (word_of_nat ?n :: u32) = int ?n"
    using assms(4) by (simp add: signed_of_nat signed_take_bit_int_eq_self)
  have t0: "0 < length tb" using b(2) assms(6) by linarith
  have "bundle_walk m (length P) ?stop = Some (Some ?stop)"
    using bundle_walk_ok [OF assms(2,3)] .
  then have "index_osc_bundle_values m (length P) ibuf tbuf sz False =
      Some (Some (m, ib, tb[0 := word_of_nat ?n], int ?n))"
    using b(1) t0 s unfolding index_osc_bundle_values_def stop Let_def
    by (simp add: store_in ucast_count)
  then show ?thesis using b t0 by (intro exI [of _ ib] exI [of _ "tb[0 := word_of_nat ?n]"]) simp
qed

lemma bundle_index_swap_spec:
  assumes "es \<noteq> []" and "list_all (element_ok True) es" and "m = P @ elements_in es @ R"
    and "k + values_count es < 128" and "2 + k + values_count es < length ibuf"
    and "1 + k + values_count es < length tbuf"
  shows "\<exists>ibuf' tbuf'. bundle_index True m ibuf tbuf (length P) (word_of_nat k) (length P + length (elements_in es)) =
      Some (Some (P @ concat (map (element_out True) es) @ R, ibuf', tbuf', word_of_nat (k + values_count es))) \<and>
    length ibuf' = length ibuf \<and> length tbuf' = length tbuf \<and>
    take (element_values (last es)) (drop 2 ibuf') =
      arg_offsets (length P + length (elements_in (butlast es)) + values_start (last es)) (snd (last es))"
  using assms
proof (induction es arbitrary: P k ibuf tbuf m)
  case (Cons e es)
  let ?n = "element_values e" and ?P = "P @ element_in e" and ?Q = "P @ element_out True e"
  have cnt: "values_count (e # es) = ?n + values_count es" by (simp add: values_count_def)
  have m: "m = P @ element_in e @ (elements_in es @ R)" and ok: "element_ok True e"
    using Cons.prems(2,3) by simp_all
  have rm: "k + ?n < 128" "2 + k + ?n < length ibuf" "1 + k + ?n < length tbuf"
    using Cons.prems(4-6) unfolding cnt by simp_all
  obtain ib tb where o: "bundle_index_one True m ibuf tbuf (length P) (word_of_nat k) =
      Some (?Q @ elements_in es @ R, ib, tb[1 + ?n := 0], word_of_nat (k + ?n), length ?P)"
    and i: "indexed ibuf (tbuf[0 := word_of_nat k]) 0 (comma_args (snd e))
      (length P + 4 + osc_fix_size (length (fst e))) (length P + values_start e) ib tb"
    using bundle_index_one_spec [OF m ok rm] by auto
  have t: "length ib = length ibuf" "length tb = length tbuf"
    "take ?n (drop 2 ib) = arg_offsets (length P + values_start e) (snd e)"
    using i by (simp_all add: indexed_def Let_def)
  show ?case
  proof (cases "es = []")
    case True
    have "bundle_index True m ibuf tbuf (length P) (word_of_nat k) (length P + length (elements_in [e])) =
        Some (Some (?Q @ R, ib, tb[1 + ?n := 0], word_of_nat (k + ?n)))"
      using o True by (subst bundle_index.simps) simp
    then show ?thesis
      using t unfolding cnt True by (simp add: values_count_def)
  next
    case False
    let ?stop = "length P + length (elements_in (e # es))"
    have stop: "?stop = length ?Q + length (elements_in es)" by simp
    have lQ: "length ?P = length ?Q" by simp
    have "length ?P < ?stop" using elements_in_step [of P e es] False by linarith
    then have eq: "bundle_index True m ibuf tbuf (length P) (word_of_nat k) ?stop =
        bundle_index True (?Q @ elements_in es @ R) ib (tb[1 + ?n := 0]) (length ?Q) (word_of_nat (k + ?n)) ?stop"
      using o by (subst bundle_index.simps) simp
    have prems: "list_all (element_ok True) es" "?Q @ elements_in es @ R = ?Q @ elements_in es @ R"
      "k + ?n + values_count es < 128" "2 + (k + ?n) + values_count es < length ib"
      "1 + (k + ?n) + values_count es < length (tb[1 + ?n := 0])"
      using Cons.prems t(1,2) unfolding cnt by simp_all
    from Cons.IH [OF False prems] obtain ib' tb' where *:
      "bundle_index True (?Q @ elements_in es @ R) ib (tb[1 + ?n := 0]) (length ?Q) (word_of_nat (k + ?n))
          (length ?Q + length (elements_in es)) =
        Some (Some (?Q @ concat (map (element_out True) es) @ R, ib', tb', word_of_nat (k + ?n + values_count es)))"
      "length ib' = length ib" "length tb' = length (tb[1 + ?n := 0])"
      "take (element_values (last es)) (drop 2 ib') =
        arg_offsets (length ?Q + length (elements_in (butlast es)) + values_start (last es)) (snd (last es))"
      by blast
    then show ?thesis
      using eq t False unfolding stop cnt
      by (intro exI [of _ ib'] exI [of _ tb']) (simp add: add.assoc)
  qed
qed simp

text \<open>
  \<open>index_osc_bundle_values\<close> with the byte swap counts the values of all messages, but the indexing of every
  message starts again at the first slot of the table: in the end the first slots hold the addresses of the values
  of the last message, whatever the other messages are.
\<close>

theorem index_bundle_swap_overwrites:
  assumes "es \<noteq> []" and "list_all (element_ok True) es" and "m = P @ elements_in es @ R"
    and "values_count es < 128" and "2 + values_count es < length ibuf" and "1 + values_count es < length tbuf"
    and "sz = word_of_nat (length (elements_in es) - 4)" and "length (elements_in es) < 2 ^ 32"
  shows "\<exists>ibuf' tbuf'. index_osc_bundle_values m (length P) ibuf tbuf sz True =
      Some (Some (P @ concat (map (element_out True) es) @ R, ibuf', tbuf', int (values_count es))) \<and>
    take (element_values (last es)) (drop 2 ibuf') =
      arg_offsets (length P + length (elements_in (butlast es)) + values_start (last es)) (snd (last es))"
proof -
  let ?stop = "length P + length (elements_in es)" and ?n = "values_count es"
  have four: "4 \<le> length (elements_in es)"
    using assms(1) by (cases es) (simp_all add: length_element_in values_start_def)
  then have stop: "length P + unat sz + 4 = ?stop"
    unfolding assms(7) using assms(8) by (subst unat_small) simp_all
  let ?m = "P @ concat (map (element_out True) es) @ R"
  obtain ib tb where b: "bundle_index True m ibuf tbuf (length P) (word_of_nat 0) ?stop =
      Some (Some (?m, ib, tb, word_of_nat (0 + ?n)))"
    "length tb = length tbuf"
    "take (element_values (last es)) (drop 2 ib) =
      arg_offsets (length P + length (elements_in (butlast es)) + values_start (last es)) (snd (last es))"
    using bundle_index_swap_spec [OF assms(1-3), of 0 ibuf tbuf] assms(4-6) by auto
  have s: "sint (word_of_nat ?n :: u32) = int ?n"
    using assms(4) by (simp add: signed_of_nat signed_take_bit_int_eq_self)
  have t0: "0 < length tb" using b(2) assms(6) by linarith
  have "bundle_walk m (length P) ?stop = Some (Some ?stop)"
    using bundle_walk_ok [OF assms(2,3)] .
  then have "index_osc_bundle_values m (length P) ibuf tbuf sz True =
      Some (Some (?m, ib, tb[0 := word_of_nat ?n], int ?n))"
    using b(1) t0 s unfolding index_osc_bundle_values_def stop Let_def
    by (simp add: store_in ucast_count)
  then show ?thesis using b(3) by blast
qed

text \<open>
  A bundle element with the length \<open>0xFFFFFFFC\<close> makes the bounds check of \<open>index_osc_bundle_values\<close> loop forever:
  the sum of the length and 4 is zero in 32 bits.
\<close>

theorem index_bundle_diverges:
  assumes "load32 m buf = Some (htonl 0xFFFFFFFC)"
  shows "index_osc_bundle_values m buf ibuf tbuf sz swap = None"
proof -
  have "bundle_walk m buf (buf + unat sz + 4) = None"
    using bundle_walk_stuck [OF _ assms, of "buf + unat sz + 4"] by (cases "bundle_walk m buf (buf + unat sz + 4)") auto
  then show ?thesis by (simp add: index_osc_bundle_values_def Let_def)
qed

theorem index_bundle_diverges_witness:
  "index_osc_bundle_values (replicate 3 255 @ [252]) 0 [] [] 0 False = None"
proof (rule index_bundle_diverges)
  have "replicate 3 255 @ [252] = bytes_of (htonl 0xFFFFFFFC)"
    by (simp only: bytes_of_htonl) (simp add: bytes_of_def replicate_few)
  then show "load32 (replicate 3 255 @ [252]) 0 = Some (htonl 0xFFFFFFFC)"
    by (simp add: load32_in htonl_def)
qed

text \<open>Two messages with one integer each.\<close>

definition example_bundle :: "element list" where
  "example_bundle = [([47, 97], [(105, [0, 0, 0, 1])]), ([47, 98], [(105, [0, 0, 0, 2])])]"

lemma example_bundle_facts:
  "values_count example_bundle = 2" "length (elements_in example_bundle) = 32"
  "values_offsets 0 example_bundle = [12, 28]" "example_bundle \<noteq> []"
  "element_values (last example_bundle) = 1"
  "arg_offsets (length (elements_in (butlast example_bundle)) + values_start (last example_bundle))
    (snd (last example_bundle)) = [28]"
  by (simp_all add: example_bundle_def values_count_def arg_values_def is_value_def tags_eval
      length_element_in values_start_def osc_fix_size_eq)

lemma example_bundle_ok: "list_all (element_ok swap) example_bundle"
  by (simp add: example_bundle_def element_ok_def args_ok_def payload_def tags_eval length_message
      osc_fix_size_eq)

theorem index_bundle_collects_witness:
  "\<exists>ibuf' tbuf'. index_osc_bundle_values (elements_in example_bundle) 0 (replicate 9 0) (replicate 9 0) 28 False =
      Some (Some (elements_in example_bundle, ibuf', tbuf', 2)) \<and> take 2 (drop 2 ibuf') = [12, 28]"
  using index_bundle_collects [of example_bundle "elements_in example_bundle" "[]" "[]" "replicate 9 0" "replicate 9 0" 28]
  by (simp add: example_bundle_facts example_bundle_ok) blast

theorem index_bundle_swap_overwrites_witness:
  "\<exists>ibuf' tbuf'. index_osc_bundle_values (elements_in example_bundle) 0 (replicate 9 0) (replicate 9 0) 28 True =
      Some (Some (concat (map (element_out True) example_bundle), ibuf', tbuf', 2)) \<and> take 1 (drop 2 ibuf') = [28]"
  using index_bundle_swap_overwrites [of example_bundle "elements_in example_bundle" "[]" "[]" "replicate 9 0" "replicate 9 0" 28]
  by (simp add: example_bundle_facts example_bundle_ok)

end
