(* ===== verification/OscReserve.thy ===== *)
theory OscReserve
  imports OscMsg "HOL-Library.Signed_Division"
begin

text \<open>
  \<^verbatim>\<open>osc_maybe_reserve_space\<close> of \<^verbatim>\<open>src/src/network/osc.c\<close>: making room for a string or a blob of another size in
  a composed message or bundle. The data behind the value are moved in place, word by word, the pointer table is
  adjusted, and the length of the bundle element is fixed.
\<close>

section \<open>Moving data in place\<close>

text \<open>\<open>for (curr = start; curr < end; curr++) *(curr - n) = *curr;\<close>\<close>

function osc_move_data_left :: "byte list \<Rightarrow> nat \<Rightarrow> nat \<Rightarrow> nat \<Rightarrow> byte list option" where
  "osc_move_data_left m cur stop n =
     (if cur < stop then
        if cur < 4 * n then None
        else do {
          w \<leftarrow> load32 m cur;
          m \<leftarrow> store32 m (cur - 4 * n) w;
          osc_move_data_left m (cur + 4) stop n
        }
      else Some m)"
  by pat_completeness auto
termination
  by (relation "measure (\<lambda>(m, cur, stop, n). stop - cur)") auto

declare osc_move_data_left.simps [simp del]

text \<open>
  \<open>for (curr = end - 1, arr_last = start - 1; curr > arr_last; curr--) *(curr + n) = *curr;\<close> The argument is the
  address behind \<open>curr\<close>, so that the pointer before the block needs no negative offset.
\<close>

function move_right_loop :: "byte list \<Rightarrow> nat \<Rightarrow> nat \<Rightarrow> nat \<Rightarrow> byte list option" where
  "move_right_loop m start behind n =
     (if start < behind then
        if behind < 4 then None
        else do {
          w \<leftarrow> load32 m (behind - 4);
          m \<leftarrow> store32 m (behind - 4 + 4 * n) w;
          move_right_loop m start (behind - 4) n
        }
      else Some m)"
  by pat_completeness auto
termination
  by (relation "measure (\<lambda>(m, start, behind, n). behind)") auto

declare move_right_loop.simps [simp del]

definition osc_move_data_right :: "byte list \<Rightarrow> nat \<Rightarrow> nat \<Rightarrow> nat \<Rightarrow> byte list option" where
  "osc_move_data_right m start stop n = move_right_loop m start stop n"

section \<open>The length of a bundle element\<close>

text \<open>
  \<^verbatim>\<open>osc_fix_length\<close>: the walk uses the length as a signed number and may not end; the outer \<open>None\<close> is a loop
  that runs forever, the inner one an access outside the block. The result is the block and the
  returned status.
\<close>

partial_function (option) fix_length_loop ::
  "byte list \<Rightarrow> int \<Rightarrow> nat \<Rightarrow> nat \<Rightarrow> u32 \<Rightarrow> (byte list \<times> int) option option" where
  "fix_length_loop m p val stop diff =
     (if p < 0 then Some None
      else case load32 m (nat p) of
        None \<Rightarrow> Some None
      | Some w \<Rightarrow>
          (let n = htonl w; q = p + sint n + 4 in
             if int val < q then
               Some (do { m \<leftarrow> store32 m (nat p) (htonl (n + diff)); Some (m, 0) })
             else if q < int stop then fix_length_loop m q val stop diff
             else Some (Some (m, - 1))))"

definition osc_fix_length ::
  "byte list \<Rightarrow> int \<Rightarrow> nat \<Rightarrow> nat \<Rightarrow> u32 \<Rightarrow> (byte list \<times> int) option option" where
  "osc_fix_length m start val stop diff = fix_length_loop m start val stop diff"

section \<open>Reserving space\<close>

definition SINGLE_MESSAGE :: u32 where "SINGLE_MESSAGE = 1"
definition BUNDLE_LAST_MESSAGE :: u32 where "BUNDLE_LAST_MESSAGE = 2"
definition BLOB_VALUE :: u32 where "BLOB_VALUE = 4"

definition is_single_message :: "u32 \<Rightarrow> bool" where
  "is_single_message x \<longleftrightarrow> x AND SINGLE_MESSAGE \<noteq> 0"

definition is_last_message :: "u32 \<Rightarrow> bool" where
  "is_last_message x \<longleftrightarrow> x AND (SINGLE_MESSAGE OR BUNDLE_LAST_MESSAGE) \<noteq> 0"

definition is_blob :: "u32 \<Rightarrow> bool" where
  "is_blob x \<longleftrightarrow> x AND BLOB_VALUE \<noteq> 0"

text \<open>
  The pointer update: \<open>for (i = index + 1; data[i] < data[MEM_FREE_INDEX]; i++) data[i] += shift;\<close> The
  result is the table and the final \<open>i\<close>. A pointer that would become negative is outside the block.
\<close>

function shift_pointers :: "nat list \<Rightarrow> nat \<Rightarrow> int \<Rightarrow> (nat list \<times> nat) option" where
  "shift_pointers ibuf i shift = do {
     p \<leftarrow> load ibuf i; free \<leftarrow> load ibuf 1;
     if p < free then
       if int p + 4 * shift < 0 then None
       else shift_pointers (ibuf[i := nat (int p + 4 * shift)]) (i + 1) shift
     else Some (ibuf, i)
   }"
  by pat_completeness auto
termination
  by (relation "measure (\<lambda>(ibuf, i, shift). length ibuf - i)") (auto simp: load_Some_iff)

declare shift_pointers.simps [simp del]

definition old_size :: "byte list \<Rightarrow> nat list \<Rightarrow> nat \<Rightarrow> u32 \<Rightarrow> u32 option" where
  "old_size m ibuf index flags = do {
     p \<leftarrow> load ibuf index;
     (if is_last_message flags then do {
        q \<leftarrow> load ibuf (index + 1);
        Some (word_of_int (int q - int p))
      }
      else if is_blob flags then do {
        w \<leftarrow> load32 m p;
        Some (osc_fix_size32 (htonl w + 3))
      }
      else do {
        n \<leftarrow> strlen m p;
        Some (word_of_nat (osc_fix_size n))
      })
   }"

text \<open>
  The move of the data and of the pointers, when the size changes; \<open>shift\<close> counts words.
\<close>

definition shift_data :: "byte list \<Rightarrow> nat list \<Rightarrow> nat \<Rightarrow> nat \<Rightarrow> int \<Rightarrow> (byte list \<times> nat list) option" where
  "shift_data m ibuf index behind shift =
     (if shift = 0 then Some (m, ibuf)
      else do {
        free \<leftarrow> load ibuf 1;
        m \<leftarrow> (if shift < 0 then osc_move_data_left m behind free (nat (- shift))
             else osc_move_data_right m behind free (nat shift));
        (ibuf, i) \<leftarrow> shift_pointers ibuf (index + 1) shift;
        p \<leftarrow> load ibuf i;
        (if int p + 4 * shift < 0 then None
         else let p = nat (int p + 4 * shift) in do {
           ibuf \<leftarrow> store ibuf i p;
           ibuf \<leftarrow> store ibuf 1 p;
           Some (m, ibuf)
         })
      })"

definition osc_maybe_reserve_space ::
  "byte list \<Rightarrow> nat \<Rightarrow> nat list \<Rightarrow> nat \<Rightarrow> u32 \<Rightarrow> u32
     \<Rightarrow> (byte list \<times> nat list \<times> int) option option" where
  "osc_maybe_reserve_space m oscbuf ibuf index sz flags =
     (case do {
        old \<leftarrow> old_size m ibuf index flags;
        val \<leftarrow> load ibuf index;
        let diff = sz - old; shift = sint diff sdiv 4; behind = val + unat old in do {
          (m, ibuf) \<leftarrow> shift_data m ibuf index behind shift;
          (if int behind + 4 * shift < 4 then None
           else do {
             m \<leftarrow> store32 m (nat (int behind + 4 * shift - 4)) 0;
             free \<leftarrow> load ibuf 1;
             Some (m, ibuf, val, free, diff, shift)
           })
        }
      } of
        None \<Rightarrow> Some None
      | Some (m, ibuf, val, free, diff, shift) \<Rightarrow>
          if \<not> is_single_message flags \<and> shift \<noteq> 0 then
            case osc_fix_length m (int oscbuf - 4) val free diff of
              None \<Rightarrow> None
            | Some None \<Rightarrow> Some None
            | Some (Some (m, ret)) \<Rightarrow> Some (Some (m, ibuf, int free - int oscbuf))
          else Some (Some (m, ibuf, int free - int oscbuf)))"

section \<open>What the moves do\<close>

lemma osc_move_data_left_spec:
  assumes "stop = cur + 4 * k" and "4 * n \<le> cur" and "stop \<le> length m"
  shows "osc_move_data_left m cur stop n =
    Some (take (cur - 4 * n) m @ take (4 * k) (drop cur m) @ drop (cur - 4 * n + 4 * k) m)"
  using assms
proof (induction k arbitrary: m cur)
  case 0
  then show ?case by (subst osc_move_data_left.simps) simp
next
  case (Suc k)
  let ?d = "cur - 4 * n"
  let ?m = "take ?d m @ take 4 (drop cur m) @ drop (?d + 4) m"
  have len: "length ?m = length m" using Suc.prems by simp
  have "osc_move_data_left m cur stop n = osc_move_data_left ?m (cur + 4) stop n"
  proof -
    have "do { w \<leftarrow> load32 m cur; store32 m ?d w } = Some ?m"
      using Suc.prems by (intro copy32) simp_all
    then have "do { w \<leftarrow> load32 m cur; m \<leftarrow> store32 m ?d w; osc_move_data_left m (cur + 4) stop n } =
        osc_move_data_left ?m (cur + 4) stop n"
      by (simp only: bind_assoc [symmetric] Option.bind.simps)
    then show ?thesis
      using Suc.prems by (subst osc_move_data_left.simps) (simp only:, simp)
  qed
  also have "\<dots> = Some (take (cur + 4 - 4 * n) ?m @ take (4 * k) (drop (cur + 4) ?m) @ drop (cur + 4 - 4 * n + 4 * k) ?m)"
    using Suc.prems len by (intro Suc.IH) simp_all
  also have "take (cur + 4 - 4 * n) ?m = take ?d m @ take 4 (drop cur m)"
    using Suc.prems by simp
  also have "drop (cur + 4) ?m = drop (cur + 4) m" using Suc.prems by simp
  also have "drop (cur + 4 - 4 * n + 4 * k) ?m = drop (?d + 4 * Suc k) m"
  proof -
    have "drop (d + 4 + j) (take d m @ x @ drop (d + 4) m) = drop (d + 4 + j) m"
      if "d + 4 \<le> length m" "length x = 4" for d j x
      using that by (simp add: add_ac)
    from this [of ?d "take 4 (drop cur m)" "4 * k"] show ?thesis
      using Suc.prems by (simp add: add_ac)
  qed
  also have "(take ?d m @ take 4 (drop cur m)) @ take (4 * k) (drop (cur + 4) m) @ drop (?d + 4 * Suc k) m =
      take ?d m @ take (4 * Suc k) (drop cur m) @ drop (?d + 4 * Suc k) m"
    using take_add [of 4 "4 * k" "drop cur m"] by (simp add: add.commute)
  finally show ?case .
qed

lemma osc_move_data_right_spec:
  assumes "stop = start + 4 * k" and "stop + 4 * n \<le> length m"
  shows "osc_move_data_right m start stop n =
    Some (take (start + 4 * n) m @ take (4 * k) (drop start m) @ drop (stop + 4 * n) m)"
  unfolding osc_move_data_right_def using assms
proof (induction k arbitrary: m stop)
  case 0
  then show ?case by (subst move_right_loop.simps) simp
next
  case (Suc k)
  let ?q = "stop - 4 + 4 * n"
  let ?m = "take ?q m @ take 4 (drop (stop - 4) m) @ drop (?q + 4) m"
  have q: "?q + 4 = stop + 4 * n" "stop - 4 = start + 4 * k" using Suc.prems by simp_all
  have len: "length ?m = length m" using Suc.prems by simp
  have "move_right_loop m start stop n = move_right_loop ?m start (stop - 4) n"
    using Suc.prems copy32 [of "stop - 4" m ?q]
    by (subst move_right_loop.simps) (auto simp: bind_eq_Some_conv simp flip: bind_assoc)
  also have "\<dots> = Some (take (start + 4 * n) ?m @ take (4 * k) (drop start ?m) @ drop (stop - 4 + 4 * n) ?m)"
    using Suc.prems len by (intro Suc.IH) simp_all
  also have "take (start + 4 * n) ?m = take (start + 4 * n) m" using Suc.prems by simp
  also have "take (4 * k) (drop start ?m) = take (4 * k) (drop start m)"
  proof -
    have "take (4 * k) (drop start ?m) = take (4 * k) (drop start (take ?q m))"
      using Suc.prems by simp
    then show ?thesis using Suc.prems by (simp add: drop_take min_def)
  qed
  also have "drop ?q ?m = take 4 (drop (start + 4 * k) m) @ drop (stop + 4 * n) m"
    using Suc.prems(2) by (simp add: Suc.prems(1) add_ac)
  also have "take (start + 4 * n) m @ take (4 * k) (drop start m) @ take 4 (drop (start + 4 * k) m) @ drop (stop + 4 * n) m =
      take (start + 4 * n) m @ take (4 * Suc k) (drop start m) @ drop (stop + 4 * n) m"
    using take_add [of "4 * k" 4 "drop start m"] by (simp add: add.commute)
  finally show ?case .
qed

lemma shift_pointers_spec:
  assumes "i \<le> lst" and "lst < length ibuf" and "1 < i" and "ibuf ! lst = ibuf ! 1"
    and "\<And>j. i \<le> j \<Longrightarrow> j < lst \<Longrightarrow> ibuf ! j < ibuf ! 1 \<and> 0 \<le> int (ibuf ! j) + 4 * shift"
  shows "\<exists>ibuf'. shift_pointers ibuf i shift = Some (ibuf', lst) \<and> length ibuf' = length ibuf \<and>
    (\<forall>j. ibuf' ! j = (if i \<le> j \<and> j < lst then nat (int (ibuf ! j) + 4 * shift) else ibuf ! j))"
  using assms
proof (induction "lst - i" arbitrary: i ibuf)
  case 0
  then have "i = lst" by simp
  with 0 show ?case by (subst shift_pointers.simps) (auto simp: load_in)
next
  case (Suc d)
  then have i: "i < lst" "i < length ibuf" "1 < length ibuf" by linarith+
  let ?b = "ibuf[i := nat (int (ibuf ! i) + 4 * shift)]"
  have step: "shift_pointers ibuf i shift = shift_pointers ?b (i + 1) shift"
    using i Suc.prems(5) [of i] by (subst shift_pointers.simps) (simp add: load_in)
  obtain ibuf' where r: "shift_pointers ?b (i + 1) shift = Some (ibuf', lst)" "length ibuf' = length ?b"
    "\<forall>j. ibuf' ! j = (if i + 1 \<le> j \<and> j < lst then nat (int (?b ! j) + 4 * shift) else ?b ! j)"
  proof -
    have "\<exists>ibuf'. shift_pointers ?b (i + 1) shift = Some (ibuf', lst) \<and> length ibuf' = length ?b \<and>
      (\<forall>j. ibuf' ! j = (if i + 1 \<le> j \<and> j < lst then nat (int (?b ! j) + 4 * shift) else ?b ! j))"
    proof (rule Suc.hyps(1))
      show "?b ! j < ?b ! 1 \<and> 0 \<le> int (?b ! j) + 4 * shift" if "i + 1 \<le> j" "j < lst" for j
        using Suc.prems(3) Suc.prems(5) [of j] that by simp
    qed (use Suc.hyps(2) Suc.prems i in auto)
    then show ?thesis using that by blast
  qed
  have "ibuf' ! j = (if i \<le> j \<and> j < lst then nat (int (ibuf ! j) + 4 * shift) else ibuf ! j)" for j
    using r(3) [rule_format, of j] i by (cases "j = i") auto
  then show ?case using step r(1,2) by auto
qed

section \<open>The move of data and pointers\<close>

text \<open>
  The situation of a call: the value at slot \<open>index\<close> has \<open>a\<close> words, \<open>c\<close> words of data follow it, and the pointers
  from slot \<open>index\<close> on increase up to the start of the free memory in slot \<open>lst\<close>.
\<close>

definition reserve_pre :: "byte list \<Rightarrow> nat list \<Rightarrow> nat \<Rightarrow> nat \<Rightarrow> nat \<Rightarrow> nat \<Rightarrow> nat \<Rightarrow> bool" where
  "reserve_pre m ibuf index lst a b c \<longleftrightarrow>
     1 < index \<and> index < lst \<and> lst < length ibuf \<and> ibuf ! lst = ibuf ! 1 \<and>
     ibuf ! 1 = ibuf ! index + 4 * a + 4 * c \<and> 1 \<le> a \<and> 1 \<le> b \<and> a < 2 ^ 28 \<and> b < 2 ^ 28 \<and>
     ibuf ! 1 \<le> length m \<and> ibuf ! index + 4 * b + 4 * c \<le> length m \<and>
     (\<forall>j. index < j \<longrightarrow> j < lst \<longrightarrow> ibuf ! index + 4 * a \<le> ibuf ! j \<and> ibuf ! j < ibuf ! 1)"

text \<open>The memory after the move and the zero padding, and the pointers.\<close>

definition reserved :: "byte list \<Rightarrow> nat \<Rightarrow> nat \<Rightarrow> nat \<Rightarrow> nat \<Rightarrow> byte list" where
  "reserved m v a b c =
     take (v + 4 * b - 4) m @ [0, 0, 0, 0] @ take (4 * c) (drop (v + 4 * a) m) @ drop (v + 4 * b + 4 * c) m"

definition moved :: "byte list \<Rightarrow> nat \<Rightarrow> nat \<Rightarrow> nat \<Rightarrow> nat \<Rightarrow> byte list" where
  "moved m v a b c =
     take (v + 4 * b) m @ take (4 * c) (drop (v + 4 * a) m) @ drop (v + 4 * b + 4 * c) m"

definition shifted :: "nat list \<Rightarrow> nat \<Rightarrow> nat \<Rightarrow> nat \<Rightarrow> nat \<Rightarrow> nat list \<Rightarrow> bool" where
  "shifted ibuf index lst a b ibuf' \<longleftrightarrow> length ibuf' = length ibuf \<and>
     (\<forall>j < length ibuf. ibuf' ! j =
       (if j = 1 \<or> index < j \<and> j \<le> lst then ibuf ! j + 4 * b - 4 * a else ibuf ! j))"

lemma sdiv_4: "(4 * x :: int) sdiv 4 = x"
  by (simp add: signed_divide_int_def sgn_if abs_mult)

lemma moved_same: "moved m v a a c = m"
  using append_take_drop_id [of "v + 4 * a" m] append_take_drop_id [of "4 * c" "drop (v + 4 * a) m"]
  by (simp add: moved_def add.commute)

lemma shift_data_spec:
  assumes "reserve_pre m ibuf index lst a b c"
  shows "\<exists>ibuf'. shift_data m ibuf index (ibuf ! index + 4 * a) (int b - int a) =
      Some (moved m (ibuf ! index) a b c, ibuf') \<and> shifted ibuf index lst a b ibuf'"
proof (cases "a = b")
  case True
  then show ?thesis by (auto simp: shift_data_def shifted_def moved_same)
next
  case False
  let ?v = "ibuf ! index" and ?s = "int b - int a"
  let ?free = "?v + 4 * a + 4 * c"
  have pre: "1 < index" "index < lst" "lst < length ibuf" "ibuf ! lst = ?free" "ibuf ! 1 = ?free"
    "1 \<le> a" "?free \<le> length m" "?v + 4 * b + 4 * c \<le> length m"
    "\<And>j. index < j \<Longrightarrow> j < lst \<Longrightarrow> ?v + 4 * a \<le> ibuf ! j \<and> ibuf ! j < ?free"
    using assms unfolding reserve_pre_def by auto
  have move: "(if ?s < 0 then osc_move_data_left m (?v + 4 * a) ?free (nat (- ?s))
      else osc_move_data_right m (?v + 4 * a) ?free (nat ?s)) = Some (moved m ?v a b c)"
  proof (cases "b < a")
    case True
    have "?v + 4 * a - 4 * (a - b) = ?v + 4 * b" "nat (- ?s) = a - b" using True by simp_all
    then show ?thesis
      using True pre osc_move_data_left_spec [of ?free "?v + 4 * a" c "a - b" m]
      by (simp add: moved_def)
  next
    case F: False
    then obtain d where d: "b = a + d" by (metis le_iff_add not_less)
    then have "osc_move_data_right m (?v + 4 * a) ?free d = Some (moved m ?v a b c)"
      using pre(8) osc_move_data_right_spec [of ?free "?v + 4 * a" c d m]
      by (simp add: moved_def distrib_left add_ac)
    then show ?thesis using F d by simp
  qed
  have "\<exists>ibuf1. shift_pointers ibuf (index + 1) ?s = Some (ibuf1, lst) \<and> length ibuf1 = length ibuf \<and>
      (\<forall>j. ibuf1 ! j = (if index + 1 \<le> j \<and> j < lst then nat (int (ibuf ! j) + 4 * ?s) else ibuf ! j))"
  proof (rule shift_pointers_spec)
    show "ibuf ! j < ibuf ! 1 \<and> 0 \<le> int (ibuf ! j) + 4 * ?s" if "index + 1 \<le> j" "j < lst" for j
    proof -
      have "?v + 4 * a \<le> ibuf ! j" "ibuf ! j < ?free" using pre(9) [of j] that by simp_all
      then have "int (?v + 4 * a) \<le> int (ibuf ! j)" "ibuf ! j < ibuf ! 1"
        using pre(5) by (simp_all only: of_nat_le_iff)
      then show ?thesis by simp
    qed
  qed (use pre in auto)
  then obtain ibuf1 where i1: "shift_pointers ibuf (index + 1) ?s = Some (ibuf1, lst)"
    "length ibuf1 = length ibuf"
    "\<And>j. ibuf1 ! j = (if index + 1 \<le> j \<and> j < lst then nat (int (ibuf ! j) + 4 * ?s) else ibuf ! j)"
    by blast
  let ?f' = "?v + 4 * b + 4 * c"
  let ?i = "ibuf1[lst := ?f', 1 := ?f']"
  have f': "nat (int ?free + 4 * ?s) = ?f'" "\<not> int ?free + 4 * ?s < 0" by simp_all
  have "load ibuf 1 = Some ?free" "load ibuf1 lst = Some ?free"
    using pre i1(2,3) by (simp_all add: load_in)
  then have "shift_data m ibuf index (?v + 4 * a) ?s = Some (moved m ?v a b c, ?i)"
    using False move i1(1,2) f' pre(1-3) unfolding shift_data_def
    by (simp add: store_in Let_def)
  moreover have "shifted ibuf index lst a b ?i"
  proof -
    have "?i ! j = (if j = 1 \<or> index < j \<and> j \<le> lst then ibuf ! j + 4 * b - 4 * a else ibuf ! j)"
      if "j < length ibuf" for j
    proof -
      consider "j = 1" | "j = lst" | "index < j" "j < lst" | "j \<noteq> 1" "j \<le> index \<or> lst < j" by linarith
      then show ?thesis
      proof cases
        case 3
        then have "nat (int (ibuf ! j) + 4 * ?s) = ibuf ! j + 4 * b - 4 * a"
        proof -
          have "?v + 4 * a \<le> ibuf ! j" using pre(9) [of j] 3 by simp
          then show ?thesis by (auto simp: nat_eq_iff of_nat_diff)
        qed
        then show ?thesis using 3 i1(3) [of j] pre(1) by simp
      qed (use i1(2,3) pre that in auto)
    qed
    then show ?thesis using i1(2) by (simp add: shifted_def)
  qed
  ultimately show ?thesis by blast
qed

section \<open>The whole call\<close>

lemma reserve_arith:
  assumes "reserve_pre m ibuf index lst a b c"
  shows "sint (word_of_nat (4 * b) - word_of_nat (4 * a) :: u32) sdiv 4 = int b - int a"
    and "unat (word_of_nat (4 * a) :: u32) = 4 * a"
proof -
  have bd: "a < 2 ^ 28" "b < 2 ^ 28" using assms by (simp_all add: reserve_pre_def)
  have "word_of_nat (4 * b) - word_of_nat (4 * a) = (word_of_int (4 * (int b - int a)) :: u32)"
    by (simp add: right_diff_distrib)
  moreover have "sint (word_of_int (4 * (int b - int a)) :: u32) = 4 * (int b - int a)"
  proof -
    have "- (2 ^ 31) \<le> 4 * (int b - int a)" "4 * (int b - int a) < 2 ^ 31" using bd by simp_all
    then have "signed_take_bit 31 (4 * (int b - int a)) = 4 * (int b - int a)"
      by (intro signed_take_bit_int_eq_self)
    then show ?thesis by (subst signed_of_int) simp
  qed
  ultimately show "sint (word_of_nat (4 * b) - word_of_nat (4 * a) :: u32) sdiv 4 = int b - int a"
    by (simp only: sdiv_4)
  show "unat (word_of_nat (4 * a) :: u32) = 4 * a"
    using bd by (intro unat_small) simp
qed

lemma reserve_core:
  fixes A B :: u32
  assumes pre: "reserve_pre m ibuf index lst a b c" and old: "old_size m ibuf index flags = Some A"
    and AB: "sint (B - A) sdiv 4 = int b - int a" "unat A = 4 * a"
  shows "\<exists>ibuf'. shifted ibuf index lst a b ibuf' \<and>
    osc_maybe_reserve_space m oscbuf ibuf index B flags =
      (let m' = reserved m (ibuf ! index) a b c; free = ibuf ! index + 4 * b + 4 * c in
       if \<not> is_single_message flags \<and> int b - int a \<noteq> 0 then
         case osc_fix_length m' (int oscbuf - 4) (ibuf ! index) free (B - A) of
           None \<Rightarrow> None
         | Some None \<Rightarrow> Some None
         | Some (Some (m'', ret)) \<Rightarrow> Some (Some (m'', ibuf', int free - int oscbuf))
       else Some (Some (m', ibuf', int free - int oscbuf)))"
proof -
  let ?v = "ibuf ! index"
  obtain ibuf' where sd: "shift_data m ibuf index (?v + 4 * a) (int b - int a) = Some (moved m ?v a b c, ibuf')"
    and sh: "shifted ibuf index lst a b ibuf'"
    using shift_data_spec [OF pre] by blast
  have p: "1 < index" "index < length ibuf" "1 \<le> b" "?v + 4 * b + 4 * c \<le> length m"
    "ibuf ! 1 = ?v + 4 * a + 4 * c"
    using pre by (auto simp: reserve_pre_def)
  have val: "load ibuf index = Some ?v" using p(2) by (simp add: load_in)
  have free: "load ibuf' 1 = Some (?v + 4 * b + 4 * c)"
    using sh p(1,2,5) by (simp add: shifted_def load_in)
  have nat: "nat (int (?v + 4 * a) + 4 * (int b - int a) - 4) = ?v + 4 * b - 4"
    "\<not> int (?v + 4 * a) + 4 * (int b - int a) < 4"
    using p(3) by (auto simp: nat_eq_iff of_nat_diff)
  have zero: "store32 (moved m ?v a b c) (?v + 4 * b - 4) 0 = Some (reserved m ?v a b c)"
  proof -
    have "bytes_of 0 = [0, 0, 0, 0]" by (simp add: bytes_of_def)
    then show ?thesis
      using p(3,4) by (simp add: store32_in moved_def reserved_def)
  qed
  define s where "s = int b - int a"
  define f' where "f' = ?v + 4 * b + 4 * c"
  note facts = sd [folded s_def] val old free [folded f'_def] nat [folded s_def] zero AB [folded s_def]
  have "osc_maybe_reserve_space m oscbuf ibuf index B flags =
      (if \<not> is_single_message flags \<and> s \<noteq> 0 then
         case osc_fix_length (reserved m ?v a b c) (int oscbuf - 4) ?v f' (B - A) of
           None \<Rightarrow> None
         | Some None \<Rightarrow> Some None
         | Some (Some (m'', ret)) \<Rightarrow> Some (Some (m'', ibuf', int f' - int oscbuf))
       else Some (Some (reserved m ?v a b c, ibuf', int f' - int oscbuf)))"
    unfolding osc_maybe_reserve_space_def Let_def
    by (simp only: facts Option.bind.simps option.case prod.case if_False simp_thms)
  then show ?thesis using sh unfolding s_def f'_def Let_def by blast
qed

text \<open>The old size of the value, by the kind of the call.\<close>

definition size_known :: "byte list \<Rightarrow> nat list \<Rightarrow> nat \<Rightarrow> u32 \<Rightarrow> nat \<Rightarrow> bool" where
  "size_known m ibuf index flags a \<longleftrightarrow>
     (if is_last_message flags then ibuf ! (index + 1) = ibuf ! index + 4 * a
      else if is_blob flags then
        (case load32 m (ibuf ! index) of None \<Rightarrow> False
         | Some w \<Rightarrow> unat (htonl w) + 7 < 2 ^ 32 \<and> a = (unat (htonl w) + 3) div 4 + 1)
      else (case strlen m (ibuf ! index) of None \<Rightarrow> False | Some n \<Rightarrow> a = n div 4 + 1))"

lemma old_size_known:
  assumes pre: "reserve_pre m ibuf index lst a b c" and k: "size_known m ibuf index flags a"
  shows "\<exists>A. old_size m ibuf index flags = Some A \<and> unat A = 4 * a"
proof -
  have idx: "load ibuf index = Some (ibuf ! index)" "load ibuf (index + 1) = Some (ibuf ! (index + 1))"
    using pre by (auto simp: reserve_pre_def load_in)
  have small: "unat (word_of_nat (4 * a) :: u32) = 4 * a" by (rule reserve_arith(2) [OF pre])
  show ?thesis
  proof (cases "is_last_message flags")
    case True
    then have "int (ibuf ! (index + 1)) - int (ibuf ! index) = int (4 * a)"
      using k by (simp add: size_known_def)
    then have "old_size m ibuf index flags = Some (word_of_nat (4 * a))"
      using True idx by (simp only: old_size_def Option.bind.simps if_True of_int_of_nat_eq)
    then show ?thesis using small by blast
  next
    case F: False
    show ?thesis
    proof (cases "is_blob flags")
      case True
      then obtain w where w: "load32 m (ibuf ! index) = Some w" "unat (htonl w) + 7 < 2 ^ 32"
        "a = (unat (htonl w) + 3) div 4 + 1"
        using F k by (auto simp: size_known_def split: option.splits)
      let ?A = "osc_fix_size32 (htonl w + 3)"
      have "unat ?A = 4 * a" using osc_fix_size32_bytes [OF w(2)] w(3) by simp
      then show ?thesis using F True idx(1) w(1) by (simp add: old_size_def)
    next
      case False
      then obtain n where n: "strlen m (ibuf ! index) = Some n" "a = n div 4 + 1"
        using F k by (auto simp: size_known_def split: option.splits)
      then have "osc_fix_size n = 4 * a" by (simp add: osc_fix_size_eq)
      then show ?thesis using F False idx(1) n(1) small by (simp add: old_size_def)
    qed
  qed
qed

section \<open>The walk over the bundle\<close>

primrec element_pos :: "nat \<Rightarrow> nat list \<Rightarrow> nat \<Rightarrow> nat" where
  "element_pos s [] k = s"
| "element_pos s (n # ns) k = (case k of 0 \<Rightarrow> s | Suc k \<Rightarrow> element_pos (s + n + 4) ns k)"

text \<open>Element \<open>k\<close> of the bundle at \<open>s\<close>, with the lengths \<open>ns\<close>, is the first one that ends behind \<open>val\<close>.\<close>

primrec element_at :: "byte list \<Rightarrow> nat \<Rightarrow> nat list \<Rightarrow> nat \<Rightarrow> nat \<Rightarrow> bool" where
  "element_at m s [] k val = False"
| "element_at m s (n # ns) k val \<longleftrightarrow>
     load32 m s = Some (htonl (word_of_nat n)) \<and> n < 2 ^ 31 \<and> s + 4 \<le> val \<and>
     (case k of 0 \<Rightarrow> val < s + n + 4
      | Suc k \<Rightarrow> s + n + 4 \<le> val \<and> element_at m (s + n + 4) ns k val)"

lemma fix_length_loop_spec:
  assumes "element_at m s ns k val" and "val < stop"
  shows "fix_length_loop m (int s) val stop diff =
    Some (do { m \<leftarrow> store32 m (element_pos s ns k) (htonl (word_of_nat (ns ! k) + diff)); Some (m, 0) }) \<and>
    element_pos s ns k + 4 \<le> val"
  using assms
proof (induction ns arbitrary: s k)
  case (Cons n ns)
  have n: "sint (word_of_nat n :: u32) = int n"
    using Cons.prems(1) by (simp add: signed_of_nat signed_take_bit_int_eq_self)
  have l: "load32 m s = Some (htonl (word_of_nat n))" using Cons.prems(1) by simp
  show ?case
  proof (cases k)
    case 0
    then have "val < s + n + 4" using Cons.prems(1) by simp
    then show ?thesis
      using Cons.prems(1) l n 0 by (subst fix_length_loop.simps) (simp add: Let_def)
  next
    case (Suc j)
    then have q: "s + n + 4 \<le> val" "element_at m (s + n + 4) ns j val" using Cons.prems(1) by simp_all
    then have "fix_length_loop m (int s) val stop diff = fix_length_loop m (int (s + n + 4)) val stop diff"
      using Cons.prems(2) l n by (subst fix_length_loop.simps) (simp add: Let_def)
    then show ?thesis using Cons.IH [OF q(2) Cons.prems(2)] Suc by simp
  qed
qed simp

lemma reserve_call:
  assumes pre: "reserve_pre m ibuf index lst a b c" and k: "size_known m ibuf index flags a"
  shows "\<exists>ibuf'. shifted ibuf index lst a b ibuf' \<and>
    osc_maybe_reserve_space m oscbuf ibuf index (word_of_nat (4 * b)) flags =
      (let m' = reserved m (ibuf ! index) a b c; free = ibuf ! index + 4 * b + 4 * c in
       if \<not> is_single_message flags \<and> int b - int a \<noteq> 0 then
         case osc_fix_length m' (int oscbuf - 4) (ibuf ! index) free (word_of_int (4 * (int b - int a))) of
           None \<Rightarrow> None
         | Some None \<Rightarrow> Some None
         | Some (Some (m'', ret)) \<Rightarrow> Some (Some (m'', ibuf', int free - int oscbuf))
       else Some (Some (m', ibuf', int free - int oscbuf)))"
proof -
  obtain A where A: "old_size m ibuf index flags = Some A" "unat A = 4 * a"
    using old_size_known [OF pre k] by blast
  have "word_of_nat (unat A) = A" by simp
  then have Aw: "A = word_of_nat (4 * a)" unfolding A(2) by (rule sym)
  have diff: "word_of_nat (4 * b) - A = word_of_int (4 * (int b - int a))"
    by (simp add: Aw right_diff_distrib)
  show ?thesis
    using reserve_core [OF pre A(1) reserve_arith(1) [OF pre, folded Aw] A(2), of oscbuf]
    unfolding diff .
qed

lemma length_reserved:
  assumes "reserve_pre m ibuf index lst a b c"
  shows "length (reserved m (ibuf ! index) a b c) = length m"
  using assms by (auto simp: reserved_def reserve_pre_def)

text \<open>
  C17. In a single message, \<open>osc_maybe_reserve_space\<close> stays inside the block and gives the value the requested
  size: the value keeps its first bytes and ends with a zero word, the data behind it follow unchanged, every
  pointer behind the value and the start of the free memory move by the difference, all other pointers
  stay, and the returned size is the one of the new message.
\<close>

theorem reserve_in_message:
  assumes "reserve_pre m ibuf index lst a b c" and "is_single_message flags"
    and "ibuf ! (index + 1) = ibuf ! index + 4 * a"
  shows "\<exists>ibuf'. osc_maybe_reserve_space m oscbuf ibuf index (word_of_nat (4 * b)) flags =
      Some (Some (take (ibuf ! index + 4 * b - 4) m @ [0, 0, 0, 0] @
          take (4 * c) (drop (ibuf ! index + 4 * a) m) @ drop (ibuf ! index + 4 * b + 4 * c) m,
        ibuf', int (ibuf ! index + 4 * b + 4 * c) - int oscbuf)) \<and>
    length ibuf' = length ibuf \<and>
    (\<forall>j < length ibuf. ibuf' ! j =
       (if j = 1 \<or> index < j \<and> j \<le> lst then ibuf ! j + 4 * b - 4 * a else ibuf ! j))"
proof -
  have "is_last_message flags"
  proof -
    have "flags AND 1 = (flags AND 3) AND 1" by (simp add: and.assoc)
    then show ?thesis
      using assms(2) by (auto simp: is_single_message_def is_last_message_def SINGLE_MESSAGE_def
          BUNDLE_LAST_MESSAGE_def)
  qed
  then have "size_known m ibuf index flags a" using assms(3) by (simp add: size_known_def)
  from reserve_call [OF assms(1) this, of oscbuf] obtain ibuf' where
    "shifted ibuf index lst a b ibuf'"
    "osc_maybe_reserve_space m oscbuf ibuf index (word_of_nat (4 * b)) flags =
      Some (Some (reserved m (ibuf ! index) a b c, ibuf', int (ibuf ! index + 4 * b + 4 * c) - int oscbuf))"
    using assms(2) by (auto simp: Let_def)
  then show ?thesis unfolding shifted_def reserved_def by blast
qed

text \<open>
  In a bundle, a call that changes the size also adds the difference to the big-endian length of exactly the element
  that holds the value; when the size stays the same only the last word of the value is cleared.
\<close>

theorem reserve_in_bundle:
  assumes "reserve_pre m ibuf index lst a b c" and "\<not> is_single_message flags"
    and "size_known m ibuf index flags a"
    and "4 \<le> oscbuf" and "element_at m (oscbuf - 4) ns k (ibuf ! index)"
  shows "\<exists>ibuf'. osc_maybe_reserve_space m oscbuf ibuf index (word_of_nat (4 * b)) flags =
      Some (Some (
        let r = reserved m (ibuf ! index) a b c; p = element_pos (oscbuf - 4) ns k in
        if a = b then r
        else take p r @ rev (bytes_of (word_of_int (int (ns ! k) + 4 * (int b - int a)))) @ drop (p + 4) r,
        ibuf', int (ibuf ! index + 4 * b + 4 * c) - int oscbuf)) \<and>
    shifted ibuf index lst a b ibuf'"
proof -
  let ?v = "ibuf ! index" and ?r = "reserved m (ibuf ! index) a b c"
  let ?p = "element_pos (oscbuf - 4) ns k" and ?d = "word_of_int (4 * (int b - int a)) :: u32"
  have bd: "1 \<le> b" "?v + 4 * b + 4 * c \<le> length m" using assms(1) by (simp_all add: reserve_pre_def)
  have low: "load32 ?r p = load32 m p" if "p + 4 \<le> ?v" for p
  proof -
    have "take 4 (drop p ?r) = take 4 (drop p (take (?v + 4 * b - 4) m))"
      using that bd by (simp add: reserved_def)
    also have "\<dots> = take 4 (drop p m)" using that bd by (simp add: drop_take min_def)
    finally show ?thesis using length_reserved [OF assms(1)] by (simp add: load32_def)
  qed
  have at: "element_at ?r s ns j ?v" if "element_at m s ns j ?v" for s j
    using that
  proof (induction ns arbitrary: s j)
    case (Cons n ns)
    then show ?case by (cases j) (auto simp: low)
  qed simp
  have start: "int oscbuf - 4 = int (oscbuf - 4)" using assms(4) by simp
  have fl: "osc_fix_length ?r (int oscbuf - 4) ?v (?v + 4 * b + 4 * c) ?d =
      Some (do { m \<leftarrow> store32 ?r ?p (htonl (word_of_nat (ns ! k) + ?d)); Some (m, 0) }) \<and> ?p + 4 \<le> ?v"
    unfolding osc_fix_length_def start using bd by (intro fix_length_loop_spec at assms(5)) simp
  then have "?p + 4 \<le> length ?r" using bd length_reserved [OF assms(1)] by linarith
  then have "store32 ?r ?p (htonl (word_of_nat (ns ! k) + ?d)) =
      Some (take ?p ?r @ rev (bytes_of (word_of_int (int (ns ! k) + 4 * (int b - int a)))) @ drop (?p + 4) ?r)"
    by (simp add: store32_in)
  with fl have fl': "osc_fix_length ?r (int oscbuf - 4) ?v (?v + 4 * b + 4 * c) ?d =
      Some (Some (take ?p ?r @ rev (bytes_of (word_of_int (int (ns ! k) + 4 * (int b - int a)))) @ drop (?p + 4) ?r, 0))"
    by simp
  obtain ibuf' where r: "shifted ibuf index lst a b ibuf'"
    "osc_maybe_reserve_space m oscbuf ibuf index (word_of_nat (4 * b)) flags =
      (if int b - int a \<noteq> 0 then
         case osc_fix_length ?r (int oscbuf - 4) ?v (?v + 4 * b + 4 * c) ?d of
           None \<Rightarrow> None
         | Some None \<Rightarrow> Some None
         | Some (Some (m'', ret)) \<Rightarrow> Some (Some (m'', ibuf', int (?v + 4 * b + 4 * c) - int oscbuf))
       else Some (Some (?r, ibuf', int (?v + 4 * b + 4 * c) - int oscbuf)))"
    using reserve_call [OF assms(1,3), of oscbuf] assms(2) unfolding Let_def by auto
  show ?thesis
  proof (intro exI conjI)
    show "osc_maybe_reserve_space m oscbuf ibuf index (word_of_nat (4 * b)) flags =
      Some (Some (
        let r = ?r; p = ?p in
        if a = b then r
        else take p r @ rev (bytes_of (word_of_int (int (ns ! k) + 4 * (int b - int a)))) @ drop (p + 4) r,
        ibuf', int (?v + 4 * b + 4 * c) - int oscbuf))"
      unfolding r(2) fl' Let_def by simp
  qed (rule r(1))
qed

text \<open>A message with a string of four bytes and an integer, whose string grows to eight bytes.\<close>

theorem reserve_in_message_witness:
  "\<exists>ibuf'. osc_maybe_reserve_space [97, 0, 0, 0, 0, 0, 0, 5, 9, 9, 9, 9] 0 [0, 8, 0, 4, 8] 2 8 1 =
      Some (Some ([97, 0, 0, 0, 0, 0, 0, 0, 0, 0, 0, 5], ibuf', 12))"
proof -
  have "reserve_pre [97, 0, 0, 0, 0, 0, 0, 5, 9, 9, 9, 9] [0, 8, 0, 4, 8] 2 4 1 2 1"
  proof -
    have "j = 3" if "2 < j" "j < 4" for j :: nat using that by linarith
    then show ?thesis by (auto simp: reserve_pre_def)
  qed
  from reserve_in_message [OF this, of 1 0] show ?thesis
    by (auto simp: is_single_message_def SINGLE_MESSAGE_def)
qed

text \<open>A bundle of one element with a blob of one byte, which is replaced by an empty one.\<close>

theorem reserve_in_bundle_witness:
  "\<exists>ibuf'. osc_maybe_reserve_space [0, 0, 0, 8, 0, 0, 0, 1, 7, 0, 0, 0] 4 [0, 12, 4, 12] 2 4 2 =
      Some (Some ([0, 0, 0, 4, 0, 0, 0, 0, 7, 0, 0, 0], ibuf', 4))"
proof -
  let ?m = "[0, 0, 0, 8, 0, 0, 0, 1, 7, 0, 0, 0] :: byte list"
  have pre: "reserve_pre ?m [0, 12, 4, 12] 2 3 2 1 0"
    by (auto simp: reserve_pre_def)
  have l: "load32 ?m 0 = Some (htonl (word_of_nat 8))"
  proof -
    have "take 4 (drop 0 ?m) = bytes_of (htonl 8)" by (simp only: bytes_of_htonl) (simp add: bytes_of_def)
    then show ?thesis by (simp add: load32_in htonl_def)
  qed
  have at: "element_at ?m (4 - 4) [8] 0 ([0, 12, 4, 12] ! 2)" using l by simp
  have "size_known ?m [0, 12, 4, 12] 2 2 2" 
    by (simp add: size_known_def is_last_message_def SINGLE_MESSAGE_def BUNDLE_LAST_MESSAGE_def)
  from reserve_in_bundle [OF pre _ this _ at] show ?thesis
    by (auto simp: is_single_message_def SINGLE_MESSAGE_def reserved_def bytes_of_def Let_def)
qed

end
