(* ===== verification/OscNet.thy ===== *)
theory OscNet
  imports OscMem OscSlip
begin

text \<open>
  The connections of an OSC server (\<^verbatim>\<open>src/src/network/osc.c\<close>, the POSIX branch): addresses, the set of file
  descriptors, the receiver of the stream-oriented protocols and the socket options.

  The system calls are parameters: functions on a world of type \<open>'w\<close>. A descriptor outside the range of an
  \<^verbatim>\<open>fd_set\<close> and a write outside the receive buffer are undefined behaviour, \<open>None\<close>.
\<close>

section \<open>Addresses\<close>

text \<open>The resources of an address; \<open>release\<close> frees one.\<close>

datatype resource = Info | Addr | Saddr

datatype saddr = NoSaddr | OwnSaddr | InfoSaddr

record osc_address =
  has_info :: bool
  saddr :: saddr

text \<open>The decimal digits that \<^verbatim>\<open>snprintf(service, 6, "%d", port)\<close> keeps.\<close>

fun digits :: "nat \<Rightarrow> byte list" where
  "digits n = (if n < 10 then [48 + word_of_nat n] else digits (n div 10) @ [48 + word_of_nat (n mod 10)])"

declare digits.simps [simp del]

definition service_name :: "u32 \<Rightarrow> byte list" where
  "service_name port =
     take 5 (if sint port < 0 then 45 # digits (nat (- sint port)) else digits (unat port))"

record hints =
  socktype_datagram :: bool
  ai_flags :: u32

definition AI_PASSIVE :: u32 where "AI_PASSIVE = 1"

text \<open>
  \<open>gai\<close> is \<^verbatim>\<open>getaddrinfo\<close> (its status), \<open>ok1\<close> and \<open>ok2\<close> whether the two calls of \<^verbatim>\<open>malloc\<close> succeed.
\<close>

definition osc_address_new ::
  "(hints \<Rightarrow> byte list \<Rightarrow> byte list \<Rightarrow> int) \<Rightarrow> bool \<Rightarrow> bool \<Rightarrow> resource list \<Rightarrow> byte list \<Rightarrow> u32 \<Rightarrow> bool \<Rightarrow> bool \<Rightarrow> u32
     \<Rightarrow> (int \<times> osc_address option \<times> resource list) option" where
  "osc_address_new gai ok1 ok2 live host port is_datagram is_input hints_flags =
     (let hints = \<lparr>socktype_datagram = is_datagram,
            ai_flags = (if is_input then hints_flags OR AI_PASSIVE else hints_flags)\<rparr>;
          ret = gai hints host (service_name port) in
      if ret \<noteq> 0 then Some (ret, None, live)
      else let live = Info # live in
        if \<not> ok1 then do { live \<leftarrow> release live Info; Some (- 1, None, live) }
        else let live = Addr # live in
          if is_input then
            (if \<not> ok2 then do {
               live \<leftarrow> release live Info;
               live \<leftarrow> release live Addr;
               Some (- 1, None, live)
             }
             else Some (0, Some \<lparr>has_info = True, saddr = OwnSaddr\<rparr>, Saddr # live))
          else Some (0, Some \<lparr>has_info = True, saddr = InfoSaddr\<rparr>, live))"

definition osc_address_free :: "resource list \<Rightarrow> osc_address option \<Rightarrow> resource list option" where
  "osc_address_free live a =
     (case a of None \<Rightarrow> Some live
      | Some a \<Rightarrow> do {
          live \<leftarrow> (if saddr a = OwnSaddr then release live Saddr else Some live);
          live \<leftarrow> (if has_info a then release live Info else Some live);
          release live Addr
        })"

section \<open>Descriptors\<close>

record osc_fds =
  maxfd :: int
  servfd :: int
  lastfd :: int
  conns :: int
  fds :: "int set"

definition fd_ok :: "int \<Rightarrow> bool" where
  "fd_ok fd \<longleftrightarrow> 0 \<le> fd \<and> fd < 1024"

definition fd_set :: "int \<Rightarrow> int set \<Rightarrow> int set option" where
  "fd_set fd s = (if fd_ok fd then Some (insert fd s) else None)"

definition osc_alloc_fds :: "bool \<Rightarrow> osc_fds option" where
  "osc_alloc_fds ok = (if ok then Some \<lparr>maxfd = 0, servfd = - 1, lastfd = - 1, conns = 0, fds = {}\<rparr> else None)"

definition osc_set_servfd :: "osc_fds \<Rightarrow> int \<Rightarrow> osc_fds option" where
  "osc_set_servfd o' fd =
     (let o' = o'\<lparr>servfd := fd, maxfd := fd\<rparr> in do {
        s \<leftarrow> fd_set fd (fds o');
        Some (o'\<lparr>fds := s\<rparr>)
      })"

definition osc_lastfd :: "osc_fds \<Rightarrow> int" where
  "osc_lastfd o' = lastfd o'"

definition osc_connections :: "osc_fds \<Rightarrow> int" where
  "osc_connections o' = conns o'"

text \<open>The descriptors that \<^verbatim>\<open>osc_close_connections\<close> closes, in order, and the new state.\<close>

definition osc_close_connections :: "osc_fds \<Rightarrow> (int list \<times> osc_fds) option" where
  "osc_close_connections o' =
     (let closed = filter (\<lambda>i. i \<in> fds o' \<and> i \<noteq> servfd o') [0..maxfd o'] in do {
        s \<leftarrow> fd_set (servfd o') {};
        Some (closed, o'\<lparr>fds := s, maxfd := servfd o', lastfd := - 1, conns := 0\<rparr>)
      })"

definition osc_next_fd_set :: "osc_fds \<Rightarrow> int \<Rightarrow> int" where
  "osc_next_fd_set o' cur =
     (if maxfd o' < cur then - 1
      else case find (\<lambda>i. i \<noteq> servfd o' \<and> i \<in> fds o') [cur + 1..maxfd o'] of
        None \<Rightarrow> - 1 | Some i \<Rightarrow> i)"

section \<open>The receiver\<close>

record 'w os =
  os_select :: "'w \<Rightarrow> int \<Rightarrow> int set \<Rightarrow> bool \<Rightarrow> int \<times> int set \<times> 'w"
  os_accept :: "'w \<Rightarrow> int \<Rightarrow> int \<times> 'w"
  os_recv :: "'w \<Rightarrow> int \<Rightarrow> int \<Rightarrow> int \<times> byte list \<times> 'w"
  os_close :: "'w \<Rightarrow> int \<Rightarrow> 'w"
  os_getfl :: "'w \<Rightarrow> int \<Rightarrow> int"

text \<open>
  \<open>os_select w nfds set zero\<close> has a zero timeout when \<open>zero\<close> holds and blocks otherwise; \<open>os_getfl\<close> is
  \<^verbatim>\<open>fcntl(fd, F_GETFL, 0)\<close>.
\<close>

record 'w recv_state =
  net :: osc_fds
  rbuf :: "byte list"
  world :: 'w

definition OSC_MSGTOOLONG :: int where "OSC_MSGTOOLONG = - 2"
definition OSC_BADMSG :: int where "OSC_BADMSG = - 3"

definition O_NONBLOCK :: u32 where "O_NONBLOCK = 0x800"

definition osc_getsock_nonblock :: "int \<Rightarrow> u32" where
  "osc_getsock_nonblock flags = (if flags < 0 then 0 else word_of_int flags AND O_NONBLOCK)"

text \<open>\<^verbatim>\<open>recv(i, data, len, flags)\<close>: the received bytes go to the offset \<open>data\<close> of the buffer.\<close>

definition recv_into :: "'w os \<Rightarrow> 'w recv_state \<Rightarrow> int \<Rightarrow> int \<Rightarrow> int \<Rightarrow> (int \<times> 'w recv_state) option" where
  "recv_into os s i data len =
     (let (ret, bytes, w) = os_recv os (world s) i len; s = s\<lparr>world := w\<rparr> in
      if ret \<le> 0 then Some (ret, s)
      else if data < 0 then None
      else do {
        b \<leftarrow> memcpy (rbuf s) (nat data) bytes 0 (nat ret);
        Some (ret, s\<lparr>rbuf := b\<rparr>)
      })"

definition close_client :: "'w os \<Rightarrow> 'w recv_state \<Rightarrow> int \<Rightarrow> 'w recv_state" where
  "close_client os s i = s\<lparr>world := os_close os (world s) i,
     net := (net s)\<lparr>lastfd := (if lastfd (net s) = i then - 1 else lastfd (net s)), conns := conns (net s) - 1\<rparr>\<rparr>"

text \<open>
  The loop \<^verbatim>\<open>while (remain > 0)\<close>: \<open>Inl\<close> is a return from the function, \<open>Inr\<close> the value of \<^verbatim>\<open>nbytes\<close> behind the loop.
\<close>

function recv_more ::
  "'w os \<Rightarrow> int \<Rightarrow> bool \<Rightarrow> 'w recv_state \<Rightarrow> int \<Rightarrow> int \<Rightarrow> int \<Rightarrow> int \<Rightarrow> ('w recv_state \<times> (int + int)) option" where
  "recv_more os i is_slip s data ret remain nbytes =
     (if 0 < remain then
        let (r, ready, w) = os_select os (world s) (i + 1) {i} True; s = s\<lparr>world := w\<rparr> in
        if r \<noteq> - 1 \<and> i \<in> ready then
          let data = data + ret in
          case recv_into os s i data remain of
            None \<Rightarrow> None
          | Some (ret, s) \<Rightarrow>
              if ret \<le> 0 then
                let s = close_client os s i;
                    s = (if conns (net s) = 0 then s\<lparr>net := (net s)\<lparr>maxfd := servfd (net s)\<rparr>\<rparr> else s) in
                Some (s, Inr OSC_BADMSG)
              else let remain = remain - ret in
                if is_slip then
                  case is_slip_msg (drop (nat data) (rbuf s)) ret of
                    None \<Rightarrow> None
                  | Some True \<Rightarrow> Some (s, Inl (nbytes - remain))
                  | Some False \<Rightarrow> recv_more os i is_slip s data ret remain
                      (if remain = 0 then OSC_MSGTOOLONG else nbytes)
                else recv_more os i is_slip s data ret remain nbytes
        else Some (s, Inr OSC_BADMSG)
      else Some (s, Inr nbytes))"
  by pat_completeness auto
termination
  by (relation "measure (\<lambda>(os, i, is_slip, s, data, ret, remain, nbytes). nat remain)") auto

declare recv_more.simps [simp del]

text \<open>The body of the loop over the descriptors for a client \<open>i\<close>.\<close>

datatype fd_action = Return int | Break_loop | Next_fd int

definition SLIP_ENCODING_FLAG :: u32 where "SLIP_ENCODING_FLAG = 1"
definition COUNT_PREFIX_FLAG :: u32 where "COUNT_PREFIX_FLAG = 2"

definition recv_client ::
  "'w os \<Rightarrow> u32 \<Rightarrow> u32 \<Rightarrow> 'w recv_state \<Rightarrow> int \<Rightarrow> int \<Rightarrow> ('w recv_state \<times> fd_action) option" where
  "recv_client os enc_flags maxlen s i nbytes =
     (case recv_into os s i 0 (uint maxlen) of
        None \<Rightarrow> None
      | Some (ret, s) \<Rightarrow>
          if ret = 0 then
            let s = close_client os s i; s = s\<lparr>net := (net s)\<lparr>fds := fds (net s) - {i}\<rparr>\<rparr> in
            if conns (net s) = 0
            then Some (s\<lparr>net := (net s)\<lparr>maxfd := servfd (net s)\<rparr>\<rparr>, Break_loop)
            else Some (s, Next_fd nbytes)
          else let s = s\<lparr>net := (net s)\<lparr>lastfd := i\<rparr>\<rparr> in
            if enc_flags AND SLIP_ENCODING_FLAG \<noteq> 0 then
              case is_slip_msg (rbuf s) ret of
                None \<Rightarrow> None
              | Some True \<Rightarrow> Some (s, Return ret)
              | Some False \<Rightarrow>
                  let nbytes = sint maxlen; remain = nbytes - ret in
                  (case recv_more os i True s 0 ret remain nbytes of
                     None \<Rightarrow> None
                   | Some (s, Inl v) \<Rightarrow> Some (s, Return v)
                   | Some (s, Inr n) \<Rightarrow> Some (s, if 0 < n then Return n else Next_fd n))
            else if enc_flags AND COUNT_PREFIX_FLAG \<noteq> 0 then
              case load32 (rbuf s) 0 of
                None \<Rightarrow> None
              | Some w \<Rightarrow>
                  let too_long = maxlen - 4 < htonl w;
                      nbytes = (if too_long then OSC_MSGTOOLONG else sint (htonl w));
                      remain = (if too_long then sint (maxlen - word_of_int ret) else nbytes + 4 - ret) in
                  (case recv_more os i False s 0 ret remain nbytes of
                     None \<Rightarrow> None
                   | Some (s, Inl v) \<Rightarrow> Some (s, Return v)
                   | Some (s, Inr n) \<Rightarrow> Some (s, if 0 < n then Return n else Next_fd n))
            else Some (s, Return ret))"

text \<open>The loop over the ready descriptors; the last one of the list is the end.\<close>

fun fd_loop ::
  "'w os \<Rightarrow> u32 \<Rightarrow> u32 \<Rightarrow> int set \<Rightarrow> int list \<Rightarrow> 'w recv_state \<Rightarrow> int \<Rightarrow> ('w recv_state \<times> (int + int)) option" where
  "fd_loop os enc_flags maxlen ready [] s nbytes = Some (s, Inr nbytes)"
| "fd_loop os enc_flags maxlen ready (i # is) s nbytes =
     (if i \<in> ready \<and> i \<noteq> servfd (net s) then
        case recv_client os enc_flags maxlen s i nbytes of
          None \<Rightarrow> None
        | Some (s, Return v) \<Rightarrow> Some (s, Inl v)
        | Some (s, Break_loop) \<Rightarrow> Some (s, Inr nbytes)
        | Some (s, Next_fd n) \<Rightarrow> fd_loop os enc_flags maxlen ready is s n
      else fd_loop os enc_flags maxlen ready is s nbytes)"

definition accept_client :: "'w os \<Rightarrow> 'w recv_state \<Rightarrow> 'w recv_state option" where
  "accept_client os s =
     (let (client, w) = os_accept os (world s) (servfd (net s)); s = s\<lparr>world := w\<rparr> in
      if client = - 1 then Some s
      else do {
        f \<leftarrow> fd_set client (fds (net s));
        Some (s\<lparr>net := (net s)\<lparr>fds := f, conns := conns (net s) + 1,
          maxfd := (if maxfd (net s) < client then client else maxfd (net s))\<rparr>\<rparr>)
      })"

text \<open>One round of the outer loop: \<open>Inl\<close> is the return, \<open>Inr\<close> the value of \<^verbatim>\<open>nbytes\<close> for the next round.\<close>

definition recv_round ::
  "'w os \<Rightarrow> bool \<Rightarrow> u32 \<Rightarrow> u32 \<Rightarrow> 'w recv_state \<Rightarrow> int \<Rightarrow> ('w recv_state \<times> (int + int)) option" where
  "recv_round os nonblocking enc_flags maxlen s nbytes =
     (let nfds = maxfd (net s) + 1;
          (ret, ready, w) = os_select os (world s) nfds (fds (net s)) nonblocking;
          s = s\<lparr>world := w\<rparr> in
      if ret \<le> 0 then Some (s, Inl ret)
      else case (if servfd (net s) \<in> ready then accept_client os s else Some s) of
        None \<Rightarrow> None
      | Some s \<Rightarrow>
          (case fd_loop os enc_flags maxlen ready [0..nfds - 1] s nbytes of
             None \<Rightarrow> None
           | Some (s, Inl v) \<Rightarrow> Some (s, Inl v)
           | Some (s, Inr n) \<Rightarrow> Some (s, if n < 0 then Inl n else Inr n)))"

text \<open>
  \<^verbatim>\<open>while (1)\<close>: the outer \<open>None\<close> is a call that never returns, the inner one undefined behaviour.
\<close>

partial_function (option) recv_loop ::
  "'w os \<Rightarrow> bool \<Rightarrow> u32 \<Rightarrow> u32 \<Rightarrow> 'w recv_state \<Rightarrow> int \<Rightarrow> ('w recv_state \<times> int) option option" where
  "recv_loop os nonblocking enc_flags maxlen s nbytes =
     (case recv_round os nonblocking enc_flags maxlen s nbytes of
        None \<Rightarrow> Some None
      | Some (s, Inl v) \<Rightarrow> Some (Some (s, v))
      | Some (s, Inr n) \<Rightarrow> recv_loop os nonblocking enc_flags maxlen s n)"

definition osc_recv ::
  "'w os \<Rightarrow> u32 \<Rightarrow> u32 \<Rightarrow> 'w recv_state \<Rightarrow> ('w recv_state \<times> int) option option" where
  "osc_recv os enc_flags maxlen s =
     recv_loop os (osc_getsock_nonblock (os_getfl os (world s) (servfd (net s))) \<noteq> 0) enc_flags maxlen s 0"

definition osc_close_server :: "'w os \<Rightarrow> 'w \<Rightarrow> osc_fds \<Rightarrow> 'w" where
  "osc_close_server os w o' = os_close os w (servfd o')"

section \<open>Socket options\<close>

text \<open>\<open>getopt\<close> is the status of \<^verbatim>\<open>getsockopt\<close> with the option's value, \<open>setopt\<close> the status of \<^verbatim>\<open>setsockopt\<close>.\<close>

definition osc_getsock_broadcast :: "int \<times> int \<Rightarrow> int" where
  "osc_getsock_broadcast getopt = (let (ret, val) = getopt in if ret = 0 then val else ret)"

definition osc_setsock_broadcast :: "(int \<Rightarrow> int) \<Rightarrow> bool \<Rightarrow> bool \<Rightarrow> int \<Rightarrow> int" where
  "osc_setsock_broadcast setopt is_dgram is_inet is_set =
     (let val = is_set in if is_dgram \<and> is_inet then setopt val else 0)"

text \<open>\<open>flags\<close> is the answer of \<^verbatim>\<open>fcntl(fd, F_GETFL, 0)\<close>, \<open>setfl\<close> the status of \<^verbatim>\<open>F_SETFL\<close>.\<close>

definition osc_setsock_nonblock :: "int \<Rightarrow> (u32 \<Rightarrow> int) \<Rightarrow> bool \<Rightarrow> int" where
  "osc_setsock_nonblock flags setfl is_nonblock =
     (if flags < 0 then - 1
      else let flags = (if is_nonblock then word_of_int flags OR O_NONBLOCK else word_of_int flags AND NOT O_NONBLOCK) in
        setfl flags)"

definition osc_setsock_reuseaddr :: "(int \<Rightarrow> int) \<Rightarrow> int" where
  "osc_setsock_reuseaddr setopt = (let yes = 1 in setopt yes)"

section \<open>The invariant of the descriptors\<close>

definition fds_ok :: "osc_fds \<Rightarrow> bool" where
  "fds_ok o' \<longleftrightarrow> fd_ok (servfd o') \<and> fd_ok (maxfd o') \<and> servfd o' \<in> fds o' \<and> fds o' \<subseteq> {0..maxfd o'} \<and>
     conns o' = int (card (fds o' - {servfd o'})) \<and>
     (lastfd o' = - 1 \<or> lastfd o' \<in> fds o' - {servfd o'})"

lemma fds_ok_finite: "fds_ok o' \<Longrightarrow> finite (fds o')"
  unfolding fds_ok_def by (meson finite_atLeastAtMost_int finite_subset)

lemma set_servfd_ok:
  assumes "osc_alloc_fds True = Some o'" and "fd_ok fd"
  shows "\<exists>o''. osc_set_servfd o' fd = Some o'' \<and> fds_ok o'' \<and> fds o'' = {fd}"
  using assms by (auto simp: osc_alloc_fds_def osc_set_servfd_def fd_set_def fds_ok_def fd_ok_def)

lemma close_connections_ok:
  assumes "fds_ok o'"
  shows "\<exists>o''. osc_close_connections o' = Some (filter (\<lambda>i. i \<in> fds o' \<and> i \<noteq> servfd o') [0..maxfd o'], o'') \<and>
    fds_ok o'' \<and> fds o'' = {servfd o'} \<and> conns o'' = 0"
  using assms by (auto simp: osc_close_connections_def fd_set_def fds_ok_def Let_def fd_ok_def)

lemma remove_client_ok:
  assumes "fds_ok o'" and "i \<in> fds o'" and "i \<noteq> servfd o'"
  shows "fds_ok (o'\<lparr>lastfd := (if lastfd o' = i then - 1 else lastfd o'), conns := conns o' - 1,
      fds := fds o' - {i}\<rparr>)"
    and "conns o' - 1 = 0 \<Longrightarrow> fds o' - {i} = {servfd o'}"
proof -
  have fin: "finite (fds o' - {servfd o'})" using fds_ok_finite [OF assms(1)] by simp
  have eq: "fds o' - {i} - {servfd o'} = (fds o' - {servfd o'}) - {i}" by blast
  have c: "int (card (fds o' - {i} - {servfd o'})) = conns o' - 1"
  proof -
    have "0 < card (fds o' - {servfd o'})" using fin assms(2,3) by (auto simp: card_gt_0_iff)
    then show ?thesis
      using assms fin unfolding eq by (simp add: fds_ok_def of_nat_diff)
  qed
  then show "fds_ok (o'\<lparr>lastfd := (if lastfd o' = i then - 1 else lastfd o'), conns := conns o' - 1,
      fds := fds o' - {i}\<rparr>)"
    using assms by (auto simp: fds_ok_def)
  assume "conns o' - 1 = 0"
  with c have "card (fds o' - {i} - {servfd o'}) = 0" by simp
  then have "fds o' - {i} - {servfd o'} = {}" using fin unfolding eq by simp
  then show "fds o' - {i} = {servfd o'}" using assms by (auto simp: fds_ok_def)
qed

section \<open>What the system calls promise\<close>

text \<open>
  \<open>opened w\<close> are the open descriptors. \<^verbatim>\<open>accept\<close> returns a new one, a non-negative number of any size, or
  fails; \<^verbatim>\<open>select\<close> reports a part of the given set, \<^verbatim>\<open>recv\<close> returns at most as many bytes as asked for,
  \<^verbatim>\<open>close\<close> closes.
\<close>

definition accept_law :: "'w os \<Rightarrow> ('w \<Rightarrow> int set) \<Rightarrow> bool" where
  "accept_law os opened \<longleftrightarrow> (\<forall>w fd c w'. os_accept os w fd = (c, w') \<longrightarrow>
     (if c = - 1 then opened w' = opened w
      else 0 \<le> c \<and> c \<notin> opened w \<and> opened w' = insert c (opened w)))"

definition select_law :: "'w os \<Rightarrow> ('w \<Rightarrow> int set) \<Rightarrow> bool" where
  "select_law os opened \<longleftrightarrow> (\<forall>w n s z r ready w'. os_select os w n s z = (r, ready, w') \<longrightarrow>
     opened w' = opened w \<and> (0 < r \<longrightarrow> ready \<subseteq> s))"

definition recv_law :: "'w os \<Rightarrow> ('w \<Rightarrow> int set) \<Rightarrow> bool" where
  "recv_law os opened \<longleftrightarrow> (\<forall>w i l ret bs w'. 0 \<le> l \<longrightarrow> os_recv os w i l = (ret, bs, w') \<longrightarrow>
     opened w' = opened w \<and> ret \<le> l \<and> int (length bs) = max 0 ret)"

definition close_law :: "'w os \<Rightarrow> ('w \<Rightarrow> int set) \<Rightarrow> bool" where
  "close_law os opened \<longleftrightarrow> (\<forall>w fd. opened (os_close os w fd) = opened w - {fd})"

definition posix_laws :: "'w os \<Rightarrow> ('w \<Rightarrow> int set) \<Rightarrow> bool" where
  "posix_laws os opened \<longleftrightarrow>
     accept_law os opened \<and> select_law os opened \<and> recv_law os opened \<and> close_law os opened"

lemma posix_accept:
  "posix_laws os opened \<Longrightarrow> os_accept os w fd = (c, w') \<Longrightarrow>
   (if c = - 1 then opened w' = opened w else 0 \<le> c \<and> c \<notin> opened w \<and> opened w' = insert c (opened w))"
  unfolding posix_laws_def accept_law_def by presburger

lemma posix_select:
  "posix_laws os opened \<Longrightarrow> os_select os w n s z = (r, ready, w') \<Longrightarrow>
   opened w' = opened w \<and> (0 < r \<longrightarrow> ready \<subseteq> s)"
  unfolding posix_laws_def select_law_def by presburger

lemma posix_recv:
  "posix_laws os opened \<Longrightarrow> 0 \<le> l \<Longrightarrow> os_recv os w i l = (ret, bs, w') \<Longrightarrow>
   opened w' = opened w \<and> ret \<le> l \<and> int (length bs) = max 0 ret"
  unfolding posix_laws_def recv_law_def by blast

lemma posix_close: "posix_laws os opened \<Longrightarrow> opened (os_close os w fd) = opened w - {fd}"
  unfolding posix_laws_def close_law_def by blast

text \<open>The state between system calls: every descriptor of the set is open.\<close>

definition recv_ok :: "('w \<Rightarrow> int set) \<Rightarrow> 'w recv_state \<Rightarrow> bool" where
  "recv_ok opened s \<longleftrightarrow> fds_ok (net s) \<and> fds (net s) \<subseteq> opened (world s)"

lemma accept_ok:
  assumes "recv_ok opened s" and laws: "posix_laws os opened"
    and a: "os_accept os (world s) (servfd (net s)) = (client, w)" and small: "client < 1024"
  shows "\<exists>s'. accept_client os s = Some s' \<and> recv_ok opened s' \<and> servfd (net s') = servfd (net s) \<and>
    fds (net s) \<subseteq> fds (net s') \<and> rbuf s' = rbuf s"
proof -
  note c = posix_accept [OF laws a]
  have ok: "fds_ok (net s)" "fds (net s) \<subseteq> opened (world s)" using assms(1) by (auto simp: recv_ok_def)
  show ?thesis
  proof (cases "client = - 1")
    case True
    then show ?thesis using ok a c by (auto simp: accept_client_def recv_ok_def)
  next
    case False
    with c have c: "0 \<le> client" "client \<notin> opened (world s)" "opened w = insert client (opened (world s))"
      by auto
    have "client \<noteq> servfd (net s)" using c(2) ok by (auto simp: fds_ok_def)
    then have "insert client (fds (net s)) - {servfd (net s)} = insert client (fds (net s) - {servfd (net s)})" by blast
    moreover have "client \<notin> fds (net s)" using c(2) ok(2) by blast
    ultimately have "card (insert client (fds (net s)) - {servfd (net s)}) = Suc (card (fds (net s) - {servfd (net s)}))"
      using fds_ok_finite [OF ok(1)] by simp
    then show ?thesis
      using ok a c False small
      by (auto simp: accept_client_def fd_set_def fds_ok_def fd_ok_def Let_def recv_ok_def)
  qed
qed

text \<open>Nothing compares the accepted descriptor with \<^verbatim>\<open>FD_SETSIZE\<close>.\<close>

lemma accept_large:
  assumes "os_accept os (world s) (servfd (net s)) = (client, w)" and "1024 \<le> client"
  shows "accept_client os s = None"
  using assms by (simp add: accept_client_def fd_set_def fd_ok_def)

section \<open>Packets without framing\<close>

lemma recv_into_ok:
  assumes "posix_laws os opened" and "0 \<le> data" and "0 \<le> len" and "data + len \<le> int (length (rbuf s))"
  shows "\<exists>ret bs w b. os_recv os (world s) i len = (ret, bs, w) \<and>
    recv_into os s i data len = Some (ret, s\<lparr>world := w, rbuf := b\<rparr>) \<and>
    opened w = opened (world s) \<and> ret \<le> len \<and> length b = length (rbuf s) \<and>
    b = (if ret \<le> 0 then rbuf s else take (nat data) (rbuf s) @ bs @ drop (nat data + length bs) (rbuf s))"
proof -
  obtain ret bs w where r: "os_recv os (world s) i len = (ret, bs, w)" by (metis prod_cases3)
  note l = posix_recv [OF assms(1,3) r]
  show ?thesis
  proof (cases "ret \<le> 0")
    case True
    then show ?thesis using r l by (intro exI [of _ ret] exI [of _ bs] exI [of _ w] exI [of _ "rbuf s"])
      (simp add: recv_into_def)
  next
    case False
    then have n: "nat ret = length bs" "nat data + length bs \<le> length (rbuf s)"
      using l assms(2-4) by linarith+
    then show ?thesis
      using False r l assms(2)
      by (intro exI [of _ ret] exI [of _ bs] exI [of _ w]
          exI [of _ "take (nat data) (rbuf s) @ bs @ drop (nat data + length bs) (rbuf s)"])
        (simp add: recv_into_def memcpy_in)
  qed
qed

lemma recv_client_raw:
  assumes laws: "posix_laws os opened" and ok: "recv_ok opened s"
    and i: "i \<in> fds (net s)" "i \<noteq> servfd (net s)" and len: "unat maxlen \<le> length (rbuf s)"
    and raw: "enc AND SLIP_ENCODING_FLAG = 0" "enc AND COUNT_PREFIX_FLAG = 0"
  shows "\<exists>s' act. recv_client os enc maxlen s i nbytes = Some (s', act) \<and> recv_ok opened s' \<and>
    servfd (net s') = servfd (net s) \<and> length (rbuf s') = length (rbuf s) \<and>
    (case act of Next_fd n \<Rightarrow> n = nbytes \<and> fds (net s') = fds (net s) - {i} | _ \<Rightarrow> True)"
proof -
  have "0 + uint maxlen \<le> int (length (rbuf s))" using len unfolding uint_nat by linarith
  note ex = recv_into_ok [OF laws order_refl uint_ge_0 this, of i]
  obtain ret bs w b where
    r: "recv_into os s i 0 (uint maxlen) = Some (ret, s\<lparr>world := w, rbuf := b\<rparr>)"
      "opened w = opened (world s)" "length b = length (rbuf s)"
    apply (insert ex)
    apply (elim exE conjE)
    apply (rule that)
      apply assumption+
    done
  have o: "fds_ok (net s)" "fds (net s) \<subseteq> opened (world s)" using ok by (auto simp: recv_ok_def)
  show ?thesis
  proof (cases "ret = 0")
    case False
    then have "recv_client os enc maxlen s i nbytes =
        Some (s\<lparr>world := w, rbuf := b, net := (net s)\<lparr>lastfd := i\<rparr>\<rparr>, Return ret)"
      using r(1) raw by (simp add: recv_client_def Let_def)
    then show ?thesis using o i r(2,3) by (auto simp: recv_ok_def fds_ok_def)
  next
    case True
    let ?n = "(net s)\<lparr>lastfd := (if lastfd (net s) = i then - 1 else lastfd (net s)),
      conns := conns (net s) - 1, fds := fds (net s) - {i}\<rparr>"
    note rm = remove_client_ok [OF o(1) i]
    have cl: "opened (os_close os w i) = opened (world s) - {i}"
      using posix_close [OF laws] r(2) by simp
    show ?thesis
    proof (cases "conns (net s) - 1 = 0")
      case True
      then have "recv_client os enc maxlen s i nbytes =
          Some (s\<lparr>world := os_close os w i, rbuf := b, net := ?n\<lparr>maxfd := servfd (net s)\<rparr>\<rparr>, Break_loop)"
        using r(1) \<open>ret = 0\<close> by (simp add: recv_client_def close_client_def Let_def)
      moreover have "fds_ok (?n\<lparr>maxfd := servfd (net s)\<rparr>)"
        using rm(1) rm(2) [OF True] by (auto simp: fds_ok_def fd_ok_def)
      ultimately show ?thesis using o cl r(3) by (auto simp: recv_ok_def)
    next
      case False
      then have "recv_client os enc maxlen s i nbytes =
          Some (s\<lparr>world := os_close os w i, rbuf := b, net := ?n\<rparr>, Next_fd nbytes)"
        using r(1) \<open>ret = 0\<close> by (simp add: recv_client_def close_client_def Let_def)
      then show ?thesis using o cl rm(1) r(3) by (auto simp: recv_ok_def)
    qed
  qed
qed

lemma fd_loop_raw:
  assumes laws: "posix_laws os opened" and "recv_ok opened s"
    and "\<And>i. i \<in> set is \<Longrightarrow> i \<in> ready \<Longrightarrow> i \<in> fds (net s)" and "distinct is" and "unat maxlen \<le> length (rbuf s)"
    and raw: "enc AND SLIP_ENCODING_FLAG = 0" "enc AND COUNT_PREFIX_FLAG = 0"
  shows "\<exists>s' r. fd_loop os enc maxlen ready is s nbytes = Some (s', r) \<and> recv_ok opened s' \<and>
    length (rbuf s') = length (rbuf s) \<and> (case r of Inr n \<Rightarrow> n = nbytes | _ \<Rightarrow> True)"
  using assms(2-5)
proof (induction "is" arbitrary: s)
  case (Cons i "is")
  show ?case
  proof (cases "i \<in> ready \<and> i \<noteq> servfd (net s)")
    case False
    then show ?thesis using Cons.IH [of s] Cons.prems by auto
  next
    case True
    then obtain s' act where c: "recv_client os enc maxlen s i nbytes = Some (s', act)" "recv_ok opened s'"
      "length (rbuf s') = length (rbuf s)"
      "case act of Next_fd n \<Rightarrow> n = nbytes \<and> fds (net s') = fds (net s) - {i} | _ \<Rightarrow> True"
      using recv_client_raw [OF laws Cons.prems(1) _ _ Cons.prems(4) raw, of i nbytes] Cons.prems(2) by auto
    show ?thesis
    proof (cases act)
      case (Next_fd n)
      then have f: "n = nbytes" "fds (net s') = fds (net s) - {i}" using c(4) by auto
      have "j \<in> fds (net s')" if "j \<in> set is" "j \<in> ready" for j
        using that Cons.prems(2) [of j] Cons.prems(3) f(2) by auto
      then show ?thesis using True Next_fd c(1-3) f(1) Cons.IH [of s'] Cons.prems(3,4) by auto
    qed (use True c in auto)
  qed
qed simp


text \<open>\<open>overflows os zero s\<close>: the next \<^verbatim>\<open>accept\<close> of a round answers with a descriptor that an \<^verbatim>\<open>fd_set\<close> cannot hold.\<close>

definition overflows :: "'w os \<Rightarrow> bool \<Rightarrow> 'w recv_state \<Rightarrow> bool" where
  "overflows os zero s \<longleftrightarrow>
     (let (r, ready, w) = os_select os (world s) (maxfd (net s) + 1) (fds (net s)) zero in
      0 < r \<and> servfd (net s) \<in> ready \<and> 1024 \<le> fst (os_accept os w (servfd (net s))))"

lemma first_part_ok:
  assumes "posix_laws os opened" and "recv_ok opened s"
    and sel: "os_select os (world s) (maxfd (net s) + 1) (fds (net s)) zero = (r, ready, w)" and r: "0 < r"
  shows "if overflows os zero s then servfd (net s) \<in> ready \<and> accept_client os (s\<lparr>world := w\<rparr>) = None
    else \<exists>s1. (if servfd (net s) \<in> ready then accept_client os (s\<lparr>world := w\<rparr>) else Some (s\<lparr>world := w\<rparr>)) = Some s1 \<and>
      recv_ok opened s1 \<and> fds (net s) \<subseteq> fds (net s1) \<and> length (rbuf s1) = length (rbuf s)"
proof -
  obtain c w' where a: "os_accept os w (servfd (net s)) = (c, w')" by fastforce
  have o: "overflows os zero s \<longleftrightarrow> servfd (net s) \<in> ready \<and> 1024 \<le> c" using sel r a by (simp add: overflows_def)
  have ok1: "recv_ok opened (s\<lparr>world := w\<rparr>)"
    using assms(2) posix_select [OF assms(1) sel] by (simp add: recv_ok_def)
  have "accept_client os (s\<lparr>world := w\<rparr>) = None" if "1024 \<le> c" by (rule accept_large) (use a that in simp_all)
  moreover have "\<exists>s1. accept_client os (s\<lparr>world := w\<rparr>) = Some s1 \<and>
      recv_ok opened s1 \<and> fds (net s) \<subseteq> fds (net s1) \<and> length (rbuf s1) = length (rbuf s)" if "c < 1024"
    using accept_ok [OF ok1 assms(1), of c w'] a that by auto
  ultimately show ?thesis using o ok1 by (cases "servfd (net s) \<in> ready") auto
qed

text \<open>
  C18. A round of the receiver without framing. When the system calls keep their promises and the buffer has at
  least \<^verbatim>\<open>maxlen\<close> bytes, exactly one thing can go wrong: the accepted descriptor is \<^verbatim>\<open>FD_SETSIZE\<close> or more (the
  code never compares them). In every other round nothing is written outside of the buffer or of the descriptor
  set, the round ends, and it keeps the invariant: the server's socket and the clients are the open
  descriptors of the set, all of them below \<^verbatim>\<open>maxfd + 1\<close>, the number of connections is the number of clients,
  and the last active descriptor is a client or \<open>- 1\<close>.
\<close>

theorem recv_round_ok:
  assumes "posix_laws os opened" and "recv_ok opened s" and "unat maxlen \<le> length (rbuf s)"
    and "enc AND SLIP_ENCODING_FLAG = 0" and "enc AND COUNT_PREFIX_FLAG = 0"
  shows "case recv_round os nonblocking enc maxlen s nbytes of
      None \<Rightarrow> overflows os nonblocking s
    | Some (s', r) \<Rightarrow> \<not> overflows os nonblocking s \<and> recv_ok opened s' \<and> length (rbuf s') = length (rbuf s)"
proof -
  obtain r ready w where sel: "os_select os (world s) (maxfd (net s) + 1) (fds (net s)) nonblocking = (r, ready, w)"
    by (metis prod_cases3)
  note l = posix_select [OF assms(1) sel]
  show ?thesis
  proof (cases "r \<le> 0")
    case True
    then show ?thesis using sel assms(2) l by (simp add: recv_round_def overflows_def recv_ok_def)
  next
    case False
    then have sub: "ready \<subseteq> fds (net s)" and pos: "0 < r" using l by simp_all
    note first = first_part_ok [OF assms(1,2) sel pos]
    show ?thesis
    proof (cases "overflows os nonblocking s")
      case True
      then show ?thesis using first sel False by (simp add: recv_round_def)
    next
      case no: False
      with first obtain s1 where s1: "(if servfd (net s) \<in> ready then accept_client os (s\<lparr>world := w\<rparr>) else Some (s\<lparr>world := w\<rparr>)) = Some s1"
        "recv_ok opened s1" "fds (net s) \<subseteq> fds (net s1)" "length (rbuf s1) = length (rbuf s)" by auto
      have m: "unat maxlen \<le> length (rbuf s1)" using assms(3) s1(4) by simp
      have "\<exists>s' r. fd_loop os enc maxlen ready [0..maxfd (net s)] s1 nbytes = Some (s', r) \<and> recv_ok opened s' \<and>
          length (rbuf s') = length (rbuf s1) \<and> (case r of Inr n \<Rightarrow> n = nbytes | _ \<Rightarrow> True)"
        using sub s1(3) by (intro fd_loop_raw [OF assms(1) s1(2) _ _ m assms(4,5)]) auto
      then obtain s' r' where f: "fd_loop os enc maxlen ready [0..maxfd (net s)] s1 nbytes = Some (s', r')"
        "recv_ok opened s'" "length (rbuf s') = length (rbuf s1)" by blast
      then show ?thesis
        using False sel s1 no by (cases r') (simp_all add: recv_round_def)
    qed
  qed
qed

text \<open>
  A network with the server's socket 3 and one client, 4: \<open>live\<close> are the open descriptors, \<open>todo\<close> are the chunks that the
  client sends before it hangs up.
\<close>

datatype net_world = Net (live: "int set") (todo: "byte list list")

definition toy_os :: "net_world os" where
  "toy_os = \<lparr>os_select = (\<lambda>w n s zero. if 4 \<in> s then (1, {4}, w) else if 4 \<in> live w then (0, {}, w) else (1, {3} \<inter> s, w)),
     os_accept = (\<lambda>w fd. if 4 \<in> live w then (- 1, w) else (4, Net (insert 4 (live w)) (todo w))),
     os_recv = (\<lambda>w i l. case todo w of [] \<Rightarrow> (0, [], w)
       | p # ps \<Rightarrow> if int (length p) \<le> l then (int (length p), p, Net (live w) ps) else (0, [], w)),
     os_close = (\<lambda>w fd. Net (live w - {fd}) (todo w)),
     os_getfl = (\<lambda>w fd. 0)\<rparr>"

definition toy_state :: "byte list list \<Rightarrow> nat \<Rightarrow> net_world recv_state" where
  "toy_state packets n = \<lparr>net = \<lparr>maxfd = 4, servfd = 3, lastfd = - 1, conns = 1, fds = {3, 4}\<rparr>,
     rbuf = replicate n 0, world = Net {3, 4} packets\<rparr>"

lemma toy_laws: "posix_laws toy_os live"
  by (auto simp: posix_laws_def accept_law_def select_law_def recv_law_def close_law_def toy_os_def fd_ok_def
      split: list.splits if_splits)

lemma toy_ok: "recv_ok live (toy_state packets n)"
proof -
  have "{3, 4} - {3 :: int} = {4}" by auto
  then show ?thesis by (simp add: recv_ok_def fds_ok_def fd_ok_def toy_state_def)
qed

text \<open>The same network in a process with many open files: \<^verbatim>\<open>accept\<close> answers 1024.\<close>

definition busy_os :: "net_world os" where
  "busy_os = toy_os\<lparr>os_select := \<lambda>w n s zero. (1, {3} \<inter> s, w),
     os_accept := \<lambda>w fd. if 1024 \<in> live w then (- 1, w) else (1024, Net (insert 1024 (live w)) (todo w))\<rparr>"

lemma busy_laws: "posix_laws busy_os live"
  using toy_laws
  by (auto simp: posix_laws_def accept_law_def select_law_def recv_law_def close_law_def busy_os_def split: if_splits)

theorem recv_round_ok_witness:
  "(\<exists>s' r. recv_round toy_os False 0 8 (toy_state [[1, 2, 3]] 8) 0 = Some (s', r) \<and> recv_ok live s' \<and>
     length (rbuf s') = 8) \<and>
   recv_round busy_os False 0 8 (toy_state [[1, 2, 3]] 8) 0 = None"
proof -
  have l: "unat (8 :: u32) \<le> length (rbuf (toy_state [[1, 2, 3]] 8))" "length (rbuf (toy_state [[1, 2, 3]] 8)) = 8"
    by (simp_all add: toy_state_def)
  have "\<not> overflows toy_os False (toy_state [[1, 2, 3]] 8)"
    by (simp add: overflows_def toy_os_def toy_state_def)
  moreover have "overflows busy_os False (toy_state [[1, 2, 3]] 8)"
    by (simp add: overflows_def busy_os_def toy_state_def)
  ultimately show ?thesis
    using recv_round_ok [OF toy_laws toy_ok l(1), of 0 False 0] recv_round_ok [OF busy_laws toy_ok l(1), of 0 False 0] l(2)
    by (auto split: option.splits)
qed

section \<open>Framed packets\<close>

text \<open>
  What the network does while the receiver waits for \<open>n\<close> more bytes of client \<open>i\<close>: \<open>arrivals\<close> are the chunks
  that the calls of \<^verbatim>\<open>recv\<close> return, how it ends and the world after it. The end is \<open>Complete\<close> when all bytes are there,
  \<open>Late\<close> when \<^verbatim>\<open>select\<close> (with a zero timeout) fails or finds nothing to read, and \<open>Hangup\<close> when \<^verbatim>\<open>recv\<close> returns
  zero or an error.
\<close>

datatype arrival = Complete | Late | Hangup

function arrivals :: "'w os \<Rightarrow> int \<Rightarrow> 'w \<Rightarrow> int \<Rightarrow> byte list list \<times> arrival \<times> 'w" where
  "arrivals os i w n =
     (if n \<le> 0 then ([], Complete, w)
      else let (r, ready, w) = os_select os w (i + 1) {i} True in
        if r \<noteq> - 1 \<and> i \<in> ready then
          let (ret, bytes, w) = os_recv os w i n in
          if ret \<le> 0 then ([], Hangup, w)
          else let (cs, fin, w) = arrivals os i w (n - ret) in (bytes # cs, fin, w)
        else ([], Late, w))"
  by pat_completeness auto
termination
  by (relation "measure (\<lambda>(os, i, w, n). nat n)") auto

declare arrivals.simps [simp del]

text \<open>The chunks fit into the missing bytes, and fill them exactly when the packet is complete.\<close>

lemma arrivals_length:
  assumes "posix_laws os opened" and "arrivals os i w n = (cs, fin, w')"
  shows "int (length (concat cs)) \<le> max 0 n \<and> (fin = Complete \<longleftrightarrow> int (length (concat cs)) = max 0 n)"
  using assms
proof (induction os i w n arbitrary: cs fin w' rule: arrivals.induct)
  case (1 os i w n)
  show ?case
  proof (cases "n \<le> 0")
    case True
    then show ?thesis using "1.prems"(2) by (simp add: arrivals.simps [of os i w n])
  next
    case False
    obtain r ready w1 where sel: "os_select os w (i + 1) {i} True = (r, ready, w1)" by (metis prod_cases3)
    obtain ret bytes w2 where rc: "os_recv os w1 i n = (ret, bytes, w2)" by (metis prod_cases3)
    obtain cs' fin' w3 where rest: "arrivals os i w2 (n - ret) = (cs', fin', w3)" by (metis prod_cases3)
    show ?thesis
    proof (cases "r \<noteq> - 1 \<and> i \<in> ready \<and> 0 < ret")
      case True
      have IH: "int (length (concat cs')) \<le> max 0 (n - ret) \<and> (fin' = Complete \<longleftrightarrow> int (length (concat cs')) = max 0 (n - ret))"
        using "1.IH" "1.prems"(1) False sel rc rest True by auto
      have "ret \<le> n" "int (length bytes) = ret"
        using posix_recv [OF "1.prems"(1) _ rc] False True by simp_all
      then show ?thesis using IH "1.prems"(2) False sel rc rest True by (auto simp: arrivals.simps [of os i w n])
    next
      case no: False
      then show ?thesis using "1.prems"(2) False sel rc
        by (auto simp: arrivals.simps [of os i w n] split: if_splits)
    qed
  qed
qed

lemma recv_into_chunk:
  assumes "os_recv os (world s) i n = (int (length c), c, w)" and "c \<noteq> []" and "d + length c \<le> length (rbuf s)"
  shows "recv_into os s i (int d) n =
    Some (int (length c), s\<lparr>world := w, rbuf := take d (rbuf s) @ c @ drop (d + length c) (rbuf s)\<rparr>)"
  using assms by (simp add: recv_into_def memcpy_in)

text \<open>The client has hung up: it is closed, and the highest descriptor is reset with the last client.\<close>

definition hung_up :: "'w os \<Rightarrow> 'w recv_state \<Rightarrow> int \<Rightarrow> 'w recv_state" where
  "hung_up os s i =
     (let s = close_client os s i in
      if conns (net s) = 0 then s\<lparr>net := (net s)\<lparr>maxfd := servfd (net s)\<rparr>\<rparr> else s)"

definition stored :: "'w recv_state \<Rightarrow> nat \<Rightarrow> byte list \<Rightarrow> 'w \<Rightarrow> 'w recv_state" where
  "stored s d bytes w = s\<lparr>world := w, rbuf := take d (rbuf s) @ bytes @ drop (d + length bytes) (rbuf s)\<rparr>"

text \<open>The loop stores the chunks one behind the other, whatever arrives.\<close>

lemma recv_more_arrivals:
  assumes "posix_laws os opened"
    and "arrivals os i (world s) remain = (cs, fin, w)"
    and "0 \<le> data" and "0 \<le> ret" and "nat (data + ret) + nat remain \<le> length (rbuf s)"
  shows "recv_more os i False s data ret remain nbytes =
    Some (let s = stored s (nat (data + ret)) (concat cs) w in
      case fin of Complete \<Rightarrow> (s, Inr nbytes) | Late \<Rightarrow> (s, Inr OSC_BADMSG) | Hangup \<Rightarrow> (hung_up os s i, Inr OSC_BADMSG))"
  using assms(2-5)
proof (induction "nat remain" arbitrary: s data ret remain cs rule: less_induct)
  case less
  obtain r ready w1 where sel: "os_select os (world s) (i + 1) {i} True = (r, ready, w1)" by (metis prod_cases3)
  obtain ret' c w2 where rc: "os_recv os w1 i remain = (ret', c, w2)" by (metis prod_cases3)
  obtain cs' fin' w3 where rest: "arrivals os i w2 (remain - ret') = (cs', fin', w3)" by (metis prod_cases3)
  note more = recv_more.simps [of os i False s data ret remain nbytes]
    and arr = arrivals.simps [of os i "world s" remain]
  consider "remain \<le> 0" | "0 < remain" "r = - 1 \<or> i \<notin> ready" | "0 < remain" "r \<noteq> - 1" "i \<in> ready" "ret' \<le> 0"
    | "0 < remain" "r \<noteq> - 1" "i \<in> ready" "0 < ret'" by linarith
  then show ?case
  proof cases
    case 1
    then show ?thesis using less.prems by (simp add: more arr stored_def)
  next
    case 2
    then have "cs = []" "fin = Late" "w = w1" using less.prems(1) sel by (auto simp: arr)
    then show ?thesis using 2 sel by (auto simp: more stored_def)
  next
    case 3
    then have "cs = []" "fin = Hangup" "w = w2" using less.prems(1) sel rc by (auto simp: arr)
    then show ?thesis using 3 sel rc by (simp add: more recv_into_def hung_up_def stored_def Let_def)
  next
    case 4
    define d where "d = nat (data + ret)"
    have d: "data + ret = int d" using less.prems(2,3) by (simp add: d_def)
    have c: "ret' \<le> remain" "ret' = int (length c)" using posix_recv [OF assms(1) _ rc] 4 by simp_all
    then have ne: "c \<noteq> []" using 4 by auto
    have len: "d + length c \<le> length (rbuf s)" using c less.prems(4) d_def by linarith
    let ?s = "stored s d c w2"
    have into: "recv_into os (s\<lparr>world := w1\<rparr>) i (data + ret) remain = Some (ret', ?s)"
      using recv_into_chunk [of os "s\<lparr>world := w1\<rparr>" i remain c w2 d] rc c ne len by (simp add: d stored_def)
    have step: "recv_more os i False s data ret remain nbytes =
        recv_more os i False ?s (data + ret) ret' (remain - ret') nbytes"
      using 4 sel into by (simp add: more Let_def)
    have e: "cs = c # cs'" "fin = fin'" "w = w3" using less.prems(1) 4 sel rc rest by (auto simp: arr)
    have n: "nat (data + ret + ret') = d + length c" using d c by simp
    have "nat (remain - ret') < nat remain" using 4 by simp
    moreover have "arrivals os i (world ?s) (remain - ret') = (cs', fin, w)" using rest e by (simp add: stored_def)
    moreover have "0 \<le> data + ret" "0 \<le> ret'" using less.prems(2,3) 4 by simp_all
    moreover have "nat (data + ret + ret') + nat (remain - ret') \<le> length (rbuf ?s)"
      using less.prems(4) c len 4 unfolding n by (simp add: stored_def d_def)
    ultimately have "recv_more os i False ?s (data + ret) ret' (remain - ret') nbytes =
        Some (let s = stored ?s (d + length c) (concat cs') w in
          case fin of Complete \<Rightarrow> (s, Inr nbytes) | Late \<Rightarrow> (s, Inr OSC_BADMSG) | Hangup \<Rightarrow> (hung_up os s i, Inr OSC_BADMSG))"
      unfolding n [symmetric] by (rule less.hyps)
    moreover have "stored ?s (d + length c) (concat cs') w = stored s d (concat cs) w"
      using len by (simp add: stored_def e add_ac)
    ultimately show ?thesis unfolding step d_def by simp
  qed
qed

text \<open>
  C19. What the receiver makes of a packet with a length-count prefix, for every division into chunks and every
  behaviour of the network after a first successful \<^verbatim>\<open>recv\<close> (chunk \<open>c\<close>). The length \<open>n\<close> is read from
  the first four bytes of the buffer, which are old bytes where the first chunk is shorter than four. When \<open>n\<close>
  fits into the buffer and all of the missing bytes can be read without waiting, the length is returned (a packet
  of length zero is skipped) and the chunks lie in the buffer one behind the other, the prefix and \<open>n\<close> bytes behind it
  (what the first chunk held beyond the packet is there too, and is lost for the next call). When \<open>n\<close>
  does not fit, the buffer is filled and the loop over the descriptors goes on with the error \<open>OSC_MSGTOOLONG\<close>. When the
  next bytes are not there yet, or the client hangs up, it goes on with \<open>OSC_BADMSG\<close>; in the second case the client is
  closed. No byte behind the chunks changes.
\<close>

theorem prefixed_packet_received:
  assumes "enc AND SLIP_ENCODING_FLAG = 0" and "enc AND COUNT_PREFIX_FLAG \<noteq> 0" and laws: "posix_laws os opened"
    and room: "4 \<le> maxlen" "unat maxlen < 2 ^ 31" "unat maxlen \<le> length (rbuf s)"
    and recv: "os_recv os (world s) i (uint maxlen) = (ret, c, w1)" "0 < ret"
    and prefix: "take 4 (c @ drop (length c) (rbuf s)) = rev (bytes_of n)"
    and arrive: "arrivals os i w1 ((if n \<le> maxlen - 4 then int (unat n) + 4 else int (unat maxlen)) - ret) = (cs, fin, w2)"
  shows "\<exists>s'. s' = \<lparr>net = (net s)\<lparr>lastfd := i\<rparr>, rbuf = c @ concat cs @ drop (length (c @ concat cs)) (rbuf s), world = w2\<rparr> \<and>
    recv_client os enc maxlen s i nbytes = Some (case fin of
        Complete \<Rightarrow> (s', if maxlen - 4 < n then Next_fd OSC_MSGTOOLONG else if n = 0 then Next_fd 0 else Return (int (unat n)))
      | Late \<Rightarrow> (s', Next_fd OSC_BADMSG)
      | Hangup \<Rightarrow> (hung_up os s' i, Next_fd OSC_BADMSG)) \<and>
    length (c @ concat cs) \<le> unat maxlen \<and>
    (n \<le> maxlen - 4 \<longrightarrow> (fin = Complete \<longleftrightarrow> unat n + 4 \<le> length (c @ concat cs)) \<and>
      (length c \<le> unat n + 4 \<longrightarrow> length (c @ concat cs) \<le> unat n + 4)) \<and>
    (maxlen - 4 < n \<longrightarrow> (fin = Complete \<longleftrightarrow> length (c @ concat cs) = unat maxlen))"
proof -
  let ?r = "(if n \<le> maxlen - 4 then int (unat n) + 4 else int (unat maxlen)) - ret"
  have c: "ret = int (length c)" "length c \<le> unat maxlen" "c \<noteq> []"
  proof -
    have "uint maxlen = int (unat maxlen)" by (rule uint_nat)
    then have "ret = int (length c) \<and> length c \<le> unat maxlen"
      using posix_recv [OF laws uint_ge_0 recv(1)] recv(2) by linarith
    then show "ret = int (length c)" "length c \<le> unat maxlen" "c \<noteq> []" using recv(2) by auto
  qed
  have m4: "unat (maxlen - 4) = unat maxlen - 4" "4 \<le> unat maxlen"
    using room(1) by (simp_all add: unat_sub word_le_nat_alt)
  have n: "unat n + 4 \<le> unat maxlen" if "n \<le> maxlen - 4"
    using that m4 unfolding word_le_nat_alt by linarith
  define s1 where "s1 = \<lparr>net = (net s)\<lparr>lastfd := i\<rparr>, rbuf = c @ drop (length c) (rbuf s), world = w1\<rparr>"
  have e: "s\<lparr>world := w1, rbuf := c @ drop (length c) (rbuf s), net := (net s)\<lparr>lastfd := i\<rparr>\<rparr> = s1"
    by (cases s) (simp add: s1_def)
  have r: "recv_into os s i 0 (uint maxlen) = Some (ret, s\<lparr>world := w1, rbuf := c @ drop (length c) (rbuf s)\<rparr>)"
    using recv_into_chunk [of os s i "uint maxlen" c w1 0] recv(1) c room(3) by simp
  have ld: "load32 (c @ drop (length c) (rbuf s)) 0 = Some (htonl n)"
    using prefix c(2) m4(2) room(3) by (simp add: load32_in htonl_def)
  note al = arrivals_length [OF laws arrive]
  have fits: "nat (0 + ret) + nat ?r \<le> length (rbuf s1)"
  proof -
    have "n \<le> maxlen - 4 \<longrightarrow> int (unat n) + 4 \<le> int (unat maxlen)"
      by (intro impI) (use n in linarith)
    then have "?r \<le> int (unat maxlen) - ret" by simp
    moreover have "length (rbuf s1) = length (rbuf s)" using c(2) room(3) by (simp add: s1_def)
    ultimately show ?thesis using c(1,2) room(3) by linarith
  qed
  have "recv_more os i False s1 0 ret ?r nb =
      Some (let s = stored s1 (length c) (concat cs) w2 in
        case fin of Complete \<Rightarrow> (s, Inr nb) | Late \<Rightarrow> (s, Inr OSC_BADMSG) | Hangup \<Rightarrow> (hung_up os s i, Inr OSC_BADMSG))" for nb
    using recv_more_arrivals [OF laws, of i s1 ?r cs fin w2 0 ret nb] arrive recv(2) fits c(1) by (simp add: s1_def)
  moreover have "stored s1 (length c) (concat cs) w2 =
      \<lparr>net = (net s)\<lparr>lastfd := i\<rparr>, rbuf = c @ concat cs @ drop (length (c @ concat cs)) (rbuf s), world = w2\<rparr>"
    using c(2) room(3) by (simp add: stored_def s1_def add_ac)
  ultimately have more: "recv_more os i False s1 0 ret ?r nb =
      Some (let s' = \<lparr>net = (net s)\<lparr>lastfd := i\<rparr>, rbuf = c @ concat cs @ drop (length (c @ concat cs)) (rbuf s), world = w2\<rparr> in
        case fin of Complete \<Rightarrow> (s', Inr nb) | Late \<Rightarrow> (s', Inr OSC_BADMSG) | Hangup \<Rightarrow> (hung_up os s' i, Inr OSC_BADMSG))" for nb
    by simp
  have sm: "sint (maxlen - word_of_int ret) = int (unat maxlen) - ret"
  proof -
    have "length c < 2 ^ 32" using c(2) room(2) by simp
    then have "unat (word_of_nat (length c) :: u32) = length c" by (simp add: unat_of_nat)
    then have "unat (maxlen - word_of_nat (length c)) = unat maxlen - length c"
      using c(2) by (simp add: unat_sub word_le_nat_alt)
    moreover have "word_of_int ret = (word_of_nat (length c) :: u32)" by (simp add: c(1))
    ultimately show ?thesis using room(2) c by (simp add: sint_small)
  qed
  have sn: "sint n = int (unat n)" if "n \<le> maxlen - 4" using n [OF that] room(2) by (simp add: sint_small)
  have np: "(0 < uint n) = (n \<noteq> 0)" using uint_0_iff [of n] uint_ge_0 [of n] by linarith
  have "recv_client os enc maxlen s i nbytes =
      (case recv_more os i False s1 0 ret ?r (if maxlen - 4 < n then OSC_MSGTOOLONG else int (unat n)) of
         None \<Rightarrow> None
       | Some (s, Inl v) \<Rightarrow> Some (s, Return v)
       | Some (s, Inr n) \<Rightarrow> Some (s, if 0 < n then Return n else Next_fd n))"
    using assms(1,2) r ld recv(2) sm sn by (simp add: recv_client_def e Let_def not_less [symmetric])
  then have run: "recv_client os enc maxlen s i nbytes = Some (case fin of
        Complete \<Rightarrow> (\<lparr>net = (net s)\<lparr>lastfd := i\<rparr>, rbuf = c @ concat cs @ drop (length (c @ concat cs)) (rbuf s), world = w2\<rparr>,
          if maxlen - 4 < n then Next_fd OSC_MSGTOOLONG else if n = 0 then Next_fd 0 else Return (int (unat n)))
      | Late \<Rightarrow> (\<lparr>net = (net s)\<lparr>lastfd := i\<rparr>, rbuf = c @ concat cs @ drop (length (c @ concat cs)) (rbuf s), world = w2\<rparr>,
          Next_fd OSC_BADMSG)
      | Hangup \<Rightarrow> (hung_up os \<lparr>net = (net s)\<lparr>lastfd := i\<rparr>, rbuf = c @ concat cs @ drop (length (c @ concat cs)) (rbuf s),
          world = w2\<rparr> i, Next_fd OSC_BADMSG))"
    unfolding more by (cases fin) (auto simp: Let_def OSC_MSGTOOLONG_def OSC_BADMSG_def np unat_gt_0)
  have lc: "length (c @ concat cs) = length c + length (concat cs)" by simp
  have l: "length (c @ concat cs) \<le> unat maxlen \<and>
    (n \<le> maxlen - 4 \<longrightarrow> (fin = Complete \<longleftrightarrow> unat n + 4 \<le> length (c @ concat cs)) \<and>
      (length c \<le> unat n + 4 \<longrightarrow> length (c @ concat cs) \<le> unat n + 4)) \<and>
    (maxlen - 4 < n \<longrightarrow> (fin = Complete \<longleftrightarrow> length (c @ concat cs) = unat maxlen))"
  proof (cases "n \<le> maxlen - 4")
    case True
    have a: "int (length (concat cs)) \<le> max 0 (int (unat n) + 4 - ret)"
      "(fin = Complete) = (int (length (concat cs)) = max 0 (int (unat n) + 4 - ret))"
      using al by (simp_all only: True if_True)
    have "length (c @ concat cs) \<le> unat maxlen \<and> (fin = Complete \<longleftrightarrow> unat n + 4 \<le> length (c @ concat cs)) \<and>
      (length c \<le> unat n + 4 \<longrightarrow> length (c @ concat cs) \<le> unat n + 4)"
      using a(1) n [OF True] c(1,2) unfolding a(2) lc by (intro conjI impI iffI; linarith)
    moreover have "\<not> maxlen - 4 < n" using True by simp
    ultimately show ?thesis by blast
  next
    case False
    have a: "int (length (concat cs)) \<le> max 0 (int (unat maxlen) - ret)"
      "(fin = Complete) = (int (length (concat cs)) = max 0 (int (unat maxlen) - ret))"
      using al by (simp_all only: False if_False)
    have "length (c @ concat cs) \<le> unat maxlen \<and> (fin = Complete \<longleftrightarrow> length (c @ concat cs) = unat maxlen)"
      using a(1) c(1,2) unfolding a(2) lc by (intro conjI impI iffI; linarith)
    then show ?thesis using False by simp
  qed
  show ?thesis using run l by blast
qed

definition toy_packet :: "byte list list" where
  "toy_packet = [[0, 0, 0, 4, 47], [97], [0, 0]]"

lemma toy_calls:
  "4 \<in> s \<Longrightarrow> os_select toy_os w n s zero = (1, {4}, w)"
  "int (length p) \<le> l \<Longrightarrow> os_recv toy_os (Net fs (p # ps)) i l = (int (length p), p, Net fs ps)"
  "os_recv toy_os (Net fs []) i l = (0, [], Net fs [])"
  "os_close toy_os (Net fs ps) fd = Net (fs - {fd}) ps"
  by (simp_all add: toy_os_def)

text \<open>
  Three networks: the packet arrives in three chunks; its last chunk is late (\<open>select\<close> finds nothing, \<open>slow_os\<close>); the
  first chunk has three bytes only, so the length 0 is read with an old byte of the buffer and the packet is skipped.
\<close>

definition slow_os :: "net_world os" where
  "slow_os = toy_os\<lparr>os_select := \<lambda>w n s zero. if length (todo w) = 1 then (0, {}, w) else (1, s, w)\<rparr>"

lemma slow_laws: "posix_laws slow_os live"
  using toy_laws
  by (auto simp: posix_laws_def accept_law_def select_law_def recv_law_def close_law_def slow_os_def split: if_splits)

lemma toy_arrivals:
  "arrivals toy_os 4 (Net {3, 4} [[97], [0, 0]]) 3 = ([[97], [0, 0]], Complete, Net {3, 4} [])"
  "arrivals slow_os 4 (Net {3, 4} [[97], [0, 0]]) 3 = ([[97]], Late, Net {3, 4} [[0, 0]])"
  "arrivals toy_os 4 (Net {3, 4} [[4], [47, 97, 0, 0]]) 1 = ([[4]], Complete, Net {3, 4} [[47, 97, 0, 0]])"
  by (simp_all add: arrivals.simps toy_os_def slow_os_def)

theorem prefixed_packet_received_witness:
  "recv_client toy_os 2 12 (toy_state toy_packet 12) 4 0 =
    Some (\<lparr>net = \<lparr>maxfd = 4, servfd = 3, lastfd = 4, conns = 1, fds = {3, 4}\<rparr>,
      rbuf = [0, 0, 0, 4, 47, 97, 0, 0, 0, 0, 0, 0], world = Net {3, 4} []\<rparr>, Return 4) \<and>
   recv_client slow_os 2 12 (toy_state toy_packet 12) 4 0 =
    Some (\<lparr>net = \<lparr>maxfd = 4, servfd = 3, lastfd = 4, conns = 1, fds = {3, 4}\<rparr>,
      rbuf = [0, 0, 0, 4, 47, 97, 0, 0, 0, 0, 0, 0], world = Net {3, 4} [[0, 0]]\<rparr>, Next_fd (- 3)) \<and>
   recv_client toy_os 2 12 (toy_state [[0, 0, 0], [4], [47, 97, 0, 0]] 12) 4 0 =
    Some (\<lparr>net = \<lparr>maxfd = 4, servfd = 3, lastfd = 4, conns = 1, fds = {3, 4}\<rparr>,
      rbuf = [0, 0, 0, 4, 0, 0, 0, 0, 0, 0, 0, 0], world = Net {3, 4} [[47, 97, 0, 0]]\<rparr>, Next_fd 0)"
proof -
  have b: "rev (bytes_of 4) = [0, 0, 0, 4]" by (simp add: bytes_of_def)
  have b0: "rev (bytes_of 0) = [0, 0, 0, 0]" by (simp add: bytes_of_def)
  have r: "replicate 12 (0 :: byte) = [0, 0, 0, 0, 0, 0, 0, 0, 0, 0, 0, 0]" by (simp add: numeral_eq_Suc)
  let ?c = "[0, 0, 0, 4, 47] :: byte list" and ?s = "toy_state toy_packet 12"
  note defs = b b0 r toy_state_def toy_packet_def SLIP_ENCODING_FLAG_def COUNT_PREFIX_FLAG_def OSC_BADMSG_def
  show ?thesis
    using prefixed_packet_received [of 2 toy_os live 12 ?s 4 5 ?c "Net {3, 4} [[97], [0, 0]]" 4 "[[97], [0, 0]]" Complete "Net {3, 4} []" 0]
      prefixed_packet_received [of 2 slow_os live 12 ?s 4 5 ?c "Net {3, 4} [[97], [0, 0]]" 4 "[[97]]" Late "Net {3, 4} [[0, 0]]" 0]
      prefixed_packet_received [of 2 toy_os live 12 "toy_state [[0, 0, 0], [4], [47, 97, 0, 0]] 12" 4 3 "[0, 0, 0]"
        "Net {3, 4} [[4], [47, 97, 0, 0]]" 0 "[[4]]" Complete "Net {3, 4} [[47, 97, 0, 0]]" 0]
      toy_arrivals toy_laws slow_laws
    by (simp add: defs toy_os_def slow_os_def)
qed

text \<open>
  A client that hangs up, or whose \<^verbatim>\<open>recv\<close> fails, in the middle of a framed packet: the packet is reported as bad
  and the descriptor is closed, but it stays in the descriptor set although it is no longer counted, so the invariant of the
  descriptors is lost (and the next \<^verbatim>\<open>select\<close> gets a closed descriptor).
\<close>

theorem framed_hangup_breaks_invariant:
  assumes "fds_ok (net s)" and "i \<in> fds (net s)" and "i \<noteq> servfd (net s)" and "0 < remain" and "conns (net s) \<noteq> 1"
    and "os_select os (world s) (i + 1) {i} True = (r, ready, w1)" and "r \<noteq> - 1" and "i \<in> ready"
    and "os_recv os w1 i remain = (ret', bs, w2)" and "ret' \<le> 0"
  shows "\<exists>s'. recv_more os i is_slip s data ret remain nbytes = Some (s', Inr OSC_BADMSG) \<and>
    world s' = os_close os w2 i \<and> i \<in> fds (net s') \<and> conns (net s') = conns (net s) - 1 \<and> \<not> fds_ok (net s')"
proof -
  let ?s = "close_client os (s\<lparr>world := w2\<rparr>) i"
  have m: "recv_more os i is_slip s data ret remain nbytes = Some (?s, Inr OSC_BADMSG)"
    using assms by (subst recv_more.simps) (auto simp: recv_into_def Let_def close_client_def)
  have "conns (net s) - 1 \<noteq> int (card (fds (net s) - {servfd (net s)}))"
    using assms(1) by (simp add: fds_ok_def)
  then have "\<not> fds_ok (net ?s)" by (simp add: fds_ok_def close_client_def)
  with m show ?thesis using assms(2) by (simp add: close_client_def)
qed

theorem framed_hangup_breaks_invariant_witness:
  "\<exists>s'. recv_more toy_os 4 False ((toy_state [] 12)\<lparr>net := \<lparr>maxfd = 5, servfd = 3, lastfd = 4, conns = 2, fds = {3, 4, 5}\<rparr>\<rparr>)
      0 4 4 4 = Some (s', Inr (- 3)) \<and> world s' = Net {3} [] \<and> 4 \<in> fds (net s') \<and> conns (net s') = 1 \<and> \<not> fds_ok (net s')"
proof -
  have c: "{3, 4, 5} - {3 :: int} = {4, 5}" "{3, 4} - {4 :: int} = {3}" by auto
  show ?thesis
    using framed_hangup_breaks_invariant [of "(toy_state [] 12)\<lparr>net := \<lparr>maxfd = 5, servfd = 3, lastfd = 4, conns = 2, fds = {3, 4, 5}\<rparr>\<rparr>"
        4 4 toy_os 1 "{4}" "Net {3, 4} []" 0 "[]" "Net {3, 4} []" False 0 4 4]
    by (simp add: toy_state_def toy_calls fds_ok_def fd_ok_def c OSC_BADMSG_def)
qed

section \<open>Addresses, continued\<close>

text \<open>
  The resources of an address: whatever \<^verbatim>\<open>getaddrinfo\<close> and \<^verbatim>\<open>malloc\<close> answer, creating an address releases only
  what it has allocated; on failure there is no address and nothing stays allocated, and freeing a created address
  releases exactly what it holds. Freeing it twice releases a resource that is no longer allocated, and freeing a null pointer
  does nothing.
\<close>

theorem osc_address_no_leak:
  "\<exists>ret addr live. osc_address_new gai ok1 ok2 [] host port is_datagram is_input hints_flags = Some (ret, addr, live) \<and>
     (ret = 0 \<longleftrightarrow> addr \<noteq> None) \<and> (addr = None \<longrightarrow> live = []) \<and> distinct live \<and> osc_address_free live addr = Some [] \<and>
     (addr \<noteq> None \<longrightarrow> osc_address_free [] addr = None) \<and> osc_address_free [] None = Some []"
proof -
  define h where "h = \<lparr>socktype_datagram = is_datagram, ai_flags = (if is_input then hints_flags OR AI_PASSIVE else hints_flags)\<rparr>"
  have "gai h host (service_name port) = 0 \<or> gai h host (service_name port) \<noteq> 0" by blast
  then show ?thesis
    unfolding osc_address_new_def h_def [symmetric] Let_def
    by (elim disjE; cases ok1; cases ok2; cases is_input; simp add: release_def osc_address_free_def)
qed

theorem osc_address_no_leak_witness:
  "\<exists>ret addr live. osc_address_new (\<lambda>h n s. 0) True False [] [] 57120 True True 0 = Some (ret, addr, live) \<and>
     ret \<noteq> 0 \<and> addr = None \<and> live = []"
  using osc_address_no_leak [of "\<lambda>h n s. 0" True False "[]" 57120 True True 0]
  by (simp add: osc_address_new_def Let_def release_def)

end
