(* ===== verification/JackMem.thy ===== *)
theory JackMem
  imports OscMem
begin

text \<open>
  The layout of the MIDI events that \<^verbatim>\<open>src/src/rtjack.c\<close> keeps in its ring buffers: the time, a \<^verbatim>\<open>double\<close>, then the length
  as a 32-bit word, then the bytes of the message (\<^verbatim>\<open>JM_HEADER_SIZE\<close> is 12).

  Times are positions of the sample counter, natural numbers below \<open>2 ^ 53\<close>; the IEEE 754 format represents them, their sums and
  their differences without rounding. \<open>double_bits\<close> is the pattern of such a number.
\<close>

section \<open>Doubles\<close>

fun exponent :: "nat \<Rightarrow> nat" where
  "exponent n = (if n < 2 then 0 else Suc (exponent (n div 2)))"

declare exponent.simps [simp del]

lemma exponent_bounds: "0 < n \<Longrightarrow> 2 ^ exponent n \<le> n \<and> n < 2 * 2 ^ exponent n"
proof (induction n rule: exponent.induct)
  case (1 n)
  show ?case
  proof (cases "n < 2")
    case True
    then show ?thesis using 1 by (simp add: exponent.simps)
  next
    case False
    then have "2 ^ exponent (n div 2) \<le> n div 2 \<and> n div 2 < 2 * 2 ^ exponent (n div 2)" using 1 by simp
    then have "2 ^ exponent (n div 2) * 2 \<le> n \<and> n < 2 * 2 ^ exponent (n div 2) * 2" by linarith
    then show ?thesis using False by (subst (1 2) exponent.simps) simp
  qed
qed

definition double_bits :: "nat \<Rightarrow> u64" where
  "double_bits t =
     (if t = 0 then 0
      else let e = exponent t in word_of_nat ((1023 + e) * 2 ^ 52 + (t - 2 ^ e) * 2 ^ (52 - e)))"

definition double_value :: "u64 \<Rightarrow> nat" where
  "double_value w =
     (let n = unat w; e = n div 2 ^ 52 - 1023; m = n mod 2 ^ 52 in
      if n = 0 then 0 else 2 ^ e + m div 2 ^ (52 - e))"

lemma double_value_bits:
  assumes "t < 2 ^ 53"
  shows "double_value (double_bits t) = t"
proof (cases "t = 0")
  case False
  define e where "e = exponent t"
  have b: "2 ^ e \<le> t" "t < 2 * 2 ^ e" using exponent_bounds [of t] False by (auto simp: e_def)
  have "(2::nat) ^ e < 2 ^ 53" using b(1) assms by (rule le_less_trans)
  then have e: "e \<le> 52" by (metis less_Suc_eq_le numeral_eq_Suc one_less_numeral_iff pred_numeral_simps(3)
        power_strict_increasing_iff semiring_norm(76) numeral_Bit1 add_One nat_1_add_1 Suc_numeral)
  let ?m = "(t - 2 ^ e) * 2 ^ (52 - e)"
  have "?m < 2 ^ e * 2 ^ (52 - e)" using b by (intro mult_strict_right_mono) auto
  also have "\<dots> = 2 ^ 52" using e by (simp flip: power_add)
  finally have m: "?m < 2 ^ 52" .
  have "(1023 + e) * 2 ^ 52 + ?m < 1076 * 2 ^ 52"
  proof -
    have "(1023 + e) * 2 ^ 52 \<le> 1075 * 2 ^ 52" using e by (intro mult_right_mono) auto
    then show ?thesis using m by linarith
  qed
  then have u: "unat (double_bits t) = (1023 + e) * 2 ^ 52 + ?m"
    using False by (simp add: double_bits_def e_def [symmetric] Let_def unsigned_of_nat take_bit_nat_eq_self del: of_nat_add of_nat_mult)
  have "((1023 + e) * 2 ^ 52 + ?m) div 2 ^ 52 = 1023 + e" "((1023 + e) * 2 ^ 52 + ?m) mod 2 ^ 52 = ?m"
    using m by (simp_all only: div_mult_self3 mod_mult_self3 mod_less div_less)
  then show ?thesis
    using b(1) by (simp add: double_value_def u Let_def)
qed (simp add: double_bits_def double_value_def)

section \<open>Eight bytes\<close>

definition bytes8 :: "u64 \<Rightarrow> byte list" where
  "bytes8 w = map (\<lambda>i. ucast (drop_bit (8 * i) w)) [0..<8]"

definition of_bytes8 :: "byte list \<Rightarrow> u64" where
  "of_bytes8 bs = ucast (of_bytes (take 4 bs)) OR push_bit 32 (ucast (of_bytes (drop 4 bs)))"

lemma length_bytes8 [simp]: "length (bytes8 w) = 8"
  by (simp add: bytes8_def)

lemma of_bytes8_bytes8 [simp]: "of_bytes8 (bytes8 w) = w"
proof -
  have u: "[0..<8] = [0, 1, 2, 3, 4, 5, 6, 7 :: nat]" by (simp add: upt_rec)
  have "take 4 (bytes8 w) = bytes_of (ucast w)" "drop 4 (bytes8 w) = bytes_of (ucast (drop_bit 32 w))"
    by (simp_all add: bytes8_def u bytes_of_def) (intro conjI bit_word_eqI; simp add: bit_simps)+
  then have "of_bytes8 (bytes8 w) = ucast (ucast w :: u32) OR push_bit 32 (ucast (ucast (drop_bit 32 w) :: u32))"
    by (simp add: of_bytes8_def)
  also have "\<dots> = w" by (rule bit_word_eqI) (auto simp: bit_simps)
  finally show ?thesis .
qed

definition store_double :: "byte list \<Rightarrow> nat \<Rightarrow> nat \<Rightarrow> byte list option" where
  "store_double m p t = memcpy m p (bytes8 (double_bits t)) 0 8"

definition load_double :: "byte list \<Rightarrow> nat \<Rightarrow> nat option" where
  "load_double m p = (if p + 8 \<le> length m then Some (double_value (of_bytes8 (take 8 (drop p m)))) else None)"

section \<open>Events\<close>

definition JM_HEADER_SIZE :: nat where "JM_HEADER_SIZE = 12"

text \<open>An event as the sequence of bytes that the code writes: the time and the message.\<close>

type_synonym midi_event = "nat \<times> byte list"

definition event_bytes :: "midi_event \<Rightarrow> byte list" where
  "event_bytes ev = bytes8 (double_bits (fst ev)) @ bytes_of (word_of_nat (length (snd ev))) @ snd ev"

lemma length_event_bytes [simp]: "length (event_bytes ev) = 12 + length (snd ev)"
  by (simp add: event_bytes_def)

lemma event_bytes_not_Nil [simp]: "event_bytes ev \<noteq> []"
  using length_event_bytes [of ev] by (metis add_is_0 list.size(3) zero_neq_numeral)

lemma event_header:
  "take 8 (event_bytes ev @ r) = bytes8 (double_bits (fst ev))"
  "take 4 (drop 8 (event_bytes ev @ r)) = bytes_of (word_of_nat (length (snd ev)))"
  by (simp_all add: event_bytes_def)

lemma event_load:
  assumes "drop p m = event_bytes ev @ r"
  shows "load32 m (p + 8) = Some (word_of_nat (length (snd ev)))"
    and "fst ev < 2 ^ 53 \<Longrightarrow> load_double m p = Some (fst ev)"
proof -
  have l: "p + 12 \<le> length m" using arg_cong [OF assms, of length] by simp
  have "drop (p + 8) m = drop 8 (event_bytes ev @ r)"
    by (metis assms drop_drop add.commute)
  then show "load32 m (p + 8) = Some (word_of_nat (length (snd ev)))"
    using l event_header(2) [of ev r] by (simp add: load32_in)
  show "load_double m p = Some (fst ev)" if "fst ev < 2 ^ 53"
    using l that event_header(1) [of ev r] by (simp add: load_double_def assms double_value_bits)
qed

end
