(* ===== verification/JackMidi.thy ===== *)
theory JackMidi
  imports RingBuffer JackMem
begin

text \<open>
  JACK MIDI (\<^verbatim>\<open>src/src/rtjack.c\<close> from line 828 on, \<^verbatim>\<open>src/src/rtjack.h\<close>): ports with a ring buffer of received events and
  a cache for the cycles that the Lisp thread misses, and the tables of ports.

  JACK's own port buffers are of type \<open>'b\<close>. The scratch block \<^verbatim>\<open>jm_pad_buffer\<close> of \<open>JM_RINGBUFFER_SIZE\<close> bytes is passed
  along. An access outside of a block is \<open>None\<close>.
\<close>

section \<open>Ports\<close>

definition JM_RINGBUFFER_SIZE :: nat where "JM_RINGBUFFER_SIZE = 65536"
definition JM_MEMORY_ERROR :: int where "JM_MEMORY_ERROR = - 1"
definition JM_WRITE_ERROR :: int where "JM_WRITE_ERROR = - 2"
definition JM_DATASIZE_ERROR :: int where "JM_DATASIZE_ERROR = - 3"

record 'b jm_data =
  port_buffer :: "'b option"
  jm_rb :: ringbuffer
  jm_cache :: ringbuffer

record 'b jm_input_data = "'b jm_data" +
  remain :: int
  to_signal :: bool

datatype jm_resource = Struct | Rb | Cache | Mutex | Cond

text \<open>
  \<open>ok\<close> is the success of \<^verbatim>\<open>malloc\<close>, \<open>r\<close> and \<open>c\<close> are the results of the two calls of
  \<^verbatim>\<open>incudine_ringbuffer_create\<close>, \<open>mutex\<close> and \<open>cond\<close> the success of the initialisations. The resources are those
  allocated so far.
\<close>

definition jm_alloc_data ::
  "bool \<Rightarrow> ringbuffer option \<Rightarrow> ringbuffer option \<Rightarrow> bool \<Rightarrow> bool \<Rightarrow> bool
     \<Rightarrow> ('b jm_input_data option \<times> jm_resource list) option" where
  "jm_alloc_data ok r c mutex cond is_input =
     (if \<not> ok then Some (None, [])
      else do {
        (bufs, live) \<leftarrow> (case r of
            None \<Rightarrow> Some (None, [Struct])
          | Some r \<Rightarrow> (case c of
                None \<Rightarrow> do { live \<leftarrow> release [Rb, Struct] Rb; Some (None, live) }
              | Some c \<Rightarrow> Some (Some (r, c), [Cache, Rb, Struct])));
        (case bufs of
           None \<Rightarrow> do { live \<leftarrow> release live Struct; Some (None, live) }
         | Some (r, c) \<Rightarrow>
             let p = \<lparr>port_buffer = None, jm_rb = r, jm_cache = c, remain = 0, to_signal = False\<rparr> in
             if \<not> is_input then Some (Some p, live)
             else if \<not> (mutex \<and> cond) then do {
               live \<leftarrow> release live Rb;
               live \<leftarrow> release live Cache;
               live \<leftarrow> release live Struct;
               Some (None, live)
             }
             else Some (Some p, Cond # Mutex # live))
      })"

definition jm_free_data :: "jm_resource list \<Rightarrow> 'b jm_input_data option \<Rightarrow> bool \<Rightarrow> jm_resource list option" where
  "jm_free_data live p is_input =
     (case p of None \<Rightarrow> Some live
      | Some p \<Rightarrow> do {
          live \<leftarrow> release live Rb;
          live \<leftarrow> release live Cache;
          if \<not> is_input then release live Struct
          else do {
            live \<leftarrow> release live Mutex;
            live \<leftarrow> release live Cond;
            release live Struct
          }
        })"

section \<open>Tables of ports\<close>

text \<open>
  A table is a block of pointers ended by a null pointer. Ports are named by numbers; \<open>None\<close> as the block is a null
  pointer.
\<close>

definition JM_INITIAL_MAX_PORTS :: u32 where "JM_INITIAL_MAX_PORTS = 18"
definition JM_NUMBER_OF_PORTS_INCREMENT :: u32 where "JM_NUMBER_OF_PORTS_INCREMENT = 8"

record jm_data_vec =
  vec_data :: "nat option list option"
  vec_count :: u32
  vec_size :: u32

text \<open>
  \<open>ok1\<close> and \<open>ok2\<close> are the successes of \<^verbatim>\<open>malloc\<close>. The second component is the number of blocks that stay allocated.
\<close>

definition jm_copy_data_vec :: "bool \<Rightarrow> bool \<Rightarrow> jm_data_vec \<Rightarrow> (jm_data_vec option \<times> nat) option" where
  "jm_copy_data_vec ok1 ok2 tmp =
     (if \<not> ok1 then Some (None, 0)
      else if \<not> ok2 then Some (None, 0)
      else do {
        src \<leftarrow> vec_data tmp;
        d \<leftarrow> memcpy (replicate (unat (vec_size tmp)) None) 0 src 0 (unat (vec_size tmp));
        Some (Some \<lparr>vec_data = Some d, vec_count = vec_count tmp, vec_size = vec_size tmp\<rparr>, 2)
      })"

text \<open>The number of blocks that are freed.\<close>

definition jm_free_data_vec :: "jm_data_vec option \<Rightarrow> nat" where
  "jm_free_data_vec p = (case p of None \<Rightarrow> 0 | Some v \<Rightarrow> if vec_data v = None then 1 else 2)"

text \<open>
  The scan for a null pointer: \<open>Inl\<close> when \<open>p\<close> is found first.
\<close>

function append_scan :: "nat option list \<Rightarrow> nat \<Rightarrow> nat \<Rightarrow> (unit + nat) option" where
  "append_scan d p q =
     (if length d \<le> q then None
      else case d ! q of
        None \<Rightarrow> Some (Inr q)
      | Some x \<Rightarrow> if x = p then Some (Inl ()) else append_scan d p (Suc q))"
  by pat_completeness auto
termination
  by (relation "measure (\<lambda>(d, p, q). length d - q)") auto

declare append_scan.simps [simp del]

definition append_port :: "jm_data_vec \<Rightarrow> nat option list \<Rightarrow> nat \<Rightarrow> (jm_data_vec \<times> int) option" where
  "append_port vec d p = do {
     r \<leftarrow> append_scan d p 0;
     (case r of
        Inl _ \<Rightarrow> Some (vec, 0)
      | Inr q \<Rightarrow> do {
          d \<leftarrow> store d q (Some p);
          d \<leftarrow> store d (q + 1) None;
          Some (vec\<lparr>vec_data := Some d, vec_count := vec_count vec + 1\<rparr>, 0)
        })
   }"

text \<open>\<open>grow n d\<close> is \<^verbatim>\<open>realloc\<close> to \<open>n\<close> entries.\<close>

definition jm_append_pending_data ::
  "(nat \<Rightarrow> nat option list \<Rightarrow> nat option list option) \<Rightarrow> jm_data_vec \<Rightarrow> nat \<Rightarrow> (jm_data_vec \<times> int) option" where
  "jm_append_pending_data grow vec p = do {
     d \<leftarrow> vec_data vec;
     let vec = (if vec_size vec - 1 \<le> vec_count vec
       then let size = vec_size vec + JM_NUMBER_OF_PORTS_INCREMENT in
         vec\<lparr>vec_size := size, vec_data := grow (unat size) d\<rparr>
       else vec);
     (case vec_data vec of
        None \<Rightarrow> Some (vec, JM_MEMORY_ERROR)
      | Some d \<Rightarrow> append_port vec d p)
   }"

text \<open>
  The loop that deletes: the block, the count and whether the port was found (its port buffer is then cleared).
\<close>

function delete_loop :: "nat \<Rightarrow> nat option list \<Rightarrow> u32 \<Rightarrow> bool \<Rightarrow> nat \<Rightarrow> (nat option list \<times> u32 \<times> bool) option" where
  "delete_loop p d count found q =
     (if length d \<le> q then None
      else case d ! q of
        None \<Rightarrow> Some (d, count, found)
      | Some x \<Rightarrow>
          if found then do {
            nxt \<leftarrow> load d (Suc q);
            let d = d[q := nxt];
            if nxt = None then Some (d, count, found) else delete_loop p d count found (Suc q)
          }
          else if x = p then do {
            nxt \<leftarrow> load d (Suc q);
            let d = d[q := nxt];
            delete_loop p d (if count \<noteq> 0 then count - 1 else count) True (Suc q)
          }
          else delete_loop p d count found (Suc q))"
  by pat_completeness auto
termination
  by (relation "measure (\<lambda>(p, d, count, found, q). length d - q)") (auto simp: load_def split: if_splits)

declare delete_loop.simps [simp del]

definition jm_delete_from_pending_data :: "jm_data_vec \<Rightarrow> nat \<Rightarrow> (jm_data_vec \<times> bool) option" where
  "jm_delete_from_pending_data vec p = do {
     d \<leftarrow> vec_data vec;
     (d, count, found) \<leftarrow> delete_loop p d (vec_count vec) False 0;
     Some (vec\<lparr>vec_data := Some d, vec_count := count\<rparr>, found)
   }"

text \<open>The table of the realtime thread is exchanged with the new one.\<close>

definition jm_update_data :: "nat option list option \<Rightarrow> jm_data_vec \<Rightarrow> nat option list option \<times> jm_data_vec" where
  "jm_update_data ports vec = (vec_data vec, vec\<lparr>vec_data := ports\<rparr>)"

section \<open>The tables are lists\<close>

text \<open>\<open>vec_ok vec xs\<close>: the table holds the different ports \<open>xs\<close>, a null pointer behind them, and counts them.\<close>

definition vec_ok :: "jm_data_vec \<Rightarrow> nat list \<Rightarrow> bool" where
  "vec_ok vec xs \<longleftrightarrow> (case vec_data vec of None \<Rightarrow> False | Some d \<Rightarrow>
     length d = unat (vec_size vec) \<and> length xs < length d \<and> take (Suc (length xs)) d = map Some xs @ [None] \<and>
     distinct xs \<and> unat (vec_count vec) = length xs)"

lemma vec_okE:
  assumes "vec_ok vec xs"
  obtains d r where "vec_data vec = Some d" and "d = map Some xs @ None # r" and "length d = unat (vec_size vec)"
    and "distinct xs" and "unat (vec_count vec) = length xs"
proof -
  obtain d where d: "vec_data vec = Some d" "length d = unat (vec_size vec)" "length xs < length d"
    "take (Suc (length xs)) d = map Some xs @ [None]" "distinct xs" "unat (vec_count vec) = length xs"
    using assms by (auto simp: vec_ok_def split: option.splits)
  have "d = (map Some xs @ [None]) @ drop (Suc (length xs)) d"
    unfolding d(4) [symmetric] by simp
  then show thesis using that [of d "drop (Suc (length xs)) d"] d by simp
qed

lemma vec_okI:
  assumes "vec_data vec = Some d" and "d = map Some xs @ None # r" and "length d = unat (vec_size vec)"
    and "distinct xs" and "unat (vec_count vec) = length xs"
  shows "vec_ok vec xs"
  using assms by (simp add: vec_ok_def)

lemma append_scan_list:
  "append_scan (ys @ map Some xs @ None # r) p (length ys) =
     Some (if p \<in> set xs then Inl () else Inr (length ys + length xs))"
proof (induction xs arbitrary: ys)
  case Nil
  show ?case by (subst append_scan.simps) (simp add: nth_append)
next
  case (Cons x xs)
  have "ys @ map Some (x # xs) @ None # r = (ys @ [Some x]) @ map Some xs @ None # r" by simp
  with Cons.IH [of "ys @ [Some x]"] show ?case
    by (subst append_scan.simps) (auto simp: nth_append)
qed

lemma append_port_spec:
  assumes "vec_data v = Some e" and "e = map Some xs @ None # s" and "length e = unat (vec_size v)"
    and "unat (vec_count v) = length xs" and "Suc (length xs) < length e" and "distinct xs"
  shows "\<exists>vec'. append_port v e p = Some (vec', 0) \<and> vec_ok vec' (if p \<in> set xs then xs else xs @ [p])"
proof -
  note sc = append_scan_list [of "[]" xs s p, simplified, folded assms(2)]
  show ?thesis
  proof (cases "p \<in> set xs")
    case True
    then show ?thesis using sc vec_okI [OF assms(1,2,3,6,4)] by (simp add: append_port_def)
  next
    case False
    have "s \<noteq> []" using assms(2,5) by auto
    then obtain y s' where s: "s = y # s'" by (cases s) auto
    have "e[length xs := Some p, Suc (length xs) := None] = map Some (xs @ [p]) @ None # s'"
      by (simp add: assms(2) s list_update_append)
    moreover have "length e = Suc (Suc (length xs + length s'))" using assms(2) s by simp
    moreover have "unat (vec_size v) < 2 ^ LENGTH(32)" by (rule unsigned_less)
    then have "Suc (length xs) < 2 ^ LENGTH(32)"
      using assms(3,5) by linarith
    then have "unat (vec_count v + 1) = Suc (length xs)"
      using assms(4) by (simp add: unat_word_ariths)
    ultimately show ?thesis
      using sc False assms(3-6) by (auto simp: append_port_def store_in intro!: vec_okI [where r = s'])
  qed
qed

lemma jm_append_spec:
  assumes "vec_ok vec xs" and "unat (vec_size vec) + 8 < 2 ^ 32"
    and grow: "\<And>n d d'. grow n d = Some d' \<Longrightarrow> length d \<le> n \<Longrightarrow> length d' = n \<and> take (length d) d' = d"
  shows "\<exists>vec' res. jm_append_pending_data grow vec p = Some (vec', res) \<and>
    (res = 0 \<and> vec_ok vec' (if p \<in> set xs then xs else xs @ [p]) \<or>
     res = JM_MEMORY_ERROR \<and> vec_data vec' = None \<and> unat (vec_size vec) \<le> Suc (length xs))"
proof -
  from assms(1) obtain d r where d: "vec_data vec = Some d" "d = map Some xs @ None # r"
    "length d = unat (vec_size vec)" "distinct xs" "unat (vec_count vec) = length xs" by (rule vec_okE)
  have "0 < length d" using d(2) by simp
  then have sz: "unat (vec_size vec - 1) = unat (vec_size vec) - 1"
    using d(3) by (metis One_nat_def unat_minus_one unat_0 less_numeral_extra(3))
  have full: "vec_size vec - 1 \<le> vec_count vec \<longleftrightarrow> unat (vec_size vec) \<le> Suc (length xs)"
    using d(5) sz by (simp add: word_le_nat_alt le_diff_conv)
  show ?thesis
  proof (cases "vec_size vec - 1 \<le> vec_count vec")
    case False
    then have "Suc (length xs) < length d" using full d(3) by simp
    from append_port_spec [OF d(1-3,5) this d(4), of p] show ?thesis
      using False d(1) by (auto simp: jm_append_pending_data_def Let_def)
  next
    case True
    have n: "unat (vec_size vec + 8) = unat (vec_size vec) + 8" using assms(2) by (simp add: unat_word_ariths)
    show ?thesis
    proof (cases "grow (unat (vec_size vec + 8)) d")
      case None
      then show ?thesis
        using True full d(1) by (simp add: jm_append_pending_data_def JM_NUMBER_OF_PORTS_INCREMENT_def Let_def)
    next
      case (Some e)
      have e: "length e = unat (vec_size vec + 8)" "take (length d) e = d"
        using grow [OF Some] d(3) n by auto
      define t where "t = drop (length d) e"
      have "e = d @ t" using append_take_drop_id [of "length d" e] e(2) by (simp add: t_def)
      then have es: "e = map Some xs @ None # (r @ t)" by (simp add: d(2))
      have l: "Suc (length xs) < length e" using e(1) n d(2,3) by simp
      let ?v = "vec\<lparr>vec_size := vec_size vec + 8, vec_data := Some e\<rparr>"
      have "\<exists>vec'. append_port ?v e p = Some (vec', 0) \<and> vec_ok vec' (if p \<in> set xs then xs else xs @ [p])"
        using e(1) d(4,5) by (intro append_port_spec [OF _ es _ _ l]) simp_all
      then show ?thesis
        using True Some d(1)
        by (auto simp: jm_append_pending_data_def JM_NUMBER_OF_PORTS_INCREMENT_def Let_def)
    qed
  qed
qed

lemma delete_loop_shift:
  "delete_loop p (pre @ Some x # map Some xs @ None # r) count True (length pre) =
    Some (pre @ map Some xs @ None # None # r, count, True)"
proof (induction xs arbitrary: pre x)
  case Nil
  show ?case by (subst delete_loop.simps) (simp add: nth_append load_def list_update_append)
next
  case (Cons y xs)
  show ?case
    using Cons.IH [of "pre @ [Some y]" y]
    by (subst delete_loop.simps) (simp add: nth_append load_def list_update_append)
qed

lemma delete_loop_list:
  assumes "distinct xs" and "unat count = length ys + length xs"
  shows "\<exists>r'. delete_loop p (ys @ map Some xs @ None # r) count False (length ys) =
    Some (ys @ map Some (remove1 p xs) @ None # r', (if p \<in> set xs then count - 1 else count), p \<in> set xs) \<and>
    length r' = length r + (if p \<in> set xs then 1 else 0)"
  using assms
proof (induction xs arbitrary: ys)
  case Nil
  show ?case by (subst delete_loop.simps) (simp add: nth_append)
next
  case (Cons x xs)
  show ?case
  proof (cases "x = p")
    case True
    have c: "count \<noteq> 0" using Cons.prems(2) by auto
    show ?thesis
    proof (cases xs)
      case Nil
      have "delete_loop p (ys @ None # None # r) (count - 1) True (Suc (length ys)) =
          Some (ys @ None # None # r, count - 1, True)"
        by (subst delete_loop.simps) (simp add: nth_append)
      then show ?thesis
        using True c Nil by (subst delete_loop.simps) (simp add: nth_append load_def list_update_append)
    next
      case (Cons y zs)
      then show ?thesis
        using True c delete_loop_shift [of p "ys @ [Some y]" y zs r "count - 1"]
        by (subst delete_loop.simps) (simp add: nth_append load_def list_update_append)
    qed
  next
    case False
    then show ?thesis
      using Cons.IH [of "ys @ [Some x]"] Cons.prems by (subst delete_loop.simps) (auto simp: nth_append)
  qed
qed

lemma jm_delete_spec:
  assumes "vec_ok vec xs"
  shows "\<exists>vec'. jm_delete_from_pending_data vec p = Some (vec', p \<in> set xs) \<and> vec_ok vec' (remove1 p xs)"
proof -
  from assms obtain d r where d: "vec_data vec = Some d" "d = map Some xs @ None # r"
    "length d = unat (vec_size vec)" "distinct xs" "unat (vec_count vec) = length xs" by (rule vec_okE)
  obtain r' where r': "delete_loop p d (vec_count vec) False 0 =
      Some (map Some (remove1 p xs) @ None # r', (if p \<in> set xs then vec_count vec - 1 else vec_count vec), p \<in> set xs)"
      "length r' = length r + (if p \<in> set xs then 1 else 0)"
    using delete_loop_list [OF d(4), of "vec_count vec" "[]" p r] d(2,5) by auto
  have "p \<in> set xs \<Longrightarrow> unat (vec_count vec - 1) = length xs - 1"
    using d(5) by (metis One_nat_def unat_minus_one length_pos_if_in_set unat_0 less_numeral_extra(3))
  moreover have "p \<in> set xs \<Longrightarrow> Suc (length xs - 1) = length xs" by (auto dest: length_pos_if_in_set)
  ultimately have "vec_ok (vec\<lparr>vec_data := Some (map Some (remove1 p xs) @ None # r'),
      vec_count := (if p \<in> set xs then vec_count vec - 1 else vec_count vec)\<rparr>) (remove1 p xs)"
    using d r'(2) by (intro vec_okI [where r = r'])
      (auto simp: length_remove1 simp flip: add_Suc)
  then show ?thesis using d(1) r'(1) by (simp add: jm_delete_from_pending_data_def)
qed

text \<open>
  C20. The tables of ports are well formed: they hold different ports, the count is their number, and a null pointer ends them
  inside the block. Appending and deleting a port never leave the block and keep this; an appended port is the last one unless it
  was there before, a deleted one is gone, and the others keep their order. Appending only fails when the table is full
  and the block cannot be enlarged.
\<close>

theorem port_table_ok:
  assumes "vec_ok vec xs" and "unat (vec_size vec) + 8 < 2 ^ 32"
    and "\<And>n d d'. grow n d = Some d' \<Longrightarrow> length d \<le> n \<Longrightarrow> length d' = n \<and> take (length d) d' = d"
  shows "(\<exists>vec' res. jm_append_pending_data grow vec p = Some (vec', res) \<and>
      (res = 0 \<and> vec_ok vec' (if p \<in> set xs then xs else xs @ [p]) \<or>
       res = JM_MEMORY_ERROR \<and> vec_data vec' = None \<and> unat (vec_size vec) \<le> Suc (length xs))) \<and>
    (\<exists>vec'. jm_delete_from_pending_data vec p = Some (vec', p \<in> set xs) \<and> vec_ok vec' (remove1 p xs))"
  using jm_append_spec [OF assms] jm_delete_spec [OF assms(1)] by blast

definition table_example :: jm_data_vec where
  "table_example = \<lparr>vec_data = Some [Some 7, Some 9, None], vec_count = 2, vec_size = 3\<rparr>"

theorem port_table_ok_witness:
  "\<exists>vec' res. jm_append_pending_data (\<lambda>n d. Some (d @ replicate (n - length d) None)) table_example 8 = Some (vec', res) \<and>
     res = 0 \<and> vec_ok vec' [7, 9, 8]"
proof -
  have "vec_ok table_example [7, 9]" by (simp add: vec_ok_def table_example_def)
  from port_table_ok [OF this, of "\<lambda>n d. Some (d @ replicate (n - length d) None)" 8]
  obtain vec' res where
    a: "jm_append_pending_data (\<lambda>n d. Some (d @ replicate (n - length d) None)) table_example 8 = Some (vec', res)"
    and r: "res = 0 \<and> vec_ok vec' [7, 9, 8] \<or> res = JM_MEMORY_ERROR \<and> vec_data vec' = None"
    by (auto simp: table_example_def)
  have "vec_data vec' \<noteq> None"
    using a by (auto simp: jm_append_pending_data_def append_port_def table_example_def JM_NUMBER_OF_PORTS_INCREMENT_def
        Let_def store_def split: option.splits sum.splits Option.bind_splits if_splits)
  with a r show ?thesis by blast
qed

text \<open>Disposing of a copy of the table frees what was allocated for it, also after the exchange with the table of the realtime thread.\<close>

lemma jm_copy_no_leak:
  assumes "jm_copy_data_vec ok1 ok2 tmp = Some (vec, n)"
  shows "jm_free_data_vec vec = n"
    and "vec = Some v \<Longrightarrow> ports = Some d \<Longrightarrow> jm_free_data_vec (Some (snd (jm_update_data ports v))) = n"
  using assms by (auto simp: jm_copy_data_vec_def jm_free_data_vec_def jm_update_data_def split: if_splits bind_splits)

text \<open>The resources of a port: creating one leaks nothing on failure, and disposing of it frees what it holds.\<close>

lemma jm_port_no_leak:
  "\<exists>p live. jm_alloc_data ok r c mutex cond is_input = Some (p, live) \<and> jm_free_data live p is_input = Some [] \<and>
     (p = None \<longrightarrow> live = [])"
  by (cases r; cases c; cases is_input; cases mutex; cases cond)
    (simp_all add: jm_alloc_data_def jm_free_data_def release_def)

end
