(* ===== verification/JackMidiIO.thy ===== *)
theory JackMidiIO
  imports JackMidi
begin

text \<open>
  The traffic of JACK MIDI (\<^verbatim>\<open>src/src/rtjack.c\<close>, lines 996 to 1313): the process callback stores the received events,
  \<^verbatim>\<open>jm_read\<close> hands them to Lisp, the writers send or cache messages, and the caches of missed cycles are recovered.

  A position of the sample counter is a natural number (see \<open>JackMem\<close>).
\<close>

section \<open>Received events\<close>

record jack_event =
  ev_time :: u32
  ev_data :: "byte list"

text \<open>
  JACK's buffer of an input port in one cycle: its events, \<open>None\<close> where \<^verbatim>\<open>jack_midi_event_get\<close> fails.
\<close>

type_synonym in_buffer = "jack_event option list"

definition jm_put_event ::
  "bool \<Rightarrow> nat \<Rightarrow> u32 \<Rightarrow> byte list \<Rightarrow> ringbuffer \<Rightarrow> jack_event \<Rightarrow> (byte list \<times> ringbuffer) option" where
  "jm_put_event cached start offset pad r ev =
     (let n = length (ev_data ev) + JM_HEADER_SIZE in
      if n \<le> unat (rb_write_space r) then do {
        pad \<leftarrow> store_double pad 0 (start + unat (ev_time ev));
        pad \<leftarrow> (if cached then do { t \<leftarrow> load_double pad 0; store_double pad 0 (t + unat offset) } else Some pad);
        pad \<leftarrow> store32 pad 8 (word_of_nat (length (ev_data ev)));
        pad \<leftarrow> memcpy pad 12 (ev_data ev) 0 (length (ev_data ev));
        (r, _) \<leftarrow> rb_write r pad (word_of_nat n);
        Some (pad, r)
      }
      else Some (pad, r))"

fun jm_put_events ::
  "bool \<Rightarrow> nat \<Rightarrow> u32 \<Rightarrow> byte list \<Rightarrow> ringbuffer \<Rightarrow> in_buffer \<Rightarrow> (byte list \<times> ringbuffer) option" where
  "jm_put_events cached start offset pad r [] = Some (pad, r)"
| "jm_put_events cached start offset pad r (None # evs) = jm_put_events cached start offset pad r evs"
| "jm_put_events cached start offset pad r (Some ev # evs) = do {
     (pad, r) \<leftarrow> jm_put_event cached start offset pad r ev;
     jm_put_events cached start offset pad r evs
   }"

text \<open>
  One input port; \<open>trylock\<close> tells whether \<^verbatim>\<open>pthread_mutex_trylock\<close> succeeds, the last component of the result whether the
  condition is signalled.
\<close>

definition jm_process_input ::
  "bool \<Rightarrow> nat \<Rightarrow> u32 \<Rightarrow> in_buffer option \<Rightarrow> bool \<Rightarrow> byte list \<Rightarrow> in_buffer jm_input_data
     \<Rightarrow> (byte list \<times> in_buffer jm_input_data \<times> bool) option" where
  "jm_process_input cached start offset buf trylock pad p =
     (let p = p\<lparr>port_buffer := buf\<rparr> in
      case buf of
        None \<Rightarrow> Some (pad, p, False)
      | Some evs \<Rightarrow> do {
          (pad, r) \<leftarrow> jm_put_events cached start offset pad (if cached then jm_cache p else jm_rb p) evs;
          let p = (if cached then p\<lparr>jm_cache := r\<rparr> else p\<lparr>jm_rb := r\<rparr>);
          if length evs > 0 \<or> to_signal p
          then (if trylock then Some (pad, p\<lparr>to_signal := False\<rparr>, True)
                else Some (pad, p\<lparr>to_signal := True\<rparr>, False))
          else Some (pad, p, False)
        })"

fun jm_process_inputs ::
  "bool \<Rightarrow> nat \<Rightarrow> u32 \<Rightarrow> (in_buffer option \<times> bool) list \<Rightarrow> byte list \<Rightarrow> in_buffer jm_input_data list
     \<Rightarrow> (byte list \<times> in_buffer jm_input_data list) option" where
  "jm_process_inputs cached start offset ((buf, trylock) # bufs) pad (p # ps) = do {
     (pad, p, _) \<leftarrow> jm_process_input cached start offset buf trylock pad p;
     (pad, ps) \<leftarrow> jm_process_inputs cached start offset bufs pad ps;
     Some (pad, p # ps)
   }"
| "jm_process_inputs cached start offset bufs pad ps = Some (pad, ps)"

text \<open>
  \<open>outs\<close> are the buffers that JACK gives the output ports, \<open>clear\<close> is \<^verbatim>\<open>jack_midi_clear_buffer\<close>.
\<close>

definition jm_process2 ::
  "('b \<Rightarrow> 'b) \<Rightarrow> nat \<Rightarrow> (in_buffer option \<times> bool) list \<Rightarrow> 'b option list \<Rightarrow> bool \<Rightarrow> u32 \<Rightarrow> byte list
     \<Rightarrow> in_buffer jm_input_data list \<Rightarrow> 'b jm_data list
     \<Rightarrow> (byte list \<times> in_buffer jm_input_data list \<times> 'b jm_data list) option" where
  "jm_process2 clear start bufs outs cached offset pad inputs outputs = do {
     (pad, inputs) \<leftarrow> jm_process_inputs cached start offset bufs pad inputs;
     if cached then Some (pad, inputs, outputs)
     else Some (pad, inputs, map2 (\<lambda>p b. p\<lparr>port_buffer := map_option clear b\<rparr>) outputs outs)
   }"

definition jm_process ::
  "('b \<Rightarrow> 'b) \<Rightarrow> nat \<Rightarrow> (in_buffer option \<times> bool) list \<Rightarrow> 'b option list \<Rightarrow> byte list
     \<Rightarrow> in_buffer jm_input_data list \<Rightarrow> 'b jm_data list
     \<Rightarrow> (byte list \<times> in_buffer jm_input_data list \<times> 'b jm_data list) option" where
  "jm_process clear start bufs outs pad inputs outputs = jm_process2 clear start bufs outs False 0 pad inputs outputs"

section \<open>Reading\<close>

definition jm_flush_pending :: "'b jm_input_data option \<Rightarrow> 'b jm_input_data option" where
  "jm_flush_pending p = map_option (\<lambda>p. p\<lparr>jm_rb := rb_reset (jm_rb p)\<rparr>) p"

text \<open>
  The loop of \<^verbatim>\<open>jm_read\<close>: \<open>b\<close> is the offset of the pointer \<^verbatim>\<open>b\<close>. The comparisons of \<^verbatim>\<open>remain\<close>, an \<^verbatim>\<open>int\<close>, with values of
  type \<^verbatim>\<open>size_t\<close> and \<^verbatim>\<open>uint32_t\<close> are unsigned, so it is a 32-bit word: a negative value is a large number. The result is the
  ring buffer, the block, the count and the last read space. \<open>None\<close> is an access outside of the block or a loop that does
  not end.
\<close>

partial_function (option) jm_read_loop ::
  "ringbuffer \<Rightarrow> byte list \<Rightarrow> nat \<Rightarrow> nat \<Rightarrow> u32 \<Rightarrow> u32 \<Rightarrow> u32 \<Rightarrow> (ringbuffer \<times> byte list \<times> nat \<times> u32) option" where
  "jm_read_loop r buf b count remain' bufsize n =
     (if 0 < n \<and> 12 < remain' then do {
        (d, ret) \<leftarrow> rb_peek r (drop b buf) 12;
        let buf = take b buf @ d;
        len \<leftarrow> load32 buf (b + 8);
        if ret \<noteq> 12 \<or> len = 0 then Some (rb_reset r, buf, count, n)
        else let pad = (- len) AND 3; ev_size = len + 12 in
          if ev_size < remain' then do {
            (r, d, _) \<leftarrow> rb_read r (drop b buf) ev_size;
            let buf = take b buf @ d;
            let ev_size = ev_size + pad;
            jm_read_loop r buf (b + unat ev_size) (count + 1) (remain' - ev_size) bufsize (rb_read_space r)
          }
          else if bufsize < ev_size then
            (let r = rb_read_advance r ev_size in
             jm_read_loop r buf b count remain' bufsize (rb_read_space r))
          else Some (r, buf, count, n)
      }
      else Some (r, buf, count, n))"

definition jm_read ::
  "'b jm_input_data option \<Rightarrow> byte list \<Rightarrow> u32 \<Rightarrow> ('b jm_input_data option \<times> byte list \<times> nat) option" where
  "jm_read p buf bufsize =
     (case p of
        None \<Rightarrow> Some (None, buf, 0)
      | Some p \<Rightarrow> let n = rb_read_space (jm_rb p) in do {
          buf \<leftarrow> (if 0 < n then memset buf 0 0 (unat bufsize) else Some buf);
          (r, buf, count, n) \<leftarrow> jm_read_loop (jm_rb p) buf 0 0 bufsize bufsize n;
          Some (Some (p\<lparr>jm_rb := r, remain := sint n\<rparr>), buf, count)
        })"

text \<open>Whether \<^verbatim>\<open>jm_waiting_for\<close> waits for the condition.\<close>

definition jm_waiting_for :: "'b jm_input_data option \<Rightarrow> bool" where
  "jm_waiting_for p = (case p of None \<Rightarrow> False | Some p \<Rightarrow> remain p = 0)"

definition jm_force_cond_signal :: "'b jm_input_data option \<Rightarrow> 'b jm_input_data option" where
  "jm_force_cond_signal p = map_option (\<lambda>p. p\<lparr>to_signal := False\<rparr>) p"

section \<open>Writing\<close>

text \<open>
  \<open>reserve b time n\<close> is \<^verbatim>\<open>jack_midi_event_reserve\<close>, \<open>fill b bs\<close> the copy into the block reserved last.
\<close>

record 'b jack_out =
  reserve :: "'b \<Rightarrow> u32 \<Rightarrow> nat \<Rightarrow> 'b option"
  fill :: "'b \<Rightarrow> byte list \<Rightarrow> 'b"

definition jm_send ::
  "'b jack_out \<Rightarrow> bool \<Rightarrow> nat \<Rightarrow> nat \<Rightarrow> 'b jm_data \<Rightarrow> 'b \<Rightarrow> byte list \<Rightarrow> u32 \<Rightarrow> ('b jm_data \<times> int) option" where
  "jm_send jack busy start counter p pb bytes data_size =
     (if busy then do {
        (c, n) \<leftarrow> rb_write (jm_cache p) bytes data_size;
        Some (p\<lparr>jm_cache := c\<rparr>, if n = data_size then 0 else JM_WRITE_ERROR)
      }
      else let time = word_of_nat (counter - start) in
        case reserve jack pb time (unat data_size) of
          None \<Rightarrow> Some (p, JM_WRITE_ERROR)
        | Some pb \<Rightarrow> do {
            d \<leftarrow> memcpy (replicate (unat data_size) 0) 0 bytes 0 (unat data_size);
            Some (p\<lparr>port_buffer := Some (fill jack pb d)\<rparr>, 0)
          })"

definition jm_write_short ::
  "'b jack_out \<Rightarrow> bool \<Rightarrow> nat \<Rightarrow> nat \<Rightarrow> 'b jm_data option \<Rightarrow> u32 \<Rightarrow> u32 \<Rightarrow> ('b jm_data option \<times> int) option" where
  "jm_write_short jack busy start counter p msg data_size =
     (case p of
        None \<Rightarrow> Some (p, JM_WRITE_ERROR)
      | Some q \<Rightarrow> (case port_buffer q of
            None \<Rightarrow> Some (p, JM_WRITE_ERROR)
          | Some pb \<Rightarrow>
              if 4 < data_size then Some (p, JM_DATASIZE_ERROR)
              else do {
                (q, ret) \<leftarrow> jm_send jack busy start counter q pb (bytes_of msg) data_size;
                Some (Some q, ret)
              }))"

definition jm_write ::
  "'b jack_out \<Rightarrow> bool \<Rightarrow> nat \<Rightarrow> nat \<Rightarrow> 'b jm_data option \<Rightarrow> byte list \<Rightarrow> u32 \<Rightarrow> ('b jm_data option \<times> int) option" where
  "jm_write jack busy start counter p buffer data_size =
     (case p of
        None \<Rightarrow> Some (p, JM_WRITE_ERROR)
      | Some q \<Rightarrow> (case port_buffer q of
            None \<Rightarrow> Some (p, JM_WRITE_ERROR)
          | Some pb \<Rightarrow> do {
              (q, ret) \<leftarrow> jm_send jack busy start counter q pb buffer data_size;
              Some (Some q, ret)
            }))"

section \<open>Recovery of the caches\<close>

definition jm_clear_cached_events ::
  "'b jm_input_data list \<Rightarrow> 'c jm_data list \<Rightarrow> 'b jm_input_data list \<times> 'c jm_data list" where
  "jm_clear_cached_events inputs outputs =
     (map (\<lambda>p. p\<lparr>jm_cache := rb_reset (jm_cache p)\<rparr>) inputs, map (\<lambda>p. p\<lparr>jm_cache := rb_reset (jm_cache p)\<rparr>) outputs)"

definition jm_write_cached_midi_output :: "'b jack_out \<Rightarrow> 'b jm_data \<Rightarrow> 'b \<Rightarrow> ('b jm_data \<times> int) option" where
  "jm_write_cached_midi_output jack p pb =
     (let data_size = rb_read_space (jm_cache p) in
      if data_size = 0 then Some (p, 0)
      else case reserve jack pb 0 (unat data_size) of
        None \<Rightarrow> Some (p, JM_WRITE_ERROR)
      | Some pb \<Rightarrow> do {
          (c, d, n) \<leftarrow> rb_read (jm_cache p) (replicate (unat data_size) 0) data_size;
          Some (p\<lparr>jm_cache := c, port_buffer := Some (fill jack pb d)\<rparr>, if n = data_size then 0 else JM_WRITE_ERROR)
        })"

fun jm_write_cached_midi_outputs :: "'b jack_out \<Rightarrow> 'b jm_data list \<Rightarrow> int \<Rightarrow> ('b jm_data list \<times> int) option" where
  "jm_write_cached_midi_outputs jack [] res = Some ([], res)"
| "jm_write_cached_midi_outputs jack (p # ps) res =
     (case port_buffer p of
        None \<Rightarrow> do {
          (ps, res) \<leftarrow> jm_write_cached_midi_outputs jack ps JM_WRITE_ERROR;
          Some (p # ps, res)
        }
      | Some pb \<Rightarrow> do {
          (p, ret) \<leftarrow> jm_write_cached_midi_output jack p pb;
          (ps, res) \<leftarrow> jm_write_cached_midi_outputs jack ps (res OR ret);
          Some (p # ps, res)
        })"

definition jm_next_midi_event_position :: "byte list \<Rightarrow> nat \<Rightarrow> nat \<Rightarrow> nat option" where
  "jm_next_midi_event_position buf b bufsize = do {
     len \<leftarrow> load32 buf (b + 8);
     Some (if bufsize \<le> unat len then 0 else JM_HEADER_SIZE + unat len)
   }"

text \<open>\<open>bufsize\<close> stays positive in the loop, so it is a natural number.\<close>

function read_space_loop :: "byte list \<Rightarrow> nat \<Rightarrow> u32 \<Rightarrow> nat \<Rightarrow> nat \<Rightarrow> nat \<Rightarrow> nat option" where
  "read_space_loop pad counter frames b n bufsize =
     (if n < bufsize then do {
        t \<leftarrow> load_double pad b;
        if int (unat frames) \<le> int t - int counter then Some n
        else do {
          k \<leftarrow> jm_next_midi_event_position pad b bufsize;
          if k = 0 then Some n
          else if bufsize \<le> k then Some n
          else read_space_loop pad counter frames (b + k) (n + k) (bufsize - k)
        }
      }
      else Some n)"
  by pat_completeness auto
termination
  by (relation "measure (\<lambda>(pad, counter, frames, b, n, bufsize). bufsize)") auto

declare read_space_loop.simps [simp del]

definition jm_cached_midi_inputs_read_space ::
  "ringbuffer \<Rightarrow> byte list \<Rightarrow> nat \<Rightarrow> u32 \<Rightarrow> (byte list \<times> nat) option" where
  "jm_cached_midi_inputs_read_space r pad counter frames =
     (let n = rb_read_space r in
      if n = 0 then Some (pad, 0)
      else do {
        (pad, bufsize) \<leftarrow> rb_peek r pad n;
        if bufsize \<noteq> n then Some (pad, 0)
        else do {
          n \<leftarrow> read_space_loop pad counter frames 0 0 (unat bufsize);
          Some (pad, n)
        }
      })"

text \<open>One port of \<^verbatim>\<open>jm_read_cached_midi_inputs\<close>: the scratch block, the port and the result so far.\<close>

definition jm_read_cached_midi_input ::
  "nat \<Rightarrow> u32 \<Rightarrow> byte list \<Rightarrow> 'b option \<Rightarrow> 'b jm_input_data \<Rightarrow> int \<Rightarrow> (byte list \<times> 'b jm_input_data \<times> int) option" where
  "jm_read_cached_midi_input counter frames pad buf p res =
     (let p = p\<lparr>port_buffer := buf\<rparr> in
      if buf = None then Some (pad, p, res)
      else do {
        (pad, n) \<leftarrow> jm_cached_midi_inputs_read_space (jm_cache p) pad counter frames;
        if 0 < n \<and> n \<le> unat (rb_write_space (jm_rb p)) then do {
          (c, pad, m) \<leftarrow> rb_read (jm_cache p) pad (word_of_nat n);
          (r, k) \<leftarrow> rb_write (jm_rb p) pad (word_of_nat n);
          Some (pad, p\<lparr>jm_cache := c, jm_rb := r\<rparr>, if k \<noteq> m then JM_WRITE_ERROR else res)
        }
        else Some (pad, p, res)
      })"

fun jm_read_cached_midi_inputs ::
  "nat \<Rightarrow> u32 \<Rightarrow> byte list \<Rightarrow> 'b option list \<Rightarrow> 'b jm_input_data list \<Rightarrow> int
     \<Rightarrow> (byte list \<times> 'b jm_input_data list \<times> int) option" where
  "jm_read_cached_midi_inputs counter frames pad (buf # bufs) (p # ps) res = do {
     (pad, p, res) \<leftarrow> jm_read_cached_midi_input counter frames pad buf p res;
     (pad, ps, res) \<leftarrow> jm_read_cached_midi_inputs counter frames pad bufs ps res;
     Some (pad, p # ps, res)
   }"
| "jm_read_cached_midi_inputs counter frames pad bufs ps res = Some (pad, ps, res)"

end
