(* ===== verification/JackMidiProps.thy ===== *)
theory JackMidiProps
  imports JackMidiIO
begin

text \<open>
  What JACK MIDI guarantees: a ring buffer of a port is a queue of whole events (\<open>jm_put_events_spec\<close>), \<^verbatim>\<open>jm_read\<close> takes events off
  its front (\<open>jm_read_spec\<close>), and the recovery of a cache moves whole due events only. The facts about ring
  buffers are those of the interpretation \<open>rb\<close> of the contract \<open>byte_fifo\<close>.
\<close>

section \<open>Storing\<close>

text \<open>The event of a port buffer, with the position of the sample counter.\<close>

definition stamp :: "bool \<Rightarrow> nat \<Rightarrow> u32 \<Rightarrow> jack_event \<Rightarrow> midi_event" where
  "stamp cached start offset ev = (start + unat (ev_time ev) + (if cached then unat offset else 0), ev_data ev)"

text \<open>The events that fit into a queue with \<open>room\<close> free bytes, taken greedily.\<close>

fun accepted :: "nat \<Rightarrow> midi_event list \<Rightarrow> midi_event list" where
  "accepted room [] = []"
| "accepted room (ev # evs) =
     (let n = length (event_bytes ev) in
      if n \<le> room then ev # accepted (room - n) evs else accepted room evs)"

abbreviation events_bytes :: "midi_event list \<Rightarrow> byte list" where
  "events_bytes evs \<equiv> concat (map event_bytes evs)"

lemma store_double_start:
  assumes "8 \<le> length pad"
  shows "store_double pad 0 t = Some (bytes8 (double_bits t) @ drop 8 pad)"
    and "t < 2 ^ 53 \<Longrightarrow> load_double (bytes8 (double_bits t) @ drop 8 pad) 0 = Some t"
  using assms by (simp_all add: store_double_def memcpy_in load_double_def double_value_bits)

text \<open>The scratch block starts with the bytes of the event when it is passed on to the ring buffer.\<close>

lemma pad_event:
  assumes "12 + length data \<le> length pad" and "start + unat time + unat offset < 2 ^ 53"
  shows "do {
     pad \<leftarrow> store_double pad 0 (start + unat time);
     pad \<leftarrow> (if cached then do { t \<leftarrow> load_double pad 0; store_double pad 0 (t + unat offset) } else Some pad);
     pad \<leftarrow> store32 pad 8 (word_of_nat (length data));
     pad \<leftarrow> memcpy pad 12 data 0 (length data);
     f pad
   } = f (event_bytes (stamp cached start offset \<lparr>ev_time = time, ev_data = data\<rparr>) @ drop (12 + length data) pad)"
proof -
  have l: "8 \<le> length pad" using assms(1) by simp
  have t: "start + unat time < 2 ^ 53" using assms(2) by simp
  let ?t = "start + unat time + (if cached then unat offset else 0)"
  have "do {
     pad \<leftarrow> store_double pad 0 (start + unat time);
     (if cached then do { t \<leftarrow> load_double pad 0; store_double pad 0 (t + unat offset) } else Some pad)
   } = Some (bytes8 (double_bits ?t) @ drop 8 pad)"
    using store_double_start [OF l] store_double_start(1) [of "bytes8 (double_bits (start + unat time)) @ drop 8 pad"] t l
    by (cases cached) simp_all
  moreover have "store32 (bytes8 (double_bits ?t) @ drop 8 pad) 8 (word_of_nat (length data)) =
      Some (bytes8 (double_bits ?t) @ bytes_of (word_of_nat (length data)) @ drop 12 pad)"
    using assms(1) by (simp add: store32_in)
  moreover have "memcpy (bytes8 (double_bits ?t) @ bytes_of (word_of_nat (length data)) @ drop 12 pad) 12 data 0 (length data) =
      Some (event_bytes (?t, data) @ drop (12 + length data) pad)"
    using assms(1) by (simp add: memcpy_in event_bytes_def add.commute)
  ultimately show ?thesis
    by (simp add: stamp_def flip: bind_assoc)
qed

lemma jm_put_event_spec:
  assumes ok: "rb_ok r" and cap: "rb_capacity r < JM_RINGBUFFER_SIZE" and pad: "length pad = JM_RINGBUFFER_SIZE"
    and t: "start + unat (ev_time ev) + unat offset < 2 ^ 53"
  shows "\<exists>pad' r'. jm_put_event cached start offset pad r ev = Some (pad', r') \<and> length pad' = JM_RINGBUFFER_SIZE \<and>
    rb_ok r' \<and> rb_capacity r' = rb_capacity r \<and>
    rb_contents r' = rb_contents r @ events_bytes (accepted (unat (rb_write_space r)) [stamp cached start offset ev]) \<and>
    unat (rb_write_space r') = unat (rb_write_space r) -
      length (events_bytes (accepted (unat (rb_write_space r)) [stamp cached start offset ev]))"
proof -
  let ?e = "stamp cached start offset ev" and ?n = "length (ev_data ev) + JM_HEADER_SIZE"
  have len: "length (event_bytes ?e) = ?n" by (simp add: stamp_def JM_HEADER_SIZE_def)
  show ?thesis
  proof (cases "?n \<le> unat (rb_write_space r)")
    case False
    then show ?thesis using ok pad len by (simp add: jm_put_event_def)
  next
    case True
    have "unat (rb_write_space r) \<le> rb_capacity r" using rb.room_contents [OF ok] by simp
    then have n: "?n < JM_RINGBUFFER_SIZE" using True cap by simp
    then have w: "unat (word_of_nat ?n :: u32) = ?n"
      by (intro unat_small less_trans [OF n]) (simp add: JM_RINGBUFFER_SIZE_def)
    let ?pad = "event_bytes ?e @ drop (12 + length (ev_data ev)) pad"
    have p: "jm_put_event cached start offset pad r ev =
        do { (r, _) \<leftarrow> rb_write r ?pad (word_of_nat ?n); Some (?pad, r) }"
      using True n pad t pad_event [of "ev_data ev" pad start "ev_time ev" offset
          cached "\<lambda>pad. do { (r, _) \<leftarrow> rb_write r pad (word_of_nat ?n); Some (pad, r) }"]
      by (simp add: jm_put_event_def JM_HEADER_SIZE_def stamp_def)
    have lp: "length ?pad = JM_RINGBUFFER_SIZE" using n pad len by (simp add: JM_HEADER_SIZE_def)
    have fits: "(word_of_nat ?n :: u32) \<le> rb_write_space r" using True w by (simp add: word_le_nat_alt)
    have dst: "unat (word_of_nat ?n :: u32) \<le> length ?pad" using w n lp by simp
    from rb.put_fits [OF ok fits dst] obtain r' where r': "rb_write r ?pad (word_of_nat ?n) = Some (r', word_of_nat ?n)"
      "rb_ok r'" "rb_contents r' = rb_contents r @ take (unat (word_of_nat ?n :: u32)) ?pad" "rb_capacity r' = rb_capacity r" .
    have c: "rb_contents r' = rb_contents r @ event_bytes ?e" using r'(3) w len by simp
    have "unat (rb_write_space r') = unat (rb_write_space r) - ?n"
      using rb.room_contents [OF ok] rb.room_contents [OF r'(2)] r'(4) c len by simp
    then show ?thesis using p r' c lp len True by simp
  qed
qed

lemma accepted_append:
  "accepted room (xs @ ys) = accepted room xs @ accepted (room - length (events_bytes (accepted room xs))) ys"
  by (induction xs arbitrary: room) (auto simp: Let_def)

definition events_of :: "in_buffer \<Rightarrow> jack_event list" where
  "events_of evs = map the (filter (\<lambda>e. e \<noteq> None) evs)"

lemma jm_put_events_spec:
  assumes "rb_ok r" and "rb_capacity r < JM_RINGBUFFER_SIZE" and "length pad = JM_RINGBUFFER_SIZE"
    and "\<And>ev. Some ev \<in> set evs \<Longrightarrow> start + unat (ev_time ev) + unat offset < 2 ^ 53"
  shows "\<exists>pad' r'. jm_put_events cached start offset pad r evs = Some (pad', r') \<and> length pad' = JM_RINGBUFFER_SIZE \<and>
    rb_ok r' \<and> rb_capacity r' = rb_capacity r \<and>
    rb_contents r' = rb_contents r @
      events_bytes (accepted (unat (rb_write_space r)) (map (stamp cached start offset) (events_of evs)))"
  using assms
proof (induction evs arbitrary: pad r)
  case Nil
  then show ?case by (simp add: events_of_def)
next
  case (Cons e evs)
  show ?case
  proof (cases e)
    case None
    then show ?thesis using Cons.IH [OF Cons.prems(1-3)] Cons.prems(4) by (simp add: events_of_def)
  next
    case (Some ev)
    obtain pad' r' where p: "jm_put_event cached start offset pad r ev = Some (pad', r')" "length pad' = JM_RINGBUFFER_SIZE"
      "rb_ok r'" "rb_capacity r' = rb_capacity r"
      "rb_contents r' = rb_contents r @ events_bytes (accepted (unat (rb_write_space r)) [stamp cached start offset ev])"
      "unat (rb_write_space r') = unat (rb_write_space r) -
         length (events_bytes (accepted (unat (rb_write_space r)) [stamp cached start offset ev]))"
      using jm_put_event_spec [OF Cons.prems(1-3), of start ev offset cached] Cons.prems(4) Some by auto
    have "rb_capacity r' < JM_RINGBUFFER_SIZE" using p(4) Cons.prems(2) by simp
    moreover have "\<And>ev. Some ev \<in> set evs \<Longrightarrow> start + unat (ev_time ev) + unat offset < 2 ^ 53"
      using Cons.prems(4) by simp
    ultimately obtain pad2 r2 where i: "jm_put_events cached start offset pad' r' evs = Some (pad2, r2)"
      "length pad2 = JM_RINGBUFFER_SIZE" "rb_ok r2" "rb_capacity r2 = rb_capacity r'"
      "rb_contents r2 = rb_contents r' @
        events_bytes (accepted (unat (rb_write_space r')) (map (stamp cached start offset) (events_of evs)))"
      using Cons.IH [OF p(3) _ p(2)] by blast
    have "map (stamp cached start offset) (events_of (e # evs)) =
        [stamp cached start offset ev] @ map (stamp cached start offset) (events_of evs)"
      using Some by (simp add: events_of_def)
    then have eq: "accepted (unat (rb_write_space r)) (map (stamp cached start offset) (events_of (e # evs))) =
        accepted (unat (rb_write_space r)) [stamp cached start offset ev] @
        accepted (unat (rb_write_space r')) (map (stamp cached start offset) (events_of evs))"
      by (simp only: accepted_append p(6))
    have "rb_contents r2 = rb_contents r @
        events_bytes (accepted (unat (rb_write_space r)) (map (stamp cached start offset) (events_of (e # evs))))"
      by (simp only: i(5) p(5) eq map_append concat_append append_assoc)
    moreover have "jm_put_events cached start offset pad r (e # evs) = Some (pad2, r2)"
      using Some p(1) i(1) by simp
    ultimately show ?thesis using i(2-4) p(4) by metis
  qed
qed

section \<open>Reading\<close>

definition event_padding :: "midi_event \<Rightarrow> nat" where
  "event_padding ev = (4 - length (snd ev) mod 4) mod 4"

text \<open>An event in the block of the reader: aligned to four bytes.\<close>

definition padded :: "midi_event \<Rightarrow> byte list" where
  "padded ev = event_bytes ev @ replicate (event_padding ev) 0"

text \<open>
  The events that a read with a block of \<open>bufsize\<close> bytes, \<open>room\<close> of them free, delivers, and those it leaves in the
  queue. An event longer than the block is dropped.
\<close>

fun deliver :: "nat \<Rightarrow> nat \<Rightarrow> midi_event list \<Rightarrow> midi_event list \<times> midi_event list" where
  "deliver bufsize room [] = ([], [])"
| "deliver bufsize room (ev # evs) =
     (let n = length (event_bytes ev) in
      if room \<le> 12 then ([], ev # evs)
      else if n < room then let (ds, rs) = deliver bufsize (room - length (padded ev)) evs in (ev # ds, rs)
      else if bufsize < n then deliver bufsize room evs
      else ([], ev # evs))"

lemma mod4_cases:
  fixes n :: nat
  obtains (0) "n mod 4 = 0" "(4 - n mod 4) mod 4 = 0" | (1) "n mod 4 = 1" "(4 - n mod 4) mod 4 = 3"
    | (2) "n mod 4 = 2" "(4 - n mod 4) mod 4 = 2" | (3) "n mod 4 = 3" "(4 - n mod 4) mod 4 = 1"
proof -
  have "n mod 4 = 0 \<or> n mod 4 = 1 \<or> n mod 4 = 2 \<or> n mod 4 = 3" by presburger
  then show thesis using that by auto
qed

lemma length_padded: "length (padded ev) = 12 + length (snd ev) + event_padding ev"
  by (simp add: padded_def)

lemma padded_aligned: "4 dvd length (padded ev)"
  by (cases "length (snd ev)" rule: mod4_cases) (simp_all only: length_padded event_padding_def, presburger+)

lemma padded_fits:
  assumes "length (event_bytes ev) < room" and "4 dvd room"
  shows "length (padded ev) \<le> room"
  using assms unfolding length_event_bytes length_padded event_padding_def
  by (cases "length (snd ev)" rule: mod4_cases; simp only:; presburger)

lemma unat_padding:
  assumes "n < 2 ^ 32"
  shows "unat (- (word_of_nat n :: u32) AND 3) = (4 - n mod 4) mod 4"
proof -
  have "- (word_of_nat n :: u32) = word_of_int (- int n)" by simp
  then have "unat (- (word_of_nat n :: u32) AND (2 ^ 2 - 1)) = nat (- int n mod 2 ^ 2)"
    by (simp only: unat_masked_int)
  also have "- int n mod 2 ^ 2 = int ((4 - n mod 4) mod 4)"
    by (cases n rule: mod4_cases) (simp_all, presburger+)
  finally show ?thesis by simp
qed

lemma front_event:
  assumes "rb_ok r" and "rb_contents r = event_bytes ev @ rest" and "length dest \<ge> 12"
  shows "rb_peek r dest 12 = Some (take 12 (event_bytes ev) @ drop 12 dest, 12)"
    and "length (snd ev) + 12 < 2 ^ 32"
proof -
  have l: "unat (rb_read_space r) = 12 + length (snd ev) + length rest"
    using rb.used_contents [OF assms(1)] assms(2) by simp
  have "unat (rb_read_space r) < 2 ^ LENGTH(32)" by (rule unsigned_less)
  with l show "length (snd ev) + 12 < 2 ^ 32" by simp
  have "12 \<le> rb_read_space r" using l by (simp add: word_le_nat_alt)
  then show "rb_peek r dest 12 = Some (take 12 (event_bytes ev) @ drop 12 dest, 12)"
    using rb.peek_exact [OF assms(1), of 12 dest] assms(2,3) by simp
qed

text \<open>One round of the loop, with an event at the front of the queue and room for a header.\<close>

abbreviation aligned_size :: "midi_event \<Rightarrow> u32" where
  "aligned_size ev \<equiv> word_of_nat (length (snd ev)) + 12 + (- word_of_nat (length (snd ev)) AND 3)"

lemma jm_read_loop_step:
  assumes ok: "rb_ok r" and c: "rb_contents r = event_bytes ev @ rest" and "snd ev \<noteq> []"
    and b: "b + 12 \<le> length buf" and room: "12 < unat room"
  defines "buf1 \<equiv> take b buf @ take 12 (event_bytes ev) @ drop (b + 12) buf" and "n \<equiv> length (event_bytes ev)"
  shows "n < unat room \<Longrightarrow> b + n \<le> length buf \<Longrightarrow>
      \<exists>r2. jm_read_loop r buf b count room bufsize (rb_read_space r) =
        jm_read_loop r2 (take b buf @ event_bytes ev @ drop (b + n) buf) (b + unat (aligned_size ev)) (count + 1)
          (room - aligned_size ev) bufsize (rb_read_space r2) \<and> rb_ok r2 \<and> rb_contents r2 = rest"
    and "\<not> n < unat room \<Longrightarrow> unat bufsize < n \<Longrightarrow>
      \<exists>r2. jm_read_loop r buf b count room bufsize (rb_read_space r) =
        jm_read_loop r2 buf1 b count room bufsize (rb_read_space r2) \<and> rb_ok r2 \<and> rb_contents r2 = rest"
    and "\<not> n < unat room \<Longrightarrow> \<not> unat bufsize < n \<Longrightarrow>
      jm_read_loop r buf b count room bufsize (rb_read_space r) = Some (r, buf1, count, rb_read_space r)"
proof -
  let ?L = "length (snd ev)"
  have n: "n = ?L + 12" by (simp add: n_def)
  have used: "n \<le> unat (rb_read_space r)" using rb.used_contents [OF ok] c by (simp add: n_def)
  have "0 < rb_read_space r" using used n by (simp add: word_less_nat_alt)
  moreover have "12 < room" using room by (simp add: word_less_nat_alt)
  moreover have "12 \<le> length (drop b buf)" using b by simp
  note front = front_event [OF ok c this]
  have "rb_peek r (drop b buf) 12 = Some (take 12 (event_bytes ev) @ drop (b + 12) buf, 12)"
    using front(1) by (simp add: add.commute)
  moreover have lb1: "length buf1 = length buf" using b by (simp add: buf1_def)
  have "take 4 (drop (b + 8) buf1) = bytes_of (word_of_nat ?L)"
    using b by (simp add: buf1_def event_bytes_def)
  then have "load32 buf1 (b + 8) = Some (word_of_nat ?L)" using lb1 b by (simp add: load32_in)
  moreover have uL: "unat (word_of_nat ?L :: u32) = ?L" "unat (word_of_nat ?L + 12 :: u32) = n"
    using front(2) unat_small [of "?L + 12"] n by (simp_all add: unat_small)
  moreover have "(word_of_nat ?L :: u32) \<noteq> 0" using assms(3) uL(1) by (auto simp: unat_eq_zero)
  ultimately have step: "jm_read_loop r buf b count room bufsize (rb_read_space r) =
      (let ev_size = word_of_nat ?L + 12 in
       if ev_size < room then do {
         (r, d, _) \<leftarrow> rb_read r (drop b buf1) ev_size;
         jm_read_loop r (take b buf1 @ d) (b + unat (aligned_size ev)) (count + 1) (room - aligned_size ev) bufsize (rb_read_space r)
       }
       else if bufsize < ev_size then
         (let r = rb_read_advance r ev_size in jm_read_loop r buf1 b count room bufsize (rb_read_space r))
       else Some (r, buf1, count, rb_read_space r))"
    by (subst jm_read_loop.simps) (simp add: buf1_def [symmetric] Let_def)
  have cmp: "word_of_nat ?L + 12 < room \<longleftrightarrow> n < unat room" "bufsize < word_of_nat ?L + 12 \<longleftrightarrow> unat bufsize < n"
    using uL(2) by (simp_all add: word_less_nat_alt)
  show "\<exists>r2. jm_read_loop r buf b count room bufsize (rb_read_space r) =
        jm_read_loop r2 (take b buf @ event_bytes ev @ drop (b + n) buf) (b + unat (aligned_size ev)) (count + 1)
          (room - aligned_size ev) bufsize (rb_read_space r2) \<and> rb_ok r2 \<and> rb_contents r2 = rest"
    if "n < unat room" "b + n \<le> length buf"
  proof -
    have "word_of_nat ?L + 12 \<le> rb_read_space r" using used uL(2) by (simp add: word_le_nat_alt)
    moreover have "unat (word_of_nat ?L + 12 :: u32) \<le> length (drop b buf1)"
      using uL(2) lb1 that(2) by simp
    ultimately obtain r2 where r2: "rb_read r (drop b buf1) (word_of_nat ?L + 12) =
        Some (r2, event_bytes ev @ drop n (drop b buf1), word_of_nat ?L + 12)"
      "rb_ok r2" "rb_contents r2 = rest"
      using rb.get_exact [OF ok, of "word_of_nat ?L + 12" "drop b buf1"] c uL(2)
      by (metis append_eq_conv_conj n_def)
    have "drop (n - 12) (drop (b + 12) buf1) = drop (n - 12) (drop (b + 12) buf)"
      using b by (simp add: buf1_def)
    then have "drop n (drop b buf1) = drop (b + n) buf" using n by (simp add: add_ac)
    moreover have "take b buf1 = take b buf" using b by (simp add: buf1_def)
    ultimately show ?thesis using step cmp that(1) r2 by (auto simp: Let_def)
  qed
  show "\<exists>r2. jm_read_loop r buf b count room bufsize (rb_read_space r) =
        jm_read_loop r2 buf1 b count room bufsize (rb_read_space r2) \<and> rb_ok r2 \<and> rb_contents r2 = rest"
    if "\<not> n < unat room" "unat bufsize < n"
    using step cmp that rb_read_advance_spec [OF ok, of "word_of_nat ?L + 12"] used uL(2) c
    by (intro exI [of _ "rb_read_advance r (word_of_nat ?L + 12)"]) (simp add: Let_def n_def)
  show "jm_read_loop r buf b count room bufsize (rb_read_space r) = Some (r, buf1, count, rb_read_space r)"
    if "\<not> n < unat room" "\<not> unat bufsize < n"
    using step cmp that by (simp add: Let_def)
qed

lemma unat_aligned_size:
  assumes "length (padded ev) < 2 ^ 32"
  shows "unat (aligned_size ev) = length (padded ev)"
proof -
  have l: "length (snd ev) < 2 ^ 32" using assms by (simp add: length_padded)
  have "word_of_nat (unat (- word_of_nat (length (snd ev)) AND 3 :: u32)) = (word_of_nat (event_padding ev) :: u32)"
    using unat_padding [OF l] by (simp add: event_padding_def)
  then have "aligned_size ev = word_of_nat (length (padded ev))" by (simp add: length_padded)
  then show ?thesis using unat_small [OF assms] by simp
qed

lemma jm_read_loop_spec:
  assumes "rb_ok r" and "rb_contents r = events_bytes evs" and "\<forall>ev \<in> set evs. snd ev \<noteq> []"
    and "length buf = unat bufsize" and "b + unat room = unat bufsize" and "4 dvd unat room"
    and "drop (b + 12) buf = replicate (unat bufsize - (b + 12)) 0"
    and "deliver (unat bufsize) (unat room) evs = (ds, rs)"
  shows "\<exists>r' buf'. jm_read_loop r buf b count room bufsize (rb_read_space r) =
      Some (r', buf', count + length ds, rb_read_space r') \<and>
    rb_ok r' \<and> rb_contents r' = events_bytes rs \<and> length buf' = length buf \<and>
    take (b + length (concat (map padded ds))) buf' = take b buf @ concat (map padded ds)"
  using assms
proof (induction evs arbitrary: r buf b count room ds rs)
  case Nil
  then have "rb_read_space r = 0" using rb.used_contents [OF Nil.prems(1)] by (simp add: unat_eq_zero)
  then show ?case using Nil by (subst jm_read_loop.simps) auto
next
  case (Cons ev evs)
  let ?n = "length (event_bytes ev)" and ?R = "unat room" and ?B = "unat bufsize"
  show ?case
  proof (cases "?R \<le> 12")
    case True
    then show ?thesis using Cons.prems by (subst jm_read_loop.simps) (auto simp: word_less_nat_alt)
  next
    case False
    have c: "rb_contents r = event_bytes ev @ events_bytes evs" using Cons.prems(2) by simp
    have b: "b + 12 \<le> length buf" and R: "12 < ?R" and ne: "snd ev \<noteq> []" "\<forall>ev \<in> set evs. snd ev \<noteq> []"
      using Cons.prems(3-5) False by simp_all
    note step = jm_read_loop_step [OF Cons.prems(1) c ne(1) b R, where count = count and bufsize = bufsize]
    let ?buf1 = "take b buf @ take 12 (event_bytes ev) @ drop (b + 12) buf"
    have buf1: "length ?buf1 = length buf" "take b ?buf1 = take b buf" "drop (b + 12) ?buf1 = drop (b + 12) buf"
      using b by simp_all
    consider (take) "?n < ?R" | (skip) "\<not> ?n < ?R" "?B < ?n" | (full) "\<not> ?n < ?R" "\<not> ?B < ?n"
      by blast
    then show ?thesis
    proof cases
      case full
      then show ?thesis using step(3) Cons.prems(1,2,8) False buf1 by (auto simp: Let_def)
    next
      case skip
      obtain r2 where r2: "jm_read_loop r buf b count room bufsize (rb_read_space r) =
          jm_read_loop r2 ?buf1 b count room bufsize (rb_read_space r2)" "rb_ok r2" "rb_contents r2 = events_bytes evs"
        using step(2) [OF skip] by blast
      have d: "deliver ?B ?R evs = (ds, rs)" using skip Cons.prems(8) False by (simp add: Let_def)
      have z: "drop (b + 12) ?buf1 = replicate (?B - (b + 12)) 0" using buf1(3) Cons.prems(7) by (rule trans)
      have l: "length ?buf1 = ?B" using buf1(1) Cons.prems(4) by (rule trans)
      from Cons.IH [OF r2(2,3) ne(2) l Cons.prems(5,6) z d, of count] show ?thesis
        unfolding r2(1) buf1(1,2) .
    next
      case take
      define k where "k = length (padded ev)"
      have k: "k \<le> ?R" using padded_fits [OF take Cons.prems(6)] by (simp add: k_def)
      have kn: "k = ?n + event_padding ev" by (simp add: k_def length_padded)
      have ev: "unat (aligned_size ev) = k"
        using unat_aligned_size [of ev] k unsigned_less [of room, where ?'a = nat] by (simp add: k_def)
      have room': "unat (room - aligned_size ev) = ?R - k" using ev k by (simp add: unat_sub word_le_nat_alt)
      have "b + ?n \<le> length buf" using take Cons.prems(4,5) by simp
      from step(1) [OF take this] obtain r2 where r2: "jm_read_loop r buf b count room bufsize (rb_read_space r) =
          jm_read_loop r2 (take b buf @ event_bytes ev @ drop (b + ?n) buf) (b + k) (count + 1)
            (room - aligned_size ev) bufsize (rb_read_space r2)" "rb_ok r2" "rb_contents r2 = events_bytes evs"
        unfolding ev by blast
      define buf2 where "buf2 = take b buf @ padded ev @ replicate (?B - (b + k)) 0"
      have "drop (b + ?n) buf = drop (?n - 12) (drop (b + 12) buf)" by (simp add: add_ac)
      also have "\<dots> = replicate (?B - (b + 12) - (?n - 12)) 0" using Cons.prems(7) by simp
      also have "?B - (b + 12) - (?n - 12) = event_padding ev + (?B - (b + k))"
        using kn k Cons.prems(5) by simp
      finally have buf2: "take b buf @ event_bytes ev @ drop (b + ?n) buf = buf2"
        by (simp add: buf2_def padded_def replicate_add)
      obtain ds' where d: "deliver ?B (unat (room - aligned_size ev)) evs = (ds', rs)" "ds = ev # ds'"
        using Cons.prems(8) False take unfolding room' by (auto simp: Let_def k_def split: prod.splits)
      have z: "drop (b + k + 12) buf2 = replicate (?B - (b + k + 12)) 0"
        using b by (simp add: buf2_def k_def)
      have h: "length buf2 = ?B" "b + k + unat (room - aligned_size ev) = ?B" "4 dvd unat (room - aligned_size ev)"
        using Cons.prems(4-6) k padded_aligned [of ev] b unfolding room'
        by (simp_all add: buf2_def k_def [symmetric] dvd_diff_nat)
      have "take (b + k) buf2 = take b buf @ padded ev" using b by (simp add: buf2_def k_def)
      with Cons.IH [OF r2(2,3) ne(2) h z d(1), of "count + 1"] show ?thesis
        using r2(1) buf2 d(2) h(1) Cons.prems(4) by (simp add: k_def add.assoc)
    qed
  qed
qed

lemma jm_read_spec:
  assumes "rb_ok (jm_rb p)" and "rb_contents (jm_rb p) = events_bytes evs" and "\<forall>ev \<in> set evs. snd ev \<noteq> []"
    and "length buf = unat bufsize" and "4 dvd unat bufsize" and "deliver (unat bufsize) (unat bufsize) evs = (ds, rs)"
  shows "\<exists>r' buf'. jm_read (Some p) buf bufsize =
      Some (Some (p\<lparr>jm_rb := r', remain := sint (rb_read_space r')\<rparr>), buf', length ds) \<and>
    rb_ok r' \<and> rb_contents r' = events_bytes rs \<and> length buf' = length buf \<and>
    take (length (concat (map padded ds))) buf' = concat (map padded ds)"
proof (cases "0 < rb_read_space (jm_rb p)")
  case True
  have "drop (0 + 12) (replicate (unat bufsize) (0 :: byte)) = replicate (unat bufsize - (0 + 12)) 0" by simp
  from jm_read_loop_spec [OF assms(1-3) _ _ assms(5) this assms(6), of 0] obtain r' buf' where
    l: "jm_read_loop (jm_rb p) (replicate (unat bufsize) 0) 0 0 bufsize bufsize (rb_read_space (jm_rb p)) =
      Some (r', buf', length ds, rb_read_space r')" "rb_ok r'" "rb_contents r' = events_bytes rs"
      "length buf' = unat bufsize" "take (length (concat (map padded ds))) buf' = concat (map padded ds)"
    by auto
  have "memset buf 0 0 (unat bufsize) = Some (replicate (unat bufsize) 0)" using assms(4) by (simp add: memset_in)
  then show ?thesis using l True assms(4) by (auto simp: jm_read_def Let_def)
next
  case False
  then have z: "rb_read_space (jm_rb p) = 0" by (simp add: word_gt_0)
  then have "length (rb_contents (jm_rb p)) = 0" unfolding rb.used_contents [OF assms(1), symmetric] by simp
  then have "rb_contents (jm_rb p) = []" by blast
  then have "evs = []" using assms(2) by (cases evs) (auto simp: event_bytes_def bytes_of_def)
  moreover have "jm_read_loop (jm_rb p) buf 0 0 bufsize bufsize 0 = Some (jm_rb p, buf, 0, 0)"
    by (subst jm_read_loop.simps) simp
  ultimately show ?thesis
    using z assms(1,2,6) by (intro exI [of _ "jm_rb p"] exI [of _ buf]) (auto simp: jm_read_def Let_def)
qed

text \<open>
  C21. A MIDI input port is a queue of whole events. The process callback appends the events of JACK's buffer, stamped
  with the position of the sample counter, each of them whole and in order, and leaves out those that do not fit.
  \<^verbatim>\<open>jm_read\<close> with a block whose size is a multiple of four then delivers events from the front of the queue, aligned to
  four bytes and padded with zeros, as long as they fit; it drops events that are longer than the block, returns the number
  of events delivered, stays inside the block, ends, and leaves the other events in the queue.
\<close>

theorem midi_input_queue:
  assumes "rb_ok (jm_rb p)" and "rb_capacity (jm_rb p) < JM_RINGBUFFER_SIZE" and "length pad = JM_RINGBUFFER_SIZE"
    and "\<And>ev. Some ev \<in> set evs \<Longrightarrow> start + unat (ev_time ev) < 2 ^ 53 \<and> ev_data ev \<noteq> []"
    and "rb_contents (jm_rb p) = events_bytes q" and "\<forall>ev \<in> set q. snd ev \<noteq> []"
    and "length buf = unat bufsize" and "4 dvd unat bufsize"
    and "deliver (unat bufsize) (unat bufsize)
      (q @ accepted (unat (rb_write_space (jm_rb p))) (map (stamp False start 0) (events_of evs))) = (ds, rs)"
  shows "\<exists>pad' p' p'' sig buf'.
    jm_process_input False start 0 (Some evs) trylock pad p = Some (pad', p', sig) \<and>
    rb_contents (jm_rb p') = events_bytes (q @ accepted (unat (rb_write_space (jm_rb p))) (map (stamp False start 0) (events_of evs))) \<and>
    jm_read (Some p') buf bufsize = Some (Some p'', buf', length ds) \<and>
    length buf' = length buf \<and> take (length (concat (map padded ds))) buf' = concat (map padded ds) \<and>
    rb_ok (jm_rb p'') \<and> rb_contents (jm_rb p'') = events_bytes rs"
proof -
  let ?acc = "accepted (unat (rb_write_space (jm_rb p))) (map (stamp False start 0) (events_of evs))"
  obtain pad' r' where p: "jm_put_events False start 0 pad (jm_rb p) evs = Some (pad', r')" "rb_ok r'"
    "rb_contents r' = rb_contents (jm_rb p) @ events_bytes ?acc"
    using jm_put_events_spec [OF assms(1-3), of evs start 0 False] assms(4) by auto
  have sub: "ev \<in> set (accepted room xs) \<Longrightarrow> ev \<in> set xs" for ev room xs
    by (induction xs arbitrary: room) (auto simp: Let_def split: if_splits)
  have ne: "\<forall>ev \<in> set (q @ ?acc). snd ev \<noteq> []"
    using assms(4) [THEN conjunct2] assms(6) by (fastforce dest!: sub simp: events_of_def stamp_def)
  obtain p' sig where pi: "jm_process_input False start 0 (Some evs) trylock pad p = Some (pad', p', sig)" "jm_rb p' = r'"
    using p(1) by (cases "evs \<noteq> [] \<or> to_signal p"; cases trylock) (auto simp: jm_process_input_def Let_def)
  have c: "rb_contents (jm_rb p') = events_bytes (q @ ?acc)" using pi(2) p(3) assms(5) by simp
  have "rb_ok (jm_rb p')" using pi(2) p(2) by simp
  from jm_read_spec [OF this c ne assms(7-9)] show ?thesis using pi(1) c by fastforce
qed


definition midi_example :: "in_buffer jm_input_data" where
  "midi_example =
     \<lparr>port_buffer = None, jm_rb = \<lparr>rb_buf = replicate 32 0, rb_write_head = 20, rb_read_head = 20, rb_size = 32, rb_mask = 31\<rparr>,
       jm_cache = \<lparr>rb_buf = replicate 32 0, rb_write_head = 0, rb_read_head = 0, rb_size = 32, rb_mask = 31\<rparr>,
       remain = 0, to_signal = False\<rparr>"

lemma midi_example_facts:
  "rb_ok (jm_rb midi_example)" "rb_capacity (jm_rb midi_example) = 31" "rb_contents (jm_rb midi_example) = []"
  "rb_write_space (jm_rb midi_example) = 31"
proof -
  show ok: "rb_ok (jm_rb midi_example)"
    by (rule rb_okI [of 5]) (simp_all add: midi_example_def)
  show "rb_capacity (jm_rb midi_example) = 31" by (simp add: midi_example_def rb_capacity_def)
  show "rb_contents (jm_rb midi_example) = []"
    using rb_empty_iff [OF ok] by (simp add: rb_empty_def midi_example_def)
  show "rb_write_space (jm_rb midi_example) = 31" by (simp add: midi_example_def rb_write_space_def)
qed

theorem midi_input_queue_witness:
  "\<exists>pad' p' p'' sig buf'.
    jm_process_input False 100 0 (Some [Some \<lparr>ev_time = 5, ev_data = [0x90, 60, 100]\<rparr>]) True (replicate 65536 0) midi_example =
      Some (pad', p', sig) \<and>
    rb_contents (jm_rb p') = event_bytes (105, [0x90, 60, 100]) \<and>
    jm_read (Some p') (replicate 16 1) 16 = Some (Some p'', buf', 1) \<and>
    buf' = event_bytes (105, [0x90, 60, 100]) @ [0] \<and> rb_contents (jm_rb p'') = []"
proof -
  have ex: "\<exists>pad' p' p'' sig buf'.
    jm_process_input False 100 0 (Some [Some \<lparr>ev_time = 5, ev_data = [0x90, 60, 100]\<rparr>]) True (replicate 65536 0) midi_example =
      Some (pad', p', sig) \<and>
    rb_contents (jm_rb p') = events_bytes ([] @ accepted (unat (rb_write_space (jm_rb midi_example)))
      (map (stamp False 100 0) (events_of [Some \<lparr>ev_time = 5, ev_data = [0x90, 60, 100]\<rparr>]))) \<and>
    jm_read (Some p') (replicate 16 1) 16 = Some (Some p'', buf', length [(105 :: nat, [0x90, 60, 100 :: byte])]) \<and>
    length buf' = length (replicate 16 (1 :: byte)) \<and>
    take (length (concat (map padded [(105, [0x90, 60, 100])]))) buf' = concat (map padded [(105, [0x90, 60, 100])]) \<and>
    rb_ok (jm_rb p'') \<and> rb_contents (jm_rb p'') = events_bytes []"
    by (rule midi_input_queue)
      (simp_all add: midi_example_facts JM_RINGBUFFER_SIZE_def events_of_def stamp_def Let_def length_padded event_padding_def)
  have e: "accepted 31 (map (stamp False 100 0) (events_of [Some \<lparr>ev_time = 5, ev_data = [0x90, 60, 100]\<rparr>])) =
      [(105, [0x90, 60, 100])]"
    by (simp add: events_of_def stamp_def Let_def)
  have l: "length (padded (105, [0x90, 60, 100])) = 16"
    "padded (105, [0x90, 60, 100]) = event_bytes (105, [0x90, 60, 100]) @ [0]"
    by (simp_all add: length_padded event_padding_def padded_def)
  show ?thesis
    using ex by (simp add: midi_example_facts e l) (elim exE conjE, intro exI conjI, assumption+, simp)
qed

text \<open>A copy of a header to a place behind the end of the block.\<close>

lemma rb_peek_overrun:
  assumes "rb_ok r" and "12 \<le> length (rb_contents r)"
  shows "rb_peek r [] 12 = None"
proof -
  have "12 \<le> rb_read_space r" using rb.used_contents [OF assms(1)] assms(2) by (simp add: word_le_nat_alt)
  then have "\<not> rb_read_space r < 12" by simp
  moreover have "0 < rb_size r - rb_read_head r"
    using assms(1) by (auto simp: rb_ok_def word_gt_0)
  then have "unat (rb_size r - rb_read_head r) \<noteq> 0" by (simp add: unat_eq_zero word_gt_0)
  ultimately show ?thesis by (simp add: rb_peek_def Let_def memcpy_def)
qed

text \<open>
  The size of the block given to \<^verbatim>\<open>jm_read\<close> has to be a multiple of four. When the padding of an event does not fit, the number
  of remaining bytes becomes negative, the unsigned comparison takes it for a large number, and the header of the next event
  is written behind the end of the block.
\<close>

theorem jm_read_overrun:
  assumes "rb_ok (jm_rb p)" and "rb_contents (jm_rb p) = events_bytes (ev1 # ev2 # evs)" and "snd ev1 \<noteq> []"
    and "length (event_bytes ev1) < unat bufsize" and "unat bufsize < length (padded ev1)" and "length buf = unat bufsize"
    and "unat bufsize < 2 ^ 31"
  shows "jm_read (Some p) buf bufsize = None"
proof -
  let ?n = "length (event_bytes ev1)" and ?k = "length (padded ev1)"
  have n: "12 < ?n" using assms(3) by simp
  have c: "rb_contents (jm_rb p) = event_bytes ev1 @ events_bytes (ev2 # evs)" using assms(2) by simp
  have pad: "?k < unat bufsize + 4"
    using assms(4) mod_less_divisor [of 4 "4 - length (snd ev1) mod 4"] by (simp add: length_padded event_padding_def)
  then have k: "?k < 2 ^ 32" using assms(7) by simp
  have "unat (bufsize - aligned_size ev1) = unat bufsize + 2 ^ 32 - ?k"
    using unat_aligned_size [OF k] assms(5) by (simp add: unat_sub_if')
  then have room: "12 < bufsize - aligned_size ev1"
    using pad assms(7) by (simp add: word_less_nat_alt)
  have "12 \<le> length (replicate (unat bufsize) (0 :: byte))" using n assms(4) by simp
  moreover define m where "m = event_bytes ev1 @ replicate (unat bufsize - ?n) (0 :: byte)"
  ultimately obtain r2 where
    r2: "jm_read_loop (jm_rb p) (replicate (unat bufsize) 0) 0 0 bufsize bufsize (rb_read_space (jm_rb p)) =
      jm_read_loop r2 m (unat (aligned_size ev1)) 1
          (bufsize - aligned_size ev1) bufsize (rb_read_space r2)" "rb_ok r2" "rb_contents r2 = events_bytes (ev2 # evs)"
    using jm_read_loop_step(1) [OF assms(1) c assms(3), of 0 "replicate (unat bufsize) 0" bufsize 0 bufsize]
      n assms(4) by auto
  have "0 < unat (rb_read_space r2)" using rb.used_contents [OF r2(2)] r2(3) by simp
  then have "0 < rb_read_space r2" by (simp add: word_less_nat_alt)
  moreover have "drop (unat (aligned_size ev1)) m = []"
    using unat_aligned_size [OF k] assms(4,5) by (simp add: m_def)
  moreover have "rb_peek r2 [] 12 = None" using r2(2,3) by (intro rb_peek_overrun) simp_all
  ultimately have "jm_read_loop r2 m (unat (aligned_size ev1)) 1
          (bufsize - aligned_size ev1) bufsize (rb_read_space r2) = None"
    using room by (subst jm_read_loop.simps) simp
  moreover have "0 < rb_read_space (jm_rb p)"
    using rb.used_contents [OF assms(1)] c by (simp add: word_less_nat_alt)
  moreover have "memset buf 0 0 (unat bufsize) = Some (replicate (unat bufsize) 0)" using assms(6) by (simp add: memset_in)
  ultimately show ?thesis using r2(1) by (simp add: jm_read_def Let_def del: length_event_bytes)
qed


definition midi_example2 :: "in_buffer jm_input_data" where
  "midi_example2 = midi_example\<lparr>jm_rb := \<lparr>rb_buf = event_bytes (105, [0xF8]) @ event_bytes (106, [0xFA]) @ replicate 6 0,
     rb_write_head = 26, rb_read_head = 0, rb_size = 32, rb_mask = 31\<rparr>\<rparr>"

theorem jm_read_overrun_witness: "jm_read (Some midi_example2) (replicate 14 0) 14 = None"
proof (rule jm_read_overrun [where evs = "[]"])
  show ok: "rb_ok (jm_rb midi_example2)"
    by (rule rb_okI [of 5]) (simp_all add: midi_example2_def)
  show "rb_contents (jm_rb midi_example2) = events_bytes [(105, [0xF8]), (106, [0xFA])]"
    by (simp add: rb_contents_def rb_read_space_def midi_example2_def ring_slice_straight)
qed (simp_all add: length_padded event_padding_def)

section \<open>Recovery of a cache\<close>

lemma read_space_loop_spec:
  assumes "evs \<noteq> []" and "drop b pad = events_bytes evs @ z" and "\<forall>ev \<in> set evs. fst ev < 2 ^ 53"
    and "length (events_bytes evs) < 2 ^ 32"
  shows "\<exists>j < length evs. read_space_loop pad counter frames b n (length (events_bytes evs)) =
      Some (n + length (events_bytes (take j evs))) \<and>
    (\<forall>ev \<in> set (take j evs). int (fst ev) - int counter < int (unat frames))"
  using assms
proof (induction evs arbitrary: b n)
  case (Cons ev evs)
  let ?k = "length (event_bytes ev)" and ?B = "length (events_bytes (ev # evs))"
  have d: "drop b pad = event_bytes ev @ events_bytes evs @ z" using Cons.prems(2) by simp
  have t: "load_double pad b = Some (fst ev)" using event_load(2) [OF d] Cons.prems(3) by simp
  have w: "load32 pad (b + 8) = Some (word_of_nat (length (snd ev)))" by (rule event_load(1) [OF d])
  have "unat (word_of_nat (length (snd ev)) :: u32) = length (snd ev)"
    using Cons.prems(4) by (simp add: unat_small)
  then have k: "jm_next_midi_event_position pad b ?B = Some ?k"
    using w by (simp add: jm_next_midi_event_position_def JM_HEADER_SIZE_def)
  show ?case
  proof (cases "n < ?B \<and> int (fst ev) - int counter < int (unat frames) \<and> evs \<noteq> []")
    case True
    have "drop (b + ?k) pad = drop ?k (drop b pad)" by (simp add: add.commute)
    also have "\<dots> = events_bytes evs @ z" by (simp only: d) simp
    finally obtain j where j: "j < length evs"
      "read_space_loop pad counter frames (b + ?k) (n + ?k) (length (events_bytes evs)) =
        Some (n + ?k + length (events_bytes (take j evs)))"
      "\<forall>ev \<in> set (take j evs). int (fst ev) - int counter < int (unat frames)"
      using Cons.IH [of "b + ?k" "n + ?k"] True Cons.prems(3,4) by auto
    have "evs \<noteq> [] \<Longrightarrow> 0 < length (events_bytes evs)" by (cases evs) auto
    then have "\<not> ?B \<le> ?k" "?B - ?k = length (events_bytes evs)" using True by simp_all
    moreover have "?k \<noteq> 0" "n < ?B" "\<not> int (unat frames) \<le> int (fst ev) - int counter" using True by simp_all
    ultimately have "read_space_loop pad counter frames b n ?B =
        read_space_loop pad counter frames (b + ?k) (n + ?k) (length (events_bytes evs))"
      using t k by (subst read_space_loop.simps) (simp only: if_True if_False bind.bind_lunit)
    then show ?thesis using j True by (intro exI [of _ "Suc j"]) (simp add: add.assoc)
  next
    case False
    have "read_space_loop pad counter frames b n ?B = Some n"
      using False t k by (subst read_space_loop.simps) auto
    then show ?thesis by (intro exI [of _ 0]) simp
  qed
qed simp

lemma cached_read_space_spec:
  assumes "rb_ok r" and "rb_capacity r < JM_RINGBUFFER_SIZE" and "length pad = JM_RINGBUFFER_SIZE"
    and "rb_contents r = events_bytes evs" and "evs \<noteq> []" and "\<forall>ev \<in> set evs. fst ev < 2 ^ 53"
  shows "\<exists>j < length evs. jm_cached_midi_inputs_read_space r pad counter frames =
      Some (events_bytes evs @ drop (length (events_bytes evs)) pad, length (events_bytes (take j evs))) \<and>
    (\<forall>ev \<in> set (take j evs). int (fst ev) - int counter < int (unat frames))"
proof -
  let ?n = "rb_read_space r"
  have u: "unat ?n = length (events_bytes evs)" using rb.used_contents [OF assms(1)] assms(4) by simp
  have le: "unat ?n < JM_RINGBUFFER_SIZE" using rb.contents_within [OF assms(1)] assms(2,4) u by simp
  have "0 < length (events_bytes evs)" using assms(5) by (cases evs) auto
  then have nz: "?n \<noteq> 0" using u by (metis less_numeral_extra(3) unat_0)
  have peek: "rb_peek r pad ?n = Some (events_bytes evs @ drop (length (events_bytes evs)) pad, ?n)"
    using rb.peek_exact [OF assms(1) order_refl, of pad] le assms(3,4) u by simp
  obtain j where j: "j < length evs"
    "read_space_loop (events_bytes evs @ drop (length (events_bytes evs)) pad) counter frames 0 0 (length (events_bytes evs)) =
      Some (length (events_bytes (take j evs)))"
    "\<forall>ev \<in> set (take j evs). int (fst ev) - int counter < int (unat frames)"
    using read_space_loop_spec [OF assms(5) _ assms(6), of 0 "events_bytes evs @ drop (length (events_bytes evs)) pad"
        "drop (length (events_bytes evs)) pad" counter frames 0] le u
    by (auto simp: JM_RINGBUFFER_SIZE_def)
  then show ?thesis
    using nz peek u by (intro exI [of _ j]) (simp add: jm_cached_midi_inputs_read_space_def)
qed

text \<open>
  The recovery of the cache of an input port moves whole events from the front of the cache to the end of the port's queue, only
  events that are due in the next \<^verbatim>\<open>frames\<close> frames, and loses none, but never the last cached one: the
  loop counts an event as readable only when another one follows it, so a single cached event stays in the cache however
  old it is.
\<close>

theorem recovery_keeps_last_event:
  assumes "rb_ok (jm_cache p)" and "rb_capacity (jm_cache p) < JM_RINGBUFFER_SIZE" and "length pad = JM_RINGBUFFER_SIZE"
    and "rb_contents (jm_cache p) = events_bytes evs" and "evs \<noteq> []" and "\<forall>ev \<in> set evs. fst ev < 2 ^ 53"
    and "rb_ok (jm_rb p)"
  shows "\<exists>pad' p' j. jm_read_cached_midi_input counter frames pad (Some buf) p res = Some (pad', p', res) \<and>
    j < length evs \<and> (\<forall>ev \<in> set (take j evs). int (fst ev) - int counter < int (unat frames)) \<and>
    rb_ok (jm_cache p') \<and> rb_contents (jm_cache p') = events_bytes (drop j evs) \<and>
    rb_ok (jm_rb p') \<and> rb_contents (jm_rb p') = rb_contents (jm_rb p) @ events_bytes (take j evs)"
proof -
  obtain j where j: "j < length evs"
    "jm_cached_midi_inputs_read_space (jm_cache p) pad counter frames =
      Some (events_bytes evs @ drop (length (events_bytes evs)) pad, length (events_bytes (take j evs)))"
    "\<forall>ev \<in> set (take j evs). int (fst ev) - int counter < int (unat frames)"
    using cached_read_space_spec [OF assms(1-6)] by blast
  let ?n = "length (events_bytes (take j evs))" and ?pad = "events_bytes evs @ drop (length (events_bytes evs)) pad"
  have split: "events_bytes evs = events_bytes (take j evs) @ events_bytes (drop j evs)"
    unfolding concat_append [symmetric] map_append [symmetric] append_take_drop_id ..
  have le: "length (events_bytes evs) < JM_RINGBUFFER_SIZE"
    using rb.contents_within [OF assms(1)] assms(2,4) by simp
  show ?thesis
  proof (cases "0 < ?n \<and> ?n \<le> unat (rb_write_space (jm_rb p))")
    case False
    then have "jm_read_cached_midi_input counter frames pad (Some buf) p res = Some (?pad, p\<lparr>port_buffer := Some buf\<rparr>, res)"
      using j(2) by (auto simp: jm_read_cached_midi_input_def Let_def)
    then show ?thesis using assms(1,4,5,7) by (intro exI [of _ ?pad] exI [of _ "p\<lparr>port_buffer := Some buf\<rparr>"] exI [of _ 0]) simp
  next
    case True
    have u: "unat (word_of_nat ?n :: u32) = ?n"
      using le split by (intro unat_small) (simp add: JM_RINGBUFFER_SIZE_def)
    have lp: "length ?pad = JM_RINGBUFFER_SIZE" using le assms(3) by simp
    have n1: "(word_of_nat ?n :: u32) \<le> rb_read_space (jm_cache p)" "(word_of_nat ?n :: u32) \<le> rb_write_space (jm_rb p)"
      using True u rb.used_contents [OF assms(1)] assms(4) split by (simp_all add: word_le_nat_alt)
    have n2: "unat (word_of_nat ?n :: u32) \<le> length ?pad" using u lp le split by simp
    obtain c where c: "rb_read (jm_cache p) ?pad (word_of_nat ?n) =
        Some (c, take ?n (events_bytes evs) @ drop ?n ?pad, word_of_nat ?n)"
      "rb_ok c" "rb_contents c = drop ?n (events_bytes evs)"
      using rb.get_exact [OF assms(1) n1(1) n2] unfolding u assms(4) by blast
    let ?pad2 = "take ?n (events_bytes evs) @ drop ?n ?pad"
    have "take ?n (events_bytes evs) = events_bytes (take j evs)" by (simp add: split)
    then have "unat (word_of_nat ?n :: u32) \<le> length ?pad2" unfolding u by simp
    then obtain r where r: "rb_write (jm_rb p) ?pad2 (word_of_nat ?n) = Some (r, word_of_nat ?n)"
      "rb_ok r" "rb_contents r = rb_contents (jm_rb p) @ take ?n ?pad2"
      using rb.put_fits [OF assms(7) n1(2)] unfolding u by metis
    have "jm_read_cached_midi_input counter frames pad (Some buf) p res =
        Some (?pad2, p\<lparr>port_buffer := Some buf, jm_cache := c, jm_rb := r\<rparr>, res)"
      using True j(2) c(1) r(1) unfolding jm_read_cached_midi_input_def by (simp add: Let_def)
    moreover have "take ?n ?pad2 = events_bytes (take j evs)" by (simp add: split)
    moreover have "drop ?n (events_bytes evs) = events_bytes (drop j evs)" by (simp add: split)
    ultimately show ?thesis using j(1,3) c(2,3) r(2,3) by fastforce
  qed
qed

theorem recovery_keeps_last_event_witness:
  "\<exists>pad' p'. jm_read_cached_midi_input 1000 64 (replicate 65536 0) (Some [])
      (midi_example\<lparr>jm_cache := jm_rb midi_example2\<rparr>) 0 = Some (pad', p', 0) \<and>
    rb_contents (jm_cache p') \<noteq> []"
proof -
  have ok: "rb_ok (jm_rb midi_example2)"
    by (rule rb_okI [of 5]) (simp_all add: midi_example2_def)
  have c: "rb_contents (jm_rb midi_example2) = events_bytes [(105, [0xF8]), (106, [0xFA])]"
    by (simp add: rb_contents_def rb_read_space_def midi_example2_def ring_slice_straight)
  have cap: "rb_capacity (jm_rb midi_example2) = 31" by (simp add: midi_example2_def rb_capacity_def)
  obtain pad' p' j where r: "jm_read_cached_midi_input 1000 64 (replicate 65536 0) (Some [])
      (midi_example\<lparr>jm_cache := jm_rb midi_example2\<rparr>) 0 = Some (pad', p', 0)"
    "j < length [(105, [0xF8]), (106, [0xFA :: byte])]"
    "rb_contents (jm_cache p') = events_bytes (drop j [(105, [0xF8]), (106, [0xFA])])"
    using recovery_keeps_last_event [of "midi_example\<lparr>jm_cache := jm_rb midi_example2\<rparr>" "replicate 65536 0"
        "[(105, [0xF8]), (106, [0xFA])]" 1000 64 "[]" 0] ok c cap midi_example_facts(1)
    by (auto simp: JM_RINGBUFFER_SIZE_def)
  have "j = 0 \<or> j = 1" using r(2) by auto
  then have "rb_contents (jm_cache p') \<noteq> []" using r(3) by (elim disjE) (simp_all del: concat_eq_Nil_conv)
  with r(1) show ?thesis by blast
qed

end
