(* ===== verification/JackAudio.thy ===== *)
theory JackAudio
  imports RingBuffer OscMem Complex_Main
begin

text \<open>
  The audio cycle of the JACK driver (\<^verbatim>\<open>src/src/rtjack.c\<close>): the cache of inputs and the cycle counter (lines 46 to 180), the copies
  between JACK's buffers and the interleaved buffers of Lisp (lines 702 to 820).

  JACK's samples are 32-bit words, the bit patterns of \<^verbatim>\<open>float\<close>; Lisp's are of a type \<open>'s\<close>, and \<open>conv\<close> and \<open>unconv\<close> are
  the two casts. An access outside of a block or through a pointer without a target is \<open>None\<close>.
\<close>

section \<open>State\<close>

text \<open>An entry of the array of ring buffers: not yet written, a null pointer, or a ring buffer.\<close>

datatype slot = Uninit | Null | Ring ringbuffer

record 's ja =
  ja_in_channels :: nat
  ja_out_channels :: nat
  ja_frames :: nat
  ja_buffer_bytes :: nat
  ja_inputs :: "u32 list list"
  ja_outputs :: "u32 list list"
  ja_tmp_inputs :: "byte list"
  ja_inputs_cache :: "slot list option"
  lisp_input :: "'s list"
  lisp_output :: "'s list"
  ja_sample_counter :: nat
  ja_cycle_start_time :: nat

definition JA_SUSPENDED_CYCLE :: byte where "JA_SUSPENDED_CYCLE = 0"
definition JA_CONTINUE_LAST_CYCLE :: byte where "JA_CONTINUE_LAST_CYCLE = 1"
definition JA_MAX_RECOVERED_CYCLES :: u32 where "JA_MAX_RECOVERED_CYCLES = 32"
definition JA_SAMPLE_SIZE :: nat where "JA_SAMPLE_SIZE = 4"

definition float_bytes :: "u32 list \<Rightarrow> byte list" where
  "float_bytes xs = concat (map bytes_of xs)"

definition ring_at :: "slot list \<Rightarrow> nat \<Rightarrow> ringbuffer option" where
  "ring_at slots i = (if i < length slots then case slots ! i of Ring r \<Rightarrow> Some r | _ \<Rightarrow> None else None)"

section \<open>Allocation of the cache\<close>

text \<open>
  \<open>create i n\<close> is the result of \<^verbatim>\<open>incudine_ringbuffer_create\<close> for entry \<open>i\<close>. The result tells whether all of them succeed.
\<close>

fun alloc_rings :: "(nat \<Rightarrow> u32 \<Rightarrow> ringbuffer option) \<Rightarrow> u32 \<Rightarrow> nat list \<Rightarrow> slot list \<Rightarrow> slot list \<times> bool" where
  "alloc_rings create n [] slots = (slots, True)"
| "alloc_rings create n (i # is) slots =
     (case create i n of
        None \<Rightarrow> (slots[i := Null], False)
      | Some r \<Rightarrow> alloc_rings create n is (slots[i := Ring r]))"

text \<open>
  \<open>n\<close> is the size \<^verbatim>\<open>(unsigned int) (ja_sample_rate * MAX_GC_TIME_SEC * JA_SAMPLE_SIZE)\<close>. The second component is the status; when it
  is not zero the code calls \<^verbatim>\<open>ja_error\<close>.
\<close>

definition ja_alloc_input_cache ::
  "bool \<Rightarrow> (nat \<Rightarrow> u32 \<Rightarrow> ringbuffer option) \<Rightarrow> u32 \<Rightarrow> nat \<Rightarrow> slot list option \<times> int" where
  "ja_alloc_input_cache ok create n channels =
     (if \<not> ok then (None, 1)
      else let (slots, all) = alloc_rings create n [0..<channels] (replicate (channels + 1) Uninit) in
        if \<not> all then (Some slots, 1)
        else case create channels JA_MAX_RECOVERED_CYCLES of
          None \<Rightarrow> (Some (slots[channels := Null]), 1)
        | Some r \<Rightarrow> (Some (slots[channels := Ring r]), 0))"

fun free_rings :: "slot list \<Rightarrow> nat list \<Rightarrow> nat option" where
  "free_rings slots [] = Some 0"
| "free_rings slots (i # is) =
     (if length slots \<le> i then None
      else case slots ! i of
        Uninit \<Rightarrow> None
      | Null \<Rightarrow> free_rings slots is
      | Ring r \<Rightarrow> map_option Suc (free_rings slots is))"

text \<open>The number of ring buffers freed; \<open>None\<close> when an entry that was never written is read.\<close>

definition ja_free_input_cache :: "slot list option \<Rightarrow> nat \<Rightarrow> nat option" where
  "ja_free_input_cache cache channels =
     (case cache of None \<Rightarrow> Some 0 | Some slots \<Rightarrow> free_rings slots [0..<channels + 1])"

section \<open>The cycle counter and the cache\<close>

definition ja_increment_cycle_counter :: "byte \<Rightarrow> 's ja \<Rightarrow> 's ja option" where
  "ja_increment_cycle_counter type ja =
     (case ja_inputs_cache ja of
        None \<Rightarrow> Some ja
      | Some slots \<Rightarrow> do {
          r \<leftarrow> ring_at slots (ja_in_channels ja);
          (r, _) \<leftarrow> rb_write r [type] 1;
          Some (ja\<lparr>ja_inputs_cache := Some (slots[ja_in_channels ja := Ring r])\<rparr>)
        })"

definition ja_has_cached_inputs :: "'s ja \<Rightarrow> bool option" where
  "ja_has_cached_inputs ja =
     (case ja_inputs_cache ja of
        None \<Rightarrow> Some False
      | Some slots \<Rightarrow> do { r \<leftarrow> ring_at slots (ja_in_channels ja); Some (\<not> rb_empty r) })"

definition ja_is_last_cycle :: "'s ja \<Rightarrow> bool option" where
  "ja_is_last_cycle ja = do {
     cached \<leftarrow> ja_has_cached_inputs ja;
     if cached then do {
       slots \<leftarrow> ja_inputs_cache ja;
       r \<leftarrow> ring_at slots (ja_in_channels ja);
       (c, n) \<leftarrow> rb_peek r [0] 1;
       Some (n = 1 \<and> c = [JA_CONTINUE_LAST_CYCLE])
     }
     else Some False
   }"

fun cache_channels :: "u32 list list \<Rightarrow> nat \<Rightarrow> nat list \<Rightarrow> slot list \<Rightarrow> nat \<Rightarrow> (slot list \<times> nat) option" where
  "cache_channels inputs bytes [] slots res = Some (slots, res)"
| "cache_channels inputs bytes (i # is) slots res = do {
     x \<leftarrow> load inputs i;
     r \<leftarrow> ring_at slots i;
     (r, n) \<leftarrow> rb_write r (float_bytes x) (word_of_nat bytes);
     cache_channels inputs bytes is (slots[i := Ring r]) (if 0 < n then res + 1 else res)
   }"

definition ja_cache_inputs :: "'s ja \<Rightarrow> ('s ja \<times> bool) option" where
  "ja_cache_inputs ja =
     (case ja_inputs_cache ja of
        None \<Rightarrow> Some (ja, False)
      | Some slots \<Rightarrow> do {
          (slots, res) \<leftarrow> cache_channels (ja_inputs ja) (ja_buffer_bytes ja) [0..<ja_in_channels ja] slots 0;
          ja \<leftarrow> ja_increment_cycle_counter JA_SUSPENDED_CYCLE (ja\<lparr>ja_inputs_cache := Some slots\<rparr>);
          Some (ja, res = ja_in_channels ja)
        })"

fun reset_rings :: "nat list \<Rightarrow> slot list \<Rightarrow> slot list option" where
  "reset_rings [] slots = Some slots"
| "reset_rings (i # is) slots = do {
     r \<leftarrow> ring_at slots i;
     reset_rings is (slots[i := Ring (rb_reset r)])
   }"

definition ja_clear_cached_inputs :: "'s ja \<Rightarrow> 's ja option" where
  "ja_clear_cached_inputs ja =
     (case ja_inputs_cache ja of
        None \<Rightarrow> Some ja
      | Some slots \<Rightarrow> do {
          slots \<leftarrow> reset_rings [0..<ja_in_channels ja + 1] slots;
          Some (ja\<lparr>ja_inputs_cache := Some slots\<rparr>)
        })"

text \<open>
  The copy of a channel into the interleaved buffer: \<open>n\<close> samples from \<open>get j\<close> on, to the positions \<open>p\<close>, \<open>p + step\<close>
  and so on.
\<close>

fun copy_channel ::
  "(nat \<Rightarrow> u32 option) \<Rightarrow> (u32 \<Rightarrow> 's) \<Rightarrow> nat \<Rightarrow> nat \<Rightarrow> nat \<Rightarrow> nat \<Rightarrow> 's list \<Rightarrow> 's list option" where
  "copy_channel get conv step 0 j p dest = Some dest"
| "copy_channel get conv step (Suc n) j p dest = do {
     x \<leftarrow> get j;
     dest \<leftarrow> store dest p (conv x);
     copy_channel get conv step n (j + 1) (p + step) dest
   }"

fun recover_channels ::
  "(u32 \<Rightarrow> 's) \<Rightarrow> 's ja \<Rightarrow> nat list \<Rightarrow> slot list \<Rightarrow> bool \<Rightarrow> ('s ja \<times> slot list \<times> bool) option" where
  "recover_channels conv ja [] slots res = Some (ja, slots, res)"
| "recover_channels conv ja (i # is) slots res = do {
     r \<leftarrow> ring_at slots i;
     (r, tmp, n) \<leftarrow> rb_read r (ja_tmp_inputs ja) (word_of_nat (ja_buffer_bytes ja));
     inp \<leftarrow> copy_channel (\<lambda>j. load32 tmp (4 * j)) conv (ja_in_channels ja) (ja_frames ja) 0 i (lisp_input ja);
     recover_channels conv (ja\<lparr>ja_tmp_inputs := tmp, lisp_input := inp\<rparr>) is (slots[i := Ring r]) (res \<or> 0 < n)
   }"

definition ja_inputs_from_cache_begin :: "(u32 \<Rightarrow> 's) \<Rightarrow> 's ja \<Rightarrow> ('s ja \<times> bool) option" where
  "ja_inputs_from_cache_begin conv ja =
     (case ja_inputs_cache ja of
        None \<Rightarrow> Some (ja, False)
      | Some slots \<Rightarrow> do {
          (ja, slots, res) \<leftarrow> recover_channels conv ja [0..<ja_in_channels ja] slots False;
          Some (ja\<lparr>ja_inputs_cache := Some slots\<rparr>, res)
        })"

definition ja_inputs_from_cache_end :: "'s ja \<Rightarrow> ('s ja \<times> nat) option" where
  "ja_inputs_from_cache_end ja =
     (case ja_inputs_cache ja of
        None \<Rightarrow> Some (ja, 0)
      | Some slots \<Rightarrow> do {
          r \<leftarrow> ring_at slots (ja_in_channels ja);
          (r, _, n) \<leftarrow> rb_read r [0] 1;
          Some (ja\<lparr>ja_inputs_cache := Some (slots[ja_in_channels ja := Ring r])\<rparr>, unat n)
        })"

section \<open>Audio cycles\<close>

fun begin_channels ::
  "(u32 \<Rightarrow> 's) \<Rightarrow> nat \<Rightarrow> nat \<Rightarrow> u32 list list \<Rightarrow> nat list \<Rightarrow> 's list \<Rightarrow> 's list option" where
  "begin_channels conv channels frames inputs [] dest = Some dest"
| "begin_channels conv channels frames inputs (i # is) dest = do {
     x \<leftarrow> load inputs i;
     dest \<leftarrow> copy_channel (load x) conv channels frames 0 i dest;
     begin_channels conv channels frames inputs is dest
   }"

definition ja_set_lisp_io :: "'s list \<Rightarrow> 's list \<Rightarrow> 's ja \<Rightarrow> 's ja" where
  "ja_set_lisp_io inp out ja = ja\<lparr>lisp_input := inp, lisp_output := out\<rparr>"

text \<open>The new values of \<^verbatim>\<open>lisp_max_bufsize\<close> and \<^verbatim>\<open>lisp_bufsize_mask\<close>.\<close>

definition ja_set_lisp_max_bufsize :: "u32 \<Rightarrow> u32 \<times> u32" where
  "ja_set_lisp_max_bufsize val = (val, val - 1)"

text \<open>\<open>ins\<close> and \<open>outs\<close> are the buffers that JACK returns for the ports.\<close>

definition ja_continue_cycle_begin ::
  "(u32 \<Rightarrow> 's) \<Rightarrow> u32 list list \<Rightarrow> u32 list list \<Rightarrow> nat \<Rightarrow> 's ja \<Rightarrow> 's ja option" where
  "ja_continue_cycle_begin conv ins outs frames ja = do {
     inp \<leftarrow> begin_channels conv (ja_in_channels ja) frames ins [0..<ja_in_channels ja] (lisp_input ja);
     Some (ja\<lparr>ja_inputs := ins, lisp_input := inp, ja_outputs := outs, ja_cycle_start_time := ja_sample_counter ja\<rparr>)
   }"

text \<open>
  \<open>running1\<close> and \<open>running2\<close> are the two tests of the status, \<open>wait\<close> the frames that \<^verbatim>\<open>jack_cycle_wait\<close> returns, \<open>bmask\<close> the
  variable \<^verbatim>\<open>lisp_bufsize_mask\<close>. The buffers depend on the number of frames.
\<close>

definition ja_cycle_begin ::
  "(u32 \<Rightarrow> 's) \<Rightarrow> bool \<Rightarrow> bool \<Rightarrow> u32 \<Rightarrow> u32 \<Rightarrow> (u32 \<Rightarrow> u32 list list) \<Rightarrow> (u32 \<Rightarrow> u32 list list) \<Rightarrow> 's ja
     \<Rightarrow> ('s ja \<times> u32) option" where
  "ja_cycle_begin conv running1 running2 wait bmask ins outs ja =
     (if \<not> running1 then Some (ja, 0)
      else let frames = 1 + ((wait - 1) AND bmask) in
        if \<not> running2 then Some (ja, 0)
        else do {
          inp \<leftarrow> begin_channels conv (ja_in_channels ja) (unat frames) (ins frames) [0..<ja_in_channels ja] (lisp_input ja);
          Some (ja\<lparr>ja_inputs := ins frames, lisp_input := inp, ja_outputs := outs frames,
            ja_cycle_start_time := ja_sample_counter ja\<rparr>, frames)
        })"

text \<open>One frame, then all of them; \<open>pos\<close> is the pointer \<^verbatim>\<open>output\<close>.\<close>

fun out_frame ::
  "('s \<Rightarrow> u32) \<Rightarrow> 's::zero list \<Rightarrow> u32 list list \<Rightarrow> nat \<Rightarrow> nat \<Rightarrow> nat list \<Rightarrow> ('s list \<times> u32 list list \<times> nat) option" where
  "out_frame unconv src outs i pos [] = Some (src, outs, pos)"
| "out_frame unconv src outs i pos (j # js) = do {
     x \<leftarrow> load src pos;
     ch \<leftarrow> load outs j;
     ch \<leftarrow> store ch i (unconv x);
     src \<leftarrow> store src pos 0;
     out_frame unconv src (outs[j := ch]) i (pos + 1) js
   }"

fun out_frames ::
  "('s \<Rightarrow> u32) \<Rightarrow> nat \<Rightarrow> 's::zero list \<Rightarrow> u32 list list \<Rightarrow> nat \<Rightarrow> nat list \<Rightarrow> ('s list \<times> u32 list list) option" where
  "out_frames unconv channels src outs pos [] = Some (src, outs)"
| "out_frames unconv channels src outs pos (i # is) = do {
     (src, outs, pos) \<leftarrow> out_frame unconv src outs i pos [0..<channels];
     out_frames unconv channels src outs pos is
   }"

definition ja_cycle_end :: "('s \<Rightarrow> u32) \<Rightarrow> nat \<Rightarrow> 's::zero ja \<Rightarrow> 's ja option" where
  "ja_cycle_end unconv frames ja = do {
     (src, outs) \<leftarrow> out_frames unconv (ja_out_channels ja) (lisp_output ja) (ja_outputs ja) 0 [0..<frames];
     Some (ja\<lparr>lisp_output := src, ja_outputs := outs\<rparr>)
   }"

section \<open>Time\<close>

definition ja_get_cycle_start_time :: "'s ja \<Rightarrow> nat" where
  "ja_get_cycle_start_time ja = ja_cycle_start_time ja"

text \<open>
  \<open>since\<close> is \<^verbatim>\<open>jack_frames_since_cycle_start\<close>. The comparison of the \<^verbatim>\<open>int\<close> with it is unsigned.
\<close>

definition ja_get_time_offset_frames :: "bool \<Rightarrow> u32 \<Rightarrow> 's ja \<Rightarrow> u32" where
  "ja_get_time_offset_frames client since ja =
     (if client then
        let frames = word_of_int (int (ja_sample_counter ja) - int (ja_cycle_start_time ja)) in
        if since < frames then frames - since else 0
      else 0)"

definition ja_get_time_offset_seconds :: "bool \<Rightarrow> u32 \<Rightarrow> real \<Rightarrow> 's ja \<Rightarrow> real" where
  "ja_get_time_offset_seconds client since duration ja =
     (if client then
        let frames = word_of_int (int (ja_sample_counter ja) - int (ja_cycle_start_time ja)) in
        if since < frames then real (unat (frames - since)) * duration else 0
      else 0)"

end
