(* ===== verification/CycleCache.thy ===== *)
theory CycleCache
  imports Prelude
begin

text \<open>
  The contract between an audio driver that caches the cycles suspended during a garbage collection and the loop that recovers them
  (\<^verbatim>\<open>recover-suspended-audio-cycles\<close> in \<^verbatim>\<open>src/src/rt.lisp\<close>, lines 232 to 244). The JACK and the PortAudio driver both provide it.
\<close>

text \<open>The loop: while cycles are cached, recover the first one; \<open>n\<close> bounds the number of rounds.\<close>

fun recover_cycles :: "('s \<Rightarrow> bool option) \<Rightarrow> ('s \<Rightarrow> ('s \<times> 'o) option) \<Rightarrow> nat \<Rightarrow> 's \<Rightarrow> ('s \<times> 'o list) option" where
  "recover_cycles cached recover 0 s = Some (s, [])"
| "recover_cycles cached recover (Suc n) s = do {
     more \<leftarrow> cached s;
     if more then do {
       (s, x) \<leftarrow> recover s;
       (s, xs) \<leftarrow> recover_cycles cached recover n s;
       Some (s, x # xs)
     }
     else Some (s, [])
   }"

text \<open>
  One round of the loop, for a Lisp that runs beside the driver's thread: \<open>xs\<close> are the cycles it has processed so far, \<open>m\<close> is the rest of its state.
\<close>

definition recover_once ::
  "('s \<Rightarrow> bool option) \<Rightarrow> ('s \<Rightarrow> ('s \<times> 'o) option) \<Rightarrow> 'm \<times> 'o list \<Rightarrow> 's \<Rightarrow> (('m \<times> 'o list) \<times> 's) option" where
  "recover_once cached recover = (\<lambda>(m, xs) s. do {
     more \<leftarrow> cached s;
     if more then do { (s, x) \<leftarrow> recover s; Some ((m, xs @ [x]), s) } else Some ((m, xs), s)
   })"

text \<open>
  The bound for an interleaving: \<open>w\<close> cycles wait at first; a step \<open>(r, c)\<close> recovers one of them if \<open>r\<close> holds, and suspends another if \<open>c\<close> holds. There are never more than
  \<open>k\<close> waiting.
\<close>

fun backlog_ok :: "nat \<Rightarrow> nat \<Rightarrow> (bool \<times> bool) list \<Rightarrow> bool" where
  "backlog_ok k w [] \<longleftrightarrow> w \<le> k"
| "backlog_ok k w ((r, c) # es) \<longleftrightarrow>
     (let w = (if r then w - 1 else w) in if c then w < k \<and> backlog_ok k (w + 1) es else backlog_ok k w es)"

text \<open>
  \<open>holds s q ts\<close>: the driver's cache has the cycles \<open>q\<close> and the counter the kinds \<open>ts\<close>. \<open>room\<close> tells that one more cycle fits, \<open>fits\<close> that a cycle has
  the current size, \<open>delivered c x\<close> that Lisp gets the cycle \<open>c\<close> as \<open>x\<close>.
\<close>

locale cycle_cache =
  fixes holds :: "'s \<Rightarrow> 'c list \<Rightarrow> byte list \<Rightarrow> bool"
    and room :: "'s \<Rightarrow> bool"
    and fits :: "'c \<Rightarrow> bool"
    and delivered :: "'c \<Rightarrow> 'o \<Rightarrow> bool"
    and put :: "'c \<Rightarrow> 's \<Rightarrow> 's option"
    and cached :: "'s \<Rightarrow> bool option"
    and recover :: "'s \<Rightarrow> ('s \<times> 'o) option"
  assumes put_law: "holds s q ts \<Longrightarrow> fits c \<Longrightarrow> room s \<Longrightarrow> \<exists>s'. put c s = Some s' \<and> holds s' (q @ [c]) (ts @ [0])"
    and cached_law: "holds s q ts \<Longrightarrow> cached s = Some (ts \<noteq> [])"
    and recover_law: "holds s (c # q) (t # ts) \<Longrightarrow> fits c \<Longrightarrow>
      \<exists>s' x. recover s = Some (s', x) \<and> holds s' q ts \<and> delivered c x"
begin

lemma recover_all:
  assumes "holds s q ts" and "length q = length ts" and "\<forall>c \<in> set q. fits c" and "length q < n"
  shows "\<exists>s' xs. recover_cycles cached recover n s = Some (s', xs) \<and> holds s' [] [] \<and> list_all2 delivered q xs"
  using assms
proof (induction n arbitrary: s q ts)
  case (Suc n)
  show ?case
  proof (cases q)
    case Nil
    then show ?thesis using Suc.prems cached_law [OF Suc.prems(1)] by simp
  next
    case (Cons c q')
    then obtain t ts' where ts: "ts = t # ts'" using Suc.prems(2) by (cases ts) auto
    have "holds s (c # q') (t # ts')" "fits c" using Suc.prems(1,3) Cons ts by simp_all
    from recover_law [OF this] obtain s1 x where s1: "recover s = Some (s1, x)" "holds s1 q' ts'" "delivered c x" by blast
    have "length q' = length ts'" "\<forall>c \<in> set q'. fits c" "length q' < n" using Suc.prems(2-4) Cons ts by simp_all
    from Suc.IH [OF s1(2) this] obtain s' xs where
      "recover_cycles cached recover n s1 = Some (s', xs)" "holds s' [] []" "list_all2 delivered q' xs" by blast
    then show ?thesis using s1 Cons ts cached_law [OF Suc.prems(1)] by auto
  qed
qed simp

lemma recover_beside:
  assumes "holds s q ts" and "length q = length ts" and "\<forall>c \<in> set q. fits c"
  obtains s' xs' p q' ts' where "recover_once cached recover (m, xs) s = Some ((m, xs @ xs'), s')" and "holds s' q' ts'" and "q = p @ q'"
    and "list_all2 delivered p xs'" and "length q' = length q - 1" and "length q' = length ts'" and "s' = s \<or> (\<exists>x. recover s = Some (s', x))"
proof (cases q)
  case Nil
  then have "recover_once cached recover (m, xs) s = Some ((m, xs @ []), s)"
    using assms(2) cached_law [OF assms(1)] by (simp add: recover_once_def)
  then show ?thesis using that [of "[]" s q ts "[]"] assms(1,2) Nil by simp
next
  case (Cons b q1)
  then obtain t ts1 where ts: "ts = t # ts1" using assms(2) by (cases ts) auto
  have c: "holds s (b # q1) (t # ts1)" "fits b" using assms Cons ts by simp_all
  obtain s' x where r: "recover s = Some (s', x)" "holds s' q1 ts1" "delivered b x" using recover_law [OF c] by blast
  have "recover_once cached recover (m, xs) s = Some ((m, xs @ [x]), s')"
    using cached_law [OF c(1)] r(1) by (simp add: recover_once_def)
  then show ?thesis using that [of "[x]" s' q1 ts1 "[b]"] Cons ts assms(2) r by simp
qed

lemma suspend_then_recover:
  assumes "holds s q ts" and "length q = length ts" and "\<forall>c \<in> set (q @ [c]). fits c" and "room s"
  shows "\<exists>s1 s2 xs. put c s = Some s1 \<and> recover_cycles cached recover (length q + 2) s1 = Some (s2, xs) \<and>
    list_all2 delivered (q @ [c]) xs \<and> cached s2 = Some False"
proof -
  obtain s1 where s1: "put c s = Some s1" "holds s1 (q @ [c]) (ts @ [0])"
    using put_law [OF assms(1) _ assms(4)] assms(3) by auto
  from recover_all [OF s1(2) _ assms(3), of "length q + 2"] assms(2) obtain s2 xs where
    "recover_cycles cached recover (length q + 2) s1 = Some (s2, xs)" "holds s2 [] []" "list_all2 delivered (q @ [c]) xs"
    by auto
  then show ?thesis using s1(1) cached_law [of s2 "[]" "[]"] by auto
qed

end

end
