(* ===== verification/JackAudioProps.thy ===== *)
theory JackAudioProps
  imports JackAudio CycleCache
begin

text \<open>
  What the audio cycle guarantees: the cache is a queue of whole cycles, the copies to and from Lisp's buffers interleave
  and separate the channels.
\<close>

section \<open>Bytes of samples\<close>

lemma length_float_bytes [simp]: "length (float_bytes xs) = 4 * length xs"
  by (induction xs) (simp_all add: float_bytes_def)

lemma float_bytes_append [simp]: "float_bytes (xs @ ys) = float_bytes xs @ float_bytes ys"
  by (simp add: float_bytes_def)

lemma float_bytes_load:
  assumes "j < length xs"
  shows "load32 (float_bytes xs @ rest) (4 * j) = Some (xs ! j)"
proof -
  have "float_bytes xs = float_bytes (take j xs) @ bytes_of (xs ! j) @ float_bytes (drop (Suc j) xs)"
    by (subst id_take_nth_drop [OF assms]) (simp add: float_bytes_def)
  then have "take 4 (drop (4 * j) (float_bytes xs @ rest)) = bytes_of (xs ! j)"
    using assms by simp
  then show ?thesis using assms by (simp add: load32_def)
qed

section \<open>Copies of channels\<close>

lemma copy_channel_spec:
  assumes "\<And>k. k < n \<Longrightarrow> get (j + k) = Some (v k)" and "\<And>k. k < n \<Longrightarrow> p + k * step < length dest" and "0 < step"
  shows "\<exists>d. copy_channel get conv step n j p dest = Some d \<and> length d = length dest \<and>
    (\<forall>k < n. d ! (p + k * step) = conv (v k)) \<and>
    (\<forall>q. (\<forall>k < n. q \<noteq> p + k * step) \<longrightarrow> d ! q = dest ! q)"
  using assms
proof (induction n arbitrary: j p dest v)
  case (Suc n)
  have get: "get j = Some (v 0)" using Suc.prems(1) [of 0] by simp
  have p: "p < length dest" using Suc.prems(2) [of 0] by simp
  have 1: "get (j + 1 + k) = Some (v (Suc k))" if "k < n" for k using Suc.prems(1) [of "Suc k"] that by simp
  have 2: "p + step + k * step < length (dest[p := conv (v 0)])" if "k < n" for k
    using Suc.prems(2) [of "Suc k"] that by (simp add: add.assoc)
  from Suc.IH [OF 1 2 Suc.prems(3)] obtain d where
    d: "copy_channel get conv step n (j + 1) (p + step) (dest[p := conv (v 0)]) = Some d" "length d = length dest"
      "\<forall>k < n. d ! (p + step + k * step) = conv (v (Suc k))"
      "\<forall>q. (\<forall>k < n. q \<noteq> p + step + k * step) \<longrightarrow> d ! q = dest[p := conv (v 0)] ! q"
    by auto
  have "d ! p = conv (v 0)" using d(4) Suc.prems(3) p by simp
  then have "d ! (p + k * step) = conv (v k)" if "k < Suc n" for k
    using d(3) that by (cases k) (simp_all add: add.assoc)
  moreover have "d ! q = dest ! q" if "\<forall>k < Suc n. q \<noteq> p + k * step" for q
  proof -
    have "q \<noteq> p" using that by force
    moreover have "\<forall>k < n. q \<noteq> p + step + k * step" using that by (metis Suc_less_eq add.assoc mult_Suc)
    ultimately show ?thesis using d(4) by simp
  qed
  ultimately show ?case using get p d(1,2) by (simp add: store_in)
qed simp

text \<open>Different channels have different positions.\<close>

lemma interleaved_inj:
  assumes "i < c" and "i' < c" and "i + k * c = i' + k' * (c :: nat)"
  shows "i = i' \<and> k = k'"
proof -
  have "(i + k * c) mod c = i" "(i' + k' * c) mod c = i'" "(i + k * c) div c = k" "(i' + k' * c) div c = k'"
    using assms(1,2) by simp_all
  then show ?thesis using assms(3) by metis
qed

lemma interleaved_less:
  assumes "i < c" and "j < n"
  shows "i + j * c < n * (c :: nat)"
proof -
  have "i + j * c < Suc j * c" using assms(1) by simp
  also have "\<dots> \<le> n * c" using assms(2) by (intro mult_right_mono) simp_all
  finally show ?thesis .
qed

text \<open>\<open>interleaves conv c n xs d is\<close>: the channels \<open>is\<close> of \<open>d\<close> hold the first \<open>n\<close> samples of the channels \<open>xs\<close>.\<close>

definition interleaves :: "(u32 \<Rightarrow> 's) \<Rightarrow> nat \<Rightarrow> nat \<Rightarrow> u32 list list \<Rightarrow> 's list \<Rightarrow> nat set \<Rightarrow> bool" where
  "interleaves conv c n xs d chans \<longleftrightarrow> (\<forall>i \<in> chans. \<forall>j < n. d ! (i + j * c) = conv (xs ! i ! j))"

lemma copy_channel_interleaves:
  assumes "\<And>k. k < n \<Longrightarrow> get k = Some (xs ! i ! k)" and "n * c \<le> length dest" and "i < c" and "chans \<subseteq> {..<c}"
    and "interleaves conv c n xs dest chans"
  shows "\<exists>d. copy_channel get conv c n 0 i dest = Some d \<and> length d = length dest \<and>
    interleaves conv c n xs d (insert i chans)"
proof -
  have "i + k * c < length dest" if "k < n" for k
    using interleaved_less [OF assms(3) that] assms(2) by simp
  moreover have "0 < c" using assms(3) by simp
  ultimately obtain d where d: "copy_channel get conv c n 0 i dest = Some d" "length d = length dest"
    "\<forall>k < n. d ! (i + k * c) = conv (xs ! i ! k)"
    "\<forall>q. (\<forall>k < n. q \<noteq> i + k * c) \<longrightarrow> d ! q = dest ! q"
    using copy_channel_spec [of n get 0 "\<lambda>k. xs ! i ! k" i c dest conv] assms(1) by auto
  have "d ! (i' + j * c) = conv (xs ! i' ! j)" if "i' \<in> chans" "j < n" "i' \<noteq> i" for i' j
  proof -
    have "\<forall>k < n. i' + j * c \<noteq> i + k * c" using interleaved_inj [of i' c i j] that(1,3) assms(3,4) by blast
    then show ?thesis using d(4) assms(5) that(1,2) by (simp add: interleaves_def)
  qed
  then have "interleaves conv c n xs d (insert i chans)" using d(3) unfolding interleaves_def by (metis insertE)
  then show ?thesis using d(1,2) by blast
qed

lemma begin_channels_spec:
  assumes "\<forall>i < c. i < length xs \<and> n \<le> length (xs ! i)" and "set is \<subseteq> {..<c}" and "chans \<subseteq> {..<c}"
    and "n * c \<le> length dest" and "interleaves conv c n xs dest chans"
  shows "\<exists>d. begin_channels conv c n xs is dest = Some d \<and> length d = length dest \<and>
    interleaves conv c n xs d (chans \<union> set is)"
  using assms
proof (induction "is" arbitrary: dest chans)
  case (Cons i "is")
  have i: "i < c" "load xs i = Some (xs ! i)" using Cons.prems(1,2) by (auto simp: load_in)
  have "load (xs ! i) k = Some (xs ! i ! k)" if "k < n" for k
    using Cons.prems(1) i(1) that by (auto intro!: load_in)
  from copy_channel_interleaves [OF this Cons.prems(4) i(1) Cons.prems(3,5)] obtain d where
    d: "copy_channel (load (xs ! i)) conv c n 0 i dest = Some d" "length d = length dest"
      "interleaves conv c n xs d (insert i chans)" by blast
  have "set is \<subseteq> {..<c}" "insert i chans \<subseteq> {..<c}" "n * c \<le> length d" using Cons.prems(2-4) i(1) d(2) by auto
  from Cons.IH [OF Cons.prems(1) this d(3)] show ?case using i(2) d by auto
qed simp

section \<open>The cache as a queue of cycles\<close>

definition ring_holds :: "slot list \<Rightarrow> nat \<Rightarrow> byte list \<Rightarrow> bool" where
  "ring_holds slots i bs \<longleftrightarrow> (case ring_at slots i of None \<Rightarrow> False | Some r \<Rightarrow> rb_ok r \<and> rb_contents r = bs)"

definition ring_room :: "slot list \<Rightarrow> nat \<Rightarrow> nat" where
  "ring_room slots i = (case ring_at slots i of None \<Rightarrow> 0 | Some r \<Rightarrow> unat (rb_write_space r))"

text \<open>
  The cache holds the cycles \<open>q\<close>, each a list of channels, and the counter their types \<open>ts\<close>.
\<close>

definition cache_holds :: "'s ja \<Rightarrow> u32 list list list \<Rightarrow> byte list \<Rightarrow> bool" where
  "cache_holds ja q ts \<longleftrightarrow> (case ja_inputs_cache ja of
     None \<Rightarrow> False
   | Some slots \<Rightarrow> (\<forall>i < ja_in_channels ja. ring_holds slots i (concat (map (\<lambda>b. float_bytes (b ! i)) q))) \<and>
       ring_holds slots (ja_in_channels ja) ts)"

definition cycle_ok :: "'s ja \<Rightarrow> u32 list list \<Rightarrow> bool" where
  "cycle_ok ja b \<longleftrightarrow> (\<forall>i < ja_in_channels ja. i < length b \<and> length (b ! i) = ja_frames ja)"

definition ja_ok :: "'s ja \<Rightarrow> bool" where
  "ja_ok ja \<longleftrightarrow> ja_buffer_bytes ja = 4 * ja_frames ja \<and> 0 < ja_frames ja \<and> ja_buffer_bytes ja < 2 ^ 32 \<and>
     length (ja_tmp_inputs ja) = ja_buffer_bytes ja \<and> ja_frames ja * ja_in_channels ja \<le> length (lisp_input ja)"

lemma ring_atI: "i < length slots \<Longrightarrow> slots ! i = Ring r \<Longrightarrow> ring_at slots i = Some r"
  by (simp add: ring_at_def)

lemma ring_atD: "ring_at slots i = Some r \<Longrightarrow> i < length slots"
  by (simp add: ring_at_def split: if_splits)

lemma ring_at_update:
  "ring_at (slots[i := Ring r]) j = (if j = i \<and> i < length slots then Some r else ring_at slots j)"
  by (simp add: ring_at_def)

lemma ring_holds_update:
  assumes "i < length slots"
  shows "ring_holds (slots[i := Ring r]) j bs \<longleftrightarrow> (if j = i then rb_ok r \<and> rb_contents r = bs else ring_holds slots j bs)"
    and "ring_room (slots[i := Ring r]) j = (if j = i then unat (rb_write_space r) else ring_room slots j)"
  using assms by (simp_all add: ring_holds_def ring_room_def ring_at_update)

text \<open>Writing and reading one ring of the array.\<close>

lemma rb_put:
  assumes "rb_ok r" and "n \<le> unat (rb_write_space r)" and "length src = n" and "n < 2 ^ 32"
  shows "\<exists>r'. rb_write r src (word_of_nat n) = Some (r', word_of_nat n) \<and> rb_ok r' \<and> rb_contents r' = rb_contents r @ src"
proof -
  have u: "unat (word_of_nat n :: u32) = n" using assms(4) by (rule unat_small)
  then have "(word_of_nat n :: u32) \<le> rb_write_space r" "unat (word_of_nat n :: u32) \<le> length src"
    using assms(2,3) by (simp_all add: word_le_nat_alt)
  from rb.put_fits [OF assms(1) this] show ?thesis using u assms(3) by (metis order_refl take_all_iff)
qed

lemma rb_get:
  assumes "rb_ok r" and "rb_contents r = bs @ rest" and "length bs = n" and "n < 2 ^ 32" and "n \<le> length dest"
  shows "\<exists>r'. rb_read r dest (word_of_nat n) = Some (r', bs @ drop n dest, word_of_nat n) \<and> rb_ok r' \<and> rb_contents r' = rest"
proof -
  have u: "unat (word_of_nat n :: u32) = n" using assms(4) by (rule unat_small)
  then have "(word_of_nat n :: u32) \<le> rb_read_space r" "unat (word_of_nat n :: u32) \<le> length dest"
    using rb.used_contents [OF assms(1)] assms(2,3,5) by (simp_all add: word_le_nat_alt)
  from rb.get_exact [OF assms(1) this] obtain r' where
    "rb_read r dest (word_of_nat n) = Some (r', take n (bs @ rest) @ drop n dest, word_of_nat n)" "rb_ok r'"
    "rb_contents r' = drop n (bs @ rest)"
    unfolding u assms(2) .
  then show ?thesis using assms(3) by auto
qed

lemma ring_put:
  assumes "ring_holds slots i bs" and "n \<le> ring_room slots i" and "length src = n" and "n < 2 ^ 32"
  shows "\<exists>r r'. ring_at slots i = Some r \<and> rb_write r src (word_of_nat n) = Some (r', word_of_nat n) \<and>
    rb_ok r' \<and> rb_contents r' = bs @ src \<and> i < length slots"
proof -
  obtain r where r: "ring_at slots i = Some r" "rb_ok r" "rb_contents r = bs" "n \<le> unat (rb_write_space r)"
    using assms(1,2) by (auto simp: ring_holds_def ring_room_def split: option.splits)
  from rb_put [OF r(2,4) assms(3,4)] show ?thesis using r(1,3) ring_atD [OF r(1)] by auto
qed

lemma ring_get:
  assumes "ring_holds slots i (bs @ rest)" and "length bs = n" and "n < 2 ^ 32" and "n \<le> length dest"
  shows "\<exists>r r'. ring_at slots i = Some r \<and> rb_read r dest (word_of_nat n) = Some (r', bs @ drop n dest, word_of_nat n) \<and>
    rb_ok r' \<and> rb_contents r' = rest \<and> i < length slots"
proof -
  obtain r where r: "ring_at slots i = Some r" "rb_ok r" "rb_contents r = bs @ rest"
    using assms(1) by (auto simp: ring_holds_def split: option.splits)
  from rb_get [OF r(2,3) assms(2-4)] show ?thesis using r(1) ring_atD [OF r(1)] by auto
qed

lemma cache_channels_spec:
  assumes "\<forall>i \<in> set is. i < length inputs \<and> length (inputs ! i) = frames" and "distinct is"
    and "\<forall>i \<in> set is. ring_holds slots i (cs i) \<and> 4 * frames \<le> ring_room slots i"
    and "0 < frames" and "4 * frames < 2 ^ 32"
  shows "\<exists>slots'. cache_channels inputs (4 * frames) is slots res = Some (slots', res + length is) \<and>
    (\<forall>i \<in> set is. ring_holds slots' i (cs i @ float_bytes (inputs ! i))) \<and>
    (\<forall>i. i \<notin> set is \<longrightarrow> ring_at slots' i = ring_at slots i)"
  using assms(1-3)
proof (induction "is" arbitrary: slots res)
  case (Cons i "is")
  have i: "load inputs i = Some (inputs ! i)" "length (float_bytes (inputs ! i)) = 4 * frames"
    using Cons.prems(1) by (auto simp: load_in)
  have "ring_holds slots i (cs i)" "4 * frames \<le> ring_room slots i" using Cons.prems(3) by auto
  from ring_put [OF this i(2) assms(5)] obtain r r' where
    r: "ring_at slots i = Some r" "rb_write r (float_bytes (inputs ! i)) (word_of_nat (4 * frames)) = Some (r', word_of_nat (4 * frames))"
      "rb_ok r'" "rb_contents r' = cs i @ float_bytes (inputs ! i)" "i < length slots" by blast
  have pos: "0 < (word_of_nat (4 * frames) :: u32)" using unat_small [OF assms(5)] assms(4) by (simp add: word_less_nat_alt)
  let ?slots = "slots[i := Ring r']"
  have "\<forall>j \<in> set is. ring_holds ?slots j (cs j) \<and> 4 * frames \<le> ring_room ?slots j"
    using Cons.prems(2,3) r(5) by (auto simp: ring_holds_update)
  with Cons.IH [of ?slots "res + 1"] Cons.prems(1,2) obtain slots' where
    s: "cache_channels inputs (4 * frames) is ?slots (res + 1) = Some (slots', res + 1 + length is)"
      "\<forall>j \<in> set is. ring_holds slots' j (cs j @ float_bytes (inputs ! j))"
      "\<forall>j. j \<notin> set is \<longrightarrow> ring_at slots' j = ring_at ?slots j" by auto
  have "ring_at slots' i = Some r'" using s(3) Cons.prems(2) r(5) by (simp add: ring_at_update)
  then have "ring_holds slots' i (cs i @ float_bytes (inputs ! i))" using r(3,4) by (simp add: ring_holds_def)
  moreover have "cache_channels inputs (4 * frames) (i # is) slots res = Some (slots', res + length (i # is))"
    using i(1) r(1,2) pos s(1) by (simp del: of_nat_mult)
  ultimately show ?case using s(2,3) by (auto simp: ring_at_update)
qed simp

lemma recover_channels_spec:
  assumes "ja_ok ja" and "cycle_ok ja b" and "set is \<subseteq> {..<ja_in_channels ja}" and "distinct is"
    and "\<forall>i \<in> set is. ring_holds slots i (float_bytes (b ! i) @ rest i)" and "chans \<subseteq> {..<ja_in_channels ja}"
    and "interleaves conv (ja_in_channels ja) (ja_frames ja) b (lisp_input ja) chans"
  shows "\<exists>tmp inp slots'. recover_channels conv ja is slots res =
      Some (ja\<lparr>ja_tmp_inputs := tmp, lisp_input := inp\<rparr>, slots', res \<or> is \<noteq> []) \<and>
    length tmp = ja_buffer_bytes ja \<and> length inp = length (lisp_input ja) \<and>
    interleaves conv (ja_in_channels ja) (ja_frames ja) b inp (chans \<union> set is) \<and>
    (\<forall>i \<in> set is. ring_holds slots' i (rest i)) \<and> (\<forall>i. i \<notin> set is \<longrightarrow> ring_at slots' i = ring_at slots i)"
  using assms
proof (induction "is" arbitrary: ja slots res chans)
  case Nil
  then show ?case by (intro exI [of _ "ja_tmp_inputs ja"] exI [of _ "lisp_input ja"]) (simp add: ja_ok_def)
next
  case (Cons i "is")
  let ?c = "ja_in_channels ja" and ?n = "ja_frames ja"
  have ok: "ja_buffer_bytes ja = 4 * ?n" "0 < ?n" "4 * ?n < 2 ^ 32" "length (ja_tmp_inputs ja) = 4 * ?n" "?n * ?c \<le> length (lisp_input ja)"
    using Cons.prems(1) by (auto simp: ja_ok_def)
  have i: "i < ?c" "length (b ! i) = ?n" "length (float_bytes (b ! i)) = 4 * ?n"
    using Cons.prems(2,3) by (auto simp: cycle_ok_def)
  have "ring_holds slots i (float_bytes (b ! i) @ rest i)" using Cons.prems(5) by simp
  from ring_get [OF this i(3) ok(3), of "ja_tmp_inputs ja"] ok(4) obtain r r' where
    r: "ring_at slots i = Some r"
      "rb_read r (ja_tmp_inputs ja) (word_of_nat (4 * ?n)) = Some (r', float_bytes (b ! i), word_of_nat (4 * ?n))"
      "rb_ok r'" "rb_contents r' = rest i" "i < length slots" by auto
  have pos: "0 < (word_of_nat (4 * ?n) :: u32)" using unat_small [OF ok(3)] ok(2) by (simp add: word_less_nat_alt)
  have "load32 (float_bytes (b ! i)) (4 * k) = Some (b ! i ! k)" if "k < ?n" for k
    using float_bytes_load [of k "b ! i" "[]"] i(2) that by simp
  from copy_channel_interleaves [where get = "\<lambda>k. load32 (float_bytes (b ! i)) (4 * k)" and xs = b and i = i, OF this ok(5) i(1) Cons.prems(6,7)]
  obtain d where d: "copy_channel (\<lambda>j. load32 (float_bytes (b ! i)) (4 * j)) conv ?c ?n 0 i (lisp_input ja) = Some d"
    "length d = length (lisp_input ja)" "interleaves conv ?c ?n b d (insert i chans)" by blast
  let ?ja = "ja\<lparr>ja_tmp_inputs := float_bytes (b ! i), lisp_input := d\<rparr>" and ?slots = "slots[i := Ring r']"
  have h: "ja_ok ?ja" "cycle_ok ?ja b" "set is \<subseteq> {..<ja_in_channels ?ja}" "distinct is" "insert i chans \<subseteq> {..<ja_in_channels ?ja}"
    "interleaves conv (ja_in_channels ?ja) (ja_frames ?ja) b (lisp_input ?ja) (insert i chans)"
    using Cons.prems(1-4,6) d i(1,3) ok(1) by (simp_all add: ja_ok_def cycle_ok_def)
  have "\<forall>j \<in> set is. ring_holds ?slots j (float_bytes (b ! j) @ rest j)"
    using Cons.prems(4,5) r(5) by (auto simp: ring_holds_update)
  from Cons.IH [OF h(1-4) this h(5,6), of True] obtain tmp inp slots' where
    s: "recover_channels conv ?ja is ?slots True = Some (?ja\<lparr>ja_tmp_inputs := tmp, lisp_input := inp\<rparr>, slots', True \<or> is \<noteq> [])"
      "length tmp = ja_buffer_bytes ?ja" "length inp = length (lisp_input ?ja)"
      "interleaves conv (ja_in_channels ?ja) (ja_frames ?ja) b inp (insert i chans \<union> set is)"
      "\<forall>j \<in> set is. ring_holds slots' j (rest j)" "\<forall>j. j \<notin> set is \<longrightarrow> ring_at slots' j = ring_at ?slots j"
    by blast
  have "ring_at slots' i = Some r'" using s(6) Cons.prems(4) r(5) by (simp add: ring_at_update)
  then have "ring_holds slots' i (rest i)" using r(3,4) by (simp add: ring_holds_def)
  moreover have "recover_channels conv ja (i # is) slots res =
      Some (ja\<lparr>ja_tmp_inputs := tmp, lisp_input := inp\<rparr>, slots', res \<or> i # is \<noteq> [])"
    using r(1,2) d(1) pos s(1) ok(1) by (simp del: of_nat_mult)
  ultimately show ?case using s(2-6) d(2) by (auto simp: ring_at_update)
qed

lemma cache_channels_cycle:
  assumes "ja_ok ja" and "cycle_ok ja b" and "cache_holds ja q ts" and "ja_inputs_cache ja = Some slots"
    and "\<forall>i < ja_in_channels ja. ja_buffer_bytes ja \<le> ring_room slots i"
  shows "\<exists>slots1. cache_channels b (ja_buffer_bytes ja) [0..<ja_in_channels ja] slots 0 = Some (slots1, ja_in_channels ja) \<and>
    cache_holds (ja\<lparr>ja_inputs_cache := Some slots1\<rparr>) (q @ [b]) ts \<and>
    ring_at slots1 (ja_in_channels ja) = ring_at slots (ja_in_channels ja)"
proof -
  let ?c = "ja_in_channels ja" and ?n = "ja_frames ja"
  have ok: "ja_buffer_bytes ja = 4 * ?n" "0 < ?n" "4 * ?n < 2 ^ 32" using assms(1) by (auto simp: ja_ok_def)
  define cs where "cs i = concat (map (\<lambda>b. float_bytes (b ! i)) q)" for i
  have holds: "\<forall>i < ?c. ring_holds slots i (cs i)" "ring_holds slots ?c ts"
    using assms(3,4) by (simp_all add: cache_holds_def cs_def)
  have "\<forall>i \<in> set [0..<?c]. i < length b \<and> length (b ! i) = ?n" using assms(2) by (simp add: cycle_ok_def)
  moreover have "\<forall>i \<in> set [0..<?c]. ring_holds slots i (cs i) \<and> 4 * ?n \<le> ring_room slots i"
    using holds(1) assms(5) ok(1) by simp
  ultimately obtain slots1 where s: "cache_channels b (4 * ?n) [0..<?c] slots 0 = Some (slots1, ?c)"
    "\<forall>i < ?c. ring_holds slots1 i (cs i @ float_bytes (b ! i))" "ring_at slots1 ?c = ring_at slots ?c"
    using cache_channels_spec [of "[0..<?c]" b ?n slots cs 0] ok(2,3) by auto
  have "ring_holds slots1 ?c ts" using holds(2) s(3) by (simp add: ring_holds_def)
  then have "cache_holds (ja\<lparr>ja_inputs_cache := Some slots1\<rparr>) (q @ [b]) ts"
    using s(2) by (simp add: cache_holds_def cs_def)
  then show ?thesis using s(1,3) ok(1) by auto
qed

lemma ja_increment_spec:
  assumes "cache_holds ja q ts" and "ja_inputs_cache ja = Some slots" and "1 \<le> ring_room slots (ja_in_channels ja)"
  shows "\<exists>slots'. ja_increment_cycle_counter t ja = Some (ja\<lparr>ja_inputs_cache := Some slots'\<rparr>) \<and>
    cache_holds (ja\<lparr>ja_inputs_cache := Some slots'\<rparr>) q (ts @ [t])"
proof -
  let ?c = "ja_in_channels ja"
  have "ring_holds slots ?c ts" using assms(1,2) by (simp add: cache_holds_def)
  from ring_put [OF this assms(3), of "[t]"] obtain r r' where
    r: "ring_at slots ?c = Some r" "rb_write r [t] 1 = Some (r', 1)" "rb_ok r'" "rb_contents r' = ts @ [t]" "?c < length slots"
    by auto
  then show ?thesis
    using assms(1,2) by (intro exI [of _ "slots[?c := Ring r']"])
      (simp add: ja_increment_cycle_counter_def cache_holds_def ring_holds_update)
qed

lemma ja_cache_inputs_spec:
  assumes "ja_ok ja" and "cycle_ok ja (ja_inputs ja)" and "cache_holds ja q ts" and "ja_inputs_cache ja = Some slots"
    and "\<forall>i < ja_in_channels ja. ja_buffer_bytes ja \<le> ring_room slots i" and "1 \<le> ring_room slots (ja_in_channels ja)"
  shows "\<exists>slots'. ja_cache_inputs ja = Some (ja\<lparr>ja_inputs_cache := Some slots'\<rparr>, True) \<and>
    cache_holds (ja\<lparr>ja_inputs_cache := Some slots'\<rparr>) (q @ [ja_inputs ja]) (ts @ [JA_SUSPENDED_CYCLE])"
proof -
  obtain slots1 where s: "cache_channels (ja_inputs ja) (ja_buffer_bytes ja) [0..<ja_in_channels ja] slots 0 =
      Some (slots1, ja_in_channels ja)"
    "cache_holds (ja\<lparr>ja_inputs_cache := Some slots1\<rparr>) (q @ [ja_inputs ja]) ts"
    "ring_at slots1 (ja_in_channels ja) = ring_at slots (ja_in_channels ja)"
    using cache_channels_cycle [OF assms(1-5)] by blast
  have "1 \<le> ring_room slots1 (ja_in_channels (ja\<lparr>ja_inputs_cache := Some slots1\<rparr>))"
    using assms(6) s(3) by (simp add: ring_room_def)
  from ja_increment_spec [OF s(2) _ this, of JA_SUSPENDED_CYCLE] show ?thesis
    using assms(4) s(1) by (auto simp: ja_cache_inputs_def)
qed

lemma ja_from_cache_spec:
  assumes "ja_ok ja" and "cycle_ok ja b" and "cache_holds ja (b # q) (t # ts)"
  shows "\<exists>ja' ja''. ja_inputs_from_cache_begin conv ja = Some (ja', 0 < ja_in_channels ja) \<and>
    interleaves conv (ja_in_channels ja) (ja_frames ja) b (lisp_input ja') {..<ja_in_channels ja} \<and>
    cache_holds ja' q (t # ts) \<and> ja_ok ja' \<and> ja_is_last_cycle ja' = Some (t = JA_CONTINUE_LAST_CYCLE) \<and>
    ja_inputs_from_cache_end ja' = Some (ja'', 1) \<and> cache_holds ja'' q ts \<and> ja_ok ja'' \<and> lisp_input ja'' = lisp_input ja' \<and>
    ja_has_cached_inputs ja'' = Some (ts \<noteq> []) \<and> ja_in_channels ja'' = ja_in_channels ja \<and> ja_frames ja'' = ja_frames ja"
proof -
  let ?c = "ja_in_channels ja" and ?n = "ja_frames ja"
  obtain slots where slots: "ja_inputs_cache ja = Some slots"
    "\<forall>i < ?c. ring_holds slots i (float_bytes (b ! i) @ concat (map (\<lambda>b. float_bytes (b ! i)) q))" "ring_holds slots ?c (t # ts)"
    using assms(3) by (auto simp: cache_holds_def split: option.splits)
  have "\<forall>i \<in> set [0..<?c]. ring_holds slots i (float_bytes (b ! i) @ concat (map (\<lambda>b. float_bytes (b ! i)) q))"
    using slots(2) by simp
  moreover have "set [0..<?c] \<subseteq> {..<?c}" "distinct [0..<?c]" by auto
  ultimately obtain tmp inp slots1 where
    s: "recover_channels conv ja [0..<?c] slots False = Some (ja\<lparr>ja_tmp_inputs := tmp, lisp_input := inp\<rparr>, slots1, 0 < ?c)"
      "length tmp = ja_buffer_bytes ja" "length inp = length (lisp_input ja)" "interleaves conv ?c ?n b inp {..<?c}"
      "\<forall>i < ?c. ring_holds slots1 i (concat (map (\<lambda>b. float_bytes (b ! i)) q))" "ring_at slots1 ?c = ring_at slots ?c"
    using recover_channels_spec [OF assms(1,2), of "[0..<?c]" slots "\<lambda>i. concat (map (\<lambda>b. float_bytes (b ! i)) q)" "{}" conv False]
    by (auto simp: interleaves_def lessThan_atLeast0)
  let ?ja = "ja\<lparr>ja_tmp_inputs := tmp, lisp_input := inp, ja_inputs_cache := Some slots1\<rparr>"
  have b: "ja_inputs_from_cache_begin conv ja = Some (?ja, 0 < ?c)"
    using slots(1) s(1) by (simp add: ja_inputs_from_cache_begin_def)
  have cnt: "ring_holds slots1 ?c ([t] @ ts)" using slots(3) s(6) by (simp add: ring_holds_def)
  from ring_get [OF this, of 1 "[0]"] obtain r r' where
    r: "ring_at slots1 ?c = Some r" "rb_read r [0] 1 = Some (r', [t], 1)" "rb_ok r'" "rb_contents r' = ts" "?c < length slots1"
    by auto
  let ?ja2 = "?ja\<lparr>ja_inputs_cache := Some (slots1[?c := Ring r'])\<rparr>"
  have e: "ja_inputs_from_cache_end ?ja = Some (?ja2, 1)"
    using r(1,2) by (simp add: ja_inputs_from_cache_end_def)
  have rok: "rb_ok r" "rb_contents r = t # ts" using cnt r(1) by (simp_all add: ring_holds_def)
  then have "1 \<le> rb_read_space r" using rb.used_contents [of r] by (simp add: word_le_nat_alt)
  then have "rb_peek r [0] 1 = Some ([t], 1)" using rb.peek_exact [OF rok(1), of 1 "[0]"] rok(2) by simp
  then have l: "ja_is_last_cycle ?ja = Some (t = JA_CONTINUE_LAST_CYCLE)"
    using r(1) rok rb_empty_iff [OF rok(1)] by (simp add: ja_is_last_cycle_def ja_has_cached_inputs_def)
  have h: "ja_has_cached_inputs ?ja2 = Some (ts \<noteq> [])"
    using r(3-5) rb_empty_iff [OF r(3)] by (simp add: ja_has_cached_inputs_def ring_at_update)
  have "cache_holds ?ja q (t # ts)" "cache_holds ?ja2 q ts"
    using s(5) cnt r(3-5) by (simp_all add: cache_holds_def ring_holds_update)
  moreover have "ja_ok ?ja" "ja_ok ?ja2" using assms(1) s(2,3) by (simp_all add: ja_ok_def)
  ultimately show ?thesis using b e l h s(4) by (intro exI [of _ ?ja] exI [of _ ?ja2]) simp
qed

text \<open>
  The cache of inputs is a queue of whole cycles. When there is room for the block of every channel and for the counter, caching a cycle
  appends it; recovering takes the first cycle, hands it to Lisp with its channels interleaved, tells whether the counter marks it as
  the last one, and the counter says whether cycles are left.
\<close>

theorem cached_cycles_fifo:
  assumes "ja_ok ja" and "cycle_ok ja (ja_inputs ja)" and "cache_holds ja q ts" and "ja_inputs_cache ja = Some slots"
    and "\<forall>i < ja_in_channels ja. ja_buffer_bytes ja \<le> ring_room slots i" and "1 \<le> ring_room slots (ja_in_channels ja)"
    and "q @ [ja_inputs ja] = b # q'" and "ts @ [JA_SUSPENDED_CYCLE] = t # ts'" and "cycle_ok ja b"
  shows "\<exists>ja1 ja2 ja3. ja_cache_inputs ja = Some (ja1, True) \<and>
    ja_inputs_from_cache_begin conv ja1 = Some (ja2, 0 < ja_in_channels ja) \<and>
    (\<forall>i < ja_in_channels ja. \<forall>j < ja_frames ja. lisp_input ja2 ! (i + j * ja_in_channels ja) = conv (b ! i ! j)) \<and>
    ja_is_last_cycle ja2 = Some (t = JA_CONTINUE_LAST_CYCLE) \<and>
    ja_inputs_from_cache_end ja2 = Some (ja3, 1) \<and> cache_holds ja3 q' ts' \<and>
    ja_has_cached_inputs ja3 = Some (ts' \<noteq> [])"
proof -
  obtain slots' where c: "ja_cache_inputs ja = Some (ja\<lparr>ja_inputs_cache := Some slots'\<rparr>, True)"
    "cache_holds (ja\<lparr>ja_inputs_cache := Some slots'\<rparr>) (b # q') (t # ts')"
    using ja_cache_inputs_spec [OF assms(1-6)] unfolding assms(7,8) by blast
  let ?ja = "ja\<lparr>ja_inputs_cache := Some slots'\<rparr>"
  have "ja_ok ?ja" "cycle_ok ?ja b" using assms(1,9) by (simp_all add: ja_ok_def cycle_ok_def)
  from ja_from_cache_spec [OF this c(2), of conv] c(1) show ?thesis
    by (fastforce simp: interleaves_def)
qed

definition ja_example :: "u32 ja" where
  "ja_example =
     (let ring = Ring \<lparr>rb_buf = replicate 16 0, rb_write_head = 5, rb_read_head = 5, rb_size = 16, rb_mask = 15\<rparr> in
      \<lparr>ja_in_channels = 2, ja_out_channels = 2, ja_frames = 2, ja_buffer_bytes = 8, ja_inputs = [[1, 2], [3, 4]],
       ja_outputs = [[9, 9], [9, 9]], ja_tmp_inputs = replicate 8 0, ja_inputs_cache = Some [ring, ring, ring],
       lisp_input = [0, 0, 0, 0], lisp_output = [5, 6, 7, 8], ja_sample_counter = 64, ja_cycle_start_time = 0\<rparr>)"

lemma two_channels: "(\<forall>i < 2 :: nat. P i) \<longleftrightarrow> P 0 \<and> P 1"
  by (auto simp: less_2_cases_iff)

lemma ja_example_fields:
  "ja_in_channels ja_example = 2" "ja_out_channels ja_example = 2" "ja_frames ja_example = 2" "ja_buffer_bytes ja_example = 8"
  "ja_inputs ja_example = [[1, 2], [3, 4]]" "length (ja_tmp_inputs ja_example) = 8" "length (lisp_input ja_example) = 4"
  "lisp_output ja_example = [5, 6, 7, 8]" "ja_sample_counter ja_example = 64"
  by (simp_all add: ja_example_def Let_def)

lemma ja_example_ok:
  obtains slots where "ja_inputs_cache ja_example = Some slots" "cache_holds ja_example [] []" "ja_ok ja_example"
    "cycle_ok ja_example [[1, 2], [3, 4]]" "\<And>i. i < 3 \<Longrightarrow> ring_room slots i = 15"
proof
  let ?r = "\<lparr>rb_buf = replicate 16 0, rb_write_head = 5, rb_read_head = 5, rb_size = 16, rb_mask = 15\<rparr> :: ringbuffer"
  have r: "rb_ok ?r" by (rule rb_okI [of 4]) simp_all
  have c: "rb_contents ?r = []" using rb_empty_iff [OF r] by (simp add: rb_empty_def)
  have w: "unat (rb_write_space ?r) = 15" by (simp add: rb_write_space_def)
  have slots: "ring_holds [Ring ?r, Ring ?r, Ring ?r] i []" "ring_room [Ring ?r, Ring ?r, Ring ?r] i = 15" if "i < 3" for i
    using that r c w by (auto simp: ring_holds_def ring_room_def ring_at_def less_Suc_eq numeral_3_eq_3)
  show cache: "ja_inputs_cache ja_example = Some [Ring ?r, Ring ?r, Ring ?r]" by (simp add: ja_example_def Let_def)
  show "cache_holds ja_example [] []" using slots cache by (simp add: cache_holds_def ja_example_fields)
  show "ja_ok ja_example" "cycle_ok ja_example [[1, 2], [3, 4]]"
    by (simp_all add: ja_ok_def cycle_ok_def ja_example_fields two_channels)
  show "\<And>i. i < 3 \<Longrightarrow> ring_room [Ring ?r, Ring ?r, Ring ?r] i = 15" by (rule slots(2))
qed

theorem cached_cycles_fifo_witness:
  "\<exists>ja1 ja2 ja3. ja_cache_inputs ja_example = Some (ja1, True) \<and>
     ja_inputs_from_cache_begin id ja1 = Some (ja2, True) \<and> lisp_input ja2 ! 1 = 3 \<and> lisp_input ja2 ! 2 = 2 \<and>
     ja_inputs_from_cache_end ja2 = Some (ja3, 1) \<and> ja_has_cached_inputs ja3 = Some False"
proof -
  obtain slots where ok: "ja_inputs_cache ja_example = Some slots" "cache_holds ja_example [] []" "ja_ok ja_example"
    "cycle_ok ja_example [[1, 2], [3, 4]]" "\<And>i. i < 3 \<Longrightarrow> ring_room slots i = 15" by (rule ja_example_ok) blast
  have "\<exists>ja1 ja2 ja3. ja_cache_inputs ja_example = Some (ja1, True) \<and>
     ja_inputs_from_cache_begin id ja1 = Some (ja2, 0 < ja_in_channels ja_example) \<and>
     (\<forall>i < ja_in_channels ja_example. \<forall>j < ja_frames ja_example.
       lisp_input ja2 ! (i + j * ja_in_channels ja_example) = id ([[1, 2], [3, 4]] ! i ! j)) \<and>
     ja_is_last_cycle ja2 = Some (JA_SUSPENDED_CYCLE = JA_CONTINUE_LAST_CYCLE) \<and>
     ja_inputs_from_cache_end ja2 = Some (ja3, 1) \<and> cache_holds ja3 [] [] \<and> ja_has_cached_inputs ja3 = Some ([] \<noteq> ([] :: byte list))"
    using ok by (intro cached_cycles_fifo [OF ok(3) _ _ ok(1)]) (simp_all add: ja_example_fields)
  then show ?thesis by (elim exE conjE) (simp add: ja_example_fields two_channels, simp add: numeral_2_eq_2)
qed

section \<open>Outputs\<close>

lemma out_frame_spec:
  assumes "a \<le> c" and "p + c \<le> length src" and "c \<le> length outs" and "\<forall>j < c. i < length (outs ! j)"
  shows "\<exists>outs'. out_frame unconv src outs i (p + a) [a..<c] =
      Some (take (p + a) src @ replicate (c - a) 0 @ drop (p + c) src, outs', p + c) \<and>
    length outs' = length outs \<and>
    (\<forall>j < length outs. outs' ! j = (if a \<le> j \<and> j < c then (outs ! j)[i := unconv (src ! (p + j))] else outs ! j))"
  using assms
proof (induction "c - a" arbitrary: a src outs)
  case 0
  then show ?case by auto
next
  case (Suc n)
  then have a: "a < c" by simp
  let ?src = "src[p + a := 0]" and ?outs = "outs[a := (outs ! a)[i := unconv (src ! (p + a))]]"
  have "n = c - Suc a" "Suc a \<le> c" "p + c \<le> length ?src" "c \<le> length ?outs" "\<forall>j < c. i < length (?outs ! j)"
    using Suc a by (auto simp: nth_list_update)
  from Suc.hyps(1) [OF this] obtain outs' where o: "out_frame unconv ?src ?outs i (p + Suc a) [Suc a..<c] =
      Some (take (p + Suc a) ?src @ replicate (c - Suc a) 0 @ drop (p + c) ?src, outs', p + c)"
    "length outs' = length outs"
    "\<forall>j < length outs. outs' ! j = (if Suc a \<le> j \<and> j < c then (?outs ! j)[i := unconv (?src ! (p + j))] else ?outs ! j)"
    by auto
  have "take (p + Suc a) ?src = take (p + a) src @ [0]"
    using a Suc.prems(2) by (simp add: take_Suc_conv_app_nth)
  moreover have "drop (p + c) ?src = drop (p + c) src" using a by simp
  moreover have "replicate (c - a) (0 :: 'a) = 0 # replicate (c - Suc a) 0" using a by (simp flip: replicate_Suc add: Suc_diff_Suc)
  ultimately have "take (p + Suc a) ?src @ replicate (c - Suc a) 0 @ drop (p + c) ?src =
      take (p + a) src @ replicate (c - a) 0 @ drop (p + c) src" by simp
  moreover have "[a..<c] = a # [Suc a..<c]" using a by (simp add: upt_conv_Cons)
  ultimately have "out_frame unconv src outs i (p + a) [a..<c] =
      Some (take (p + a) src @ replicate (c - a) 0 @ drop (p + c) src, outs', p + c)"
    using o(1) a Suc.prems(2-4) by (simp add: load_in store_in)
  moreover have "outs' ! j = (if a \<le> j \<and> j < c then (outs ! j)[i := unconv (src ! (p + j))] else outs ! j)"
    if "j < length outs" for j
    using o(3) that a by (cases "j = a") (auto simp: nth_list_update)
  ultimately show ?case using o(2) by blast
qed

lemma out_frames_spec:
  assumes "a \<le> n" and "n * c \<le> length src" and "c \<le> length outs" and "\<forall>j < c. n \<le> length (outs ! j)"
  shows "\<exists>outs'. out_frames unconv c src outs (a * c) [a..<n] =
      Some (take (a * c) src @ replicate ((n - a) * c) 0 @ drop (n * c) src, outs') \<and>
    length outs' = length outs \<and>
    (\<forall>j < length outs. length (outs' ! j) = length (outs ! j) \<and> (\<forall>k < length (outs ! j). outs' ! j ! k =
      (if j < c \<and> a \<le> k \<and> k < n then unconv (src ! (k * c + j)) else outs ! j ! k)))"
  using assms
proof (induction "n - a" arbitrary: a src outs)
  case 0
  then show ?case by auto
next
  case (Suc m)
  then have a: "a < n" by simp
  then have "Suc a * c \<le> n * c" by (intro mult_right_mono) simp_all
  then have p: "a * c + c \<le> length src" using Suc.prems(2) by (simp add: add.commute)
  have "\<forall>j < c. a < length (outs ! j)" using Suc.prems(4) a by (meson less_le_trans)
  from out_frame_spec [OF le0 p Suc.prems(3) this, of unconv] obtain outs1 where
    o1: "out_frame unconv src outs a (a * c) [0..<c] =
      Some (take (a * c) src @ replicate c 0 @ drop (a * c + c) src, outs1, a * c + c)" "length outs1 = length outs"
      "\<forall>j < length outs. outs1 ! j = (if j < c then (outs ! j)[a := unconv (src ! (a * c + j))] else outs ! j)"
    by auto
  let ?src = "take (a * c) src @ replicate c 0 @ drop (a * c + c) src"
  have len: "length ?src = length src" using p by simp
  have "m = n - Suc a" "Suc a \<le> n" "n * c \<le> length ?src" "c \<le> length outs1" "\<forall>j < c. n \<le> length (outs1 ! j)"
    using Suc a o1(2,3) len by auto
  from Suc.hyps(1) [OF this] obtain outs' where o: "out_frames unconv c ?src outs1 (Suc a * c) [Suc a..<n] =
      Some (take (Suc a * c) ?src @ replicate ((n - Suc a) * c) 0 @ drop (n * c) ?src, outs')"
    "length outs' = length outs"
    "\<forall>j < length outs. length (outs' ! j) = length (outs1 ! j) \<and> (\<forall>k < length (outs1 ! j). outs' ! j ! k =
      (if j < c \<and> Suc a \<le> k \<and> k < n then unconv (?src ! (k * c + j)) else outs1 ! j ! k))"
    unfolding o1(2) by blast
  have nc: "a * c + c \<le> n * c" using \<open>Suc a * c \<le> n * c\<close> by (simp add: add.commute)
  have t1: "take (Suc a * c) ?src = take (a * c) src @ replicate c 0" using p by (simp add: add.commute)
  have "drop (n * c) ?src = drop (n * c - (a * c + c)) (drop (a * c + c) src)" using p nc a by simp
  then have t2: "drop (n * c) ?src = drop (n * c) src" using nc a by simp
  have "c + (n - Suc a) * c = (n - a) * c" using a by (metis Suc_diff_Suc mult_Suc)
  then have t3: "replicate c 0 @ replicate ((n - Suc a) * c) 0 = replicate ((n - a) * c) (0 :: 'a)"
    by (simp flip: replicate_add)
  have "Suc a * c = a * c + c" by simp
  then have o': "out_frames unconv c ?src outs1 (a * c + c) [Suc a..<n] =
      Some (take (a * c) src @ replicate ((n - a) * c) 0 @ drop (n * c) src, outs')"
    using o(1) unfolding t1 t2 t3 [symmetric] append_assoc by metis
  have "[a..<n] = a # [Suc a..<n]" using a by (simp add: upt_conv_Cons)
  then have eq: "out_frames unconv c src outs (a * c) [a..<n] =
      Some (take (a * c) src @ replicate ((n - a) * c) 0 @ drop (n * c) src, outs')"
    by (simp only: out_frames.simps o1(1) bind.bind_lunit prod.case o')
  have at: "outs' ! j ! k = (if j < c \<and> a \<le> k \<and> k < n then unconv (src ! (k * c + j)) else outs ! j ! k)"
    if j: "j < length outs" and k: "k < length (outs ! j)" for j k
  proof -
    have l: "k < length (outs1 ! j)" using o1(3) j k by simp
    consider (later) "j < c" "Suc a \<le> k" "k < n" | (now) "j < c" "k = a" | (other) "\<not> (j < c \<and> a \<le> k \<and> k < n)" 
      using le_neq_implies_less by fastforce
    then show ?thesis
    proof cases
      case later
      then have "Suc a * c \<le> k * c" by (intro mult_right_mono) simp_all
      then have "a * c + c \<le> k * c + j" by (simp add: add.commute)
      moreover from this have "\<not> k * c + j - a * c < c" by linarith
      ultimately have "?src ! (k * c + j) = src ! (k * c + j)" using p by (simp add: nth_append)
      then show ?thesis using o(3) j l later by simp
    next
      case now
      then show ?thesis using o(3) o1(3) j l k a by simp
    next
      case other
      then have "outs1 ! j ! k = outs ! j ! k" using o1(3) j a by (auto simp: nth_list_update)
      then show ?thesis using o(3) j l other by auto
    qed
  qed
  have "length (outs' ! j) = length (outs ! j)" if "j < length outs" for j using o(3) o1(3) that by simp
  then show ?case using eq o(2) at by blast
qed

text \<open>
  The maximum is a power of two. A period of JACK up to it is taken whole; of a longer one the mask leaves the remainder, not the maximum as in the
  process thread of C.
\<close>

lemma masked_frames:
  assumes "ja_set_lisp_max_bufsize (2 ^ k) = (most, bmask)" and "k < 32" and "0 < wait"
  shows "unat (1 + ((wait - 1) AND bmask)) = (unat wait - 1) mod 2 ^ k + 1" and "wait \<le> most \<Longrightarrow> 1 + ((wait - 1) AND bmask) = wait"
proof -
  have m: "most = 2 ^ k" "bmask = mask k" using assms(1) by (auto simp: ja_set_lisp_max_bufsize_def mask_eq_exp_minus_1)
  have w: "unat (wait - 1) = unat wait - 1" "0 < unat wait" using assms(3) by (simp_all add: unat_minus_one word_greater_zero_iff unat_gt_0)
  have a: "unat ((wait - 1) AND bmask) = (unat wait - 1) mod 2 ^ k"
  proof -
    have "(wait - 1) AND bmask = take_bit k (wait - 1)" by (simp add: m(2) take_bit_eq_mask)
    then have "unat ((wait - 1) AND bmask) = take_bit k (unat (wait - 1))" by (simp add: unsigned_take_bit_eq)
    then show ?thesis by (simp only: w(1) take_bit_eq_mod)
  qed
  have "(unat wait - 1) mod 2 ^ k \<le> unat wait - 1" by (rule mod_less_eq_dividend)
  moreover have "unat wait < 2 ^ 32" using unsigned_less [of wait, where 'a = nat] by simp
  ultimately have "(unat wait - 1) mod 2 ^ k + 1 < 2 ^ 32" using w(2) by linarith
  then show 1: "unat (1 + ((wait - 1) AND bmask)) = (unat wait - 1) mod 2 ^ k + 1"
    using a by (simp add: unat_word_ariths)
  have p: "unat (2 ^ k :: u32) = 2 ^ k" using assms(2) by (simp add: unat_pow2)
  assume "wait \<le> most"
  then have "unat wait \<le> 2 ^ k" using m(1) p by (simp add: word_le_nat_alt)
  then have "(unat wait - 1) mod 2 ^ k + 1 = unat wait" using w(2) by simp
  then show "1 + ((wait - 1) AND bmask) = wait" using 1 by (simp add: word_unat_eq_iff)
qed

text \<open>
  C22. An audio cycle. At the begin the number of frames is reduced to the size of Lisp's buffers, every sample of the
  input ports goes to its interleaved position, and the position of the sample counter is noted; at the end every sample of Lisp's
  output buffer goes to its port, and the part of the buffer that was read is zero again. No access leaves a block.
\<close>

theorem audio_cycle_io:
  assumes "frames = 1 + ((wait - 1) AND bmask)" and "\<forall>i < ja_in_channels ja. i < length (ins frames) \<and> unat frames \<le> length (ins frames ! i)"
    and "unat frames * ja_in_channels ja \<le> length (lisp_input ja)"
    and "unat frames * ja_out_channels ja \<le> length (lisp_output ja)"
    and "\<forall>j < ja_out_channels ja. j < length (outs frames) \<and> unat frames \<le> length (outs frames ! j)"
  shows "\<exists>ja1 ja2. ja_cycle_begin conv True True wait bmask ins outs ja = Some (ja1, frames) \<and>
    (\<forall>i < ja_in_channels ja. \<forall>j < unat frames. lisp_input ja1 ! (i + j * ja_in_channels ja) = conv (ins frames ! i ! j)) \<and>
    ja_cycle_start_time ja1 = ja_sample_counter ja \<and>
    ja_cycle_end unconv (unat frames) ja1 = Some ja2 \<and>
    (\<forall>j < ja_out_channels ja. \<forall>i < unat frames. ja_outputs ja2 ! j ! i = unconv (lisp_output ja ! (i * ja_out_channels ja + j))) \<and>
    lisp_output ja2 = replicate (unat frames * ja_out_channels ja) 0 @ drop (unat frames * ja_out_channels ja) (lisp_output ja)"
proof -
  let ?c = "ja_in_channels ja" and ?o = "ja_out_channels ja" and ?n = "unat frames"
  obtain d where d: "begin_channels conv ?c ?n (ins frames) [0..<?c] (lisp_input ja) = Some d"
    "interleaves conv ?c ?n (ins frames) d {..<?c}"
    using begin_channels_spec [OF assms(2), of "[0..<?c]" "{}" "lisp_input ja" conv] assms(3)
    by (auto simp: interleaves_def lessThan_atLeast0)
  let ?ja = "ja\<lparr>ja_inputs := ins frames, lisp_input := d, ja_outputs := outs frames, ja_cycle_start_time := ja_sample_counter ja\<rparr>"
  have b: "ja_cycle_begin conv True True wait bmask ins outs ja = Some (?ja, frames)"
    using d(1) assms(1) by (simp add: ja_cycle_begin_def Let_def)
  have "?o \<le> length (outs frames)" using assms(5) by (metis leI less_irrefl)
  moreover have "\<forall>j < ?o. ?n \<le> length (outs frames ! j)" using assms(5) by blast
  ultimately obtain outs' where o: "out_frames unconv ?o (lisp_output ja) (outs frames) 0 [0..<?n] =
      Some (replicate (?n * ?o) 0 @ drop (?n * ?o) (lisp_output ja), outs')"
    and "\<forall>j < length (outs frames). \<forall>k < length (outs frames ! j). outs' ! j ! k =
      (if j < ?o \<and> 0 \<le> k \<and> k < ?n then unconv (lisp_output ja ! (k * ?o + j)) else outs frames ! j ! k)"
    using out_frames_spec [OF le0 assms(4), of "outs frames" unconv] by auto
  then have at: "\<forall>j < ?o. \<forall>i < ?n. outs' ! j ! i = unconv (lisp_output ja ! (i * ?o + j))"
    using assms(5) by (meson le0 less_le_trans)
  have e: "ja_cycle_end unconv ?n ?ja =
      Some (?ja\<lparr>lisp_output := replicate (?n * ?o) 0 @ drop (?n * ?o) (lisp_output ja), ja_outputs := outs'\<rparr>)"
    using o by (simp add: ja_cycle_end_def)
  show ?thesis
    using b e d(2) at by (intro exI conjI) (assumption | simp add: interleaves_def)+
qed

theorem audio_cycle_io_witness:
  "\<exists>ja1 ja2. ja_cycle_begin id True True 2 3 (\<lambda>n. [[1, 2], [3, 4]]) (\<lambda>n. [[9, 9], [9, 9]]) ja_example = Some (ja1, 2) \<and>
     lisp_input ja1 ! 1 = 3 \<and> ja_cycle_end id 2 ja1 = Some ja2 \<and> ja_outputs ja2 ! 1 ! 0 = 6 \<and> lisp_output ja2 = [0, 0, 0, 0]"
proof -
  have f: "(2 :: u32) = 1 + ((2 - 1) AND 3)" by simp
  have r: "replicate 4 (0 :: u32) = [0, 0, 0, 0]" by (simp add: numeral_eq_Suc)
  have "\<exists>ja1 ja2. ja_cycle_begin id True True 2 3 (\<lambda>n. [[1, 2], [3, 4]]) (\<lambda>n. [[9, 9], [9, 9]]) ja_example = Some (ja1, 2) \<and>
    (\<forall>i < ja_in_channels ja_example. \<forall>j < unat (2 :: u32).
      lisp_input ja1 ! (i + j * ja_in_channels ja_example) = id ([[1, 2], [3, 4]] ! i ! j)) \<and>
    ja_cycle_start_time ja1 = ja_sample_counter ja_example \<and>
    ja_cycle_end id (unat (2 :: u32)) ja1 = Some ja2 \<and>
    (\<forall>j < ja_out_channels ja_example. \<forall>i < unat (2 :: u32).
      ja_outputs ja2 ! j ! i = id (lisp_output ja_example ! (i * ja_out_channels ja_example + j))) \<and>
    lisp_output ja2 = replicate (unat (2 :: u32) * ja_out_channels ja_example) 0 @
      drop (unat (2 :: u32) * ja_out_channels ja_example) (lisp_output ja_example)"
    by (rule audio_cycle_io [OF f]) (simp_all add: ja_example_fields two_channels)
  then obtain ja1 ja2 where "ja_cycle_begin id True True 2 3 (\<lambda>n. [[1, 2], [3, 4]]) (\<lambda>n. [[9, 9], [9, 9]]) ja_example = Some (ja1, 2)"
    "lisp_input ja1 ! 1 = 3" "ja_cycle_end id 2 ja1 = Some ja2" "ja_outputs ja2 ! 1 ! 0 = 6" "lisp_output ja2 = replicate 4 0"
    by (elim exE conjE) (simp add: ja_example_fields two_channels)
  then show ?thesis using r by metis
qed

section \<open>Recovery of the suspended cycles\<close>

text \<open>
  The contract of \<open>CycleCache\<close> on the JACK driver, for \<open>c\<close> channels of \<open>n\<close> frames: a cycle is cached after JACK has delivered its inputs, and Lisp
  recovers one with \<^verbatim>\<open>ja_inputs_from_cache_begin\<close>, the processing of its input buffer and \<^verbatim>\<open>ja_inputs_from_cache_end\<close>.
\<close>

definition ja_cached :: "nat \<Rightarrow> nat \<Rightarrow> 's ja \<Rightarrow> u32 list list list \<Rightarrow> byte list \<Rightarrow> bool" where
  "ja_cached c n ja q ts \<longleftrightarrow> ja_ok ja \<and> ja_in_channels ja = c \<and> ja_frames ja = n \<and> cache_holds ja q ts"

definition ja_room :: "'s ja \<Rightarrow> bool" where
  "ja_room ja \<longleftrightarrow> (case ja_inputs_cache ja of None \<Rightarrow> False
     | Some slots \<Rightarrow> (\<forall>i < ja_in_channels ja. ja_buffer_bytes ja \<le> ring_room slots i) \<and> 1 \<le> ring_room slots (ja_in_channels ja))"

definition cycle_size :: "nat \<Rightarrow> nat \<Rightarrow> u32 list list \<Rightarrow> bool" where
  "cycle_size c n b \<longleftrightarrow> (\<forall>i < c. i < length b \<and> length (b ! i) = n)"

definition ja_delivered :: "(u32 \<Rightarrow> 's) \<Rightarrow> nat \<Rightarrow> nat \<Rightarrow> u32 list list \<Rightarrow> 's list \<Rightarrow> bool" where
  "ja_delivered conv c n b x \<longleftrightarrow> (\<forall>i < c. \<forall>j < n. x ! (i + j * c) = conv (b ! i ! j))"

definition ja_suspend :: "u32 list list \<Rightarrow> 's ja \<Rightarrow> 's ja option" where
  "ja_suspend b ja = map_option fst (ja_cache_inputs (ja\<lparr>ja_inputs := b\<rparr>))"

definition ja_recover :: "(u32 \<Rightarrow> 's) \<Rightarrow> 's ja \<Rightarrow> ('s ja \<times> 's list) option" where
  "ja_recover conv ja = do {
     (ja, _) \<leftarrow> ja_inputs_from_cache_begin conv ja;
     let x = lisp_input ja;
     (ja, _) \<leftarrow> ja_inputs_from_cache_end ja;
     Some (ja, x)
   }"

lemma ja_has_cached_spec: "cache_holds ja q ts \<Longrightarrow> ja_has_cached_inputs ja = Some (ts \<noteq> [])"
  by (auto simp: cache_holds_def ja_has_cached_inputs_def ring_holds_def rb_empty_iff split: option.splits)

interpretation jc: cycle_cache "ja_cached c n" ja_room "cycle_size c n" "ja_delivered conv c n" ja_suspend ja_has_cached_inputs
  "ja_recover conv" for c n and conv :: "u32 \<Rightarrow> 's"
proof
  fix s :: "'s ja" and q ts b
  assume s: "ja_cached c n s q ts" and b: "cycle_size c n b" and room: "ja_room s"
  let ?s = "s\<lparr>ja_inputs := b\<rparr>"
  obtain slots where slots: "ja_inputs_cache s = Some slots" "\<forall>i < ja_in_channels s. ja_buffer_bytes s \<le> ring_room slots i"
    "1 \<le> ring_room slots (ja_in_channels s)" using room by (auto simp: ja_room_def split: option.splits)
  have "ja_ok ?s" "cycle_ok ?s (ja_inputs ?s)" "cache_holds ?s q ts"
    using s b slots(1) by (auto simp: ja_cached_def ja_ok_def cycle_ok_def cycle_size_def cache_holds_def)
  from ja_cache_inputs_spec [OF this, of slots] slots
  show "\<exists>s'. ja_suspend b s = Some s' \<and> ja_cached c n s' (q @ [b]) (ts @ [0])"
    using s by (auto simp: ja_suspend_def ja_cached_def ja_ok_def JA_SUSPENDED_CYCLE_def)
next
  fix s :: "'s ja" and q ts
  assume "ja_cached c n s q ts"
  then show "ja_has_cached_inputs s = Some (ts \<noteq> [])" by (intro ja_has_cached_spec [of _ q]) (simp add: ja_cached_def)
next
  fix s :: "'s ja" and b q t ts
  assume s: "ja_cached c n s (b # q) (t # ts)" and b: "cycle_size c n b"
  have "ja_ok s" "cycle_ok s b" "cache_holds s (b # q) (t # ts)" "ja_in_channels s = c" "ja_frames s = n"
    using s b by (auto simp: ja_cached_def cycle_size_def cycle_ok_def)
  from ja_from_cache_spec [OF this(1-3), of conv] this(4,5)
  show "\<exists>s' x. ja_recover conv s = Some (s', x) \<and> ja_cached c n s' q ts \<and> ja_delivered conv c n b x"
    by (auto simp: ja_recover_def ja_delivered_def interleaves_def ja_cached_def)
qed


text \<open>
  C27. When a cycle is suspended while others wait in the cache of the JACK driver and there is room for it, Lisp's recovery loop ends, delivers the waiting
  cycles and the new one in the order in which they were suspended, each with its channels interleaved, and leaves nothing cached.
\<close>

theorem ja_recovers_in_order:
  assumes "ja_cached c n ja q ts" and "length q = length ts" and "\<forall>b' \<in> set (q @ [b]). cycle_size c n b'" and "ja_room ja"
  shows "\<exists>ja1 ja2 xs. ja_suspend b ja = Some ja1 \<and>
    recover_cycles ja_has_cached_inputs (ja_recover conv) (length q + 2) ja1 = Some (ja2, xs) \<and>
    list_all2 (ja_delivered conv c n) (q @ [b]) xs \<and> ja_has_cached_inputs ja2 = Some False"
  by (rule jc.suspend_then_recover [OF assms])

theorem ja_recovers_in_order_witness:
  "\<exists>ja1 ja2 xs. ja_suspend [[1, 2], [3, 4]] ja_example = Some ja1 \<and>
    recover_cycles ja_has_cached_inputs (ja_recover id) 2 ja1 = Some (ja2, xs) \<and>
    list_all2 (ja_delivered id 2 2) [[[1, 2], [3, 4]]] xs \<and> ja_has_cached_inputs ja2 = Some False"
proof -
  obtain slots where ok: "ja_inputs_cache ja_example = Some slots" "cache_holds ja_example [] []" "ja_ok ja_example"
    "cycle_ok ja_example [[1, 2], [3, 4]]" "\<And>i. i < 3 \<Longrightarrow> ring_room slots i = 15" by (rule ja_example_ok) blast
  have "ja_cached 2 2 ja_example [] []" using ok(2,3) by (simp add: ja_cached_def ja_example_fields)
  moreover have "\<forall>b' \<in> set ([] @ [[[1, 2], [3, 4]]]). cycle_size 2 2 b'" by (simp add: cycle_size_def two_channels)
  moreover have "ja_room ja_example" using ok(1,5) by (simp add: ja_room_def ja_example_fields)
  ultimately show ?thesis using ja_recovers_in_order [of 2 2 ja_example "[]" "[]" "[[1, 2], [3, 4]]" id]
    by (simp only: append_Nil list.size add_0_left simp_thms)
qed

end
