(* ===== verification/JackClient.thy ===== *)
theory JackClient
  imports JackAudio JackMidiIO
begin

text \<open>
  The JACK client (\<^verbatim>\<open>src/src/rtjack.c\<close>): its life cycle (initialise, start, stop), its ports, and one round of the two process threads
  of the C side. Calls of JACK and of the system are parameters.
\<close>

section \<open>State\<close>

datatype status = RUNNING | STOPPED | SHUTDOWN | INITIALIZING | STOPPING

text \<open>The blocks that the global pointers refer to.\<close>

datatype ja_block = Inputs | Tmp_inputs | Outputs | Input_ports | Output_ports | Pad_buffer | Jm_inputs | Jm_outputs
  | Jm_invec | Jm_outvec

record ja_client =
  ja_status :: status
  thread_status :: status
  client :: bool
  blocks :: "ja_block list"
  leaked :: nat
  cache :: "slot list option"
  in_channels :: nat
  out_channels :: nat
  lisp_busy :: bool
  thread_callback :: "bool option"
  error_msg :: string
  xruns :: u32
  xrun_time :: nat

definition JA_ERROR_MSG_MAX_LENGTH :: nat where "JA_ERROR_MSG_MAX_LENGTH = 256"

definition ja_set_error_msg :: "string \<Rightarrow> ja_client \<Rightarrow> ja_client" where
  "ja_set_error_msg msg s = s\<lparr>error_msg := take (JA_ERROR_MSG_MAX_LENGTH - 1) msg\<rparr>"

section \<open>Stopping\<close>

text \<open>\<open>detach\<close> is the status of \<^verbatim>\<open>pthread_detach\<close>.\<close>

definition ja_process_thread_wait :: "(nat \<Rightarrow> bool) \<Rightarrow> int \<Rightarrow> ja_client \<Rightarrow> ja_client" where
  "ja_process_thread_wait stops detach s =
     (if poll stops 0 3000 then s\<lparr>thread_status := STOPPED\<rparr>
      else if poll stops 3000 2000 then s\<lparr>thread_status := STOPPED\<rparr>
      else if detach \<noteq> 0 \<and> \<not> stops 5000 then s\<lparr>ja_status := SHUTDOWN\<rparr>
      else s)"

definition ja_shutdown :: "ja_client \<Rightarrow> ja_client" where
  "ja_shutdown s = s\<lparr>ja_status := SHUTDOWN\<rparr>"

text \<open>\<open>None\<close> when an entry of the cache that was never written is passed to \<^verbatim>\<open>free\<close>.\<close>

definition ja_cleanup :: "(nat \<Rightarrow> bool) \<Rightarrow> int \<Rightarrow> ja_client \<Rightarrow> ja_client option" where
  "ja_cleanup stops detach s =
     (if ja_status s = STOPPED then Some s
      else let s = s\<lparr>ja_status := STOPPING\<rparr>;
               s = (if thread_status s \<noteq> STOPPED then ja_process_thread_wait stops detach s else s) in do {
        let s = s\<lparr>client := False\<rparr>;
        _ \<leftarrow> ja_free_input_cache (cache s) (in_channels s);
        Some (s\<lparr>blocks := [], cache := None, in_channels := 0, out_channels := 0, ja_status := STOPPED\<rparr>)
      })"

definition ja_stop :: "(nat \<Rightarrow> bool) \<Rightarrow> int \<Rightarrow> ja_client \<Rightarrow> (ja_client \<times> int) option" where
  "ja_stop stops detach s = do { s \<leftarrow> ja_cleanup stops detach s; Some (s, 0) }"

definition ja_error :: "(nat \<Rightarrow> bool) \<Rightarrow> int \<Rightarrow> string \<Rightarrow> ja_client \<Rightarrow> ja_client option" where
  "ja_error stops detach msg s = do {
     (s, _) \<leftarrow> ja_stop stops detach (ja_set_error_msg msg s);
     Some s
   }"

section \<open>Initialisation\<close>

text \<open>
  What the environment answers: JACK's server, the allocations, the ring buffers, whether the names of the ports are set, the signal mask, the
  process thread's end.
\<close>

record ja_env =
  open_ok :: bool
  malloc_ok :: "ja_block \<Rightarrow> bool"
  cache_ok :: bool
  create_ring :: "nat \<Rightarrow> u32 \<Rightarrow> ringbuffer option"
  cache_size :: u32
  input_names :: bool
  output_names :: bool
  sigmask_ok :: bool
  activate_ok :: bool
  thread_stops :: "nat \<Rightarrow> bool"
  thread_detach :: int

definition fail :: "ja_env \<Rightarrow> string \<Rightarrow> ja_client \<Rightarrow> (ja_client \<times> int) option" where
  "fail env msg s = do { s \<leftarrow> ja_error (thread_stops env) (thread_detach env) msg s; Some (s, 1) }"

text \<open>
  An allocation followed by \<^verbatim>\<open>RETURN_IF_NULLPTR\<close> and the rest of the function. A pointer that is overwritten while it refers to a block leaks it.
\<close>

definition alloc ::
  "ja_env \<Rightarrow> ja_block \<Rightarrow> (ja_client \<Rightarrow> (ja_client \<times> int) option) \<Rightarrow> ja_client \<Rightarrow> (ja_client \<times> int) option" where
  "alloc env b rest s =
     (let s = (if b \<in> set (blocks s) then s\<lparr>leaked := leaked s + 1, blocks := remove1 b (blocks s)\<rparr> else s) in
      if malloc_ok env b then rest (s\<lparr>blocks := b # blocks s\<rparr>)
      else fail env ''malloc failure'' s)"

definition guard :: "ja_env \<Rightarrow> bool \<Rightarrow> string \<Rightarrow> (ja_client \<Rightarrow> (ja_client \<times> int) option) \<Rightarrow> ja_client \<Rightarrow> (ja_client \<times> int) option" where
  "guard env ok msg rest s = (if ok then rest s else fail env msg s)"

definition ja_register_ports ::
  "ja_env \<Rightarrow> (ja_client \<Rightarrow> (ja_client \<times> int) option) \<Rightarrow> ja_client \<Rightarrow> (ja_client \<times> int) option" where
  "ja_register_ports env rest s =
     (let outputs = (\<lambda>s. if 0 < out_channels s
        then guard env (output_names env) ''missing output port names'' (alloc env Output_ports rest) s else rest s) in
      if 0 < in_channels s
      then guard env (input_names env) ''missing input port names'' (alloc env Input_ports outputs) s else outputs s)"

definition ja_set_thread_callback :: "bool \<Rightarrow> ja_client \<Rightarrow> ja_client \<times> bool" where
  "ja_set_thread_callback has_cached_inputs s = (s\<lparr>thread_callback := Some has_cached_inputs\<rparr>, has_cached_inputs)"

definition ja_xrun_reset :: "ja_client \<Rightarrow> ja_client" where
  "ja_xrun_reset s = s\<lparr>xruns := 0, xrun_time := 0\<rparr>"

definition init_cache ::
  "ja_env \<Rightarrow> (ja_client \<Rightarrow> (ja_client \<times> int) option) \<Rightarrow> ja_client \<Rightarrow> (ja_client \<times> int) option" where
  "init_cache env rest s =
     (let (c, err) = ja_alloc_input_cache (cache_ok env) (create_ring env) (cache_size env) (in_channels s); s = s\<lparr>cache := c\<rparr> in
      if err \<noteq> 0
      then fail env (if cache_ok env then ''incudine_ringbuffer_create() failure'' else ''malloc failure'') s else rest s)"

definition init_end :: "ja_env \<Rightarrow> ja_client \<Rightarrow> (ja_client \<times> int) option" where
  "init_end env s =
     (let s = (if thread_callback s = None then fst (ja_set_thread_callback False s) else s);
          s = ja_xrun_reset s in
      if \<not> sigmask_ok env then fail env ''Unblock signals error'' s
      else Some (s\<lparr>lisp_busy := True\<rparr>, 0))"

definition ja_initialize :: "ja_env \<Rightarrow> nat \<Rightarrow> nat \<Rightarrow> ja_client \<Rightarrow> (ja_client \<times> int) option" where
  "ja_initialize env input_channels output_channels s = do {
     s \<leftarrow> ja_cleanup (thread_stops env) (thread_detach env) s;
     let s = s\<lparr>error_msg := ''''\<rparr>;
     if \<not> open_ok env then Some (ja_set_error_msg ''jack_client_open failure'' (s\<lparr>client := False\<rparr>), 1)
     else
       let s = s\<lparr>client := True, thread_status := STOPPED, ja_status := INITIALIZING,
             in_channels := input_channels, out_channels := output_channels\<rparr>;
           tables = alloc env Pad_buffer (alloc env Jm_inputs (alloc env Jm_outputs (alloc env Jm_invec (alloc env Jm_outvec
             (ja_register_ports env (init_end env))))));
           outs = (\<lambda>s. if 0 < output_channels then alloc env Outputs tables s else tables s);
           caches = init_cache env outs in
       if 0 < input_channels then alloc env Inputs (alloc env Tmp_inputs caches) s else caches s
   }"

definition ja_start :: "ja_env \<Rightarrow> ja_client \<Rightarrow> (ja_client \<times> int) option" where
  "ja_start env s =
     (if \<not> client s then fail env ''JACK client not initialized'' s
      else let s = s\<lparr>ja_status := RUNNING\<rparr> in
        if \<not> activate_ok env then fail env ''error activating JACK client'' s
        else Some (s, 0))"

section \<open>Ports\<close>

text \<open>
  The connections that \<^verbatim>\<open>ja_connect_client\<close> makes: \<open>sources\<close> and \<open>sinks\<close> are the physical ports that JACK lists, \<open>ins\<close> and \<open>outs\<close>
  the client's own.
\<close>

definition ja_connect_client ::
  "string list option \<Rightarrow> string list option \<Rightarrow> string list \<Rightarrow> string list \<Rightarrow> (string \<times> string) list \<times> int" where
  "ja_connect_client sources sinks ins outs =
     (case sources of
        None \<Rightarrow> ([], 1)
      | Some ps \<Rightarrow> let made = zip ps ins in
          (case sinks of
             None \<Rightarrow> (made, 1)
           | Some qs \<Rightarrow> (made @ zip outs qs, 0)))"

definition ports_of :: "int \<Rightarrow> string list option \<Rightarrow> string list option \<Rightarrow> string list option" where
  "ports_of direction ins outs = (if direction = 0 then ins else if direction = 1 then outs else None)"

definition ja_port_name :: "int \<Rightarrow> u32 \<Rightarrow> string list option \<Rightarrow> string list option \<Rightarrow> string option" where
  "ja_port_name direction number ins outs =
     (case ports_of direction ins outs of
        None \<Rightarrow> None
      | Some ports \<Rightarrow> if unat number < length ports then Some (ports ! unat number) else None)"

text \<open>\<open>rename\<close> is \<^verbatim>\<open>jack_port_rename\<close>.\<close>

definition ja_set_port_name ::
  "(string \<Rightarrow> string \<Rightarrow> int) \<Rightarrow> bool \<Rightarrow> int \<Rightarrow> u32 \<Rightarrow> string \<Rightarrow> string list option \<Rightarrow> string list option \<Rightarrow> int" where
  "ja_set_port_name rename opened direction number name ins outs =
     (if opened then
        case ports_of direction ins outs of
          None \<Rightarrow> - 1
        | Some ports \<Rightarrow> if unat number < length ports then rename (ports ! unat number) name else - 1
      else - 1)"

section \<open>Callbacks\<close>

definition ja_xrun_cb :: "nat \<Rightarrow> ja_client \<Rightarrow> ja_client" where
  "ja_xrun_cb now s = s\<lparr>xruns := xruns s + 1, xrun_time := now\<rparr>"

definition ja_set_buffer_size_cb :: "bool \<Rightarrow> u32 \<Rightarrow> u32 \<Rightarrow> 's ja \<Rightarrow> 's ja option" where
  "ja_set_buffer_size_cb busy max_bufsize nframes ja =
     (if max_bufsize < nframes then Some ja
      else if \<not> busy then do {
        cached \<leftarrow> ja_has_cached_inputs ja;
        Some (if \<not> cached then ja\<lparr>ja_frames := unat nframes\<rparr> else ja)
      }
      else Some ja)"

section \<open>The process threads\<close>

text \<open>Silence in the output ports: the first \<open>n\<close> samples of each buffer are zero.\<close>

fun silence :: "nat \<Rightarrow> u32 list list \<Rightarrow> u32 list list option" where
  "silence n [] = Some []"
| "silence n (x # xs) = do {
     x \<leftarrow> memset x 0 0 n;
     xs \<leftarrow> silence n xs;
     Some (x # xs)
   }"

text \<open>
  A round of \<^verbatim>\<open>ja_process_thread\<close> while Lisp is busy; \<open>wait\<close> is the result of \<^verbatim>\<open>jack_cycle_wait\<close>, \<open>outs n\<close> are JACK's
  buffers for \<open>n\<close> frames.
\<close>

definition ja_process_round :: "u32 \<Rightarrow> u32 \<Rightarrow> (nat \<Rightarrow> u32 list list) \<Rightarrow> 's ja \<Rightarrow> 's ja option" where
  "ja_process_round max_bufsize wait outs ja =
     (let frames = unat (if max_bufsize < wait then max_bufsize else wait);
          ja = (if ja_frames ja \<noteq> frames
            then ja\<lparr>ja_frames := frames, ja_buffer_bytes := frames * JA_SAMPLE_SIZE\<rparr> else ja) in do {
        os \<leftarrow> silence (ja_frames ja) (take (ja_out_channels ja) (outs (ja_frames ja)));
        Some (ja\<lparr>ja_outputs := os\<rparr>)
      })"

text \<open>
  How a round of \<^verbatim>\<open>ja_process_thread_with_cached_inputs\<close> ends: the cycle is signalled and recovered later, Lisp continues it,
  or the thread stops because an allocation fails.
\<close>

datatype round_end = Suspended | Resume_lisp | Thread_error

text \<open>
  The macro \<^verbatim>\<open>MAYBE_CONTINUE_IN_LISP\<close> with the value \<open>busy\<close> read: whether the control goes to Lisp.
\<close>

definition maybe_continue_in_lisp :: "bool \<Rightarrow> 's ja \<Rightarrow> ('s ja \<times> bool) option" where
  "maybe_continue_in_lisp busy ja =
     (if busy then Some (ja, False)
      else do {
        cached \<leftarrow> ja_has_cached_inputs ja;
        if cached then Some (ja, False)
        else do {
          ja \<leftarrow> ja_increment_cycle_counter JA_CONTINUE_LAST_CYCLE ja;
          Some (ja, True)
        }
      })"

definition resize_buffers :: "bool \<Rightarrow> byte list \<Rightarrow> nat \<Rightarrow> 's ja \<Rightarrow> ('s ja \<times> bool) option" where
  "resize_buffers ok fresh frames ja =
     (if ja_frames ja \<noteq> frames then
        let ja = ja\<lparr>ja_frames := frames, ja_buffer_bytes := frames * JA_SAMPLE_SIZE, ja_tmp_inputs := []\<rparr> in
        if 0 < ja_in_channels ja \<and> \<not> ok then Some (ja, False)
        else do {
          let ja = (if 0 < ja_in_channels ja then ja\<lparr>ja_tmp_inputs := fresh\<rparr> else ja);
          ja \<leftarrow> ja_clear_cached_inputs ja;
          Some (ja, True)
        }
      else Some (ja, True))"

definition store_inputs :: "u32 list list \<Rightarrow> 's ja \<Rightarrow> 's ja option" where
  "store_inputs ins ja =
     (case ja_inputs_cache ja of
        None \<Rightarrow> Some ja
      | Some slots \<Rightarrow> do {
          (slots, _) \<leftarrow> cache_channels ins (ja_buffer_bytes ja) [0..<ja_in_channels ja] slots 0;
          Some (ja\<lparr>ja_inputs := ins, ja_inputs_cache := Some slots\<rparr>)
        })"

text \<open>
  The answers of JACK and the values of \<^verbatim>\<open>ja_lisp_busy\<close> that the round reads. \<open>midi\<close> is what \<^verbatim>\<open>jm_process2\<close> does to the
  MIDI ports for a time offset.
\<close>

record 'm round_env =
  wait :: u32
  max_bufsize :: u32
  malloc_tmp :: bool
  fresh_tmp :: "nat \<Rightarrow> byte list"
  ins :: "nat \<Rightarrow> u32 list list"
  outs :: "nat \<Rightarrow> u32 list list"
  midi :: "u32 \<Rightarrow> 'm \<Rightarrow> 'm option"
  busy1 :: bool
  busy2 :: bool
  busy3 :: bool

definition ja_process_cached_round ::
  "'m round_env \<Rightarrow> u32 \<Rightarrow> 'm \<Rightarrow> 's ja \<Rightarrow> ('s ja \<times> 'm \<times> u32 \<times> round_end) option" where
  "ja_process_cached_round env offset m ja =
     (let frames = (if max_bufsize env < wait env then max_bufsize env else wait env); n = unat frames in do {
        (ja, ok) \<leftarrow> resize_buffers (malloc_tmp env) (fresh_tmp env (n * JA_SAMPLE_SIZE)) n ja;
        if \<not> ok then Some (ja, m, offset, Thread_error)
        else do {
          m \<leftarrow> midi env offset m;
          let offset = offset + frames;
          (ja, go) \<leftarrow> maybe_continue_in_lisp (busy1 env) ja;
          if go then Some (ja, m, offset, Resume_lisp)
          else do {
            ja \<leftarrow> store_inputs (ins env n) ja;
            (ja, go) \<leftarrow> maybe_continue_in_lisp (busy2 env) ja;
            if go then Some (ja, m, offset, Resume_lisp)
            else do {
              os \<leftarrow> silence n (take (ja_out_channels ja) (outs env n));
              let ja = ja\<lparr>ja_outputs := os\<rparr>;
              (ja, go) \<leftarrow> maybe_continue_in_lisp (busy3 env) ja;
              if go then Some (ja, m, offset, Resume_lisp)
              else do {
                ja \<leftarrow> ja_increment_cycle_counter JA_SUSPENDED_CYCLE ja;
                Some (ja, m, offset, Suspended)
              }
            }
          }
        }
      })"

text \<open>When Lisp gives the control back: the new time offset and the start of the cycle.\<close>

definition after_resume :: "'s ja \<Rightarrow> u32 \<times> 's ja" where
  "after_resume ja = (0, ja\<lparr>ja_cycle_start_time := ja_sample_counter ja\<rparr>)"

end
