(* ===== verification/JackClientProps.thy ===== *)
theory JackClientProps
  imports JackClient JackAudioProps
begin

text \<open>
  The life cycle of the JACK client as a state machine, and what a round of the process thread leaves in the cache.
\<close>

section \<open>Resources\<close>

definition cache_written :: "slot list option \<Rightarrow> nat \<Rightarrow> bool" where
  "cache_written c n \<longleftrightarrow> (case c of None \<Rightarrow> True | Some slots \<Rightarrow> length slots = n + 1 \<and> Uninit \<notin> set slots)"

definition released :: "ja_client \<Rightarrow> bool" where
  "released s \<longleftrightarrow> ja_status s = STOPPED \<and> \<not> client s \<and> blocks s = [] \<and> cache s = None"

text \<open>The invariant between calls.\<close>

definition client_ok :: "ja_client \<Rightarrow> bool" where
  "client_ok s \<longleftrightarrow> leaked s = 0 \<and> cache_written (cache s) (in_channels s) \<and>
     (if ja_status s = STOPPED then released s else client s)"

lemma free_rings_written: "\<forall>i \<in> set is. i < length slots \<Longrightarrow> Uninit \<notin> set slots \<Longrightarrow> free_rings slots is \<noteq> None"
proof (induction "is")
  case (Cons i "is")
  moreover have "slots ! i \<noteq> Uninit" using Cons.prems by (metis list.set_intros(1) nth_mem)
  ultimately show ?case by (cases "slots ! i") auto
qed simp

lemma free_cache_written: "cache_written c n \<Longrightarrow> \<exists>k. ja_free_input_cache c n = Some k"
  using free_rings_written [of "[0..<n + 1]"]
  by (auto simp: cache_written_def ja_free_input_cache_def split: option.splits)

lemma cleanup_spec:
  assumes "cache_written (cache s) (in_channels s)" and "ja_status s = STOPPED \<longrightarrow> released s"
  shows "\<exists>s'. ja_cleanup stops detach s = Some s' \<and> released s' \<and> leaked s' = leaked s"
proof (cases "ja_status s = STOPPED")
  case True
  then show ?thesis using assms(2) by (simp add: ja_cleanup_def)
next
  case False
  obtain k where "ja_free_input_cache (cache s) (in_channels s) = Some k" using free_cache_written [OF assms(1)] ..
  then show ?thesis using False
    by (auto simp: ja_cleanup_def Let_def released_def ja_process_thread_wait_def)
qed

lemma fail_spec:
  assumes "cache_written (cache s) (in_channels s)" and "ja_status s = STOPPED \<longrightarrow> released s"
  shows "\<exists>s'. fail env msg s = Some (s', 1) \<and> released s' \<and> leaked s' = leaked s"
proof -
  have "cache_written (cache (ja_set_error_msg msg s)) (in_channels (ja_set_error_msg msg s))"
    "ja_status (ja_set_error_msg msg s) = STOPPED \<longrightarrow> released (ja_set_error_msg msg s)"
    using assms by (simp_all add: ja_set_error_msg_def released_def)
  from cleanup_spec [OF this, of "thread_stops env" "thread_detach env"] show ?thesis
    by (auto simp: fail_def ja_error_def ja_stop_def) (simp add: ja_set_error_msg_def)
qed

text \<open>
  A client under construction that holds the blocks \<open>bs\<close>, and the two possible outcomes of the construction.
\<close>

definition building :: "nat \<Rightarrow> nat \<Rightarrow> ja_block list \<Rightarrow> ja_client \<Rightarrow> bool" where
  "building i n bs s \<longleftrightarrow> client s \<and> ja_status s = INITIALIZING \<and> leaked s = 0 \<and> blocks s = bs \<and>
     in_channels s = i \<and> out_channels s = n \<and> cache_written (cache s) i"

definition needed_blocks :: "nat \<Rightarrow> nat \<Rightarrow> ja_block set" where
  "needed_blocks i n = {Pad_buffer, Jm_inputs, Jm_outputs, Jm_invec, Jm_outvec} \<union>
     (if 0 < i then {Inputs, Tmp_inputs, Input_ports} else {}) \<union> (if 0 < n then {Outputs, Output_ports} else {})"

definition built :: "nat \<Rightarrow> nat \<Rightarrow> (ja_client \<times> int) option \<Rightarrow> bool" where
  "built i n r \<longleftrightarrow> (case r of None \<Rightarrow> False
     | Some (s, ret) \<Rightarrow> leaked s = 0 \<and>
         (ret = 1 \<and> released s \<or>
          ret = 0 \<and> client s \<and> ja_status s = INITIALIZING \<and> lisp_busy s \<and> set (blocks s) = needed_blocks i n \<and>
            in_channels s = i \<and> cache_written (cache s) i))"

lemma built_fail: "building i n bs s \<Longrightarrow> built i n (fail env msg s)"
  using fail_spec [of s env msg] by (auto simp: building_def built_def)

lemma built_alloc:
  assumes "\<And>s. building i n (b # bs) s \<Longrightarrow> built i n (rest s)" and "b \<notin> set bs" and "building i n bs s"
  shows "built i n (alloc env b rest s)"
proof (cases "malloc_ok env b")
  case True
  have "building i n (b # bs) (s\<lparr>blocks := b # blocks s\<rparr>)" using assms(3) by (simp add: building_def)
  from assms(1) [OF this] show ?thesis using True assms(2,3) by (simp add: alloc_def building_def)
next
  case False
  then show ?thesis using built_fail [OF assms(3)] assms(2,3) by (simp add: alloc_def building_def)
qed

lemma built_alloc_ok:
  assumes "\<And>s. building i n (b # bs) s \<Longrightarrow> malloc_ok env b \<Longrightarrow> built i n (rest s)" and "b \<notin> set bs" and "building i n bs s"
  shows "built i n (alloc env b rest s)"
proof (cases "malloc_ok env b")
  case True
  show ?thesis by (rule built_alloc [OF _ assms(2,3)]) (rule assms(1) [OF _ True])
next
  case False
  then show ?thesis using built_fail [OF assms(3)] assms(2,3) by (simp add: alloc_def building_def)
qed

lemma built_guard: "(building i n bs s \<Longrightarrow> built i n (rest s)) \<Longrightarrow> building i n bs s \<Longrightarrow> built i n (guard env ok msg rest s)"
  by (simp add: guard_def built_fail)

lemma built_end:
  assumes "building i n bs s" and "set bs = needed_blocks i n"
  shows "built i n (init_end env s)"
proof -
  have "building i n bs (ja_xrun_reset (if thread_callback s = None then fst (ja_set_thread_callback False s) else s))"
    using assms(1) by (simp add: building_def ja_xrun_reset_def ja_set_thread_callback_def)
  then show ?thesis
    using built_fail assms(2) by (auto simp: init_end_def Let_def built_def building_def)
qed

lemma built_ports:
  assumes "building i n bs s" and "set bs \<union> (if 0 < i then {Input_ports} else {}) \<union> (if 0 < n then {Output_ports} else {}) = needed_blocks i n"
    and "Input_ports \<notin> set bs" and "Output_ports \<notin> set bs"
  shows "built i n (ja_register_ports env (init_end env) s)"
proof -
  have outs: "built i n ((\<lambda>s. if 0 < out_channels s
      then guard env (output_names env) ''missing output port names'' (alloc env Output_ports (init_end env)) s
      else init_end env s) s)"
    if "building i n bs s" "Output_ports \<notin> set bs" "set bs \<union> (if 0 < n then {Output_ports} else {}) = needed_blocks i n" for bs s
  proof (cases "0 < n")
    case True
    have eq: "insert Output_ports (set bs) = needed_blocks i n" using that(3) True by simp
    have "built i n (guard env (output_names env) ''missing output port names'' (alloc env Output_ports (init_end env)) s)"
    proof (rule built_guard)
      show "built i n (alloc env Output_ports (init_end env) s)"
        by (rule built_alloc [where bs = bs, OF built_end]) (assumption | simp add: eq | rule that)+
    qed (rule that(1))
    then show ?thesis using True that(1) by (simp add: building_def)
  next
    case False
    then show ?thesis using built_end [OF that(1)] that(1,3) by (simp add: building_def)
  qed
  show ?thesis
  proof (cases "0 < i")
    case True
    have eq: "insert Input_ports (set bs \<union> (if 0 < n then {Output_ports} else {})) = needed_blocks i n"
      using assms(2) True by simp
    have "built i n (guard env (input_names env) ''missing input port names''
        (alloc env Input_ports (\<lambda>s. if 0 < out_channels s
          then guard env (output_names env) ''missing output port names'' (alloc env Output_ports (init_end env)) s
          else init_end env s)) s)"
    proof (rule built_guard)
      show "built i n (alloc env Input_ports (\<lambda>s. if 0 < out_channels s
          then guard env (output_names env) ''missing output port names'' (alloc env Output_ports (init_end env)) s
          else init_end env s) s)"
        by (rule built_alloc [where bs = bs, OF outs]) (assumption | simp add: eq assms(4) | rule assms)+
    qed (rule assms(1))
    then show ?thesis using True assms(1) by (simp add: ja_register_ports_def building_def)
  next
    case False
    then show ?thesis using outs [OF assms(1,4)] assms(1,2) by (simp add: ja_register_ports_def building_def)
  qed
qed

lemma alloc_rings_written:
  assumes "\<forall>j \<in> set is. create j k \<noteq> None"
  shows "\<exists>slots'. alloc_rings create k is slots = (slots', True) \<and> length slots' = length slots \<and>
    (\<forall>j < length slots. slots' ! j = (if j \<in> set is then Ring (the (create j k)) else slots ! j))"
  using assms
proof (induction "is" arbitrary: slots)
  case (Cons j "is")
  then obtain r where r: "create j k = Some r" by auto
  from Cons.IH [of "slots[j := Ring r]"] Cons.prems show ?case
    using r by (fastforce simp: nth_list_update)
qed simp

lemma alloc_cache_written:
  assumes "ok \<longrightarrow> (\<forall>j < i. create j k \<noteq> None)"
  shows "\<exists>c err. ja_alloc_input_cache ok create k i = (c, err) \<and> cache_written c i \<and>
    (err = 0 \<longleftrightarrow> ok \<and> create i JA_MAX_RECOVERED_CYCLES \<noteq> None)"
proof (cases ok)
  case True
  obtain slots where s: "alloc_rings create k [0..<i] (replicate (i + 1) Uninit) = (slots, True)" "length slots = i + 1"
    "\<forall>j < i + 1. slots ! j = (if j \<in> set [0..<i] then Ring (the (create j k)) else replicate (i + 1) Uninit ! j)"
    using alloc_rings_written [of "[0..<i]" create k "replicate (i + 1) Uninit"] assms True by (auto simp del: replicate.simps replicate_Suc)
  have "Uninit \<notin> set (slots[i := x])" if "x \<noteq> Uninit" for x
  proof
    assume "Uninit \<in> set (slots[i := x])"
    then obtain j where "j < i + 1" "slots[i := x] ! j = Uninit" using s(2) by (auto simp: in_set_conv_nth)
    then show False using s(2,3) that by (cases "j = i") auto
  qed
  then show ?thesis using True s(1,2)
    by (auto simp: ja_alloc_input_cache_def cache_written_def split: option.splits simp del: replicate.simps replicate_Suc)
qed (simp add: ja_alloc_input_cache_def cache_written_def)

lemma built_cache:
  assumes "\<And>s. building i n bs s \<Longrightarrow> built i n (rest s)" and "building i n bs s"
    and "cache_ok env \<longrightarrow> (\<forall>j < i. create_ring env j (cache_size env) \<noteq> None)"
  shows "built i n (init_cache env rest s)"
proof -
  obtain c err where c: "ja_alloc_input_cache (cache_ok env) (create_ring env) (cache_size env) i = (c, err)" "cache_written c i"
    using alloc_cache_written [of "cache_ok env" i "create_ring env" "cache_size env", OF assms(3)] by blast
  have b: "building i n bs (s\<lparr>cache := c\<rparr>)" using assms(2) c(2) by (simp add: building_def)
  have "in_channels s = i" using assms(2) by (simp add: building_def)
  then show ?thesis using c(1) assms(1) [OF b] built_fail [OF b] by (simp add: init_cache_def Let_def)
qed

text \<open>
  When the ring buffer of some channel cannot be created, the error path of the initialisation passes entries of the array
  that were never written to \<^verbatim>\<open>incudine_ringbuffer_free\<close> (the cycle counter's at least): the behaviour is undefined.
\<close>

definition ring_fails :: "ja_env \<Rightarrow> nat \<Rightarrow> bool" where
  "ring_fails env i \<longleftrightarrow> open_ok env \<and> malloc_ok env Inputs \<and> malloc_ok env Tmp_inputs \<and> cache_ok env \<and>
     (\<exists>j < i. create_ring env j (cache_size env) = None)"

lemma alloc_rings_fails:
  assumes "j \<in> set is" and "create j k = None"
  shows "\<exists>slots'. alloc_rings create k is slots = (slots', False) \<and> (\<forall>l. l \<notin> set is \<longrightarrow> slots' ! l = slots ! l)"
  using assms
proof (induction "is" arbitrary: slots)
  case (Cons i "is")
  show ?case
  proof (cases "create i k")
    case None
    then show ?thesis by simp
  next
    case (Some r)
    then have "j \<in> set is" using Cons.prems by auto
    from Cons.IH [OF this assms(2), of "slots[i := Ring r]"] show ?thesis using Some by auto
  qed
qed simp

lemma free_rings_unwritten: "i \<in> set is \<Longrightarrow> slots ! i = Uninit \<Longrightarrow> free_rings slots is = None"
  by (induction "is") (auto split: slot.splits)

lemma initialize_undefined:
  assumes "client_ok s" and "ring_fails env i"
  shows "ja_initialize env i n s = None"
proof -
  obtain j where env: "open_ok env" "malloc_ok env Inputs" "malloc_ok env Tmp_inputs" "cache_ok env"
    "j < i" "create_ring env j (cache_size env) = None"
    using assms(2) by (auto simp: ring_fails_def)
  have "cache_written (cache s) (in_channels s)" "ja_status s = STOPPED \<longrightarrow> released s"
    using assms(1) by (auto simp: client_ok_def split: if_splits)
  then obtain s1 where s1: "ja_cleanup (thread_stops env) (thread_detach env) s = Some s1" "released s1"
    using cleanup_spec by blast
  obtain slots where slots: "alloc_rings (create_ring env) (cache_size env) [0..<i] (replicate (i + 1) Uninit) = (slots, False)"
    "slots ! i = Uninit"
    using alloc_rings_fails [of j "[0..<i]" "create_ring env" "cache_size env" "replicate (i + 1) Uninit"] env(5,6)
    by (auto simp del: replicate.simps replicate_Suc)
  have free: "ja_free_input_cache (Some slots) i = None"
    using free_rings_unwritten [of i "[0..<i + 1]" slots] slots(2) by (simp add: ja_free_input_cache_def del: upt_Suc)
  have cache: "ja_alloc_input_cache (cache_ok env) (create_ring env) (cache_size env) i = (Some slots, 1)"
    using env(4) slots(1) by (simp add: ja_alloc_input_cache_def del: replicate.simps replicate_Suc)
  have "init_cache env rest s2 = None" if "ja_status s2 = INITIALIZING" "in_channels s2 = i" for rest s2
    using that cache free
    by (simp add: init_cache_def Let_def fail_def ja_error_def ja_stop_def ja_cleanup_def ja_set_error_msg_def
        ja_process_thread_wait_def)
  then show ?thesis
    using env(1-3,5) s1 by (simp add: ja_initialize_def alloc_def released_def)
qed

text \<open>In all other cases the client is built or everything is released.\<close>

lemma initialize_spec:
  assumes "client_ok s" and "\<not> ring_fails env i"
  shows "if open_ok env then built i n (ja_initialize env i n s)
    else \<exists>s'. ja_initialize env i n s = Some (s', 1) \<and> released s' \<and> leaked s' = 0"
proof -
  have "cache_written (cache s) (in_channels s)" "ja_status s = STOPPED \<longrightarrow> released s" "leaked s = 0"
    using assms(1) by (auto simp: client_ok_def split: if_splits)
  from cleanup_spec [OF this(1,2), of "thread_stops env" "thread_detach env"] this(3)
  obtain s1 where s1: "ja_cleanup (thread_stops env) (thread_detach env) s = Some s1" "released s1" "leaked s1 = 0"
    by auto
  show ?thesis
  proof (cases "open_ok env")
    case False
    then show ?thesis using s1 by (auto simp: ja_initialize_def ja_set_error_msg_def released_def)
  next
    case True
    define s2 where "s2 = s1\<lparr>error_msg := '''', client := True, thread_status := STOPPED, ja_status := INITIALIZING,
      in_channels := i, out_channels := n\<rparr>"
    define tables where "tables = alloc env Pad_buffer (alloc env Jm_inputs (alloc env Jm_outputs (alloc env Jm_invec
      (alloc env Jm_outvec (ja_register_ports env (init_end env))))))"
    define outs where "outs = (\<lambda>s. if 0 < n then alloc env Outputs tables s else tables s)"
    have b0: "building i n [] s2" using s1 by (simp add: s2_def building_def released_def cache_written_def)
    have ports: "built i n (ja_register_ports env (init_end env) s)"
      if "building i n (Jm_outvec # Jm_invec # Jm_outputs # Jm_inputs # Pad_buffer # bs) s"
        "set bs = (if 0 < i then {Inputs, Tmp_inputs} else {}) \<union> (if 0 < n then {Outputs} else {})" for bs s
      by (rule built_ports [OF that(1)]) (use that(2) in \<open>auto simp: needed_blocks_def\<close>)
    have tables: "built i n (tables s)"
      if b: "building i n bs s" and set: "set bs = (if 0 < i then {Inputs, Tmp_inputs} else {}) \<union> (if 0 < n then {Outputs} else {})"
      for bs s
    proof -
      have no: "Pad_buffer \<notin> set bs" "Jm_inputs \<notin> set (Pad_buffer # bs)" "Jm_outputs \<notin> set (Jm_inputs # Pad_buffer # bs)"
        "Jm_invec \<notin> set (Jm_outputs # Jm_inputs # Pad_buffer # bs)"
        "Jm_outvec \<notin> set (Jm_invec # Jm_outputs # Jm_inputs # Pad_buffer # bs)"
        using set by auto
      show ?thesis unfolding tables_def
        by (rule built_alloc [OF _ no(1) b], rule built_alloc [OF _ no(2)], rule built_alloc [OF _ no(3)],
            rule built_alloc [OF _ no(4)], rule built_alloc [OF _ no(5)], rule ports [OF _ set]; assumption)
    qed
    have outs: "built i n (outs s)" if b: "building i n bs s" and set: "set bs = (if 0 < i then {Inputs, Tmp_inputs} else {})" for bs s
    proof (cases "0 < n")
      case True
      have "Outputs \<notin> set bs" using set by auto
      moreover have "set (Outputs # bs) = (if 0 < i then {Inputs, Tmp_inputs} else {}) \<union> (if 0 < n then {Outputs} else {})"
        using set True by auto
      ultimately have "built i n (alloc env Outputs tables s)" by (intro built_alloc [OF tables _ b])
      then show ?thesis using True by (simp add: outs_def)
    next
      case False
      then show ?thesis using tables [OF b] set by (simp add: outs_def)
    qed
    have caches: "built i n (init_cache env outs s)"
      if "building i n bs s" "set bs = (if 0 < i then {Inputs, Tmp_inputs} else {})"
        "cache_ok env \<longrightarrow> (\<forall>j < i. create_ring env j (cache_size env) \<noteq> None)" for bs s
      by (rule built_cache [OF outs [OF _ that(2)] that(1,3)])
    have "built i n (if 0 < i then alloc env Inputs (alloc env Tmp_inputs (init_cache env outs)) s2 else init_cache env outs s2)"
    proof (cases "0 < i")
      case True
      have rings: "cache_ok env \<longrightarrow> (\<forall>j < i. create_ring env j (cache_size env) \<noteq> None)"
        if "malloc_ok env Inputs" "malloc_ok env Tmp_inputs"
        using assms(2) that \<open>open_ok env\<close> by (auto simp: ring_fails_def)
      have "built i n (alloc env Tmp_inputs (init_cache env outs) s)" if "building i n [Inputs] s" "malloc_ok env Inputs" for s
        by (rule built_alloc_ok [OF caches _ that(1)]) (use True rings that(2) in auto)
      then have "built i n (alloc env Inputs (alloc env Tmp_inputs (init_cache env outs)) s2)"
        by (rule built_alloc_ok [OF _ _ b0]) simp_all
      then show ?thesis using True by simp
    next
      case False
      then show ?thesis using caches [OF b0] by simp
    qed
    moreover have "ja_initialize env i n s =
        (if 0 < i then alloc env Inputs (alloc env Tmp_inputs (init_cache env outs)) s2 else init_cache env outs s2)"
      unfolding ja_initialize_def s1(1) bind.bind_lunit Let_def s2_def outs_def tables_def using True by simp
    ultimately show ?thesis using True by simp
  qed
qed

section \<open>The life cycle\<close>

definition start_client :: ja_client where
  "start_client = \<lparr>ja_status = STOPPED, thread_status = STOPPED, client = False, blocks = [], leaked = 0, cache = None,
     in_channels = 0, out_channels = 0, lisp_busy = False, thread_callback = None, error_msg = '''', xruns = 0, xrun_time = 0\<rparr>"

text \<open>
  The calls in any order, with any answers of the environment. A call with undefined behaviour (see \<open>initialize_undefined\<close>) has
  no step: nothing is said of what follows it. JACK calls back only for an open client.
\<close>

inductive client_step :: "ja_client \<Rightarrow> ja_client \<Rightarrow> bool" where
  initialize: "ja_initialize env i n s = Some (s', ret) \<Longrightarrow> client_step s s'"
| start: "ja_start env s = Some (s', ret) \<Longrightarrow> client_step s s'"
| stop: "ja_stop stops detach s = Some (s', ret) \<Longrightarrow> client_step s s'"
| shutdown: "client s \<Longrightarrow> client_step s (ja_shutdown s)"
| xrun: "client_step s (ja_xrun_cb now s)"
| callback: "client_step s (fst (ja_set_thread_callback b s))"
| thread: "client s \<Longrightarrow> client_step s (s\<lparr>thread_status := st, lisp_busy := busy\<rparr>)"

inductive client_reachable :: "ja_client \<Rightarrow> bool" where
  initial: "client_reachable start_client"
| further: "client_reachable s \<Longrightarrow> client_step s s' \<Longrightarrow> client_reachable s'"

lemma client_okD:
  assumes "client_ok s"
  shows "cache_written (cache s) (in_channels s)" and "ja_status s = STOPPED \<longrightarrow> released s" and "leaked s = 0"
  using assms by (auto simp: client_ok_def split: if_splits)

lemma released_ok: "released s \<Longrightarrow> leaked s = 0 \<Longrightarrow> client_ok s"
  by (simp add: client_ok_def released_def cache_written_def)

lemma initialize_built:
  assumes "client_ok s" and "\<not> ring_fails env i"
  obtains s' ret where "ja_initialize env i n s = Some (s', ret)" "built i n (Some (s', ret))"
proof -
  have "built i n (ja_initialize env i n s)"
    using initialize_spec [OF assms, of n] by (auto simp: built_def split: if_splits)
  then show ?thesis using that by (cases "ja_initialize env i n s") (auto simp: built_def)
qed

lemma start_spec:
  assumes "client_ok s"
  shows "\<exists>s' ret. ja_start env s = Some (s', ret) \<and> (ret = 0 \<longleftrightarrow> client s \<and> activate_ok env) \<and>
    (if ret = 0 then s' = s\<lparr>ja_status := RUNNING\<rparr> else released s' \<and> leaked s' = 0)"
proof (cases "client s \<and> activate_ok env")
  case True
  then show ?thesis by (intro exI [of _ "s\<lparr>ja_status := RUNNING\<rparr>"] exI [of _ 0]) (simp add: ja_start_def)
next
  case False
  define t where "t = (if client s then s\<lparr>ja_status := RUNNING\<rparr> else s)"
  have "cache_written (cache t) (in_channels t)" "ja_status t = STOPPED \<longrightarrow> released t" "leaked t = 0"
    using client_okD [OF assms] by (auto simp: t_def)
  from fail_spec [OF this(1,2)] this(3) obtain s' where "ja_start env s = Some (s', 1)" "released s'" "leaked s' = 0"
    using False by (auto simp: ja_start_def Let_def t_def split: if_splits)
  then show ?thesis using False by (intro exI [of _ s'] exI [of _ 1]) simp
qed

lemma stop_spec:
  assumes "client_ok s"
  shows "\<exists>s'. ja_stop stops detach s = Some (s', 0) \<and> released s' \<and> leaked s' = 0"
  using cleanup_spec [OF client_okD(1,2) [OF assms], of stops detach] client_okD(3) [OF assms] by (auto simp: ja_stop_def)

lemma built_ok: "built i n (Some (s', ret)) \<Longrightarrow> client_ok s'"
  by (auto simp: built_def released_ok) (simp add: client_ok_def)

lemma client_step_ok:
  assumes "client_step s s'" and "client_ok s"
  shows "client_ok s'"
  using assms
proof (induction rule: client_step.induct)
  case (initialize env i n s s' ret)
  have "\<not> ring_fails env i"
  proof
    assume "ring_fails env i"
    from initialize_undefined [OF initialize.prems this, where n = n] initialize.hyps show False by simp
  qed
  show ?case
  proof (rule initialize_built [OF initialize.prems \<open>\<not> ring_fails env i\<close>])
    fix t r
    assume "ja_initialize env i n s = Some (t, r)" "built i n (Some (t, r))"
    then show ?thesis using initialize.hyps built_ok by auto
  qed
next
  case (start env s s' ret)
  then show ?case using start_spec [OF start.prems, of env] released_ok
    by (auto simp: client_ok_def split: if_splits)
next
  case (stop stops detach s s' ret)
  then show ?case using stop_spec [OF stop.prems, of stops detach] released_ok by auto
qed (auto simp: client_ok_def released_def ja_shutdown_def ja_xrun_cb_def ja_set_thread_callback_def split: if_splits)

text \<open>
  C23. In every state that calls of the client's operations can reach, in any order and with any answers of the environment, nothing
  has leaked, and a stopped client holds no block, no cache and no connection to JACK. Stopping returns and
  releases everything; starting returns, and succeeds exactly for an initialised client that JACK activates. Initialising
  has undefined behaviour exactly when JACK opens, the earlier allocations succeed and the ring buffer of a channel cannot
  be created; in every other case it returns, either with a client that has exactly the blocks its channels need or with
  an error and a released client.
\<close>

theorem client_life_cycle:
  assumes "client_reachable s"
  shows "leaked s = 0 \<and> (ja_status s = STOPPED \<longrightarrow> released s) \<and> (ja_status s \<noteq> STOPPED \<longrightarrow> client s) \<and>
    (\<exists>s'. ja_stop stops detach s = Some (s', 0) \<and> released s' \<and> leaked s' = 0) \<and>
    (\<exists>s' ret. ja_start env s = Some (s', ret) \<and> (ret = 0 \<longleftrightarrow> client s \<and> activate_ok env) \<and>
      (if ret = 0 then s' = s\<lparr>ja_status := RUNNING\<rparr> else released s' \<and> leaked s' = 0)) \<and>
    (case ja_initialize env i n s of
       None \<Rightarrow> open_ok env \<and> malloc_ok env Inputs \<and> malloc_ok env Tmp_inputs \<and> cache_ok env \<and>
         (\<exists>j < i. create_ring env j (cache_size env) = None)
     | Some (s', ret) \<Rightarrow> \<not> ring_fails env i \<and> leaked s' = 0 \<and>
        (if ret = 0 then client s' \<and> ja_status s' = INITIALIZING \<and> set (blocks s') = needed_blocks i n else ret = 1 \<and> released s'))"
proof -
  have ok: "client_ok s"
    using assms
    by (induction rule: client_reachable.induct) (auto simp: start_client_def released_def released_ok intro: client_step_ok)
  have "case ja_initialize env i n s of None \<Rightarrow> ring_fails env i
     | Some (s', ret) \<Rightarrow> \<not> ring_fails env i \<and> leaked s' = 0 \<and>
        (if ret = 0 then client s' \<and> ja_status s' = INITIALIZING \<and> set (blocks s') = needed_blocks i n else ret = 1 \<and> released s')"
  proof (cases "ring_fails env i")
    case True
    then show ?thesis using initialize_undefined [OF ok] by simp
  next
    case False
    then obtain s' ret where i: "ja_initialize env i n s = Some (s', ret)" "built i n (Some (s', ret))"
      by (rule initialize_built [OF ok])
    then show ?thesis using False by (auto simp: built_def)
  qed
  moreover have "leaked s = 0" "ja_status s = STOPPED \<longrightarrow> released s" "ja_status s \<noteq> STOPPED \<longrightarrow> client s"
    using ok by (auto simp: client_ok_def split: if_splits)
  ultimately show ?thesis using stop_spec [OF ok, of stops detach] start_spec [OF ok, of env]
    unfolding ring_fails_def by (intro conjI)
qed

definition small_ring :: ringbuffer where
  "small_ring = \<lparr>rb_buf = replicate 8 0, rb_write_head = 0, rb_read_head = 0, rb_size = 8, rb_mask = 7\<rparr>"

definition good_env :: ja_env where
  "good_env = \<lparr>open_ok = True, malloc_ok = (\<lambda>b. b \<noteq> Jm_invec), cache_ok = True, create_ring = (\<lambda>j k. Some small_ring),
     cache_size = 8, input_names = True, output_names = True, sigmask_ok = True, activate_ok = True, thread_stops = (\<lambda>k. k = 3),
     thread_detach = 0\<rparr>"

text \<open>
  Two environments: an allocation fails, which is reported; the second channel's ring buffer cannot be created, which ends in
  undefined behaviour.
\<close>

theorem client_life_cycle_witness:
  "(\<exists>s' ret. ja_initialize good_env 1 2 start_client = Some (s', ret) \<and> leaked s' = 0 \<and>
     (if ret = 0 then client s' \<and> ja_status s' = INITIALIZING \<and> set (blocks s') = needed_blocks 1 2 else ret = 1 \<and> released s')) \<and>
   ja_initialize (good_env\<lparr>create_ring := (\<lambda>j k. if j = 0 then Some small_ring else None)\<rparr>) 2 2 start_client = None"
proof -
  let ?bad = "good_env\<lparr>create_ring := (\<lambda>j k. if j = 0 then Some small_ring else None)\<rparr>"
  have "\<exists>j < 2. create_ring ?bad j (cache_size ?bad) = None" by (rule exI [of _ 1]) simp
  then have env: "ring_fails ?bad 2" "\<not> (\<exists>j < 1. create_ring good_env j (cache_size good_env) = None)"
    by (simp_all add: ring_fails_def good_env_def)
  note good = client_life_cycle [where i = 1 and env = good_env and n = 2 and stops = "\<lambda>_. False" and detach = 0,
      OF client_reachable.initial, THEN conjunct2, THEN conjunct2, THEN conjunct2, THEN conjunct2, THEN conjunct2]
    and bad = client_life_cycle [where i = 2 and env = ?bad and n = 2 and stops = "\<lambda>_. False" and detach = 0,
      OF client_reachable.initial, THEN conjunct2, THEN conjunct2, THEN conjunct2, THEN conjunct2, THEN conjunct2]
  show ?thesis
  proof (intro conjI)
    show "\<exists>s' ret. ja_initialize good_env 1 2 start_client = Some (s', ret) \<and> leaked s' = 0 \<and>
       (if ret = 0 then client s' \<and> ja_status s' = INITIALIZING \<and> set (blocks s') = needed_blocks 1 2 else ret = 1 \<and> released s')"
    proof (cases "ja_initialize good_env 1 2 start_client")
      case None
      then show ?thesis using good env(2) by (simp only: option.case) blast
    next
      case (Some r)
      then show ?thesis using good
        by (cases r) (simp only: option.case prod.case, intro exI conjI, rule refl, elim conjE, assumption, elim conjE, assumption)
    qed
    show "ja_initialize ?bad 2 2 start_client = None"
    proof (cases "ja_initialize ?bad 2 2 start_client")
      case (Some r)
      then show ?thesis using bad env(1)
        by (cases r) (simp only: option.case prod.case simp_thms)
    qed
  qed
qed

section \<open>A suspended cycle\<close>

lemma silence_spec: "\<forall>x \<in> set xs. n \<le> length x \<Longrightarrow> silence n xs = Some (map (\<lambda>x. replicate n 0 @ drop n x) xs)"
  by (induction xs) (auto simp: memset_in)

lemma maybe_continue_busy: "maybe_continue_in_lisp True ja = Some (ja, False)"
  by (simp add: maybe_continue_in_lisp_def)

lemma maybe_continue_cached:
  "cache_holds ja q ts \<Longrightarrow> ja_inputs_cache ja = Some slots \<Longrightarrow> ts \<noteq> [] \<Longrightarrow> maybe_continue_in_lisp b ja = Some (ja, False)"
  by (auto simp: maybe_continue_in_lisp_def ja_has_cached_inputs_def cache_holds_def ring_holds_def rb_empty_iff split: option.splits)


lemma maybe_continue_stays:
  assumes "cache_holds ja q ts" and "ja_inputs_cache ja = Some slots" and "ts \<noteq> [] \<or> b"
  shows "maybe_continue_in_lisp b ja = Some (ja, False)"
  using maybe_continue_cached [OF assms(1,2)] maybe_continue_busy [of ja] assms(3) by (cases b) auto

definition round_frames :: "'m round_env \<Rightarrow> u32" where
  "round_frames env = (if max_bufsize env < wait env then max_bufsize env else wait env)"

text \<open>
  A round of the process thread with cached inputs, of the same number of frames as the cycle before, while Lisp is
  busy or earlier cycles wait: Lisp does not get the control back, the cycle's inputs are appended to the cached ones and it is counted
  as suspended, exactly as \<^verbatim>\<open>ja_cache_inputs\<close> does on the side of Lisp, the outputs are silent and the time offset of the next MIDI events advances.
\<close>

theorem suspended_round:
  assumes "ja_ok ja" and "cache_holds ja q ts" and "ja_inputs_cache ja = Some slots"
    and "\<forall>i < ja_in_channels ja. ja_buffer_bytes ja \<le> ring_room slots i" and "1 \<le> ring_room slots (ja_in_channels ja)"
    and "unat (round_frames env) = ja_frames ja" and "cycle_ok ja (ins env (ja_frames ja))"
    and "\<forall>x \<in> set (outs env (ja_frames ja)). length x = ja_frames ja" and "midi env offset m = Some m'"
    and "ts \<noteq> [] \<or> busy1 env \<and> busy2 env \<and> busy3 env"
  shows "\<exists>ja'. ja_process_cached_round env offset m ja =
      Some (ja', m', offset + round_frames env, Suspended) \<and>
    cache_holds ja' (q @ [ins env (ja_frames ja)]) (ts @ [JA_SUSPENDED_CYCLE]) \<and>
    ja_cache_inputs (ja\<lparr>ja_inputs := ins env (ja_frames ja), ja_outputs := ja_outputs ja'\<rparr>) = Some (ja', True) \<and>
    ja_outputs ja' = map (\<lambda>_. replicate (ja_frames ja) 0) (take (ja_out_channels ja) (outs env (ja_frames ja)))"
proof -
  let ?n = "ja_frames ja" and ?c = "ja_in_channels ja"
  let ?ins = "ins env ?n"
  let ?ja0 = "ja\<lparr>ja_inputs := ?ins\<rparr>"
  define os where "os = map (\<lambda>_ :: u32 list. replicate ?n (0 :: u32)) (take (ja_out_channels ja) (outs env ?n))"
  have frames: "(if max_bufsize env < wait env then max_bufsize env else wait env) = round_frames env"
    by (simp add: round_frames_def)
  have n: "unat (round_frames env) = ?n" by (rule assms(6))
  obtain slots1 where s1: "cache_channels ?ins (ja_buffer_bytes ja) [0..<?c] slots 0 = Some (slots1, ?c)"
    "cache_holds (ja\<lparr>ja_inputs_cache := Some slots1\<rparr>) (q @ [?ins]) ts" "ring_at slots1 ?c = ring_at slots ?c"
    using cache_channels_cycle [OF assms(1,7,2,3,4)] by blast
  define ja2 where "ja2 = ja\<lparr>ja_inputs := ?ins, ja_inputs_cache := Some slots1\<rparr>"
  define ja3 where "ja3 = ja2\<lparr>ja_outputs := os\<rparr>"
  have eq3: "ja3 = ja\<lparr>ja_inputs := ?ins, ja_outputs := os, ja_inputs_cache := Some slots1\<rparr>"
    by (cases ja) (simp add: ja3_def ja2_def)
  have h2: "cache_holds ja2 (q @ [?ins]) ts" using s1(2) by (simp add: cache_holds_def ja2_def)
  have h3: "cache_holds ja3 (q @ [?ins]) ts" using h2 by (simp add: cache_holds_def ja3_def ja2_def)
  have c3: "ja_inputs_cache ja3 = Some slots1" "ja_in_channels ja3 = ?c" by (simp_all add: ja3_def ja2_def)
  have "1 \<le> ring_room slots1 (ja_in_channels ja3)" using assms(5) s1(3) c3(2) by (simp add: ring_room_def)
  from ja_increment_spec [OF h3 c3(1) this, of JA_SUSPENDED_CYCLE] obtain slots' where
    inc: "ja_increment_cycle_counter JA_SUSPENDED_CYCLE ja3 = Some (ja3\<lparr>ja_inputs_cache := Some slots'\<rparr>)"
      "cache_holds (ja3\<lparr>ja_inputs_cache := Some slots'\<rparr>) (q @ [?ins]) (ts @ [JA_SUSPENDED_CYCLE])" by blast
  have m1: "maybe_continue_in_lisp (busy1 env) ja = Some (ja, False)"
    by (rule maybe_continue_stays [OF assms(2,3)]) (use assms(10) in blast)
  have m2: "maybe_continue_in_lisp (busy2 env) ja2 = Some (ja2, False)"
    by (rule maybe_continue_stays [OF h2, where slots = slots1]) (use assms(10) in \<open>auto simp: ja2_def\<close>)
  have m3: "maybe_continue_in_lisp (busy3 env) ja3 = Some (ja3, False)"
    by (rule maybe_continue_stays [OF h3 c3(1)]) (use assms(10) in blast)
  have store: "store_inputs ?ins ja = Some ja2" using assms(3) s1(1) by (simp add: store_inputs_def ja2_def)
  have "\<forall>x \<in> set (take (ja_out_channels ja) (outs env ?n)). length x = ?n" using assms(8) in_set_takeD by fast
  then have "silence ?n (take (ja_out_channels ja) (outs env ?n)) = Some os"
    by (subst silence_spec) (auto simp: os_def)
  moreover have "ja_out_channels ja2 = ja_out_channels ja" by (simp add: ja2_def)
  ultimately have sil: "silence ?n (take (ja_out_channels ja2) (outs env ?n)) = Some os" by simp
  have round: "ja_process_cached_round env offset m ja =
      Some (ja3\<lparr>ja_inputs_cache := Some slots'\<rparr>, m', offset + round_frames env, Suspended)"
    using m1 m2 m3 store sil inc(1) assms(9) unfolding ja_process_cached_round_def frames Let_def n
    by (simp add: resize_buffers_def ja3_def)
  have "ja_cache_inputs (ja\<lparr>ja_inputs := ?ins, ja_outputs := os\<rparr>) = Some (ja3\<lparr>ja_inputs_cache := Some slots'\<rparr>, True)"
    using assms(3) s1(1) inc(1) [unfolded eq3] by (simp add: ja_cache_inputs_def eq3)
  moreover have "ja_outputs (ja3\<lparr>ja_inputs_cache := Some slots'\<rparr>) = os" by (simp add: ja3_def)
  ultimately show ?thesis using round inc(2) unfolding os_def by (intro exI [of _ "ja3\<lparr>ja_inputs_cache := Some slots'\<rparr>"]) simp
qed


definition busy_round :: "unit round_env" where
  "busy_round = \<lparr>wait = 2, max_bufsize = 64, malloc_tmp = True, fresh_tmp = (\<lambda>n. replicate n 0), ins = (\<lambda>_. [[1, 2], [3, 4]]),
     outs = (\<lambda>_. [[9, 9], [9, 9]]), midi = (\<lambda>_. Some), busy1 = True, busy2 = True, busy3 = True\<rparr>"

theorem suspended_round_witness:
  "\<exists>ja'. ja_process_cached_round busy_round 6 () ja_example = Some (ja', (), 8, Suspended) \<and>
     cache_holds ja' [[[1, 2], [3, 4]]] [JA_SUSPENDED_CYCLE] \<and> ja_outputs ja' = [[0, 0], [0, 0]]"
proof -
  obtain slots where ok: "ja_inputs_cache ja_example = Some slots" "cache_holds ja_example [] []" "ja_ok ja_example"
    "cycle_ok ja_example [[1, 2], [3, 4]]" "\<And>i. i < 3 \<Longrightarrow> ring_room slots i = 15" by (rule ja_example_ok) blast
  note round = suspended_round [OF ok(3,2,1), where env = busy_round and offset = 6 and m = "()" and m' = "()"]
  have "\<exists>ja'. ja_process_cached_round busy_round 6 () ja_example = Some (ja', (), 6 + round_frames busy_round, Suspended) \<and>
    cache_holds ja' ([] @ [ins busy_round (ja_frames ja_example)]) ([] @ [JA_SUSPENDED_CYCLE]) \<and>
    ja_cache_inputs (ja_example\<lparr>ja_inputs := ins busy_round (ja_frames ja_example), ja_outputs := ja_outputs ja'\<rparr>) =
      Some (ja', True) \<and>
    ja_outputs ja' = map (\<lambda>_. replicate (ja_frames ja_example) 0) (take (ja_out_channels ja_example) (outs busy_round (ja_frames ja_example)))"
    using ok(4,5) by (intro round) (simp_all add: ja_example_fields busy_round_def round_frames_def)
  moreover have "6 + round_frames busy_round = 8" by (simp add: round_frames_def busy_round_def)
  ultimately show ?thesis
    by (elim exE conjE) (intro exI conjI; simp add: ja_example_fields busy_round_def numeral_2_eq_2)
qed

end
