(* ===== verification/JackThread.thy ===== *)
theory JackThread
  imports JackClientProps
begin

text \<open>
  The process threads of the JACK driver as loops (\<^verbatim>\<open>ja_process_thread\<close>, \<^verbatim>\<open>ja_process_thread_with_cached_inputs\<close>), beside the thread of
  Lisp, and what becomes of the cycles that are suspended while Lisp recovers others.
\<close>

section \<open>The loops\<close>

text \<open>
  The loops run while the status of the client is \<^verbatim>\<open>JA_RUNNING\<close>, here for a list of iterations; the thread's own status, which tells that it runs or
  has ended, is not part of the state. An iteration: what the thread of Lisp does to the shared state in the meantime, the flag
  \<^verbatim>\<open>ja_lisp_busy\<close> the loop reads, the cycle if the flag is set, and what Lisp does while the C thread waits otherwise. The state \<open>'m\<close> has the MIDI
  ports and whatever else Lisp keeps.
\<close>

record ('m, 's) iteration =
  beside :: "'m \<Rightarrow> 's ja \<Rightarrow> ('m \<times> 's ja) option"
  found_busy :: bool
  cycle :: "'m round_env"
  in_lisp :: "'m \<Rightarrow> 's ja \<Rightarrow> ('m \<times> 's ja) option"

fun ja_process_thread :: "('m, 's) iteration list \<Rightarrow> 'm \<Rightarrow> 's ja \<Rightarrow> ('m \<times> 's ja) option" where
  "ja_process_thread [] m ja = Some (m, ja)"
| "ja_process_thread (it # its) m ja = do {
     (m, ja) \<leftarrow> beside it m ja;
     (m, ja) \<leftarrow>
       (if found_busy it then do {
          ja \<leftarrow> ja_process_round (max_bufsize (cycle it)) (wait (cycle it)) (outs (cycle it)) ja;
          Some (m, ja)
        }
        else in_lisp it m ja);
     ja_process_thread its m ja
   }"

text \<open>The last component of the result tells that the thread has not ended by an error.\<close>

fun ja_process_thread_with_cached_inputs ::
  "('m, 's) iteration list \<Rightarrow> u32 \<Rightarrow> 'm \<Rightarrow> 's ja \<Rightarrow> ('s ja \<times> 'm \<times> u32 \<times> bool) option" where
  "ja_process_thread_with_cached_inputs [] offset m ja = Some (ja, m, offset, True)"
| "ja_process_thread_with_cached_inputs (it # its) offset m ja = do {
     (m, ja) \<leftarrow> beside it m ja;
     (ja, m, offset, fin) \<leftarrow>
       (if found_busy it then ja_process_cached_round (cycle it) offset m ja else Some (ja, m, offset, Resume_lisp));
     case fin of
       Thread_error \<Rightarrow> Some (ja, m, offset, False)
     | Suspended \<Rightarrow> ja_process_thread_with_cached_inputs its offset m ja
     | Resume_lisp \<Rightarrow> do {
         (m, ja) \<leftarrow> in_lisp it m ja;
         let (offset, ja) = after_resume ja;
         ja_process_thread_with_cached_inputs its offset m ja
       }
   }"

section \<open>The capacity of the cache\<close>

definition ring_cap :: "slot list \<Rightarrow> nat \<Rightarrow> nat" where
  "ring_cap slots i = (case ring_at slots i of None \<Rightarrow> 0 | Some r \<Rightarrow> rb_capacity r)"

definition ja_caps :: "'s ja \<Rightarrow> (nat \<Rightarrow> nat) option" where
  "ja_caps ja = map_option ring_cap (ja_inputs_cache ja)"

lemma ring_cap_update: "ring_at slots i = Some r \<Longrightarrow> rb_capacity r' = rb_capacity r \<Longrightarrow> ring_cap (slots[i := Ring r']) = ring_cap slots"
  by (auto simp: ring_cap_def ring_at_update fun_eq_iff)

lemma ring_room_cap: "ring_holds slots i bs \<Longrightarrow> ring_room slots i + length bs = ring_cap slots i"
  using rb.room_contents by (auto simp: ring_holds_def ring_room_def ring_cap_def split: option.splits)

lemma cache_channels_cap: "cache_channels inputs bytes is slots res = Some (slots', res') \<Longrightarrow> ring_cap slots' = ring_cap slots"
  by (induction "is" arbitrary: slots res) (auto split: bind_splits simp: ring_cap_update rb_write_capacity)

lemma recover_channels_cap:
  "recover_channels conv ja is slots res = Some (ja', slots', res') \<Longrightarrow>
    ring_cap slots' = ring_cap slots \<and> ja_inputs_cache ja' = ja_inputs_cache ja \<and> ja_out_channels ja' = ja_out_channels ja"
  by (induction "is" arbitrary: ja slots res) (auto split: bind_splits simp: ring_cap_update rb_read_capacity)

lemma increment_cap:
  "ja_increment_cycle_counter t ja = Some ja' \<Longrightarrow> ja_caps ja' = ja_caps ja"
  by (auto simp: ja_increment_cycle_counter_def ja_caps_def ring_cap_update rb_write_capacity split: option.splits bind_splits)

lemma cache_inputs_cap:
  "ja_cache_inputs ja = Some (ja', b) \<Longrightarrow> ja_caps ja' = ja_caps ja"
  by (auto simp: ja_cache_inputs_def ja_caps_def dest!: increment_cap cache_channels_cap split: option.splits bind_splits)

lemma cache_inputs_fields:
  "ja_cache_inputs ja = Some (ja', b) \<Longrightarrow> ja_in_channels ja' = ja_in_channels ja \<and> ja_frames ja' = ja_frames ja \<and>
    ja_buffer_bytes ja' = ja_buffer_bytes ja \<and> ja_tmp_inputs ja' = ja_tmp_inputs ja \<and> lisp_input ja' = lisp_input ja"
  by (auto simp: ja_cache_inputs_def ja_increment_cycle_counter_def split: option.splits bind_splits)

lemma recover_cap: "ja_recover conv ja = Some (ja', x) \<Longrightarrow> ja_caps ja' = ja_caps ja"
  by (auto simp: ja_recover_def ja_inputs_from_cache_begin_def ja_inputs_from_cache_end_def ja_caps_def ring_cap_update rb_read_capacity
      dest!: recover_channels_cap split: option.splits bind_splits)

lemma recover_cycles_cap:
  "recover_cycles ja_has_cached_inputs (ja_recover conv) k ja = Some (ja', xs) \<Longrightarrow> ja_caps ja' = ja_caps ja"
  by (induction k arbitrary: ja xs) (auto dest!: recover_cap split: bind_splits if_splits)

text \<open>There is room for \<open>k\<close> cycles of \<open>c\<close> channels with \<open>n\<close> frames.\<close>

definition cache_fits :: "nat \<Rightarrow> nat \<Rightarrow> nat \<Rightarrow> 's ja \<Rightarrow> bool" where
  "cache_fits c n k ja \<longleftrightarrow> (case ja_caps ja of None \<Rightarrow> False | Some cap \<Rightarrow> (\<forall>i < c. k * (4 * n) \<le> cap i) \<and> k \<le> cap c)"

lemma length_channel: "\<forall>b \<in> set q. length (b ! i) = n \<Longrightarrow> length (concat (map (\<lambda>b. float_bytes (b ! i)) q)) = length q * (4 * n)"
  by (induction q) simp_all

lemma fits_room:
  assumes "ja_cached c n ja q ts" and "\<forall>b \<in> set q. cycle_size c n b" and "cache_fits c n k ja" and "length q = length ts" and "length q < k"
  shows "ja_room ja"
proof -
  obtain slots where s: "ja_inputs_cache ja = Some slots" "\<forall>i < c. ring_holds slots i (concat (map (\<lambda>b. float_bytes (b ! i)) q))"
    "ring_holds slots c ts" "\<forall>i < c. k * (4 * n) \<le> ring_cap slots i" "k \<le> ring_cap slots c" "ja_in_channels ja = c" "ja_buffer_bytes ja = 4 * n"
    using assms(1,3) by (auto simp: ja_cached_def cache_holds_def cache_fits_def ja_caps_def ja_ok_def split: option.splits)
  have "4 * n \<le> ring_room slots i" if "i < c" for i
  proof -
    have "ring_room slots i + length q * (4 * n) = ring_cap slots i"
      using ring_room_cap [OF s(2) [rule_format, OF that]] length_channel [of q i n] assms(2) that by (simp add: cycle_size_def)
    moreover have "(length q + 1) * (4 * n) \<le> k * (4 * n)" using assms(5) by (intro mult_right_mono) simp_all
    ultimately show ?thesis using s(4) that by fastforce
  qed
  moreover have "1 \<le> ring_room slots c" using ring_room_cap [OF s(3)] s(5) assms(4,5) by simp
  ultimately show ?thesis using s by (simp add: ja_room_def)
qed

section \<open>Suspended cycles beside the recovery\<close>

text \<open>An iteration in a garbage collection or after it: Lisp is stopped or recovers a cycle, and the flag is set. The thread does not wait.\<close>

definition gc_iteration :: "(u32 \<Rightarrow> 's) \<Rightarrow> bool \<times> ('m \<times> 's list list) round_env \<Rightarrow> ('m \<times> 's list list, 's) iteration" where
  "gc_iteration conv = (\<lambda>(r, env). \<lparr>beside = (if r then recover_once ja_has_cached_inputs (ja_recover conv) else (\<lambda>m ja. Some (m, ja))), found_busy = True, cycle = env,
     in_lisp = (\<lambda>m ja. None)\<rparr>)"

text \<open>A suspended cycle of \<open>c\<close> channels and \<open>n\<close> frames, with the flag set all the time.\<close>

definition suspended_cycle :: "nat \<Rightarrow> nat \<Rightarrow> ('m \<times> 'x) round_env \<Rightarrow> bool" where
  "suspended_cycle c n env \<longleftrightarrow> unat (round_frames env) = n \<and> cycle_size c n (ins env n) \<and> (\<forall>x \<in> set (outs env n). length x = n) \<and>
     (\<forall>offset m xs. \<exists>m'. midi env offset (m, xs) = Some (m', xs)) \<and> busy1 env \<and> busy2 env \<and> busy3 env"

text \<open>The state between two iterations.\<close>

definition backlog :: "nat \<Rightarrow> nat \<Rightarrow> nat \<Rightarrow> 's ja \<Rightarrow> u32 list list list \<Rightarrow> byte list \<Rightarrow> bool" where
  "backlog c n k ja q ts \<longleftrightarrow> ja_cached c n ja q ts \<and> length q = length ts \<and> (\<forall>b \<in> set q. cycle_size c n b) \<and> cache_fits c n k ja"

lemma recovers_step:
  assumes "backlog c n k ja q ts"
  obtains ja' xs' p q' ts' where "recover_once ja_has_cached_inputs (ja_recover conv) (m, xs) ja = Some ((m, xs @ xs'), ja')"
    and "backlog c n k ja' q' ts'" and "q = p @ q'" and "list_all2 (ja_delivered conv c n) p xs'" and "length q' = length q - 1"
proof -
  have h: "ja_cached c n ja q ts" "length q = length ts" "\<forall>b \<in> set q. cycle_size c n b" "cache_fits c n k ja"
    using assms by (simp_all add: backlog_def)
  show ?thesis
  proof (rule jc.recover_beside [OF h(1-3), of conv m xs])
    fix ja' xs' p q' ts'
    assume r: "recover_once ja_has_cached_inputs (ja_recover conv) (m, xs) ja = Some ((m, xs @ xs'), ja')" "ja_cached c n ja' q' ts'" "q = p @ q'"
      "list_all2 (ja_delivered conv c n) p xs'" "length q' = length q - 1" "length q' = length ts'" "ja' = ja \<or> (\<exists>x. ja_recover conv ja = Some (ja', x))"
    have "ja_caps ja' = ja_caps ja" using r(7) recover_cap by auto
    then have "backlog c n k ja' q' ts'" using h(3,4) r(2,3,6) by (simp add: backlog_def cache_fits_def)
    then show ?thesis using that r by blast
  qed
qed

lemma suspended_step:
  assumes "backlog c n k ja q ts" and "length q < k" and "suspended_cycle c n env"
  obtains ja' m' where "ja_process_cached_round env offset (m, xs) ja = Some (ja', (m', xs), offset + word_of_nat n, Suspended)"
    and "backlog c n k ja' (q @ [ins env n]) (ts @ [JA_SUSPENDED_CYCLE])" and "set (concat (ja_outputs ja')) \<subseteq> {0}"
proof -
  have c: "ja_cached c n ja q ts" "length q = length ts" "\<forall>b \<in> set q. cycle_size c n b" "cache_fits c n k ja"
    using assms(1) by (simp_all add: backlog_def)
  have e: "unat (round_frames env) = n" "cycle_size c n (ins env n)" "\<forall>x \<in> set (outs env n). length x = n" "busy1 env \<and> busy2 env \<and> busy3 env"
    using assms(3) by (simp_all add: suspended_cycle_def)
  obtain m' where m': "midi env offset (m, xs) = Some (m', xs)" using assms(3) unfolding suspended_cycle_def by blast
  have "ja_room ja" by (rule fits_room [OF c(1,3,4,2) assms(2)])
  then obtain slots where s: "ja_inputs_cache ja = Some slots" "\<forall>i < ja_in_channels ja. ja_buffer_bytes ja \<le> ring_room slots i"
    "1 \<le> ring_room slots (ja_in_channels ja)" by (auto simp: ja_room_def split: option.splits)
  have j: "ja_ok ja" "cache_holds ja q ts" "ja_frames ja = n" "ja_in_channels ja = c" using c(1) by (simp_all add: ja_cached_def)
  have "unat (round_frames env) = ja_frames ja" "cycle_ok ja (ins env (ja_frames ja))" "\<forall>x \<in> set (outs env (ja_frames ja)). length x = ja_frames ja"
    using e j by (simp_all add: cycle_ok_def cycle_size_def)
  from suspended_round [OF j(1,2) s this, of offset "(m, xs)" "(m', xs)"] m' e(4) obtain ja' where
    r: "ja_process_cached_round env offset (m, xs) ja = Some (ja', (m', xs), offset + round_frames env, Suspended)"
      "cache_holds ja' (q @ [ins env n]) (ts @ [JA_SUSPENDED_CYCLE])"
      "ja_cache_inputs (ja\<lparr>ja_inputs := ins env n, ja_outputs := ja_outputs ja'\<rparr>) = Some (ja', True)"
      "ja_outputs ja' = map (\<lambda>_. replicate n 0) (take (ja_out_channels ja) (outs env n))" unfolding j(3) by blast
  have f: "ja_in_channels ja' = ja_in_channels ja" "ja_frames ja' = ja_frames ja" "ja_ok ja'"
    using cache_inputs_fields [OF r(3)] j(1) by (simp_all add: ja_ok_def)
  have "ja_caps ja' = ja_caps ja" using cache_inputs_cap [OF r(3)] by (simp add: ja_caps_def)
  then have "backlog c n k ja' (q @ [ins env n]) (ts @ [JA_SUSPENDED_CYCLE])"
    using c(2-4) e(2) f r(2) j(3,4) by (simp add: backlog_def ja_cached_def cache_fits_def)
  moreover have "round_frames env = word_of_nat n" using e(1) by auto
  moreover have "set (concat (ja_outputs ja')) \<subseteq> {0}" unfolding r(4) by auto
  ultimately show ?thesis using that r(1) by simp
qed

lemma gc_run:
  assumes "backlog c n k ja q ts" and "backlog_ok k (length q) (map (\<lambda>(r, env). (r, True)) evs)" and "\<forall>(r, env) \<in> set evs. suspended_cycle c n env"
  shows "\<exists>ja' m' xs' p q' ts'. ja_process_thread_with_cached_inputs (map (gc_iteration conv) evs) offset (m, xs) ja =
      Some (ja', (m', xs @ xs'), offset + word_of_nat (n * length evs), True) \<and>
    backlog c n k ja' q' ts' \<and> length q' \<le> k \<and> q @ map (\<lambda>(r, env). ins env n) evs = p @ q' \<and> list_all2 (ja_delivered conv c n) p xs' \<and>
    (evs \<noteq> [] \<longrightarrow> set (concat (ja_outputs ja')) \<subseteq> {0})"
  using assms
proof (induction evs arbitrary: ja q ts offset m xs)
  case Nil
  then show ?case by (intro exI [of _ ja] exI [of _ m] exI [of _ "[]"] exI [of _ q] exI [of _ ts]) simp
next
  case (Cons ev evs)
  obtain r env where ev: "ev = (r, env)" by (cases ev)
  obtain ja1 xs1 p1 q1 ts1 where b: "beside (gc_iteration conv ev) (m, xs) ja = Some ((m, xs @ xs1), ja1)" "backlog c n k ja1 q1 ts1" "q = p1 @ q1"
    "list_all2 (ja_delivered conv c n) p1 xs1" "length q1 = (if r then length q - 1 else length q)"
  proof (cases r)
    case True
    show ?thesis
      by (rule recovers_step [OF Cons.prems(1), of conv m xs], rule that) (simp_all add: gc_iteration_def ev True)
  next
    case False
    then show ?thesis using that [of "[]" ja q ts "[]"] Cons.prems(1) by (simp add: gc_iteration_def ev)
  qed
  have w: "length q1 < k" "backlog_ok k (length q1 + 1) (map (\<lambda>(r, env). (r, True)) evs)" "suspended_cycle c n env" "\<forall>(r, env) \<in> set evs. suspended_cycle c n env"
    using Cons.prems(2,3) b(5) by (auto simp: ev Let_def)
  obtain ja2 m2 where s: "ja_process_cached_round env offset (m, xs @ xs1) ja1 = Some (ja2, (m2, xs @ xs1), offset + word_of_nat n, Suspended)"
    "backlog c n k ja2 (q1 @ [ins env n]) (ts1 @ [JA_SUSPENDED_CYCLE])" "set (concat (ja_outputs ja2)) \<subseteq> {0}"
    by (rule suspended_step [OF b(2) w(1,3), of offset m "xs @ xs1"])
  have "backlog_ok k (length (q1 @ [ins env n])) (map (\<lambda>(r, env). (r, True)) evs)" using w(2) by simp
  from Cons.IH [OF s(2) this w(4), of "offset + word_of_nat n" m2 "xs @ xs1"] obtain ja' m' xs' p q' ts' where
    t: "ja_process_thread_with_cached_inputs (map (gc_iteration conv) evs) (offset + word_of_nat n) (m2, xs @ xs1) ja2 =
      Some (ja', (m', (xs @ xs1) @ xs'), offset + word_of_nat n + word_of_nat (n * length evs), True)"
    "backlog c n k ja' q' ts'" "length q' \<le> k" "(q1 @ [ins env n]) @ map (\<lambda>(r, env). ins env n) evs = p @ q'"
    "list_all2 (ja_delivered conv c n) p xs'" "evs \<noteq> [] \<longrightarrow> set (concat (ja_outputs ja')) \<subseteq> {0}" by blast
  have g: "found_busy (gc_iteration conv ev)" "cycle (gc_iteration conv ev) = env" by (simp_all add: gc_iteration_def ev)
  have "ja_process_thread_with_cached_inputs (map (gc_iteration conv) (ev # evs)) offset (m, xs) ja =
      Some (ja', (m', xs @ xs1 @ xs'), offset + word_of_nat (n * length (ev # evs)), True)"
    using b(1) s(1) t(1) g by (simp add: algebra_simps)
  moreover have "q @ map (\<lambda>(r, env). ins env n) (ev # evs) = (p1 @ p) @ q'" using b(3) t(4) by (simp add: ev)
  moreover have "list_all2 (ja_delivered conv c n) (p1 @ p) (xs1 @ xs')" using b(4) t(5) by (rule list_all2_appendI)
  moreover have "set (concat (ja_outputs ja')) \<subseteq> {0}"
    using t(1,6) s(3) by (cases "evs = []") simp_all
  ultimately show ?case using t(2,3) by blast
qed

section \<open>The cycle that Lisp continues\<close>

lemma last_cycle:
  assumes "cache_holds ja q [t]"
  shows "ja_is_last_cycle ja = Some (t = JA_CONTINUE_LAST_CYCLE)"
proof -
  obtain slots r where r: "ja_inputs_cache ja = Some slots" "ring_at slots (ja_in_channels ja) = Some r" "rb_ok r" "rb_contents r = [t]"
    using assms by (auto simp: cache_holds_def ring_holds_def split: option.splits)
  then have "1 \<le> rb_read_space r" using rb.used_contents [of r] by (simp add: word_le_nat_alt)
  then have "rb_peek r [0] 1 = Some ([t], 1)" using rb.peek_exact [OF r(3), of 1 "[0]"] r(4) by simp
  then show ?thesis using r ja_has_cached_spec [OF assms] by (simp add: ja_is_last_cycle_def)
qed

lemma continue_step:
  assumes "backlog c n k ja [] []" and "0 < k" and "unat (round_frames env) = n" and "midi env offset m = Some m'" and "\<not> busy1 env"
  obtains ja' where "ja_process_cached_round env offset m ja = Some (ja', m', offset + round_frames env, Resume_lisp)"
    and "ja_is_last_cycle ja' = Some True"
proof -
  have c: "ja_cached c n ja [] []" "cache_fits c n k ja" using assms(1) by (simp_all add: backlog_def)
  then obtain slots where s: "ja_inputs_cache ja = Some slots" "1 \<le> ring_room slots (ja_in_channels ja)"
    using fits_room [OF c(1) _ c(2)] assms(2) by (auto simp: ja_room_def split: option.splits)
  have h: "cache_holds ja [] []" "ja_frames ja = n" using c(1) by (simp_all add: ja_cached_def)
  from ja_increment_spec [OF h(1) s] obtain slots' where
    i: "ja_increment_cycle_counter JA_CONTINUE_LAST_CYCLE ja = Some (ja\<lparr>ja_inputs_cache := Some slots'\<rparr>)"
      "cache_holds (ja\<lparr>ja_inputs_cache := Some slots'\<rparr>) [] [JA_CONTINUE_LAST_CYCLE]" by auto
  have "maybe_continue_in_lisp (busy1 env) ja = Some (ja\<lparr>ja_inputs_cache := Some slots'\<rparr>, True)"
    using assms(5) ja_has_cached_spec [OF h(1)] i(1) by (simp add: maybe_continue_in_lisp_def)
  then have "ja_process_cached_round env offset m ja =
      Some (ja\<lparr>ja_inputs_cache := Some slots'\<rparr>, m', offset + round_frames env, Resume_lisp)"
    using assms(3,4) h(2) by (simp add: ja_process_cached_round_def Let_def resize_buffers_def round_frames_def)
  then show ?thesis using that last_cycle [OF i(2)] by simp
qed

text \<open>
  C26. A garbage collection of any length while Lisp recovers. The C thread suspends the cycles \<open>evs\<close> one after the other while, beside it,
  the thread of Lisp is stopped or recovers cycles, and the cache has room for the cycles that wait at a time. Then the C thread keeps the control and plays silence,
  and Lisp gets every suspended cycle exactly once and in order, with its channels interleaved: some while the thread runs (\<open>xs\<close>), the others (\<open>ys\<close>) from the rest of its
  loop, which ends with an empty cache. In the next cycle in which the flag is cleared the control goes to Lisp, which finds the cycle marked as the one to continue.
\<close>

theorem gc_cycles_in_order:
  assumes "ja_cached c n ja q ts" and "length q = length ts" and "\<forall>b \<in> set q. cycle_size c n b" and "cache_fits c n k ja" and "0 < k"
    and "backlog_ok k (length q) (map (\<lambda>(r, env). (r, True)) evs)" and "\<forall>(r, env) \<in> set evs. suspended_cycle c n env"
    and "unat (round_frames final) = n" and "\<forall>offset m. midi final offset m \<noteq> None" and "\<not> busy1 final"
  shows "\<exists>ja' m' xs offset' ja2 ys ja3 m3 offset3.
    ja_process_thread_with_cached_inputs (map (gc_iteration conv) evs) offset (m, []) ja = Some (ja', (m', xs), offset', True) \<and>
    offset' = offset + word_of_nat (n * length evs) \<and> (evs \<noteq> [] \<longrightarrow> set (concat (ja_outputs ja')) \<subseteq> {0}) \<and>
    recover_cycles ja_has_cached_inputs (ja_recover conv) (k + 1) ja' = Some (ja2, ys) \<and>
    list_all2 (ja_delivered conv c n) (q @ map (\<lambda>(r, env). ins env n) evs) (xs @ ys) \<and> ja_has_cached_inputs ja2 = Some False \<and>
    ja_process_cached_round final offset' (m', xs) ja2 = Some (ja3, m3, offset3, Resume_lisp) \<and> ja_is_last_cycle ja3 = Some True"
proof -
  have "backlog c n k ja q ts" using assms(1-4) by (simp add: backlog_def)
  from gc_run [OF this assms(6,7), of conv offset m "[]", unfolded append_Nil] obtain ja' m' xs p q' ts' where
    t: "ja_process_thread_with_cached_inputs (map (gc_iteration conv) evs) offset (m, []) ja =
      Some (ja', (m', xs), offset + word_of_nat (n * length evs), True)"
    "backlog c n k ja' q' ts'" "length q' \<le> k" "q @ map (\<lambda>(r, env). ins env n) evs = p @ q'"
    "list_all2 (ja_delivered conv c n) p xs" "evs \<noteq> [] \<longrightarrow> set (concat (ja_outputs ja')) \<subseteq> {0}" by blast
  have b: "ja_cached c n ja' q' ts'" "length q' = length ts'" "\<forall>b \<in> set q'. cycle_size c n b" "cache_fits c n k ja'"
    using t(2) by (simp_all add: backlog_def)
  obtain ja2 ys where r: "recover_cycles ja_has_cached_inputs (ja_recover conv) (k + 1) ja' = Some (ja2, ys)" "ja_cached c n ja2 [] []"
    "list_all2 (ja_delivered conv c n) q' ys" using jc.recover_all [OF b(1-3), of "k + 1" conv] t(3) by auto
  have "ja_caps ja2 = ja_caps ja'" by (rule recover_cycles_cap [OF r(1)])
  then have bl: "backlog c n k ja2 [] []" using r(2) b(4) by (simp add: backlog_def cache_fits_def)
  obtain m3 where m3: "midi final (offset + word_of_nat (n * length evs)) (m', xs) = Some m3" using assms(9) by fast
  obtain ja3 where "ja_process_cached_round final (offset + word_of_nat (n * length evs)) (m', xs) ja2 =
      Some (ja3, m3, offset + word_of_nat (n * length evs) + round_frames final, Resume_lisp)" "ja_is_last_cycle ja3 = Some True"
    by (rule continue_step [OF bl assms(5,8) m3 assms(10)])
  moreover have "list_all2 (ja_delivered conv c n) (q @ map (\<lambda>(r, env). ins env n) evs) (xs @ ys)"
    unfolding t(4) using t(5) r(3) by (rule list_all2_appendI)
  moreover have "ja_has_cached_inputs ja2 = Some False" using jc.cached_law [OF r(2)] by simp
  ultimately show ?thesis using t(1,6) r(1) by blast
qed

definition gc_round :: "(unit \<times> u32 list list) round_env" where
  "gc_round = \<lparr>wait = 2, max_bufsize = 64, malloc_tmp = True, fresh_tmp = (\<lambda>n. replicate n 0), ins = (\<lambda>_. [[1, 2], [3, 4]]),
     outs = (\<lambda>_. [[9, 9], [9, 9]]), midi = (\<lambda>_. Some), busy1 = True, busy2 = True, busy3 = True\<rparr>"

text \<open>A cache with room for one cycle: Lisp recovers the first cycle before the second one.\<close>

theorem gc_cycles_in_order_witness:
  "\<exists>ja' m' xs offset' ja2 ys ja3 m3 offset3.
    ja_process_thread_with_cached_inputs (map (gc_iteration id) [(False, gc_round), (True, gc_round)]) 6 ((), []) ja_example =
      Some (ja', (m', xs), offset', True) \<and> offset' = 10 \<and>
    recover_cycles ja_has_cached_inputs (ja_recover id) 2 ja' = Some (ja2, ys) \<and>
    list_all2 (ja_delivered id 2 2) [[[1, 2], [3, 4]], [[1, 2], [3, 4]]] (xs @ ys) \<and>
    ja_process_cached_round (gc_round\<lparr>busy1 := False\<rparr>) offset' (m', xs) ja2 = Some (ja3, m3, offset3, Resume_lisp) \<and>
    ja_is_last_cycle ja3 = Some True"
proof -
  obtain slots where ok: "ja_inputs_cache ja_example = Some slots" "cache_holds ja_example [] []" "ja_ok ja_example"
    "cycle_ok ja_example [[1, 2], [3, 4]]" "\<And>i. i < 3 \<Longrightarrow> ring_room slots i = 15" by (rule ja_example_ok) blast
  have c: "ja_cached 2 2 ja_example [] []" using ok(2,3) by (simp add: ja_cached_def ja_example_fields)
  have "ring_holds slots i []" if "i < 3" for i
    using ok(1,2) that by (cases "i = 2") (simp_all add: cache_holds_def ja_example_fields)
  then have "ring_cap slots i = 15" if "i < 3" for i using ring_room_cap [of slots i "[]"] ok(5) that by simp
  then have f: "cache_fits 2 2 1 ja_example" using ok(1) by (simp add: cache_fits_def ja_caps_def)
  have fr: "round_frames gc_round = 2" "round_frames (gc_round\<lparr>busy1 := False\<rparr>) = 2" by (simp_all add: round_frames_def gc_round_def)
  have "suspended_cycle 2 2 gc_round" using fr(1) by (simp add: suspended_cycle_def cycle_size_def two_channels) (simp add: gc_round_def)
  then have e: "\<forall>(r, env) \<in> set [(False, gc_round), (True, gc_round)]. suspended_cycle 2 2 env" by simp
  let ?evs = "[(False, gc_round), (True, gc_round)]"
  have run: "\<exists>ja' m' xs offset' ja2 ys ja3 m3 offset3.
    ja_process_thread_with_cached_inputs (map (gc_iteration id) ?evs) 6 ((), []) ja_example = Some (ja', (m', xs), offset', True) \<and>
    offset' = 6 + word_of_nat (2 * length ?evs) \<and> (?evs \<noteq> [] \<longrightarrow> set (concat (ja_outputs ja')) \<subseteq> {0}) \<and>
    recover_cycles ja_has_cached_inputs (ja_recover id) (1 + 1) ja' = Some (ja2, ys) \<and>
    list_all2 (ja_delivered id 2 2) ([] @ map (\<lambda>(r, env). ins env 2) ?evs) (xs @ ys) \<and> ja_has_cached_inputs ja2 = Some False \<and>
    ja_process_cached_round (gc_round\<lparr>busy1 := False\<rparr>) offset' (m', xs) ja2 = Some (ja3, m3, offset3, Resume_lisp) \<and>
    ja_is_last_cycle ja3 = Some True"
    by (rule gc_cycles_in_order [OF c _ _ f _ _ e]) (simp_all add: fr, simp_all add: gc_round_def)
  have all: "[] @ map (\<lambda>(r, env). ins env 2) ?evs = [[[1, 2], [3, 4]], [[1, 2], [3, 4]]]" by (simp add: gc_round_def)
  have offs: "6 + word_of_nat (2 * length ?evs) = (10 :: u32)" by simp
  from run [unfolded all offs one_add_one] show ?thesis
    by (elim exE conjE) (intro exI conjI, assumption+)
qed

end
