(* ===== verification/JackHandover.thy ===== *)
theory JackHandover
  imports Main
begin

text \<open>
  The handover of the JACK client between the process thread of C (\<^verbatim>\<open>ja_process_thread\<close>, \<^verbatim>\<open>ja_process_thread_with_cached_inputs\<close>) and
  the real-time thread of Lisp, with the two condition variables of \<^verbatim>\<open>src/src/rtjack.c\<close>. One step is one access to the flag
  \<^verbatim>\<open>ja_lisp_busy\<close> or one call of \<^verbatim>\<open>__ja_condition_signal\<close> or \<^verbatim>\<open>__ja_condition_wait\<close>; both hold the mutex of the condition, so they are
  atomic. A wait is not repeated under a predicate, so the spurious wake-ups that POSIX allows matter: they are steps of their own,
  \<open>spurious_c\<close> and \<open>spurious_lisp\<close>. The same protocol is in \<^verbatim>\<open>src/src/rtpa.c\<close>. Lisp also replays cached inputs before it clears the
  flag (\<^verbatim>\<open>recover-suspended-audio-cycles\<close> in \<^verbatim>\<open>rt.lisp\<close>); this does not touch JACK's cycle and runs beside the C thread by design
  (\<open>JackThread\<close>), so it is not one of the cycles of this theory.
\<close>

section \<open>State and steps\<close>

text \<open>
  The control points of the C thread: the test of the flag at the head of the loop, a cycle on its own, the signal to Lisp, the call of the
  wait, and waiting. Those of the Lisp thread: \<^verbatim>\<open>ja_set_lisp_busy_state(0)\<close>, the call of \<^verbatim>\<open>ja_condition_wait\<close>, waiting, its cycles, and the
  two statements of \<^verbatim>\<open>ja_transfer_to_c_thread\<close>.
\<close>

datatype c_point = C_test | C_cycle | C_signal | C_wait | C_waiting

datatype lisp_point = L_clear | L_wait | L_waiting | L_cycles | L_set | L_signal

record handover =
  c_at :: c_point
  lisp_at :: lisp_point
  busy :: bool

definition signal_lisp :: "handover \<Rightarrow> handover" where
  "signal_lisp h = (if lisp_at h = L_waiting then h\<lparr>lisp_at := L_cycles\<rparr> else h)"

definition signal_c :: "handover \<Rightarrow> handover" where
  "signal_c h = (if c_at h = C_waiting then h\<lparr>c_at := C_test\<rparr> else h)"

text \<open>
  The C thread. In the middle of a cycle with cached inputs it may find the flag cleared and give up the control
  (\<^verbatim>\<open>MAYBE_CONTINUE_IN_LISP\<close>).
\<close>

inductive c_step :: "handover \<Rightarrow> handover \<Rightarrow> bool" where
  test: "c_at h = C_test \<Longrightarrow> c_step h (h\<lparr>c_at := (if busy h then C_cycle else C_signal)\<rparr>)"
| cycle: "c_at h = C_cycle \<Longrightarrow> c_step h (h\<lparr>c_at := C_test\<rparr>)"
| maybe_continue: "c_at h = C_cycle \<Longrightarrow> \<not> busy h \<Longrightarrow> c_step h (h\<lparr>c_at := C_signal\<rparr>)"
| signal: "c_at h = C_signal \<Longrightarrow> c_step h ((signal_lisp h)\<lparr>c_at := C_wait\<rparr>)"
| wait: "c_at h = C_wait \<Longrightarrow> c_step h (h\<lparr>c_at := C_waiting\<rparr>)"

inductive lisp_step :: "handover \<Rightarrow> handover \<Rightarrow> bool" where
  set_lisp_busy_state: "lisp_at h = L_clear \<Longrightarrow> lisp_step h (h\<lparr>lisp_at := L_wait, busy := False\<rparr>)"
| condition_wait: "lisp_at h = L_wait \<Longrightarrow> lisp_step h (h\<lparr>lisp_at := L_waiting\<rparr>)"
| cycles: "lisp_at h = L_cycles \<Longrightarrow> lisp_step h (h\<lparr>lisp_at := L_set\<rparr>)"
| transfer_busy: "lisp_at h = L_set \<Longrightarrow> lisp_step h (h\<lparr>lisp_at := L_signal, busy := True\<rparr>)"
| transfer_signal: "lisp_at h = L_signal \<Longrightarrow> lisp_step h ((signal_c h)\<lparr>lisp_at := L_clear\<rparr>)"

text \<open>
  A spurious wake-up: \<^verbatim>\<open>pthread_cond_wait\<close> returns without a signal, and the thread goes on behind \<^verbatim>\<open>__ja_condition_wait\<close>.
\<close>

inductive spurious_c :: "handover \<Rightarrow> handover \<Rightarrow> bool" where
  "c_at h = C_waiting \<Longrightarrow> spurious_c h (h\<lparr>c_at := C_test\<rparr>)"

inductive spurious_lisp :: "handover \<Rightarrow> handover \<Rightarrow> bool" where
  "lisp_at h = L_waiting \<Longrightarrow> spurious_lisp h (h\<lparr>lisp_at := L_cycles\<rparr>)"

inductive_cases c_stepE: "c_step h h'"
inductive_cases lisp_stepE: "lisp_step h h'"

inductive_cases spurious_cE: "spurious_c h h'"

definition hand_step :: "handover \<Rightarrow> handover \<Rightarrow> bool" where
  "hand_step h h' \<longleftrightarrow> c_step h h' \<or> lisp_step h h'"

text \<open>The steps with spurious wake-ups of the C thread.\<close>

definition weak_step :: "handover \<Rightarrow> handover \<Rightarrow> bool" where
  "weak_step h h' \<longleftrightarrow> hand_step h h' \<or> spurious_c h h'"

text \<open>After \<^verbatim>\<open>ja_initialize\<close> and \<^verbatim>\<open>ja_start\<close> the flag is set and the two threads are at their beginning.\<close>

definition hand_init :: handover where
  "hand_init = \<lparr>c_at = C_test, lisp_at = L_clear, busy = True\<rparr>"

section \<open>Mutual exclusion\<close>

definition hand_inv :: "handover \<Rightarrow> bool" where
  "hand_inv h \<longleftrightarrow> (lisp_at h \<in> {L_cycles, L_set} \<longrightarrow> c_at h \<in> {C_wait, C_waiting} \<and> \<not> busy h) \<and>
     (lisp_at h = L_signal \<longrightarrow> c_at h \<in> {C_wait, C_waiting} \<and> busy h) \<and>
     (lisp_at h \<in> {L_wait, L_waiting} \<longrightarrow> \<not> busy h) \<and> (lisp_at h = L_clear \<longrightarrow> busy h) \<and>
     (c_at h = C_signal \<longrightarrow> \<not> busy h)"

lemma c_step_inv: "c_step h h' \<Longrightarrow> hand_inv h \<Longrightarrow> hand_inv h'"
  by (elim c_stepE) (cases "lisp_at h"; auto simp: hand_inv_def signal_lisp_def)+

lemma lisp_step_inv: "lisp_step h h' \<Longrightarrow> hand_inv h \<Longrightarrow> hand_inv h'"
  by (elim lisp_stepE) (cases "c_at h"; auto simp: hand_inv_def signal_c_def)+

lemma hand_inv_reachable: "hand_step\<^sup>*\<^sup>* hand_init h \<Longrightarrow> hand_inv h"
proof (induction rule: rtranclp_induct)
  case (step g h)
  then show ?case by (auto simp: hand_step_def intro: c_step_inv lisp_step_inv)
qed (simp add: hand_init_def hand_inv_def)

text \<open>
  The invariant that also survives spurious wake-ups of the C thread: an awakened C thread reads the cleared flag, signals once more and
  waits again; it starts a cycle only when Lisp has set the flag at its transfer.
\<close>

definition weak_inv :: "handover \<Rightarrow> bool" where
  "weak_inv h \<longleftrightarrow> (lisp_at h \<in> {L_cycles, L_set} \<longrightarrow> c_at h \<noteq> C_cycle) \<and>
     (lisp_at h \<in> {L_wait, L_waiting, L_cycles, L_set} \<longrightarrow> \<not> busy h)"

lemma weak_step_inv:
  assumes "weak_step h h'" and "weak_inv h"
  shows "weak_inv h'"
proof -
  consider "c_step h h'" | "lisp_step h h'" | "spurious_c h h'" using assms(1) by (auto simp: weak_step_def hand_step_def)
  then show ?thesis
  proof cases
    case 1
    then show ?thesis using assms(2) by (elim c_stepE) (cases "lisp_at h"; auto simp: weak_inv_def signal_lisp_def)+
  next
    case 2
    then show ?thesis using assms(2) by (elim lisp_stepE) (cases "c_at h"; auto simp: weak_inv_def signal_c_def)+
  next
    case 3
    then show ?thesis using assms(2) by (elim spurious_cE) (auto simp: weak_inv_def)
  qed
qed

lemma weak_inv_reachable: "weak_step\<^sup>*\<^sup>* hand_init h \<Longrightarrow> weak_inv h"
proof (induction rule: rtranclp_induct)
  case (step g h)
  then show ?case by (auto intro: weak_step_inv)
qed (simp add: hand_init_def weak_inv_def)

lemma handover_run:
  shows "hand_step \<lparr>c_at = C_test, lisp_at = L_clear, busy = True\<rparr> \<lparr>c_at = C_test, lisp_at = L_wait, busy = False\<rparr>"
    and "hand_step \<lparr>c_at = C_test, lisp_at = l, busy = False\<rparr> \<lparr>c_at = C_signal, lisp_at = l, busy = False\<rparr>"
    and "hand_step \<lparr>c_at = c, lisp_at = L_wait, busy = b\<rparr> \<lparr>c_at = c, lisp_at = L_waiting, busy = b\<rparr>"
    and "l \<noteq> L_waiting \<Longrightarrow> hand_step \<lparr>c_at = C_signal, lisp_at = l, busy = b\<rparr> \<lparr>c_at = C_wait, lisp_at = l, busy = b\<rparr>"
    and "hand_step \<lparr>c_at = C_signal, lisp_at = L_waiting, busy = b\<rparr> \<lparr>c_at = C_wait, lisp_at = L_cycles, busy = b\<rparr>"
    and "hand_step \<lparr>c_at = C_wait, lisp_at = l, busy = b\<rparr> \<lparr>c_at = C_waiting, lisp_at = l, busy = b\<rparr>"
  using lisp_step.set_lisp_busy_state [of "\<lparr>c_at = C_test, lisp_at = L_clear, busy = True\<rparr>"]
    c_step.test [of "\<lparr>c_at = C_test, lisp_at = l, busy = False\<rparr>"]
    lisp_step.condition_wait [of "\<lparr>c_at = c, lisp_at = L_wait, busy = b\<rparr>"]
    c_step.signal [of "\<lparr>c_at = C_signal, lisp_at = l, busy = b\<rparr>"]
    c_step.signal [of "\<lparr>c_at = C_signal, lisp_at = L_waiting, busy = b\<rparr>"]
    c_step.wait [of "\<lparr>c_at = C_wait, lisp_at = l, busy = b\<rparr>"]
  by (simp_all add: hand_step_def signal_lisp_def)

lemma handover_cycle:
  shows "hand_step \<lparr>c_at = C_test, lisp_at = l, busy = True\<rparr> \<lparr>c_at = C_cycle, lisp_at = l, busy = True\<rparr>"
    and "hand_step \<lparr>c_at = c, lisp_at = L_clear, busy = b\<rparr> \<lparr>c_at = c, lisp_at = L_wait, busy = False\<rparr>"
  using c_step.test [of "\<lparr>c_at = C_test, lisp_at = l, busy = True\<rparr>"]
    lisp_step.set_lisp_busy_state [of "\<lparr>c_at = c, lisp_at = L_clear, busy = b\<rparr>"]
  by (simp_all add: hand_step_def)

lemma lisp_awake:
  "hand_step\<^sup>*\<^sup>* hand_init \<lparr>c_at = C_wait, lisp_at = L_cycles, busy = False\<rparr>"
  unfolding hand_init_def
  by (rule converse_rtranclp_into_rtranclp [of hand_step, OF handover_run(1)], rule converse_rtranclp_into_rtranclp [of hand_step, OF handover_run(2)],
      rule converse_rtranclp_into_rtranclp [of hand_step, OF handover_run(3)], rule r_into_rtranclp [of hand_step, OF handover_run(5)])

lemma lisp_waits_beside_cycle:
  "hand_step\<^sup>*\<^sup>* hand_init \<lparr>c_at = C_cycle, lisp_at = L_waiting, busy = False\<rparr>"
  unfolding hand_init_def
  by (rule converse_rtranclp_into_rtranclp [of hand_step, OF handover_cycle(1)], rule converse_rtranclp_into_rtranclp [of hand_step, OF handover_cycle(2)],
      rule r_into_rtranclp [of hand_step, OF handover_run(3)])

text \<open>
  C24. Which wake-ups the exclusion of the two threads needs. Without spurious wake-ups, however the two threads interleave, the C thread
  is at its wait while Lisp is between its wake-up and the end of the transfer. With any number of spurious wake-ups of the C
  thread the two still never run audio cycles at the same time. But one spurious wake-up of Lisp is enough for both of them
  to be in a cycle, because the wait of Lisp is not repeated under a predicate.
\<close>

theorem handover_exclusive:
  "(hand_step\<^sup>*\<^sup>* hand_init h \<and> lisp_at h \<in> {L_cycles, L_set, L_signal} \<longrightarrow> c_at h \<in> {C_wait, C_waiting}) \<and>
   (weak_step\<^sup>*\<^sup>* hand_init h \<longrightarrow> \<not> (c_at h = C_cycle \<and> lisp_at h \<in> {L_cycles, L_set})) \<and>
   (\<exists>g g'. hand_step\<^sup>*\<^sup>* hand_init g \<and> spurious_lisp g g' \<and> c_at g' = C_cycle \<and> lisp_at g' = L_cycles)"
proof (intro conjI)
  show "hand_step\<^sup>*\<^sup>* hand_init h \<and> lisp_at h \<in> {L_cycles, L_set, L_signal} \<longrightarrow> c_at h \<in> {C_wait, C_waiting}"
    using hand_inv_reachable [of h] by (auto simp: hand_inv_def)
  show "weak_step\<^sup>*\<^sup>* hand_init h \<longrightarrow> \<not> (c_at h = C_cycle \<and> lisp_at h \<in> {L_cycles, L_set})"
    using weak_inv_reachable [of h] by (auto simp: weak_inv_def)
  show "\<exists>g g'. hand_step\<^sup>*\<^sup>* hand_init g \<and> spurious_lisp g g' \<and> c_at g' = C_cycle \<and> lisp_at g' = L_cycles"
    using spurious_lisp.intros [of "\<lparr>c_at = C_cycle, lisp_at = L_waiting, busy = False\<rparr>"] lisp_waits_beside_cycle
    by (intro exI conjI) (assumption | simp)+
qed

text \<open>A run in which Lisp cycles, and its continuation with a spurious wake-up of the C thread.\<close>

theorem handover_exclusive_witness:
  "(\<exists>h. hand_step\<^sup>*\<^sup>* hand_init h \<and> lisp_at h = L_cycles \<and> c_at h \<in> {C_wait, C_waiting}) \<and>
   (\<exists>h. weak_step\<^sup>*\<^sup>* hand_init h \<and> lisp_at h = L_cycles \<and> c_at h = C_test) \<and>
   (\<exists>g g'. hand_step\<^sup>*\<^sup>* hand_init g \<and> spurious_lisp g g' \<and> c_at g' = C_cycle \<and> lisp_at g' = L_cycles)"
proof -
  let ?h = "\<lparr>c_at = C_wait, lisp_at = L_cycles, busy = False\<rparr>" and ?g = "\<lparr>c_at = C_test, lisp_at = L_cycles, busy = False\<rparr>"
  have "weak_step\<^sup>*\<^sup>* hand_init ?h"
    by (rule rtranclp_mono [THEN predicate2D, OF _ lisp_awake]) (auto simp: weak_step_def)
  moreover have "weak_step ?h \<lparr>c_at = C_waiting, lisp_at = L_cycles, busy = False\<rparr>"
    using handover_run(6) by (simp add: weak_step_def)
  moreover have "weak_step \<lparr>c_at = C_waiting, lisp_at = L_cycles, busy = False\<rparr> ?g"
    using spurious_c.intros [of "\<lparr>c_at = C_waiting, lisp_at = L_cycles, busy = False\<rparr>"] by (simp add: weak_step_def)
  ultimately have g: "weak_step\<^sup>*\<^sup>* hand_init ?g" by (meson rtranclp.rtrancl_into_rtrancl)
  have "c_at ?h \<in> {C_wait, C_waiting}" using handover_exclusive [of ?h] lisp_awake by simp
  with g lisp_awake handover_exclusive [of ?g, THEN conjunct2, THEN conjunct2] show ?thesis
    by (intro conjI) (rule exI [of _ ?h], simp, rule exI [of _ ?g], simp)
qed

section \<open>The lost wake-up\<close>

definition hand_stuck :: "handover \<Rightarrow> bool" where
  "hand_stuck h \<longleftrightarrow> \<not> (\<exists>h'. hand_step h h')"

lemma hand_stuck_iff: "hand_stuck h \<longleftrightarrow> c_at h = C_waiting \<and> lisp_at h = L_waiting"
proof -
  have "(\<exists>h'. c_step h h') \<longleftrightarrow> c_at h \<noteq> C_waiting"
    by (cases "c_at h") (auto elim: c_stepE intro: c_step.intros)
  moreover have "(\<exists>h'. lisp_step h h') \<longleftrightarrow> lisp_at h \<noteq> L_waiting"
    by (cases "lisp_at h") (auto elim: lisp_stepE intro: lisp_step.intros)
  ultimately show ?thesis unfolding hand_stuck_def hand_step_def by blast
qed

text \<open>
  C25. The waits have no predicate: when the C thread reads the cleared flag and signals before Lisp has started to wait, the
  signal is lost and both threads wait for ever. It is the only way in which the protocol gets stuck.
\<close>

theorem handover_lost_wakeup:
  "(\<exists>h. hand_step\<^sup>*\<^sup>* hand_init h \<and> hand_stuck h) \<and> (hand_stuck g \<longleftrightarrow> c_at g = C_waiting \<and> lisp_at g = L_waiting)"
proof -
  let ?h = "\<lparr>c_at = C_waiting, lisp_at = L_waiting, busy = False\<rparr>"
  have "hand_step\<^sup>*\<^sup>* hand_init ?h"
    unfolding hand_init_def
    by (rule converse_rtranclp_into_rtranclp [of hand_step, OF handover_run(1)], rule converse_rtranclp_into_rtranclp [of hand_step, OF handover_run(2)],
        rule converse_rtranclp_into_rtranclp [of hand_step, OF handover_run(4)], simp,
        rule converse_rtranclp_into_rtranclp [of hand_step, OF handover_run(6)], rule r_into_rtranclp [of hand_step, OF handover_run(3)])
  then show ?thesis by (auto simp: hand_stuck_iff)
qed

end
