(* ===== verification/PortAudio.thy ===== *)
theory PortAudio
  imports JackAudio
begin

text \<open>
  The PortAudio driver (\<^verbatim>\<open>src/src/rtpa.c\<close>): the cache of inputs, the audio cycle, the life cycle of the stream and the rounds of
  the two process threads. Calls of PortAudio and of the system are parameters. Samples of PortAudio are 32-bit words, the bit patterns of
  \<^verbatim>\<open>float\<close>, those of Lisp of a type \<open>'s\<close>; \<open>conv\<close> and \<open>unconv\<close> are the casts. A null pointer is \<open>None\<close>, and so is the
  result of an operation that is undefined in C.
\<close>

section \<open>State\<close>

datatype pa_state = PA_RUNNING | PA_STOPPED | PA_INITIALIZING | PA_STOPPING

text \<open>
  \<open>pa_stream\<close> tells whether the pointer \<^verbatim>\<open>stream\<close> is not null, \<open>pa_open\<close> whether PortAudio has the stream open: \<^verbatim>\<open>Pa_Terminate\<close>
  closes it without a change of the pointer. \<open>pa_leaked\<close> counts the pointers that are overwritten while they own memory.
\<close>

record 's pa =
  pa_status :: pa_state
  pa_proc_thread :: pa_state
  pa_stream :: bool
  pa_open :: bool
  pa_in_channels :: nat
  pa_out_channels :: nat
  frames_per_buffer :: nat
  pa_inputs :: "u32 list option"
  pa_outputs :: "u32 list option"
  pa_tmp_inputs :: "byte list option"
  pa_inputs_cache :: "ringbuffer option"
  pa_cycle_counter :: "ringbuffer option"
  pa_inbuf_bytes :: nat
  pa_inbuf_samples :: nat
  pa_outbuf_bytes :: nat
  pa_outbuf_samples :: nat
  pa_sample_rate :: real
  pa_lisp_input :: "'s list"
  pa_lisp_output :: "'s list"
  pa_sample_counter :: nat
  pa_cycle_start_time_smp :: nat
  pa_cycle_start_time_sec :: real
  pa_input_id :: int
  pa_output_id :: int
  pa_input_latency :: real
  pa_output_latency :: real
  pa_lisp_busy :: bool
  pa_thread_callback :: "bool option"
  pa_error_msg :: string
  pa_xruns :: u32
  pa_xrun_time :: nat
  pa_leaked :: nat

definition PA_ERROR_MSG_MAX_LENGTH :: nat where "PA_ERROR_MSG_MAX_LENGTH = 256"
definition PA_SAMPLE_SIZE :: nat where "PA_SAMPLE_SIZE = 4"
definition PA_MAX_RECOVERED_CYCLES :: u32 where "PA_MAX_RECOVERED_CYCLES = 32"
definition PA_SUSPENDED_CYCLE :: byte where "PA_SUSPENDED_CYCLE = 0"
definition PA_CONTINUE_LAST_CYCLE :: byte where "PA_CONTINUE_LAST_CYCLE = 1"

definition pa_set_error_msg :: "string \<Rightarrow> 's pa \<Rightarrow> 's pa" where
  "pa_set_error_msg msg s = s\<lparr>pa_error_msg := take (PA_ERROR_MSG_MAX_LENGTH - 1) msg\<rparr>"

section \<open>The cache of inputs\<close>

definition pa_increment_cycle_counter :: "byte \<Rightarrow> 's pa \<Rightarrow> 's pa option" where
  "pa_increment_cycle_counter type s =
     (case pa_cycle_counter s of
        None \<Rightarrow> Some s
      | Some r \<Rightarrow> do {
          (r, _) \<leftarrow> rb_write r [type] 1;
          Some (s\<lparr>pa_cycle_counter := Some r\<rparr>)
        })"

definition pa_has_cached_inputs :: "'s pa \<Rightarrow> bool" where
  "pa_has_cached_inputs s = (case pa_cycle_counter s of None \<Rightarrow> False | Some r \<Rightarrow> \<not> rb_empty r)"

definition pa_is_last_cycle :: "'s pa \<Rightarrow> bool option" where
  "pa_is_last_cycle s =
     (if pa_has_cached_inputs s then do {
        r \<leftarrow> pa_cycle_counter s;
        (c, n) \<leftarrow> rb_peek r [0] 1;
        Some (n = 1 \<and> c = [PA_CONTINUE_LAST_CYCLE])
      }
      else Some False)"

text \<open>\<open>put_inputs\<close> is the write to the cache that Lisp's and C's side share.\<close>

definition put_inputs :: "'s pa \<Rightarrow> ('s pa \<times> u32) option" where
  "put_inputs s =
     (case pa_inputs_cache s of
        None \<Rightarrow> Some (s, 0)
      | Some r \<Rightarrow> do {
          xs \<leftarrow> pa_inputs s;
          (r, n) \<leftarrow> rb_write r (float_bytes xs) (word_of_nat (pa_inbuf_bytes s));
          Some (s\<lparr>pa_inputs_cache := Some r\<rparr>, n)
        })"

definition pa_cache_inputs :: "'s pa \<Rightarrow> ('s pa \<times> u32) option" where
  "pa_cache_inputs s = do {
     (s, n) \<leftarrow> put_inputs s;
     s \<leftarrow> pa_increment_cycle_counter PA_SUSPENDED_CYCLE s;
     Some (s, n)
   }"

definition pa_clear_cached_inputs :: "'s pa \<Rightarrow> 's pa" where
  "pa_clear_cached_inputs s =
     s\<lparr>pa_inputs_cache := map_option rb_reset (pa_inputs_cache s),
       pa_cycle_counter := map_option rb_reset (pa_cycle_counter s)\<rparr>"

text \<open>The loops that convert \<open>n\<close> samples of \<open>get\<close> into Lisp's input buffer.\<close>

fun copy_inputs :: "(nat \<Rightarrow> u32 option) \<Rightarrow> (u32 \<Rightarrow> 's) \<Rightarrow> nat list \<Rightarrow> 's list \<Rightarrow> 's list option" where
  "copy_inputs get conv [] dest = Some dest"
| "copy_inputs get conv (i # is) dest = do {
     x \<leftarrow> get i;
     dest \<leftarrow> store dest i (conv x);
     copy_inputs get conv is dest
   }"

definition pa_inputs_from_cache_begin :: "(u32 \<Rightarrow> 's) \<Rightarrow> 's pa \<Rightarrow> ('s pa \<times> u32) option" where
  "pa_inputs_from_cache_begin conv s =
     (case pa_inputs_cache s of
        None \<Rightarrow> Some (s, 0)
      | Some r \<Rightarrow> do {
          tmp \<leftarrow> pa_tmp_inputs s;
          (r, tmp, n) \<leftarrow> rb_read r tmp (word_of_nat (pa_inbuf_bytes s));
          inp \<leftarrow> copy_inputs (\<lambda>j. load32 tmp (4 * j)) conv [0..<pa_inbuf_samples s] (pa_lisp_input s);
          Some (s\<lparr>pa_inputs_cache := Some r, pa_tmp_inputs := Some tmp, pa_lisp_input := inp\<rparr>, n)
        })"

definition pa_inputs_from_cache_end :: "'s pa \<Rightarrow> ('s pa \<times> u32) option" where
  "pa_inputs_from_cache_end s =
     (case pa_cycle_counter s of
        None \<Rightarrow> Some (s, 0)
      | Some r \<Rightarrow> do {
          (r, _, n) \<leftarrow> rb_read r [0] 1;
          Some (s\<lparr>pa_cycle_counter := Some r\<rparr>, n)
        })"

section \<open>Audio cycles\<close>

definition pa_set_xrun :: "'s pa \<Rightarrow> 's pa" where
  "pa_set_xrun s = s\<lparr>pa_xruns := pa_xruns s + 1, pa_xrun_time := pa_sample_counter s\<rparr>"

definition pa_xrun_reset :: "'s pa \<Rightarrow> 's pa" where
  "pa_xrun_reset s = s\<lparr>pa_xruns := 0, pa_xrun_time := 0\<rparr>"

text \<open>
  \<open>read\<close> is \<^verbatim>\<open>Pa_ReadStream\<close>: the new contents of the buffer and the error. A call with a stream that PortAudio has closed is undefined.
\<close>

definition pa_read :: "(u32 list \<Rightarrow> u32 list \<times> int) \<Rightarrow> 's pa \<Rightarrow> 's pa option" where
  "pa_read read s =
     (if \<not> pa_open s then None
      else do {
        xs \<leftarrow> pa_inputs s;
        let (xs, err) = read xs;
        let s = s\<lparr>pa_inputs := Some xs\<rparr>;
        Some (if err \<noteq> 0 \<and> pa_out_channels s = 0 then pa_set_xrun s else s)
      })"

definition inputs_to_lisp :: "(u32 \<Rightarrow> 's) \<Rightarrow> 's pa \<Rightarrow> 's pa option" where
  "inputs_to_lisp conv s = do {
     xs \<leftarrow> pa_inputs s;
     inp \<leftarrow> copy_inputs (load xs) conv [0..<pa_inbuf_samples s] (pa_lisp_input s);
     Some (s\<lparr>pa_lisp_input := inp\<rparr>)
   }"

definition start_time :: "real \<Rightarrow> 's pa \<Rightarrow> 's pa" where
  "start_time now s = s\<lparr>pa_cycle_start_time_sec := now, pa_cycle_start_time_smp := pa_sample_counter s\<rparr>"

definition pa_cycle_begin ::
  "(u32 \<Rightarrow> 's) \<Rightarrow> (u32 list \<Rightarrow> u32 list \<times> int) \<Rightarrow> real \<Rightarrow> 's pa \<Rightarrow> ('s pa \<times> nat) option" where
  "pa_cycle_begin conv read now s =
     (if pa_status s \<noteq> PA_RUNNING then Some (s, 0)
      else do {
        s \<leftarrow> (if 0 < pa_in_channels s then do { s \<leftarrow> pa_read read s; inputs_to_lisp conv s } else Some s);
        Some (start_time now s, frames_per_buffer s)
      })"

definition pa_continue_cycle_begin :: "(u32 \<Rightarrow> 's) \<Rightarrow> real \<Rightarrow> 's pa \<Rightarrow> 's pa option" where
  "pa_continue_cycle_begin conv now s = do {
     s \<leftarrow> (if 0 < pa_in_channels s then inputs_to_lisp conv s else Some s);
     Some (start_time now s)
   }"

fun copy_outputs :: "('s \<Rightarrow> u32) \<Rightarrow> nat list \<Rightarrow> 's::zero list \<Rightarrow> u32 list \<Rightarrow> ('s list \<times> u32 list) option" where
  "copy_outputs unconv [] src dest = Some (src, dest)"
| "copy_outputs unconv (i # is) src dest = do {
     x \<leftarrow> load src i;
     dest \<leftarrow> store dest i (unconv x);
     src \<leftarrow> store src i 0;
     copy_outputs unconv is src dest
   }"

text \<open>
  \<open>write_err\<close> is the result of \<^verbatim>\<open>Pa_WriteStream\<close>; the second component of the result is the buffer that it plays, when it is called.
\<close>

definition pa_write :: "int \<Rightarrow> 's pa \<Rightarrow> ('s pa \<times> u32 list) option" where
  "pa_write write_err s =
     (if \<not> pa_open s then None
      else do {
        xs \<leftarrow> pa_outputs s;
        Some (if write_err \<noteq> 0 then pa_set_xrun s else s, xs)
      })"

definition pa_cycle_end ::
  "('s \<Rightarrow> u32) \<Rightarrow> int \<Rightarrow> nat \<Rightarrow> 's::zero pa \<Rightarrow> ('s pa \<times> u32 list option) option" where
  "pa_cycle_end unconv write_err nframes s =
     (if nframes = 0 \<or> pa_out_channels s = 0 then Some (s, None)
      else do {
        xs \<leftarrow> pa_outputs s;
        (src, xs) \<leftarrow> copy_outputs unconv [0..<pa_outbuf_samples s] (pa_lisp_output s) xs;
        (s, played) \<leftarrow> pa_write write_err (s\<lparr>pa_lisp_output := src, pa_outputs := Some xs\<rparr>);
        Some (s, Some played)
      })"

definition pa_set_lisp_io :: "'s list \<Rightarrow> 's list \<Rightarrow> 's pa \<Rightarrow> 's pa" where
  "pa_set_lisp_io inp out s = s\<lparr>pa_lisp_input := inp, pa_lisp_output := out\<rparr>"

definition pa_set_lisp_busy_state :: "bool \<Rightarrow> 's pa \<Rightarrow> 's pa" where
  "pa_set_lisp_busy_state status s = s\<lparr>pa_lisp_busy := status\<rparr>"

section \<open>Time\<close>

definition pa_get_time_offset_seconds :: "real \<Rightarrow> 's pa \<Rightarrow> real" where
  "pa_get_time_offset_seconds now s =
     (if pa_stream s then
        let time_from_cycle_start = now - pa_cycle_start_time_sec s;
            frames_to_seconds = (real (pa_sample_counter s) - real (pa_cycle_start_time_smp s)) * (1 / pa_sample_rate s) in
        if frames_to_seconds > time_from_cycle_start then frames_to_seconds - time_from_cycle_start else 0
      else 0)"

definition pa_get_time_offset_frames :: "real \<Rightarrow> 's pa \<Rightarrow> u32" where
  "pa_get_time_offset_frames now s =
     (if pa_stream s then
        let time_from_cycle_start = now - pa_cycle_start_time_sec s;
            frames = real (pa_sample_counter s) - real (pa_cycle_start_time_smp s) in
        if frames > time_from_cycle_start then word_of_int \<lfloor>frames - time_from_cycle_start\<rfloor> else 0
      else 0)"

end
