(* ===== verification/PortAudioClient.thy ===== *)
theory PortAudioClient
  imports PortAudio
begin

text \<open>
  The life cycle of the PortAudio stream and the rounds of the two process threads of \<^verbatim>\<open>src/src/rtpa.c\<close>.
\<close>

section \<open>Stopping\<close>

text \<open>
  What the environment answers: the process thread's end, the calls that stop and close the stream, PortAudio's texts of errors.
\<close>

record pa_env =
  pa_stops :: "nat \<Rightarrow> bool"
  is_stream_stopped :: int
  stop_stream :: int
  close_stream :: int
  error_text :: "int \<Rightarrow> string"

definition pa_process_thread_wait :: "(nat \<Rightarrow> bool) \<Rightarrow> 's pa \<Rightarrow> 's pa" where
  "pa_process_thread_wait stops s =
     (if poll stops 0 3000 \<or> poll stops 3000 2000 then s\<lparr>pa_proc_thread := PA_STOPPED\<rparr> else s)"

definition Pa_Terminate :: "'s pa \<Rightarrow> 's pa" where
  "Pa_Terminate s = s\<lparr>pa_open := False\<rparr>"

definition pa_close :: "pa_env \<Rightarrow> 's pa \<Rightarrow> ('s pa \<times> int) option" where
  "pa_close env s =
     (if \<not> pa_stream s then Some (s, 0)
      else if \<not> pa_open s then None
      else let s = (if is_stream_stopped env = 0 \<and> stop_stream env \<noteq> 0
                    then pa_set_error_msg (error_text env (stop_stream env)) s else s);
               s = (if close_stream env \<noteq> 0 then pa_set_error_msg (error_text env (close_stream env)) s else s) in
        Some (s\<lparr>pa_stream := False, pa_open := False\<rparr>, close_stream env))"

definition pa_free_input_cache :: "'s pa \<Rightarrow> 's pa" where
  "pa_free_input_cache s = s\<lparr>pa_inputs_cache := None, pa_cycle_counter := None\<rparr>"

definition pa_stop :: "pa_env \<Rightarrow> 's pa \<Rightarrow> ('s pa \<times> int) option" where
  "pa_stop env s =
     (if pa_status s = PA_STOPPED then Some (s, 0)
      else let s = s\<lparr>pa_status := PA_STOPPING\<rparr>;
               s = (if pa_proc_thread s \<noteq> PA_STOPPED then pa_process_thread_wait (pa_stops env) s else s) in do {
        (s, err) \<leftarrow> pa_close env s;
        let s = Pa_Terminate s;
        let s = pa_free_input_cache (s\<lparr>pa_outputs := None, pa_inputs := None, pa_tmp_inputs := None\<rparr>);
        Some (s\<lparr>pa_cycle_start_time_smp := 0, pa_cycle_start_time_sec := 0, pa_status := PA_STOPPED\<rparr>, err)
      })"

definition pa_error :: "pa_env \<Rightarrow> string \<Rightarrow> 's pa \<Rightarrow> 's pa option" where
  "pa_error env msg s = do { (s, _) \<leftarrow> pa_stop env (pa_set_error_msg msg s); Some s }"

definition pa_fail :: "pa_env \<Rightarrow> string \<Rightarrow> 's pa \<Rightarrow> ('s pa \<times> int) option" where
  "pa_fail env msg s = do { s \<leftarrow> pa_error env msg s; Some (s, 1) }"

section \<open>Initialisation\<close>

record pa_device_info =
  default_rate :: real
  low_input_latency :: real
  low_output_latency :: real

record pa_param =
  device :: int
  channel_count :: nat
  suggested_latency :: real

definition paNoDevice :: int where "paNoDevice = - 1"

definition pa_update_latency :: "real \<Rightarrow> real \<Rightarrow> nat \<Rightarrow> real \<Rightarrow> real" where
  "pa_update_latency value default_value nframes srate =
     (if value = 0 then default_value
      else if value < 0 then (- value) * (real nframes / srate)
      else value)"

text \<open>
  The parameters of the two directions and the sample rate, which the input device decides when there is one. \<open>info\<close> describes a device, \<open>count\<close> is
  the number of devices, \<open>def_in\<close> and \<open>def_out\<close> are the default ones.
\<close>

definition input_parameters :: "(int \<Rightarrow> pa_device_info) \<Rightarrow> int \<Rightarrow> int \<Rightarrow> nat \<Rightarrow> 's pa \<Rightarrow> pa_param option \<times> real" where
  "input_parameters info count def_in nframes s =
     (let dev = (if 0 \<le> pa_input_id s \<and> pa_input_id s < count then pa_input_id s else def_in);
          srate = default_rate (info dev) in
      if 0 < pa_in_channels s \<and> dev \<noteq> paNoDevice
      then (Some \<lparr>device = dev, channel_count = pa_in_channels s,
              suggested_latency = pa_update_latency (pa_input_latency s) (low_input_latency (info dev)) nframes srate\<rparr>, srate)
      else (None, - 1))"

definition output_parameters ::
  "(int \<Rightarrow> pa_device_info) \<Rightarrow> int \<Rightarrow> int \<Rightarrow> nat \<Rightarrow> real \<Rightarrow> 's pa \<Rightarrow> pa_param option \<times> real" where
  "output_parameters info count def_out nframes srate s =
     (let dev = (if 0 \<le> pa_output_id s \<and> pa_output_id s < count then pa_output_id s else def_out);
          rate = (if srate \<le> 0 then default_rate (info dev) else srate) in
      if 0 < pa_out_channels s \<and> dev \<noteq> paNoDevice
      then (Some \<lparr>device = dev, channel_count = pa_out_channels s,
              suggested_latency = pa_update_latency (pa_output_latency s) (low_output_latency (info dev)) nframes rate\<rparr>, rate)
      else (None, srate))"

text \<open>\<open>stream_info\<close> is the sample rate of the stream that is opened, if PortAudio gives its data; a result that is not zero is an error.\<close>

record pa_init_env = pa_env +
  pa_init_result :: int
  device_info :: "int \<Rightarrow> pa_device_info"
  device_count :: int
  default_input :: int
  default_output :: int
  open_stream :: "pa_param option \<Rightarrow> pa_param option \<Rightarrow> real \<Rightarrow> int"
  stream_info :: "real option"
  pa_malloc :: "nat \<Rightarrow> u32 list option"
  pa_malloc_tmp :: "nat \<Rightarrow> byte list option"
  pa_cache_size :: u32
  pa_create_cache :: "u32 \<Rightarrow> ringbuffer option"
  pa_create_counter :: "u32 \<Rightarrow> ringbuffer option"
  pa_sigmask_ok :: bool

text \<open>A pointer that is set while it owns a block leaks it.\<close>

definition leak :: "'a option \<Rightarrow> 's pa \<Rightarrow> 's pa" where
  "leak p s = (if p \<noteq> None then s\<lparr>pa_leaked := pa_leaked s + 1\<rparr> else s)"

definition pa_set_thread_callback :: "bool \<Rightarrow> 's pa \<Rightarrow> 's pa \<times> bool" where
  "pa_set_thread_callback has_cached_inputs s = (s\<lparr>pa_thread_callback := Some has_cached_inputs\<rparr>, has_cached_inputs)"

text \<open>A ring buffer that cannot be created ends in \<^verbatim>\<open>RETURN_IF_NULLPTR\<close>, which stops and returns 1.\<close>

definition pa_alloc_input_cache :: "pa_init_env \<Rightarrow> 's pa \<Rightarrow> ('s pa \<times> int) option" where
  "pa_alloc_input_cache env s =
     (let counter = (\<lambda>s. let s = (leak (pa_cycle_counter s) s)\<lparr>pa_cycle_counter := pa_create_counter env PA_MAX_RECOVERED_CYCLES\<rparr> in
        if pa_cycle_counter s = None then pa_fail (pa_env.truncate env) ''incudine_ringbuffer_create() failure'' s
        else Some (s, 0)) in
      if 0 < pa_in_channels s then
        let s = (leak (pa_inputs_cache s) s)\<lparr>pa_inputs_cache := pa_create_cache env (pa_cache_size env)\<rparr> in
        if pa_inputs_cache s = None then pa_fail (pa_env.truncate env) ''incudine_ringbuffer_create() failure'' s
        else counter s
      else counter s)"

definition init_finish :: "pa_init_env \<Rightarrow> nat \<Rightarrow> 's pa \<Rightarrow> ('s pa \<times> int) option" where
  "init_finish env counter s = do {
     (s, err) \<leftarrow> pa_alloc_input_cache env s;
     if err \<noteq> 0 then Some (s, err)
     else if \<not> pa_sigmask_ok env then Some (Pa_Terminate (pa_set_error_msg ''Unblock signals error'' s), 1)
     else
       let s = (if pa_thread_callback s = None then fst (pa_set_thread_callback False s) else s);
           s = pa_xrun_reset s in
       Some (s\<lparr>pa_cycle_start_time_sec := 0, pa_cycle_start_time_smp := counter, pa_sample_counter := counter,
         pa_lisp_busy := True\<rparr>, err)
   }"

definition init_inputs :: "pa_init_env \<Rightarrow> nat \<Rightarrow> 's pa \<Rightarrow> ('s pa \<times> int) option" where
  "init_inputs env counter s =
     (let s = s\<lparr>pa_inbuf_samples := frames_per_buffer s * pa_in_channels s,
            pa_inbuf_bytes := frames_per_buffer s * pa_in_channels s * PA_SAMPLE_SIZE\<rparr> in
      if 0 < pa_in_channels s then
        let s = (leak (pa_inputs s) s)\<lparr>pa_inputs := pa_malloc env (pa_inbuf_samples s)\<rparr> in
        if pa_inputs s = None then pa_fail (pa_env.truncate env) ''malloc of input buffer failed'' s
        else let s = (leak (pa_tmp_inputs s) s)\<lparr>pa_tmp_inputs := pa_malloc_tmp env (pa_inbuf_bytes s)\<rparr> in
          if pa_tmp_inputs s = None then pa_fail (pa_env.truncate env) ''malloc of temporary inputs failed'' s
          else init_finish env counter s
      else init_finish env counter s)"

definition init_outputs :: "pa_init_env \<Rightarrow> nat \<Rightarrow> 's pa \<Rightarrow> ('s pa \<times> int) option" where
  "init_outputs env counter s =
     (let s = s\<lparr>pa_outbuf_samples := frames_per_buffer s * pa_out_channels s,
            pa_outbuf_bytes := frames_per_buffer s * pa_out_channels s * PA_SAMPLE_SIZE\<rparr> in
      if 0 < pa_out_channels s then
        let s = (leak (pa_outputs s) s)\<lparr>pa_outputs := pa_malloc env (pa_outbuf_samples s)\<rparr> in
        if pa_outputs s = None then pa_fail (pa_env.truncate env) ''malloc of output buffer failed'' s
        else init_inputs env counter s
      else init_inputs env counter s)"

definition pa_initialize :: "pa_init_env \<Rightarrow> nat \<Rightarrow> nat \<Rightarrow> nat \<Rightarrow> nat \<Rightarrow> 's pa \<Rightarrow> ('s pa \<times> int) option" where
  "pa_initialize env input_channels output_channels nframes counter s = do {
     (s, _) \<leftarrow> pa_stop (pa_env.truncate env) s;
     if input_channels = 0 \<and> output_channels = 0
     then Some (pa_set_error_msg ''Zero input channels and zero output channels.'' s, 1)
     else if pa_init_result env \<noteq> 0 then Some (pa_set_error_msg (error_text env (pa_init_result env)) s, 1)
     else
       let s = s\<lparr>pa_proc_thread := PA_STOPPED, pa_status := PA_INITIALIZING,
             pa_in_channels := input_channels, pa_out_channels := output_channels\<rparr>;
           (iparam, srate) = input_parameters (device_info env) (device_count env) (default_input env) nframes s;
           (oparam, srate) = output_parameters (device_info env) (device_count env) (default_output env) nframes srate s;
           err = open_stream env iparam oparam srate in
       if err \<noteq> 0 then Some (Pa_Terminate (pa_set_error_msg (error_text env err) (s\<lparr>pa_stream := False\<rparr>)), 1)
       else let s = s\<lparr>pa_stream := True, pa_open := True\<rparr> in
         (case stream_info env of
            None \<Rightarrow> Some (Pa_Terminate (pa_set_error_msg ''Pa_GetStreamInfo() failed.'' s), 1)
          | Some rate \<Rightarrow> init_outputs env counter (s\<lparr>pa_sample_rate := rate, frames_per_buffer := nframes\<rparr>))
   }"

text \<open>
  \<open>created\<close> is the answer of \<^verbatim>\<open>pthread_create\<close>. Its start routine is \<^verbatim>\<open>pa_thread_callback\<close>, a null pointer until the callback is
  chosen: then the behaviour is undefined.
\<close>

definition pa_start :: "pa_env \<Rightarrow> int \<Rightarrow> 's pa \<Rightarrow> ('s pa \<times> int) option" where
  "pa_start env created s =
     (if pa_thread_callback s = None then None
      else if created \<noteq> 0 then do {
        (s, _) \<leftarrow> pa_stop env (pa_set_error_msg ''Failed to create the C realtime thread'' s);
        Some (s, created)
      }
      else Some (s, 0))"

definition pa_set_devices :: "int \<Rightarrow> int \<Rightarrow> 's pa \<Rightarrow> 's pa" where
  "pa_set_devices inp out s = s\<lparr>pa_input_id := inp, pa_output_id := out\<rparr>"

definition pa_set_stream_latency :: "real \<Rightarrow> bool \<Rightarrow> 's pa \<Rightarrow> 's pa" where
  "pa_set_stream_latency value is_input s =
     (if is_input then s\<lparr>pa_input_latency := value\<rparr> else s\<lparr>pa_output_latency := value\<rparr>)"

definition pa_get_stream_latency :: "(real \<times> real) option \<Rightarrow> bool \<Rightarrow> 's pa \<Rightarrow> real" where
  "pa_get_stream_latency info is_input s =
     (case (pa_stream s, info) of
        (True, Some (i, n)) \<Rightarrow> (if is_input then i else n)
      | _ \<Rightarrow> (if is_input then pa_input_latency s else pa_output_latency s))"

section \<open>The process threads\<close>

text \<open>The beginning of both threads; the second component tells whether the loop is entered.\<close>

definition pa_thread_start :: "int \<Rightarrow> 's pa \<Rightarrow> 's pa \<times> bool" where
  "pa_thread_start err s =
     (if err \<noteq> 0 then (s, False) else (s\<lparr>pa_status := PA_RUNNING, pa_proc_thread := PA_RUNNING\<rparr>, True))"

definition pa_silence :: "'s pa \<Rightarrow> 's pa option" where
  "pa_silence s =
     (if 0 < pa_out_channels s then do {
        xs \<leftarrow> pa_outputs s;
        xs \<leftarrow> memset xs 0 0 (pa_outbuf_samples s);
        Some (s\<lparr>pa_outputs := Some xs\<rparr>)
      }
      else Some s)"

text \<open>What the calls of a round answer.\<close>

record 's pa_round_env =
  available :: int
  pa_read_result :: "u32 list \<Rightarrow> u32 list \<times> int"
  pa_write_result :: int
  pa_now :: real
  pa_busy1 :: bool
  pa_busy2 :: bool
  pa_busy3 :: bool

definition pa_process_round ::
  "(u32 \<Rightarrow> 's) \<Rightarrow> ('s::zero \<Rightarrow> u32) \<Rightarrow> 's pa_round_env \<Rightarrow> 's pa \<Rightarrow> ('s pa \<times> u32 list option) option" where
  "pa_process_round conv unconv env s = do {
     (s, _) \<leftarrow> pa_cycle_begin conv (pa_read_result env) (pa_now env) s;
     s \<leftarrow> pa_silence s;
     pa_cycle_end unconv (pa_write_result env) (frames_per_buffer s) s
   }"

text \<open>
  How a round with cached inputs ends: after a nap of one sample, as a suspended cycle that plays a buffer, or with
  the control in Lisp.
\<close>

datatype pa_round_end = Delay | Suspended "u32 list option" | Resume

text \<open>The comparison of the \<^verbatim>\<open>signed long\<close> with \<^verbatim>\<open>frames_per_buffer\<close> is one of unsigned 64-bit values.\<close>

definition not_enough :: "int \<Rightarrow> nat \<Rightarrow> bool" where
  "not_enough n frames \<longleftrightarrow> (word_of_int n :: u64) < word_of_nat frames"

definition pa_maybe_continue :: "bool \<Rightarrow> 's pa \<Rightarrow> bool" where
  "pa_maybe_continue busy s \<longleftrightarrow> \<not> busy \<and> \<not> pa_has_cached_inputs s"

text \<open>The statements at the label \<^verbatim>\<open>resume_lisp\<close> before the handover, and those after it.\<close>

definition resume_lisp :: "nat \<Rightarrow> 's pa \<Rightarrow> 's pa option" where
  "resume_lisp cycles s =
     (if 0 < cycles \<and> \<not> pa_has_cached_inputs s then pa_increment_cycle_counter PA_CONTINUE_LAST_CYCLE s else Some s)"

definition pa_after_resume :: "real \<Rightarrow> 's pa \<Rightarrow> 's pa \<times> nat" where
  "pa_after_resume now s = (start_time now s, 0)"

text \<open>\<open>cycles\<close> is the counter of type \<^verbatim>\<open>int\<close> of the thread, here without a bound (it would take \<open>2 ^ 31\<close> suspended rounds).\<close>

definition pa_process_cached_round ::
  "'s pa_round_env \<Rightarrow> nat \<Rightarrow> 's pa \<Rightarrow> ('s pa \<times> nat \<times> pa_round_end) option" where
  "pa_process_cached_round env cycles s =
     (let cycles = cycles + 1 in
      if \<not> pa_open s then None
      else if not_enough (available env) (frames_per_buffer s) then Some (s, cycles, Delay)
      else do {
        s \<leftarrow> (if 0 < pa_in_channels s then pa_read (pa_read_result env) s else Some s);
        if pa_maybe_continue (pa_busy1 env) s then do { s \<leftarrow> resume_lisp cycles s; Some (s, cycles, Resume) }
        else do {
          (s, _) \<leftarrow> put_inputs s;
          if pa_maybe_continue (pa_busy2 env) s then do { s \<leftarrow> resume_lisp cycles s; Some (s, cycles, Resume) }
          else do {
            s \<leftarrow> pa_silence s;
            if pa_maybe_continue (pa_busy3 env) s then do { s \<leftarrow> resume_lisp cycles s; Some (s, cycles, Resume) }
            else if 0 < pa_out_channels s then do {
              (s, played) \<leftarrow> pa_write (pa_write_result env) s;
              s \<leftarrow> pa_increment_cycle_counter PA_SUSPENDED_CYCLE s;
              Some (s, cycles, Suspended (Some played))
            }
            else do {
              s \<leftarrow> pa_increment_cycle_counter PA_SUSPENDED_CYCLE s;
              Some (s, cycles, Suspended None)
            }
          }
        }
      })"

end
