(* ===== verification/PortAudioProps.thy ===== *)
theory PortAudioProps
  imports PortAudioClient JackAudioProps
begin

text \<open>
  Properties of the PortAudio driver: the copies of an audio cycle, the recovery of suspended cycles (the contract of \<open>CycleCache\<close>), the life
  cycle of the stream.
\<close>

section \<open>Copies between PortAudio and Lisp\<close>

lemma take_drop_update: "i < n \<Longrightarrow> n \<le> length xs \<Longrightarrow> take (Suc i) (xs[i := x]) = take i xs @ [x] \<and> drop n (xs[i := x]) = drop n xs"
  by (simp add: take_Suc_conv_app_nth)

lemma copy_inputs_spec:
  assumes "i \<le> n" and "n \<le> length dest" and "\<And>k. k < n \<Longrightarrow> get k = Some (v k)"
  shows "copy_inputs get conv [i..<n] dest = Some (take i dest @ map (\<lambda>k. conv (v k)) [i..<n] @ drop n dest)"
  using assms
proof (induction "n - i" arbitrary: i dest)
  case (Suc m)
  then have i: "i < n" "[i..<n] = i # [Suc i..<n]" by (simp_all add: upt_conv_Cons)
  have "copy_inputs get conv [Suc i..<n] (dest[i := conv (v i)]) =
      Some (take (Suc i) (dest[i := conv (v i)]) @ map (\<lambda>k. conv (v k)) [Suc i..<n] @ drop n (dest[i := conv (v i)]))"
    using Suc.prems Suc.hyps(2) by (intro Suc.hyps(1)) simp_all
  then show ?case using i Suc.prems take_drop_update [of i n dest "conv (v i)"] by (simp add: mem_simps)
qed simp

lemma copy_outputs_spec:
  assumes "i \<le> n" and "n \<le> length src" and "n \<le> length dest"
  shows "copy_outputs unconv [i..<n] src dest =
    Some (take i src @ replicate (n - i) 0 @ drop n src, take i dest @ map (\<lambda>k. unconv (src ! k)) [i..<n] @ drop n dest)"
  using assms
proof (induction "n - i" arbitrary: i src dest)
  case (Suc m)
  then have i: "i < n" "[i..<n] = i # [Suc i..<n]" "n - i = Suc (n - Suc i)" by (simp_all add: upt_conv_Cons)
  have "copy_outputs unconv [Suc i..<n] (src[i := 0]) (dest[i := unconv (src ! i)]) =
      Some (take (Suc i) (src[i := 0]) @ replicate (n - Suc i) 0 @ drop n (src[i := 0]),
        take (Suc i) (dest[i := unconv (src ! i)]) @ map (\<lambda>k. unconv (src[i := 0] ! k)) [Suc i..<n] @
          drop n (dest[i := unconv (src ! i)]))"
    using Suc.prems Suc.hyps(2) by (intro Suc.hyps(1)) simp_all
  moreover have "map (\<lambda>k. unconv (src[i := 0] ! k)) [Suc i..<n] = map (\<lambda>k. unconv (src ! k)) [Suc i..<n]" by simp
  ultimately show ?case
    using i Suc.prems take_drop_update [of i n src 0] take_drop_update [of i n dest "unconv (src ! i)"]
    by (simp add: mem_simps)
qed simp

lemma map_nth_upt: "length xs = n \<Longrightarrow> map (\<lambda>k. f (xs ! k)) [0..<n] = map f xs"
  by (metis map_nth map_map comp_apply map_cong)

section \<open>The recovery of suspended cycles\<close>

definition pa_cached :: "nat \<Rightarrow> 's pa \<Rightarrow> u32 list list \<Rightarrow> byte list \<Rightarrow> bool" where
  "pa_cached n s q ts \<longleftrightarrow> pa_inbuf_samples s = n \<and> pa_inbuf_bytes s = 4 * n \<and> 4 * n < 2 ^ 32 \<and> n \<le> length (pa_lisp_input s) \<and>
     (\<exists>tmp. pa_tmp_inputs s = Some tmp \<and> length tmp = 4 * n) \<and>
     (\<exists>r. pa_inputs_cache s = Some r \<and> rb_ok r \<and> rb_contents r = concat (map float_bytes q)) \<and>
     (\<exists>r. pa_cycle_counter s = Some r \<and> rb_ok r \<and> rb_contents r = ts)"

definition pa_room :: "'s pa \<Rightarrow> bool" where
  "pa_room s \<longleftrightarrow> (case (pa_inputs_cache s, pa_cycle_counter s) of
     (Some r, Some k) \<Rightarrow> pa_inbuf_bytes s \<le> unat (rb_write_space r) \<and> 1 \<le> unat (rb_write_space k)
   | _ \<Rightarrow> False)"

definition pa_delivered :: "(u32 \<Rightarrow> 's) \<Rightarrow> nat \<Rightarrow> u32 list \<Rightarrow> 's list \<Rightarrow> bool" where
  "pa_delivered conv n b x \<longleftrightarrow> take n x = map conv b"

definition pa_suspend :: "u32 list \<Rightarrow> 's pa \<Rightarrow> 's pa option" where
  "pa_suspend b s = map_option fst (pa_cache_inputs (s\<lparr>pa_inputs := Some b\<rparr>))"

definition pa_recover :: "(u32 \<Rightarrow> 's) \<Rightarrow> 's pa \<Rightarrow> ('s pa \<times> 's list) option" where
  "pa_recover conv s = do {
     (s, _) \<leftarrow> pa_inputs_from_cache_begin conv s;
     let x = pa_lisp_input s;
     (s, _) \<leftarrow> pa_inputs_from_cache_end s;
     Some (s, x)
   }"

lemma pa_suspend_spec:
  assumes "pa_cached n s q ts" and "length b = n" and "pa_room s"
  shows "\<exists>s'. pa_suspend b s = Some s' \<and> pa_cached n s' (q @ [b]) (ts @ [0])"
proof -
  obtain r k tmp where s: "pa_inputs_cache s = Some r" "rb_ok r" "rb_contents r = concat (map float_bytes q)"
    "pa_cycle_counter s = Some k" "rb_ok k" "rb_contents k = ts" "4 * n < 2 ^ 32" "pa_inbuf_bytes s = 4 * n"
    "4 * n \<le> unat (rb_write_space r)" "1 \<le> unat (rb_write_space k)"
    using assms(1,3) by (auto simp: pa_cached_def pa_room_def)
  obtain r' where r': "rb_write r (float_bytes b) (word_of_nat (4 * n)) = Some (r', word_of_nat (4 * n))" "rb_ok r'"
    "rb_contents r' = rb_contents r @ float_bytes b"
    using rb_put [OF s(2,9) _ s(7), of "float_bytes b"] assms(2) by auto
  obtain k' where "rb_write k [0] 1 = Some (k', 1)" "rb_ok k'" "rb_contents k' = ts @ [0]"
    using rb_put [OF s(5,10), of "[0]"] s(6) by auto
  then show ?thesis
    using assms(1) s r'
    by (auto simp: pa_suspend_def pa_cache_inputs_def put_inputs_def pa_increment_cycle_counter_def PA_SUSPENDED_CYCLE_def
        pa_cached_def simp del: of_nat_mult)
qed

lemma pa_recover_spec:
  assumes "pa_cached n s (b # q) (t # ts)" and "length b = n"
  shows "\<exists>s' x. pa_recover conv s = Some (s', x) \<and> pa_cached n s' q ts \<and> pa_delivered conv n b x"
proof -
  obtain r k tmp where s: "pa_inputs_cache s = Some r" "rb_ok r" "rb_contents r = float_bytes b @ concat (map float_bytes q)"
    "pa_cycle_counter s = Some k" "rb_ok k" "rb_contents k = [t] @ ts" "4 * n < 2 ^ 32" "pa_inbuf_bytes s = 4 * n"
    "pa_inbuf_samples s = n" "pa_tmp_inputs s = Some tmp" "length tmp = 4 * n" "n \<le> length (pa_lisp_input s)"
    using assms(1) by (auto simp: pa_cached_def)
  obtain r' where r': "rb_read r tmp (word_of_nat (4 * n)) = Some (r', float_bytes b, word_of_nat (4 * n))" "rb_ok r'"
    "rb_contents r' = concat (map float_bytes q)"
    using rb_get [OF s(2,3) _ s(7), of tmp] s(11) assms(2) by auto
  obtain k' where k': "rb_read k [0] 1 = Some (k', [t], 1)" "rb_ok k'" "rb_contents k' = ts"
    using rb_get [OF s(5,6), of 1 "[0]"] by auto
  have "load32 (float_bytes b) (4 * j) = Some (b ! j)" if "j < n" for j
    using float_bytes_load [of j b "[]"] that assms(2) by simp
  from copy_inputs_spec [where i = 0 and conv = conv, OF _ s(12) this]
  have "copy_inputs (\<lambda>j. load32 (float_bytes b) (4 * j)) conv [0..<n] (pa_lisp_input s) =
      Some (map conv b @ drop n (pa_lisp_input s))" using map_nth_upt [OF assms(2)] by simp
  then have front: "pa_inputs_from_cache_begin conv s = Some (s\<lparr>pa_inputs_cache := Some r', pa_tmp_inputs := Some (float_bytes b),
      pa_lisp_input := map conv b @ drop n (pa_lisp_input s)\<rparr>, word_of_nat (4 * n))"
    using s r'(1) by (simp add: pa_inputs_from_cache_begin_def del: of_nat_mult)
  then show ?thesis
    using assms(2) s r' k' by (auto simp: pa_recover_def pa_inputs_from_cache_end_def pa_cached_def pa_delivered_def simp del: of_nat_mult)
qed

interpretation pc: cycle_cache "pa_cached n" pa_room "\<lambda>b. length b = n" "pa_delivered conv n" pa_suspend
  "\<lambda>s. Some (pa_has_cached_inputs s)" "pa_recover conv" for n and conv :: "u32 \<Rightarrow> 's"
proof
  fix s :: "'s pa" and q ts
  assume "pa_cached n s q ts"
  then show "Some (pa_has_cached_inputs s) = Some (ts \<noteq> [])"
    by (auto simp: pa_cached_def pa_has_cached_inputs_def rb_empty_iff)
qed (auto intro: pa_suspend_spec pa_recover_spec)

text \<open>
  The recovery loop of Lisp on the PortAudio driver ends and delivers the cycles that wait and the one that is suspended last, in order and sample by
  sample, and leaves nothing cached.
\<close>

theorem pa_recovers_in_order:
  assumes "pa_cached n s q ts" and "length q = length ts" and "\<forall>b' \<in> set (q @ [b]). length b' = n" and "pa_room s"
  shows "\<exists>s1 s2 xs. pa_suspend b s = Some s1 \<and>
    recover_cycles (\<lambda>s. Some (pa_has_cached_inputs s)) (pa_recover conv) (length q + 2) s1 = Some (s2, xs) \<and>
    list_all2 (pa_delivered conv n) (q @ [b]) xs \<and> Some (pa_has_cached_inputs s2) = Some False"
  by (rule pc.suspend_then_recover [OF assms])

definition pa_example :: "u32 pa" where
  "pa_example =
     (let ring = \<lparr>rb_buf = replicate 16 0, rb_write_head = 5, rb_read_head = 5, rb_size = 16, rb_mask = 15\<rparr> in
      \<lparr>pa_status = PA_RUNNING, pa_proc_thread = PA_RUNNING, pa_stream = True, pa_open = True, pa_in_channels = 1, pa_out_channels = 2,
       frames_per_buffer = 2, pa_inputs = Some [7, 8], pa_outputs = Some [9, 9, 9, 9], pa_tmp_inputs = Some (replicate 8 0),
       pa_inputs_cache = Some ring, pa_cycle_counter = Some ring, pa_inbuf_bytes = 8, pa_inbuf_samples = 2, pa_outbuf_bytes = 16,
       pa_outbuf_samples = 4, pa_sample_rate = 48000, pa_lisp_input = [0, 0], pa_lisp_output = [5, 6, 7, 8], pa_sample_counter = 64,
       pa_cycle_start_time_smp = 0, pa_cycle_start_time_sec = 0, pa_input_id = -1, pa_output_id = -1, pa_input_latency = 0,
       pa_output_latency = 0, pa_lisp_busy = True, pa_thread_callback = None, pa_error_msg = [], pa_xruns = 3, pa_xrun_time = 0,
       pa_leaked = 0\<rparr>)"

lemma pa_example_cached: "pa_cached 2 pa_example [] []" "pa_room pa_example"
proof -
  let ?r = "\<lparr>rb_buf = replicate 16 0, rb_write_head = 5, rb_read_head = 5, rb_size = 16, rb_mask = 15\<rparr> :: ringbuffer"
  have r: "rb_ok ?r" by (rule rb_okI [of 4]) simp_all
  have "rb_contents ?r = []" using rb_empty_iff [OF r] by (simp add: rb_empty_def)
  then show "pa_cached 2 pa_example [] []" using r by (simp add: pa_cached_def pa_example_def Let_def)
  show "pa_room pa_example" by (simp add: pa_room_def pa_example_def Let_def rb_write_space_def)
qed

theorem pa_recovers_in_order_witness:
  "\<exists>s1 s2 xs. pa_suspend [1, 2] pa_example = Some s1 \<and>
    recover_cycles (\<lambda>s. Some (pa_has_cached_inputs s)) (pa_recover id) 2 s1 = Some (s2, xs) \<and>
    list_all2 (pa_delivered id 2) [[1, 2]] xs \<and> Some (pa_has_cached_inputs s2) = Some False"
  using pa_recovers_in_order [OF pa_example_cached(1) _ _ pa_example_cached(2), of "[1, 2]" id]
  by (simp only: append_Nil list.size add_0_left simp_thms list.set ball_simps)

section \<open>An audio cycle\<close>

definition pa_ready :: "'s pa \<Rightarrow> bool" where
  "pa_ready s \<longleftrightarrow> pa_open s \<and> 0 < frames_per_buffer s \<and> 0 < pa_in_channels s \<and> 0 < pa_out_channels s \<and>
     (\<exists>xs. pa_inputs s = Some xs \<and> length xs = pa_inbuf_samples s) \<and>
     (\<exists>xs. pa_outputs s = Some xs \<and> length xs = pa_outbuf_samples s) \<and>
     pa_inbuf_samples s \<le> length (pa_lisp_input s) \<and> pa_outbuf_samples s \<le> length (pa_lisp_output s)"

text \<open>
  C29. An audio cycle on a full-duplex stream: Lisp's input buffer gets the samples that PortAudio reads; reading them in the
  process thread and continuing the cycle in Lisp is the same as beginning it in Lisp. The end of the cycle plays Lisp's output buffer and
  clears it, and counts an xrun exactly when PortAudio reports an error.
\<close>

theorem pa_cycle_io:
  assumes "pa_ready s" and "pa_status s = PA_RUNNING" and "pa_inputs s = Some old" and "read old = (xs, err)"
    and "length xs = length old"
  shows "\<exists>s1 s2 s3. pa_cycle_begin conv read now s = Some (s1, frames_per_buffer s) \<and>
    pa_lisp_input s1 = map conv xs @ drop (length xs) (pa_lisp_input s) \<and> pa_cycle_start_time_smp s1 = pa_sample_counter s \<and>
    pa_read read s = Some s2 \<and> pa_continue_cycle_begin conv now s2 = Some s1 \<and>
    pa_cycle_end unconv w (frames_per_buffer s) s1 =
      Some (s3, Some (map unconv (take (pa_outbuf_samples s) (pa_lisp_output s)))) \<and>
    pa_lisp_output s3 = replicate (pa_outbuf_samples s) 0 @ drop (pa_outbuf_samples s) (pa_lisp_output s) \<and>
    pa_xruns s3 = pa_xruns s + (if w \<noteq> 0 then 1 else 0)"
proof -
  let ?n = "pa_inbuf_samples s" and ?m = "pa_outbuf_samples s"
  obtain ys where ready: "pa_open s" "0 < frames_per_buffer s" "0 < pa_in_channels s" "0 < pa_out_channels s" "length xs = ?n"
    "pa_outputs s = Some ys" "length ys = ?m" "?n \<le> length (pa_lisp_input s)" "?m \<le> length (pa_lisp_output s)"
    using assms(1,3,5) by (auto simp: pa_ready_def)
  define s2 where "s2 = s\<lparr>pa_inputs := Some xs\<rparr>"
  define s1 where "s1 = start_time now (s2\<lparr>pa_lisp_input := map conv xs @ drop ?n (pa_lisp_input s)\<rparr>)"
  have rd: "pa_read read s = Some s2" using assms(3,4) ready(1,4) by (simp add: pa_read_def s2_def)
  have "load xs k = Some (xs ! k)" if "k < ?n" for k using that ready(5) by (simp add: mem_simps)
  from copy_inputs_spec [where i = 0 and conv = conv, OF _ ready(8) this]
  have "copy_inputs (load xs) conv [0..<?n] (pa_lisp_input s) = Some (map conv xs @ drop ?n (pa_lisp_input s))"
    using map_nth_upt [OF ready(5)] by simp
  then have lisp: "inputs_to_lisp conv s2 = Some (s2\<lparr>pa_lisp_input := map conv xs @ drop ?n (pa_lisp_input s)\<rparr>)"
    by (simp add: inputs_to_lisp_def s2_def)
  have front: "pa_cycle_begin conv read now s = Some (s1, frames_per_buffer s)"
    using assms(2) ready(3) rd lisp by (simp add: pa_cycle_begin_def s1_def s2_def)
  have continue: "pa_continue_cycle_begin conv now s2 = Some s1"
    using ready(3) lisp by (simp add: pa_continue_cycle_begin_def s1_def s2_def)
  have fields: "pa_outputs s1 = Some ys" "pa_lisp_output s1 = pa_lisp_output s" "pa_outbuf_samples s1 = ?m" "pa_out_channels s1 \<noteq> 0"
    "pa_open s1" "pa_xruns s1 = pa_xruns s"
    using ready by (simp_all add: s1_def s2_def start_time_def)
  have "map (\<lambda>k. unconv (pa_lisp_output s ! k)) [0..<?m] = map unconv (take ?m (pa_lisp_output s))"
    using ready(9) by (auto intro: nth_equalityI)
  then have "copy_outputs unconv [0..<?m] (pa_lisp_output s) ys =
      Some (replicate ?m 0 @ drop ?m (pa_lisp_output s), map unconv (take ?m (pa_lisp_output s)))"
    using copy_outputs_spec [of 0 ?m "pa_lisp_output s" ys unconv] ready(7,9) by simp
  then have "\<exists>s3. pa_cycle_end unconv w (frames_per_buffer s) s1 = Some (s3, Some (map unconv (take ?m (pa_lisp_output s)))) \<and>
      pa_lisp_output s3 = replicate ?m 0 @ drop ?m (pa_lisp_output s) \<and> pa_xruns s3 = pa_xruns s + (if w \<noteq> 0 then 1 else 0)"
    using fields ready(2) by (simp add: pa_cycle_end_def pa_write_def pa_set_xrun_def)
  moreover have "pa_lisp_input s1 = map conv xs @ drop (length xs) (pa_lisp_input s)" "pa_cycle_start_time_smp s1 = pa_sample_counter s"
    using ready(5) by (simp_all add: s1_def s2_def start_time_def)
  ultimately show ?thesis using front rd continue by blast
qed

theorem pa_cycle_io_witness:
  "\<exists>s1 s3. pa_cycle_begin id (\<lambda>_. ([1, 2], 0)) 0 pa_example = Some (s1, 2) \<and> pa_lisp_input s1 = [1, 2] \<and>
    pa_cycle_end id 1 2 s1 = Some (s3, Some [5, 6, 7, 8]) \<and> pa_lisp_output s3 = [0, 0, 0, 0] \<and> pa_xruns s3 = 4"
proof -
  have "pa_ready pa_example" "pa_status pa_example = PA_RUNNING" "pa_inputs pa_example = Some [7, 8]"
    by (simp_all add: pa_ready_def pa_example_def Let_def)
  from pa_cycle_io [OF this, of "\<lambda>_. ([1, 2], 0)" "[1, 2]" 0 id 0 id 1] show ?thesis
    by (auto simp: pa_example_def Let_def numeral_eq_Suc)
qed

end
