(* ===== verification/PortAudioLife.thy ===== *)
theory PortAudioLife
  imports PortAudioClient
begin

text \<open>
  The life cycle of the PortAudio stream as a state machine, and two of its error paths.
\<close>

section \<open>Resources\<close>

definition pa_empty :: "'s pa \<Rightarrow> bool" where
  "pa_empty s \<longleftrightarrow> \<not> pa_stream s \<and> pa_inputs s = None \<and> pa_outputs s = None \<and> pa_tmp_inputs s = None \<and>
     pa_inputs_cache s = None \<and> pa_cycle_counter s = None"

definition pa_released :: "'s pa \<Rightarrow> bool" where
  "pa_released s \<longleftrightarrow> pa_status s = PA_STOPPED \<and> pa_empty s \<and> \<not> pa_open s"

text \<open>The invariant between calls: the stream that the pointer refers to is open, and a stopped client holds nothing.\<close>

definition pa_client_ok :: "'s pa \<Rightarrow> bool" where
  "pa_client_ok s \<longleftrightarrow> pa_leaked s = 0 \<and> (pa_stream s \<longrightarrow> pa_open s) \<and> (pa_status s = PA_STOPPED \<longrightarrow> pa_released s)"

lemma pa_stop_spec:
  assumes "pa_stream s \<longrightarrow> pa_open s" and "pa_status s = PA_STOPPED \<longrightarrow> pa_released s"
  shows "\<exists>s' err. pa_stop env s = Some (s', err) \<and> pa_released s' \<and> pa_leaked s' = pa_leaked s"
  using assms
  by (auto simp: pa_stop_def pa_close_def Let_def pa_released_def pa_empty_def Pa_Terminate_def
      pa_free_input_cache_def pa_process_thread_wait_def pa_set_error_msg_def)

lemma pa_fail_spec:
  assumes "pa_stream s \<longrightarrow> pa_open s" and "pa_status s \<noteq> PA_STOPPED"
  shows "\<exists>s'. pa_fail env msg s = Some (s', 1) \<and> pa_released s' \<and> pa_leaked s' = pa_leaked s"
proof -
  have "pa_stream (pa_set_error_msg msg s) \<longrightarrow> pa_open (pa_set_error_msg msg s)"
    "pa_status (pa_set_error_msg msg s) = PA_STOPPED \<longrightarrow> pa_released (pa_set_error_msg msg s)"
    using assms by (simp_all add: pa_set_error_msg_def)
  from pa_stop_spec [OF this, of env] show ?thesis
    by (auto simp: pa_fail_def pa_error_def) (simp add: pa_set_error_msg_def)
qed

section \<open>Initialisation\<close>

definition pa_buffers :: "nat \<Rightarrow> nat \<Rightarrow> 's pa \<Rightarrow> bool" where
  "pa_buffers i n s \<longleftrightarrow> (pa_outputs s \<noteq> None \<longleftrightarrow> 0 < n) \<and> (pa_inputs s \<noteq> None \<longleftrightarrow> 0 < i) \<and>
     (pa_tmp_inputs s \<noteq> None \<longleftrightarrow> 0 < i) \<and> (pa_inputs_cache s \<noteq> None \<longleftrightarrow> 0 < i) \<and> pa_cycle_counter s \<noteq> None"

text \<open>
  The stream was closed by \<^verbatim>\<open>Pa_Terminate\<close> in an error path of \<^verbatim>\<open>pa_initialize\<close>, but the pointer to it is kept.
\<close>

definition pa_dangling :: "'s pa \<Rightarrow> bool" where
  "pa_dangling s \<longleftrightarrow> pa_leaked s = 0 \<and> pa_stream s \<and> \<not> pa_open s \<and> pa_status s = PA_INITIALIZING"

text \<open>Whether the allocations of an initialisation with buffers of \<open>f\<close> frames succeed.\<close>

definition cache_memory :: "pa_init_env \<Rightarrow> nat \<Rightarrow> bool" where
  "cache_memory env i \<longleftrightarrow> (0 < i \<longrightarrow> pa_create_cache env (pa_cache_size env) \<noteq> None) \<and>
     pa_create_counter env PA_MAX_RECOVERED_CYCLES \<noteq> None"

definition input_memory :: "pa_init_env \<Rightarrow> nat \<Rightarrow> nat \<Rightarrow> bool" where
  "input_memory env f i \<longleftrightarrow>
     (0 < i \<longrightarrow> pa_malloc env (f * i) \<noteq> None \<and> pa_malloc_tmp env (f * i * PA_SAMPLE_SIZE) \<noteq> None)"

definition output_memory :: "pa_init_env \<Rightarrow> nat \<Rightarrow> nat \<Rightarrow> bool" where
  "output_memory env f n \<longleftrightarrow> (0 < n \<longrightarrow> pa_malloc env (f * n) \<noteq> None)"

definition pa_memory :: "pa_init_env \<Rightarrow> nat \<Rightarrow> nat \<Rightarrow> nat \<Rightarrow> bool" where
  "pa_memory env f i n \<longleftrightarrow> output_memory env f n \<and> input_memory env f i \<and> cache_memory env i"

text \<open>
  The outcome for a stream that is open: released when some memory is missing, left dangling when the signal mask cannot be set, and otherwise
  a client with its buffers.
\<close>

definition pa_outcome :: "bool \<Rightarrow> bool \<Rightarrow> nat \<Rightarrow> nat \<Rightarrow> ('s pa \<times> int) option \<Rightarrow> bool" where
  "pa_outcome mem sig i n r \<longleftrightarrow> (case r of None \<Rightarrow> False
     | Some (s, ret) \<Rightarrow> pa_leaked s = 0 \<and>
         (if \<not> mem then ret = 1 \<and> pa_released s
          else if \<not> sig then ret = 1 \<and> pa_dangling s
          else ret = 0 \<and> pa_status s = PA_INITIALIZING \<and> pa_stream s \<and> pa_open s \<and> pa_lisp_busy s \<and>
            pa_thread_callback s \<noteq> None \<and> pa_buffers i n s))"

definition pa_building :: "nat \<Rightarrow> nat \<Rightarrow> 's pa \<Rightarrow> bool" where
  "pa_building i n s \<longleftrightarrow> pa_status s = PA_INITIALIZING \<and> pa_stream s \<and> pa_open s \<and> pa_leaked s = 0 \<and>
     pa_in_channels s = i \<and> pa_out_channels s = n"

lemma building_fail:
  "pa_building i n s \<Longrightarrow> \<exists>s'. pa_fail env msg s = Some (s', 1) \<and> pa_released s' \<and> pa_leaked s' = 0"
  using pa_fail_spec [of s env msg] by (auto simp: pa_building_def)

lemma outcome_fail: "pa_building i n s \<Longrightarrow> pa_outcome False sig i n (pa_fail env msg s)"
  using building_fail [of i n s env msg] by (auto simp: pa_outcome_def)

lemma alloc_cache_outcome:
  assumes "pa_building i n s" and "pa_inputs_cache s = None" and "pa_cycle_counter s = None"
  shows "\<exists>s' err. pa_alloc_input_cache env s = Some (s', err) \<and>
    (if cache_memory env i
     then err = 0 \<and> pa_building i n s' \<and> (pa_inputs_cache s' \<noteq> None \<longleftrightarrow> 0 < i) \<and> pa_cycle_counter s' \<noteq> None \<and>
        pa_inputs s' = pa_inputs s \<and> pa_outputs s' = pa_outputs s \<and> pa_tmp_inputs s' = pa_tmp_inputs s
     else err = 1 \<and> pa_released s' \<and> pa_leaked s' = 0)"
proof -
  define s1 where "s1 = (if 0 < i then s\<lparr>pa_inputs_cache := pa_create_cache env (pa_cache_size env)\<rparr> else s)"
  define s2 where "s2 = s1\<lparr>pa_cycle_counter := pa_create_counter env PA_MAX_RECOVERED_CYCLES\<rparr>"
  have b: "pa_building i n s1" "pa_building i n s2" using assms(1) by (simp_all add: s1_def s2_def pa_building_def)
  have eq: "pa_alloc_input_cache env s =
      (if 0 < i \<and> pa_inputs_cache s1 = None then pa_fail (pa_env.truncate env) ''incudine_ringbuffer_create() failure'' s1
       else if pa_cycle_counter s2 = None then pa_fail (pa_env.truncate env) ''incudine_ringbuffer_create() failure'' s2
       else Some (s2, 0))"
    using assms
    by (cases "pa_create_cache env (pa_cache_size env)")
      (auto simp: pa_alloc_input_cache_def Let_def leak_def s1_def s2_def pa_building_def)
  have mem: "cache_memory env i \<longleftrightarrow> \<not> (0 < i \<and> pa_inputs_cache s1 = None) \<and> pa_cycle_counter s2 \<noteq> None"
    by (auto simp: cache_memory_def s1_def s2_def)
  show ?thesis
  proof (cases "cache_memory env i")
    case False
    have "\<exists>s'. pa_alloc_input_cache env s = Some (s', 1) \<and> pa_released s' \<and> pa_leaked s' = 0"
    proof (cases "0 < i \<and> pa_inputs_cache s1 = None")
      case True
      then show ?thesis using eq building_fail [OF b(1)] by simp
    next
      case no: False
      then show ?thesis using eq mem False building_fail [OF b(2)] by auto
    qed
    then show ?thesis using False by auto
  next
    case True
    then have "pa_alloc_input_cache env s = Some (s2, 0)" using eq mem by auto
    moreover have "pa_inputs_cache s2 \<noteq> None \<longleftrightarrow> 0 < i" "pa_cycle_counter s2 \<noteq> None" "pa_inputs s2 = pa_inputs s"
      "pa_outputs s2 = pa_outputs s" "pa_tmp_inputs s2 = pa_tmp_inputs s"
      using True mem assms(2) by (auto simp: s1_def s2_def)
    ultimately show ?thesis using b(2) True by auto
  qed
qed

lemma finish_outcome:
  assumes "pa_building i n s" and "pa_inputs_cache s = None" and "pa_cycle_counter s = None"
    and "pa_outputs s \<noteq> None \<longleftrightarrow> 0 < n" and "pa_inputs s \<noteq> None \<longleftrightarrow> 0 < i" and "pa_tmp_inputs s \<noteq> None \<longleftrightarrow> 0 < i"
  shows "pa_outcome (cache_memory env i) (pa_sigmask_ok env) i n (init_finish env counter s)"
proof -
  from alloc_cache_outcome [OF assms(1-3), of env] obtain s' err where a: "pa_alloc_input_cache env s = Some (s', err)"
    "if cache_memory env i
     then err = 0 \<and> pa_building i n s' \<and> (pa_inputs_cache s' \<noteq> None \<longleftrightarrow> 0 < i) \<and> pa_cycle_counter s' \<noteq> None \<and>
        pa_inputs s' = pa_inputs s \<and> pa_outputs s' = pa_outputs s \<and> pa_tmp_inputs s' = pa_tmp_inputs s
     else err = 1 \<and> pa_released s' \<and> pa_leaked s' = 0" by blast
  show ?thesis
  proof (cases "cache_memory env i")
    case True
    then show ?thesis using a assms(4-6)
      by (simp add: init_finish_def pa_outcome_def pa_building_def pa_buffers_def pa_xrun_reset_def pa_set_thread_callback_def
          pa_dangling_def Pa_Terminate_def pa_set_error_msg_def) (metis (full_types))
  next
    case False
    then show ?thesis using a by (simp add: init_finish_def pa_outcome_def)
  qed
qed

lemma inputs_outcome:
  assumes "pa_building i n s" and "pa_inputs_cache s = None" and "pa_cycle_counter s = None"
    and "pa_outputs s \<noteq> None \<longleftrightarrow> 0 < n" and "pa_inputs s = None" and "pa_tmp_inputs s = None"
  shows "pa_outcome (input_memory env (frames_per_buffer s) i \<and> cache_memory env i) (pa_sigmask_ok env) i n
    (init_inputs env counter s)"
proof -
  let ?sig = "pa_sigmask_ok env" and ?f = "frames_per_buffer s"
  have fin: "pa_outcome (cache_memory env i) ?sig i n (init_finish env counter s')"
    if "pa_building i n s'" "pa_inputs_cache s' = None" "pa_cycle_counter s' = None" "pa_outputs s' \<noteq> None \<longleftrightarrow> 0 < n"
      "pa_inputs s' \<noteq> None \<longleftrightarrow> 0 < i" "pa_tmp_inputs s' \<noteq> None \<longleftrightarrow> 0 < i" for s'
    by (rule finish_outcome [OF that])
  define s1 where "s1 = s\<lparr>pa_inbuf_samples := ?f * i, pa_inbuf_bytes := ?f * i * PA_SAMPLE_SIZE\<rparr>"
  define s2 where "s2 = s1\<lparr>pa_inputs := pa_malloc env (pa_inbuf_samples s1)\<rparr>"
  define s3 where "s3 = s2\<lparr>pa_tmp_inputs := pa_malloc_tmp env (pa_inbuf_bytes s1)\<rparr>"
  have b: "pa_building i n s1" "pa_building i n s2" "pa_building i n s3"
    using assms(1) by (simp_all add: s1_def s2_def s3_def pa_building_def)
  have eq: "init_inputs env counter s =
      (if 0 < i then
         if pa_inputs s2 = None then pa_fail (pa_env.truncate env) ''malloc of input buffer failed'' s2
         else if pa_tmp_inputs s3 = None then pa_fail (pa_env.truncate env) ''malloc of temporary inputs failed'' s3
         else init_finish env counter s3
       else init_finish env counter s1)"
    using assms(1,5,6) by (simp add: init_inputs_def Let_def leak_def s1_def s2_def s3_def pa_building_def)
  have mem: "input_memory env ?f i \<longleftrightarrow> \<not> (0 < i \<and> (pa_inputs s2 = None \<or> pa_tmp_inputs s3 = None))"
    by (auto simp: input_memory_def s1_def s2_def s3_def)
  have "pa_outcome (cache_memory env i) ?sig i n (init_finish env counter s3)"
    if "0 < i" "pa_inputs s2 \<noteq> None" "pa_tmp_inputs s3 \<noteq> None"
    using b(3) assms that by (intro fin) (auto simp: s1_def s2_def s3_def)
  moreover have "pa_outcome (cache_memory env i) ?sig i n (init_finish env counter s1)" if "\<not> 0 < i"
    using b(1) assms that by (intro fin) (auto simp: s1_def)
  ultimately show ?thesis using eq mem outcome_fail [OF b(2)] outcome_fail [OF b(3)] by (auto split: if_splits)
qed

lemma outputs_outcome:
  assumes "pa_building i n s" and "pa_empty (s\<lparr>pa_stream := False\<rparr>)"
  shows "pa_outcome (pa_memory env (frames_per_buffer s) i n) (pa_sigmask_ok env) i n (init_outputs env counter s)"
proof -
  let ?sig = "pa_sigmask_ok env" and ?f = "frames_per_buffer s"
  have inp: "pa_outcome (input_memory env ?f i \<and> cache_memory env i) ?sig i n (init_inputs env counter s')"
    if "frames_per_buffer s' = ?f" "pa_building i n s'" "pa_inputs_cache s' = None" "pa_cycle_counter s' = None"
      "pa_outputs s' \<noteq> None \<longleftrightarrow> 0 < n" "pa_inputs s' = None" "pa_tmp_inputs s' = None" for s'
    using inputs_outcome [OF that(2-7), of env counter] that(1) by simp
  define s1 where "s1 = s\<lparr>pa_outbuf_samples := ?f * n, pa_outbuf_bytes := ?f * n * PA_SAMPLE_SIZE\<rparr>"
  define s2 where "s2 = s1\<lparr>pa_outputs := pa_malloc env (pa_outbuf_samples s1)\<rparr>"
  have b: "pa_building i n s1" "pa_building i n s2" using assms(1) by (simp_all add: s1_def s2_def pa_building_def)
  have none: "pa_outputs s = None" "pa_inputs s = None" "pa_tmp_inputs s = None" "pa_inputs_cache s = None" "pa_cycle_counter s = None"
    using assms(2) by (simp_all add: pa_empty_def)
  have eq: "init_outputs env counter s =
      (if 0 < n then
         if pa_outputs s2 = None then pa_fail (pa_env.truncate env) ''malloc of output buffer failed'' s2
         else init_inputs env counter s2
       else init_inputs env counter s1)"
    using assms(1) none by (simp add: init_outputs_def Let_def leak_def s1_def s2_def pa_building_def)
  have mem: "output_memory env ?f n \<longleftrightarrow> \<not> (0 < n \<and> pa_outputs s2 = None)"
    by (auto simp: output_memory_def s1_def s2_def)
  have "pa_outcome (input_memory env ?f i \<and> cache_memory env i) ?sig i n (init_inputs env counter s2)" if "0 < n" "pa_outputs s2 \<noteq> None"
    using b(2) none that by (intro inp) (auto simp: s1_def s2_def)
  moreover have "pa_outcome (input_memory env ?f i \<and> cache_memory env i) ?sig i n (init_inputs env counter s1)" if "\<not> 0 < n"
    using b(1) none that by (intro inp) (auto simp: s1_def)
  ultimately show ?thesis using eq mem outcome_fail [OF b(2)] by (auto simp: pa_memory_def split: if_splits)
qed

text \<open>Whether the initialisation of a released client gets as far as an open stream.\<close>

definition pa_opens :: "pa_init_env \<Rightarrow> nat \<Rightarrow> nat \<Rightarrow> nat \<Rightarrow> 's pa \<Rightarrow> bool" where
  "pa_opens env i n nframes s \<longleftrightarrow>
     (let s = s\<lparr>pa_in_channels := i, pa_out_channels := n\<rparr>;
          (iparam, srate) = input_parameters (device_info env) (device_count env) (default_input env) nframes s;
          (oparam, srate) = output_parameters (device_info env) (device_count env) (default_output env) nframes srate s in
      (0 < i \<or> 0 < n) \<and> pa_init_result env = 0 \<and> open_stream env iparam oparam srate = 0)"

lemma opens_cong:
  assumes "pa_input_id s = pa_input_id t" and "pa_output_id s = pa_output_id t"
    and "pa_input_latency s = pa_input_latency t" and "pa_output_latency s = pa_output_latency t"
  shows "pa_opens env i n nframes s = pa_opens env i n nframes t"
  using assms by (simp add: pa_opens_def input_parameters_def output_parameters_def Let_def)

lemma stop_settings:
  assumes "pa_stop e s = Some (s', err)"
  shows "pa_input_id s' = pa_input_id s" and "pa_output_id s' = pa_output_id s"
    and "pa_input_latency s' = pa_input_latency s" and "pa_output_latency s' = pa_output_latency s"
  using assms
  by (auto simp: pa_stop_def pa_close_def Let_def Pa_Terminate_def pa_free_input_cache_def pa_process_thread_wait_def
      pa_set_error_msg_def split: if_splits)

text \<open>The outcome of the whole initialisation of a client that can be stopped.\<close>

definition pa_initialized :: "pa_init_env \<Rightarrow> nat \<Rightarrow> nat \<Rightarrow> nat \<Rightarrow> 's pa \<Rightarrow> ('s pa \<times> int) option \<Rightarrow> bool" where
  "pa_initialized env i n nframes s r \<longleftrightarrow> (case r of None \<Rightarrow> False
     | Some (s', ret) \<Rightarrow> pa_leaked s' = 0 \<and>
         (if \<not> pa_opens env i n nframes s \<or> stream_info env \<noteq> None \<and> \<not> pa_memory env nframes i n
          then ret = 1 \<and> pa_empty s' \<and> \<not> pa_open s'
          else if stream_info env = None \<or> \<not> pa_sigmask_ok env then ret = 1 \<and> pa_dangling s'
          else ret = 0 \<and> pa_status s' = PA_INITIALIZING \<and> pa_stream s' \<and> pa_open s' \<and> pa_thread_callback s' \<noteq> None \<and>
            pa_buffers i n s'))"

lemma initialize_outcome:
  assumes "pa_client_ok s"
  shows "pa_initialized env i n nframes s (pa_initialize env i n nframes counter s)"
proof -
  have "pa_stream s \<longrightarrow> pa_open s" "pa_status s = PA_STOPPED \<longrightarrow> pa_released s" "pa_leaked s = 0"
    using assms(1) by (simp_all add: pa_client_ok_def)
  from pa_stop_spec [OF this(1,2), of "pa_env.truncate env"] this(3) obtain s0 e where
    s0: "pa_stop (pa_env.truncate env) s = Some (s0, e)" "pa_released s0" "pa_leaked s0 = 0" by auto
  define s1 where "s1 = s0\<lparr>pa_proc_thread := PA_STOPPED, pa_status := PA_INITIALIZING, pa_in_channels := i, pa_out_channels := n\<rparr>"
  obtain ip sr where ip: "input_parameters (device_info env) (device_count env) (default_input env) nframes s1 = (ip, sr)" by force
  obtain op sr' where op: "output_parameters (device_info env) (device_count env) (default_output env) nframes sr s1 = (op, sr')" by force
  have opens: "pa_opens env i n nframes s \<longleftrightarrow> (0 < i \<or> 0 < n) \<and> pa_init_result env = 0 \<and> open_stream env ip op sr' = 0"
  proof -
    have "pa_opens env i n nframes s = pa_opens env i n nframes s1"
      using stop_settings [OF s0(1)] by (intro opens_cong) (simp_all add: s1_def)
    moreover have "s1\<lparr>pa_in_channels := i, pa_out_channels := n\<rparr> = s1" by (simp add: s1_def)
    ultimately show ?thesis using ip op by (simp add: pa_opens_def)
  qed
  define s2 where "s2 = s1\<lparr>pa_stream := True, pa_open := True, pa_sample_rate := the (stream_info env), frames_per_buffer := nframes\<rparr>"
  have empty: "pa_empty s0" "pa_status s0 = PA_STOPPED" "\<not> pa_open s0" using s0(2) by (simp_all add: pa_released_def)
  have "pa_building i n s2" "pa_empty (s2\<lparr>pa_stream := False\<rparr>)" "frames_per_buffer s2 = nframes"
    using s0(3) empty(1) by (simp_all add: s2_def s1_def pa_building_def pa_empty_def)
  with outputs_outcome [OF this(1,2), of env counter]
  have out: "pa_outcome (pa_memory env nframes i n) (pa_sigmask_ok env) i n (init_outputs env counter s2)" by simp
  have init: "pa_initialize env i n nframes counter s =
      (if i = 0 \<and> n = 0 then Some (pa_set_error_msg ''Zero input channels and zero output channels.'' s0, 1)
       else if pa_init_result env \<noteq> 0 then Some (pa_set_error_msg (error_text env (pa_init_result env)) s0, 1)
       else if open_stream env ip op sr' \<noteq> 0
       then Some (Pa_Terminate (pa_set_error_msg (error_text env (open_stream env ip op sr')) (s1\<lparr>pa_stream := False\<rparr>)), 1)
       else if stream_info env = None
       then Some (Pa_Terminate (pa_set_error_msg ''Pa_GetStreamInfo() failed.'' (s1\<lparr>pa_stream := True, pa_open := True\<rparr>)), 1)
       else init_outputs env counter s2)"
    unfolding pa_initialize_def s0(1) bind.bind_lunit case_prod_conv Let_def s1_def [symmetric] ip op
    by (cases "stream_info env") (simp_all add: s2_def)
  have no: "pa_leaked s' = 0 \<and> pa_empty s' \<and> \<not> pa_open s'"
    if "s' = pa_set_error_msg msg s0 \<or> s' = Pa_Terminate (pa_set_error_msg msg (s1\<lparr>pa_stream := False\<rparr>))" for s' msg
    using that s0(3) empty by (auto simp: pa_set_error_msg_def Pa_Terminate_def s1_def pa_empty_def)
  consider "\<not> pa_opens env i n nframes s" | "pa_opens env i n nframes s" "stream_info env = None"
    | "pa_opens env i n nframes s" "stream_info env \<noteq> None" by blast
  then show ?thesis
  proof cases
    case 1
    have "\<exists>msg. pa_initialize env i n nframes counter s = Some (pa_set_error_msg msg s0, 1) \<or>
        pa_initialize env i n nframes counter s = Some (Pa_Terminate (pa_set_error_msg msg (s1\<lparr>pa_stream := False\<rparr>)), 1)"
      using 1 unfolding opens init by (cases "i = 0 \<and> n = 0"; cases "pa_init_result env = 0") auto
    then obtain s' where "pa_initialize env i n nframes counter s = Some (s', 1)" "pa_leaked s' = 0 \<and> pa_empty s' \<and> \<not> pa_open s'"
      using no by blast
    then show ?thesis using 1 by (simp add: pa_initialized_def)
  next
    case 2
    have "pa_dangling (Pa_Terminate (pa_set_error_msg msg (s1\<lparr>pa_stream := True, pa_open := True\<rparr>)))" for msg
      using s0(3) by (simp add: pa_dangling_def Pa_Terminate_def pa_set_error_msg_def s1_def)
    then show ?thesis using 2 by (auto simp: init opens pa_initialized_def pa_dangling_def)
  next
    case 3
    then have "pa_initialize env i n nframes counter s = init_outputs env counter s2" by (auto simp: init opens)
    then show ?thesis using out 3 by (auto simp: pa_initialized_def pa_outcome_def pa_released_def split: option.splits if_splits)
  qed
qed

section \<open>The state machine\<close>

definition pa_start_state :: "'s::zero pa" where
  "pa_start_state =
     \<lparr>pa_status = PA_STOPPED, pa_proc_thread = PA_STOPPED, pa_stream = False, pa_open = False, pa_in_channels = 0, pa_out_channels = 0,
      frames_per_buffer = 0, pa_inputs = None, pa_outputs = None, pa_tmp_inputs = None, pa_inputs_cache = None, pa_cycle_counter = None,
      pa_inbuf_bytes = 0, pa_inbuf_samples = 0, pa_outbuf_bytes = 0, pa_outbuf_samples = 0, pa_sample_rate = 0, pa_lisp_input = [],
      pa_lisp_output = [], pa_sample_counter = 0, pa_cycle_start_time_smp = 0, pa_cycle_start_time_sec = 0, pa_input_id = -1,
      pa_output_id = -1, pa_input_latency = 0, pa_output_latency = 0, pa_lisp_busy = False, pa_thread_callback = None,
      pa_error_msg = [], pa_xruns = 0, pa_xrun_time = 0, pa_leaked = 0\<rparr>"

text \<open>
  The calls in any order, with any answers of PortAudio and of the system. A call with undefined behaviour has no step. The process thread
  starts and ends on its own while the stream is open.
\<close>

inductive pa_step :: "'s pa \<Rightarrow> 's pa \<Rightarrow> bool" where
  initialize: "pa_initialize env i n nframes counter s = Some (s', ret) \<Longrightarrow> pa_step s s'"
| start: "pa_start env created s = Some (s', ret) \<Longrightarrow> pa_step s s'"
| stop: "pa_stop env s = Some (s', ret) \<Longrightarrow> pa_step s s'"
| thread_start: "pa_stream s \<Longrightarrow> pa_open s \<Longrightarrow> pa_status s \<noteq> PA_STOPPED \<Longrightarrow> pa_step s (fst (pa_thread_start err s))"
| thread_end: "pa_step s (s\<lparr>pa_proc_thread := PA_STOPPED\<rparr>)"
| devices: "pa_step s (pa_set_devices inp out s)"
| latency: "pa_step s (pa_set_stream_latency value is_input s)"
| callback: "pa_step s (fst (pa_set_thread_callback b s))"

inductive pa_reachable :: "'s::zero pa \<Rightarrow> bool" where
  initial: "pa_reachable pa_start_state"
| further: "pa_reachable s \<Longrightarrow> pa_step s s' \<Longrightarrow> pa_reachable s'"

text \<open>The invariant: all is well, or the closed stream is still referred to.\<close>

definition pa_inv :: "'s pa \<Rightarrow> bool" where
  "pa_inv s \<longleftrightarrow> pa_client_ok s \<or> pa_dangling s"

lemma initialized_inv: "pa_initialized env i n f s (Some (s', ret)) \<Longrightarrow> pa_inv s'"
  by (auto simp: pa_initialized_def pa_inv_def pa_client_ok_def pa_released_def pa_empty_def split: if_splits)

text \<open>The closed stream is used by the next call that stops or initialises.\<close>

lemma dangling_stop: "pa_dangling s \<Longrightarrow> pa_stop e s = None"
  by (simp add: pa_dangling_def pa_stop_def pa_close_def Let_def pa_process_thread_wait_def)

lemma dangling_initialize: "pa_dangling s \<Longrightarrow> pa_initialize env i n nframes counter s = None"
  by (simp add: pa_initialize_def dangling_stop)

lemma dangling_start:
  assumes "pa_dangling s"
  shows "pa_start e created s = (if pa_thread_callback s = None \<or> created \<noteq> 0 then None else Some (s, 0))"
proof -
  have "pa_dangling (pa_set_error_msg msg s)" for msg using assms by (simp add: pa_dangling_def pa_set_error_msg_def)
  then show ?thesis by (simp add: pa_start_def dangling_stop)
qed

lemma pa_released_ok: "pa_released s \<Longrightarrow> pa_leaked s = 0 \<Longrightarrow> pa_client_ok s"
  by (simp add: pa_client_ok_def pa_released_def pa_empty_def)

lemma pa_stop_ok:
  assumes "pa_client_ok s"
  shows "\<exists>s' err. pa_stop env s = Some (s', err) \<and> pa_released s' \<and> pa_leaked s' = 0"
  using pa_stop_spec [of s env] assms by (auto simp: pa_client_ok_def)

lemma pa_start_ok:
  assumes "pa_client_ok s"
  shows "case pa_start e created s of None \<Rightarrow> pa_thread_callback s = None
    | Some (s', ret) \<Rightarrow> pa_thread_callback s \<noteq> None \<and> ret = created \<and>
        (if created = 0 then s' = s else pa_released s' \<and> pa_leaked s' = 0)"
proof -
  have "pa_client_ok (pa_set_error_msg msg s)" for msg
    using assms by (simp add: pa_client_ok_def pa_set_error_msg_def pa_released_def pa_empty_def)
  from pa_stop_ok [OF this, of e "''Failed to create the C realtime thread''"] show ?thesis
    by (auto simp: pa_start_def)
qed

lemma pa_step_inv: "pa_step s s' \<Longrightarrow> pa_inv s \<Longrightarrow> pa_inv s'"
proof (induction rule: pa_step.induct)
  case (initialize env i n nframes counter s s' ret)
  then have "pa_client_ok s" using dangling_initialize [of s env i n nframes counter] by (auto simp: pa_inv_def)
  from initialize_outcome [OF this, of env i n nframes counter] show ?case
    using initialize.hyps by (auto intro: initialized_inv)
next
  case (start e created s s' ret)
  show ?case
  proof (cases "pa_dangling s")
    case True
    then show ?thesis using start dangling_start [OF True, where e = e and created = created] by (auto split: if_splits)
  next
    case False
    then have "pa_client_ok s" using start.prems by (simp add: pa_inv_def)
    from pa_start_ok [OF this, where e = e and created = created] start.hyps this pa_released_ok show ?thesis
      by (auto simp: pa_inv_def split: if_splits)
  qed
next
  case (stop e s s' ret)
  then have "pa_client_ok s" using dangling_stop [of s e] by (auto simp: pa_inv_def)
  from pa_stop_ok [OF this, of e] show ?case using stop.hyps pa_released_ok by (auto simp: pa_inv_def)
qed (auto simp: pa_inv_def pa_dangling_def pa_client_ok_def pa_released_def pa_empty_def pa_thread_start_def pa_set_devices_def
    pa_set_stream_latency_def pa_set_thread_callback_def)

lemma pa_start_state_ok: "pa_client_ok pa_start_state"
  by (simp add: pa_start_state_def pa_client_ok_def pa_released_def pa_empty_def)

lemma pa_reachable_inv: "pa_reachable s \<Longrightarrow> pa_inv s"
proof (induction rule: pa_reachable.induct)
  case initial
  then show ?case by (simp add: pa_inv_def pa_start_state_ok)
qed (rule pa_step_inv)

text \<open>
  C30. In every state that the calls reach, with any answers of PortAudio and of the system, nothing has leaked and a stopped client holds
  nothing. As long as the stream that the pointer refers to is open, stopping returns and releases everything; starting is undefined
  exactly before a thread callback was chosen (a null start routine), and otherwise succeeds when the thread is created and
  releases everything when it is not; initialising returns, and succeeds exactly when the stream opens, its data, the memory and the signal
  mask are available, with exactly the buffers that the channels need. When the stream does not open or some memory is
  missing it gives an error and a client without stream and memory; but when the data of the stream or the signal mask is not available the
  pointer to the closed stream is kept, and from then on stopping, initialising and a failed start use the closed stream: undefined.
\<close>

theorem pa_life_cycle:
  assumes "pa_reachable s"
  shows "pa_leaked s = 0 \<and> (pa_status s = PA_STOPPED \<longrightarrow> pa_released s) \<and>
    (if pa_stream s \<and> \<not> pa_open s
     then pa_stop e s = None \<and> pa_initialize env i n nframes counter s = None \<and>
       pa_start e created s = (if pa_thread_callback s = None \<or> created \<noteq> 0 then None else Some (s, 0))
     else (\<exists>s' err. pa_stop e s = Some (s', err) \<and> pa_released s' \<and> pa_leaked s' = 0) \<and>
       (case pa_start e created s of None \<Rightarrow> pa_thread_callback s = None
        | Some (s', ret) \<Rightarrow> pa_thread_callback s \<noteq> None \<and> ret = created \<and>
            (if created = 0 then s' = s else pa_released s' \<and> pa_leaked s' = 0)) \<and>
       (\<exists>s' ret. pa_initialize env i n nframes counter s = Some (s', ret) \<and> pa_leaked s' = 0 \<and>
         (if \<not> pa_opens env i n nframes s \<or> stream_info env \<noteq> None \<and> \<not> pa_memory env nframes i n
          then ret = 1 \<and> pa_empty s' \<and> \<not> pa_open s'
          else if stream_info env = None \<or> \<not> pa_sigmask_ok env then ret = 1 \<and> pa_stream s' \<and> \<not> pa_open s'
          else ret = 0 \<and> pa_stream s' \<and> pa_open s' \<and> pa_thread_callback s' \<noteq> None \<and> pa_buffers i n s')))"
proof (cases "pa_stream s \<and> \<not> pa_open s")
  case True
  then have d: "pa_dangling s" using pa_reachable_inv [OF assms] by (auto simp: pa_inv_def pa_client_ok_def)
  then have "pa_leaked s = 0" "pa_status s \<noteq> PA_STOPPED" by (simp_all add: pa_dangling_def)
  then show ?thesis using True dangling_stop [OF d] dangling_initialize [OF d] dangling_start [OF d, where e = e and created = created] by simp
next
  case False
  then have ok: "pa_client_ok s" using pa_reachable_inv [OF assms] by (auto simp: pa_inv_def pa_dangling_def)
  then have "pa_leaked s = 0" "pa_status s = PA_STOPPED \<longrightarrow> pa_released s" by (simp_all add: pa_client_ok_def)
  moreover have "\<exists>s' ret. pa_initialize env i n nframes counter s = Some (s', ret) \<and> pa_leaked s' = 0 \<and>
         (if \<not> pa_opens env i n nframes s \<or> stream_info env \<noteq> None \<and> \<not> pa_memory env nframes i n
          then ret = 1 \<and> pa_empty s' \<and> \<not> pa_open s'
          else if stream_info env = None \<or> \<not> pa_sigmask_ok env then ret = 1 \<and> pa_stream s' \<and> \<not> pa_open s'
          else ret = 0 \<and> pa_stream s' \<and> pa_open s' \<and> pa_thread_callback s' \<noteq> None \<and> pa_buffers i n s')"
  proof -
    obtain s' ret where r: "pa_initialize env i n nframes counter s = Some (s', ret)" "pa_initialized env i n nframes s (Some (s', ret))"
      using initialize_outcome [OF ok, of env i n nframes counter]
      by (cases "pa_initialize env i n nframes counter s") (auto simp: pa_initialized_def)
    then show ?thesis
      by (intro exI [of _ s'] exI [of _ ret]) (auto simp: pa_initialized_def pa_dangling_def split: if_splits)
  qed
  ultimately show ?thesis unfolding if_not_P [OF False] using pa_stop_ok [OF ok, of e] pa_start_ok [OF ok, where e = e and created = created] by (intro conjI)
qed


definition pa_good_env :: pa_init_env where
  "pa_good_env =
     \<lparr>pa_stops = (\<lambda>k. k = 5), is_stream_stopped = 0, stop_stream = 0, close_stream = 0, error_text = (\<lambda>_. ''error''),
      pa_init_result = 0, device_info = (\<lambda>_. \<lparr>default_rate = 48000, low_input_latency = 1, low_output_latency = 1\<rparr>), device_count = 2,
      default_input = 0, default_output = 1, open_stream = (\<lambda>_ _ _. 0), stream_info = Some 48000, pa_malloc = (\<lambda>n. Some (replicate n 0)),
      pa_malloc_tmp = (\<lambda>n. None), pa_cache_size = 16, pa_create_cache = (\<lambda>_. None), pa_create_counter = (\<lambda>_. None),
      pa_sigmask_ok = True\<rparr>"

text \<open>
  From the first state: the ring buffers of the cache cannot be created, which is reported; PortAudio gives no data of the stream, and the next
  stop uses the closed one.
\<close>

theorem pa_life_cycle_witness:
  "(\<exists>s'. pa_initialize pa_good_env 1 2 64 0 (pa_start_state :: real pa) = Some (s', 1) \<and> pa_leaked s' = 0 \<and> pa_empty s') \<and>
   (\<exists>s'. pa_initialize (pa_good_env\<lparr>stream_info := None\<rparr>) 1 2 64 0 (pa_start_state :: real pa) = Some (s', 1) \<and>
     pa_stop (pa_env.truncate pa_good_env) s' = None)"
proof -
  let ?s = "pa_start_state :: real pa" and ?bad = "pa_good_env\<lparr>stream_info := None\<rparr>" and ?e = "pa_env.truncate pa_good_env"
  have st: "\<not> (pa_stream ?s \<and> \<not> pa_open ?s)" by (simp add: pa_start_state_def)
  have env: "pa_opens pa_good_env 1 2 64 ?s" "pa_opens ?bad 1 2 64 ?s" "stream_info pa_good_env \<noteq> None" "stream_info ?bad = None"
    "\<not> pa_memory pa_good_env 64 1 2"
    by (simp_all add: pa_opens_def pa_good_env_def pa_memory_def cache_memory_def split: prod.splits)
  have ok: "pa_reachable ?s" by (rule pa_reachable.initial)
  note good = pa_life_cycle [where i = 1 and n = 2 and nframes = 64 and counter = 0 and e = ?e and created = 0 and env = pa_good_env,
      OF ok, unfolded if_not_P [OF st], THEN conjunct2, THEN conjunct2, THEN conjunct2, THEN conjunct2]
    and bad = pa_life_cycle [where i = 1 and n = 2 and nframes = 64 and counter = 0 and e = ?e and created = 0 and env = ?bad,
      OF ok, unfolded if_not_P [OF st], THEN conjunct2, THEN conjunct2, THEN conjunct2, THEN conjunct2]
  have 1: "\<exists>s'. pa_initialize pa_good_env 1 2 64 0 ?s = Some (s', 1) \<and> pa_leaked s' = 0 \<and> pa_empty s'"
    using good env by auto
  from bad env obtain s' where s': "pa_initialize ?bad 1 2 64 0 ?s = Some (s', 1)" "pa_stream s' \<and> \<not> pa_open s'" by auto
  have "pa_reachable s'" by (rule pa_reachable.further [OF ok pa_step.initialize [OF s'(1)]])
  from pa_life_cycle [where e = ?e, OF this] s'(2) have "pa_stop ?e s' = None" by simp
  with 1 s'(1) show ?thesis by blast
qed

section \<open>Error paths\<close>

text \<open>
  An error code of \<^verbatim>\<open>Pa_GetStreamReadAvailable\<close> (a negative number) is compared as an unsigned number: the round does not wait, but reads and
  goes on as if the frames were there.
\<close>

theorem negative_available_not_waited:
  assumes "available env < 0" and "- (2 ^ 63) \<le> available env" and "frames_per_buffer s < 2 ^ 63" and "pa_open s"
  shows "\<not> not_enough (available env) (frames_per_buffer s) \<and>
    (\<forall>s' c. pa_process_cached_round env cycles s \<noteq> Some (s', c, Delay))"
proof -
  have "(available env + 2 ^ 64) mod 2 ^ 64 = available env + 2 ^ 64"
    by (rule mod_pos_pos_trivial) (use assms(1,2) in simp_all)
  then have "uint (word_of_int (available env) :: u64) = available env + 2 ^ 64" by (simp add: uint_word_of_int)
  moreover have "uint (word_of_nat (frames_per_buffer s) :: u64) = int (frames_per_buffer s)"
    using assms(3) by (simp add: unsigned_of_nat take_bit_nat_eq_self_iff)
  ultimately have "\<not> not_enough (available env) (frames_per_buffer s)"
    using assms(2,3) by (simp add: not_enough_def word_less_def)
  then show ?thesis
    by (auto simp: pa_process_cached_round_def Let_def bind_eq_Some_conv split: if_splits)
qed

definition pa_error_round :: "real pa_round_env" where
  "pa_error_round = \<lparr>available = -9988, pa_read_result = (\<lambda>xs. (xs, -9988)), pa_write_result = 0, pa_now = 0, pa_busy1 = True,
     pa_busy2 = True, pa_busy3 = True\<rparr>"

theorem negative_available_not_waited_witness:
  "\<not> not_enough (-9988) 64 \<and>
     (\<forall>s' c. pa_process_cached_round pa_error_round 0 (pa_start_state\<lparr>pa_open := True, frames_per_buffer := 64\<rparr>) \<noteq> Some (s', c, Delay))"
  using negative_available_not_waited [of pa_error_round "pa_start_state\<lparr>pa_open := True, frames_per_buffer := 64\<rparr>" 0]
  by (simp add: pa_error_round_def)

end
