(* ===== verification/PortAudioThread.thy ===== *)
theory PortAudioThread
  imports PortAudioLife PortAudioProps
begin

text \<open>
  The process threads of the PortAudio driver as loops (\<^verbatim>\<open>pa_process_thread\<close>, \<^verbatim>\<open>pa_process_thread_with_cached_inputs\<close>), beside the thread of
  Lisp, and what becomes of the cycles that are suspended while Lisp recovers others.
\<close>

section \<open>The loops\<close>

text \<open>
  The loops run while the status is \<^verbatim>\<open>PA_RUNNING\<close>, here for a list of iterations; the end of the thread when the status changes is left out. An iteration: what the thread of Lisp does to the shared state in the meantime, the flag
  \<^verbatim>\<open>pa_lisp_busy\<close> the loop reads, the answers of PortAudio, and what Lisp does while the C thread waits. The state \<open>'m\<close> is Lisp's.
\<close>

record ('m, 's) pa_iteration =
  pa_beside :: "'m \<Rightarrow> 's pa \<Rightarrow> ('m \<times> 's pa) option"
  pa_found_busy :: bool
  pa_answers :: "'s pa_round_env"
  pa_in_lisp :: "'m \<Rightarrow> 's pa \<Rightarrow> ('m \<times> 's pa) option"

text \<open>The results have the buffers that PortAudio plays.\<close>

fun pa_rounds ::
  "(u32 \<Rightarrow> 's) \<Rightarrow> ('s::zero \<Rightarrow> u32) \<Rightarrow> ('m, 's) pa_iteration list \<Rightarrow> 'm \<Rightarrow> 's pa \<Rightarrow> ('m \<times> 's pa \<times> u32 list option list) option" where
  "pa_rounds conv unconv [] m s = Some (m, s, [])"
| "pa_rounds conv unconv (it # its) m s = do {
     (m, s) \<leftarrow> pa_beside it m s;
     if pa_found_busy it then do {
       (s, played) \<leftarrow> pa_process_round conv unconv (pa_answers it) s;
       (m, s, rest) \<leftarrow> pa_rounds conv unconv its m s;
       Some (m, s, played # rest)
     }
     else do {
       (m, s) \<leftarrow> pa_in_lisp it m s;
       pa_rounds conv unconv its m s
     }
   }"

text \<open>\<open>err\<close> is the result of \<^verbatim>\<open>Pa_StartStream\<close>.\<close>

definition pa_process_thread ::
  "(u32 \<Rightarrow> 's) \<Rightarrow> ('s::zero \<Rightarrow> u32) \<Rightarrow> int \<Rightarrow> ('m, 's) pa_iteration list \<Rightarrow> 'm \<Rightarrow> 's pa \<Rightarrow> ('m \<times> 's pa \<times> u32 list option list) option" where
  "pa_process_thread conv unconv err its m s =
     (let (s, ok) = pa_thread_start err s in if ok then pa_rounds conv unconv its m s else Some (m, s, []))"

fun pa_cached_rounds ::
  "('m, 's) pa_iteration list \<Rightarrow> nat \<Rightarrow> 'm \<Rightarrow> 's pa \<Rightarrow> ('m \<times> 's pa \<times> nat \<times> u32 list option list) option" where
  "pa_cached_rounds [] cycles m s = Some (m, s, cycles, [])"
| "pa_cached_rounds (it # its) cycles m s = do {
     (m, s) \<leftarrow> pa_beside it m s;
     (s, cycles, fin) \<leftarrow>
       (if pa_found_busy it then pa_process_cached_round (pa_answers it) cycles s
        else do { s \<leftarrow> resume_lisp cycles s; Some (s, cycles, Resume) });
     case fin of
       Delay \<Rightarrow> pa_cached_rounds its cycles m s
     | Suspended played \<Rightarrow> do {
         (m, s, cycles, rest) \<leftarrow> pa_cached_rounds its cycles m s;
         Some (m, s, cycles, played # rest)
       }
     | Resume \<Rightarrow> do {
         (m, s) \<leftarrow> pa_in_lisp it m s;
         let (s, cycles) = pa_after_resume (pa_now (pa_answers it)) s;
         pa_cached_rounds its cycles m s
       }
   }"

definition pa_process_thread_with_cached_inputs ::
  "int \<Rightarrow> ('m, 's) pa_iteration list \<Rightarrow> 'm \<Rightarrow> 's pa \<Rightarrow> ('m \<times> 's pa \<times> nat \<times> u32 list option list) option" where
  "pa_process_thread_with_cached_inputs err its m s =
     (let (s, ok) = pa_thread_start err s in if ok then pa_cached_rounds its 0 m s else Some (m, s, 0, []))"

section \<open>The capacity of the cache\<close>

definition pa_caps :: "'s pa \<Rightarrow> nat option \<times> nat option" where
  "pa_caps s = (map_option rb_capacity (pa_inputs_cache s), map_option rb_capacity (pa_cycle_counter s))"

definition pa_fits :: "nat \<Rightarrow> nat \<Rightarrow> 's pa \<Rightarrow> bool" where
  "pa_fits n k s \<longleftrightarrow> (case pa_caps s of (Some a, Some b) \<Rightarrow> k * (4 * n) \<le> a \<and> k \<le> b | _ \<Rightarrow> False)"

lemma pa_recover_frame:
  assumes "pa_recover conv s = Some (s', x)"
  shows "pa_caps s' = pa_caps s" and "pa_open s' = pa_open s" and "frames_per_buffer s' = frames_per_buffer s"
    and "pa_in_channels s' = pa_in_channels s" and "pa_out_channels s' = pa_out_channels s" and "pa_inputs s' = pa_inputs s"
    and "pa_outputs s' = pa_outputs s" and "pa_inbuf_samples s' = pa_inbuf_samples s" and "pa_outbuf_samples s' = pa_outbuf_samples s"
    and "pa_lisp_output s' = pa_lisp_output s"
  using assms by (auto simp: pa_recover_def pa_inputs_from_cache_begin_def pa_inputs_from_cache_end_def pa_caps_def
      rb_write_capacity rb_read_capacity split: option.splits bind_splits)

lemma copy_inputs_length: "copy_inputs get conv is dest = Some dest' \<Longrightarrow> length dest' = length dest"
  by (induction "is" arbitrary: dest) (auto simp: store_def split: bind_splits if_splits)

lemma pa_recover_length: "pa_recover conv s = Some (s', x) \<Longrightarrow> length (pa_lisp_input s') = length (pa_lisp_input s)"
  by (auto simp: pa_recover_def pa_inputs_from_cache_begin_def pa_inputs_from_cache_end_def
      dest!: copy_inputs_length split: option.splits bind_splits)

lemma length_cycles: "\<forall>b \<in> set q. length b = n \<Longrightarrow> length (concat (map float_bytes q)) = length q * (4 * n)"
  by (induction q) simp_all

lemma pa_fits_room:
  assumes "pa_cached n s q ts" and "\<forall>b \<in> set q. length b = n" and "pa_fits n k s" and "length q = length ts" and "length q < k"
  shows "pa_room s"
proof -
  obtain r c where s: "pa_inputs_cache s = Some r" "rb_ok r" "rb_contents r = concat (map float_bytes q)" "pa_cycle_counter s = Some c"
    "rb_ok c" "rb_contents c = ts" "k * (4 * n) \<le> rb_capacity r" "k \<le> rb_capacity c" "pa_inbuf_bytes s = 4 * n"
    using assms(1,3) by (auto simp: pa_cached_def pa_fits_def pa_caps_def)
  have "unat (rb_write_space r) + length q * (4 * n) = rb_capacity r"
    using rb.room_contents [OF s(2)] s(3) length_cycles [OF assms(2)] by simp
  moreover have "(length q + 1) * (4 * n) \<le> k * (4 * n)" using assms(5) by (intro mult_right_mono) simp_all
  moreover have "unat (rb_write_space c) + length ts = rb_capacity c" using rb.room_contents [OF s(5)] s(6) by simp
  ultimately show ?thesis using s(1,4,7-9) assms(4,5) by (simp add: pa_room_def)
qed

section \<open>Suspended cycles beside the recovery\<close>

text \<open>The state between two iterations: the cycles \<open>q\<close> wait, and the cache has room for \<open>k\<close> of them.\<close>

definition pa_backlog :: "nat \<Rightarrow> nat \<Rightarrow> 's pa \<Rightarrow> u32 list list \<Rightarrow> byte list \<Rightarrow> bool" where
  "pa_backlog n k s q ts \<longleftrightarrow> pa_cached n s q ts \<and> length q = length ts \<and> (\<forall>b \<in> set q. length b = n) \<and> pa_fits n k s \<and> pa_ready s"

text \<open>An iteration in a garbage collection or after it: Lisp is stopped or recovers a cycle, and the flag is set.\<close>

definition pa_gc_iteration :: "(u32 \<Rightarrow> 's) \<Rightarrow> bool \<times> 's pa_round_env \<Rightarrow> ('m \<times> 's list list, 's) pa_iteration" where
  "pa_gc_iteration conv = (\<lambda>(r, env).
     \<lparr>pa_beside = (if r then recover_once (\<lambda>s. Some (pa_has_cached_inputs s)) (pa_recover conv) else (\<lambda>m s. Some (m, s))),
      pa_found_busy = True, pa_answers = env, pa_in_lisp = (\<lambda>m s. None)\<rparr>)"

lemma pa_gc_iteration_fields:
  "pa_beside (pa_gc_iteration conv (r, env)) = (if r then recover_once (\<lambda>s. Some (pa_has_cached_inputs s)) (pa_recover conv) else (\<lambda>m s. Some (m, s)))"
  "pa_found_busy (pa_gc_iteration conv (r, env))" "pa_answers (pa_gc_iteration conv (r, env)) = env"
  by (simp_all add: pa_gc_iteration_def)

text \<open>
  The samples that PortAudio delivers, and whether it has a cycle of \<open>f\<close> frames ready. In a suspended cycle the \<open>n\<close> samples of the input buffer are replaced, and the flag is
  set all the time.
\<close>

definition pa_heard :: "nat \<Rightarrow> 's pa_round_env \<Rightarrow> u32 list" where
  "pa_heard n env = fst (pa_read_result env (replicate n 0))"

definition pa_enough :: "nat \<Rightarrow> 's pa_round_env \<Rightarrow> bool" where
  "pa_enough f env \<longleftrightarrow> \<not> not_enough (available env) f"

definition pa_suspended_cycle :: "nat \<Rightarrow> 's pa_round_env \<Rightarrow> bool" where
  "pa_suspended_cycle n env \<longleftrightarrow> (\<forall>xs. length xs = n \<longrightarrow> fst (pa_read_result env xs) = pa_heard n env) \<and> length (pa_heard n env) = n \<and>
     pa_busy1 env \<and> pa_busy2 env \<and> pa_busy3 env"

lemma pa_recovers_step:
  assumes "pa_backlog n k s q ts"
  obtains s' xs' p q' ts' where "recover_once (\<lambda>s. Some (pa_has_cached_inputs s)) (pa_recover conv) (m, xs) s = Some ((m, xs @ xs'), s')"
    and "pa_backlog n k s' q' ts'" and "q = p @ q'" and "list_all2 (pa_delivered conv n) p xs'" and "length q' = length q - 1"
    and "frames_per_buffer s' = frames_per_buffer s" and "pa_outbuf_samples s' = pa_outbuf_samples s"
proof -
  have h: "pa_cached n s q ts" "length q = length ts" "\<forall>b \<in> set q. length b = n" "pa_fits n k s" "pa_ready s"
    using assms by (simp_all add: pa_backlog_def)
  show ?thesis
  proof (rule pc.recover_beside [OF h(1-3), of conv m xs])
    fix s' xs' p q' ts'
    assume r: "recover_once (\<lambda>s. Some (pa_has_cached_inputs s)) (pa_recover conv) (m, xs) s = Some ((m, xs @ xs'), s')" "pa_cached n s' q' ts'"
      "q = p @ q'" "list_all2 (pa_delivered conv n) p xs'" "length q' = length q - 1" "length q' = length ts'"
      "s' = s \<or> (\<exists>x. pa_recover conv s = Some (s', x))"
    have f: "pa_caps s' = pa_caps s" "frames_per_buffer s' = frames_per_buffer s" "pa_outbuf_samples s' = pa_outbuf_samples s"
      using r(7) pa_recover_frame by auto
    have "pa_inbuf_samples s' \<le> length (pa_lisp_input s')" using r(2) by (simp add: pa_cached_def)
    then have "pa_ready s'" using r(7) h(5) pa_recover_frame [of conv s s'] by (elim disjE exE) (simp_all add: pa_ready_def)
    then have "pa_backlog n k s' q' ts'" using h(3,4) r(2,3,6) f(1) by (simp add: pa_backlog_def pa_fits_def)
    then show ?thesis using that r f(2,3) by blast
  qed
qed

lemma pa_suspended_step:
  assumes "pa_backlog n k s q ts" and "length q < k" and "pa_suspended_cycle n env" and "pa_enough (frames_per_buffer s) env"
  obtains s' where "pa_process_cached_round env cycles s = Some (s', cycles + 1, Suspended (Some (replicate (pa_outbuf_samples s) 0)))"
    and "pa_backlog n k s' (q @ [pa_heard n env]) (ts @ [PA_SUSPENDED_CYCLE])" and "frames_per_buffer s' = frames_per_buffer s"
    and "pa_outbuf_samples s' = pa_outbuf_samples s"
proof -
  have b: "pa_cached n s q ts" "length q = length ts" "\<forall>b \<in> set q. length b = n" "pa_fits n k s" "pa_ready s"
    using assms(1) by (simp_all add: pa_backlog_def)
  have "pa_room s" by (rule pa_fits_room [OF b(1,3,4,2) assms(2)])
  then obtain r c where s: "pa_inputs_cache s = Some r" "rb_ok r" "rb_contents r = concat (map float_bytes q)"
    "pa_cycle_counter s = Some c" "rb_ok c" "rb_contents c = ts" "4 * n < 2 ^ 32" "pa_inbuf_bytes s = 4 * n" "pa_inbuf_samples s = n"
    "4 * n \<le> unat (rb_write_space r)" "1 \<le> unat (rb_write_space c)"
    using b(1) by (auto simp: pa_cached_def pa_room_def)
  obtain old ys where io: "pa_inputs s = Some old" "length old = n" "pa_outputs s = Some ys" "length ys = pa_outbuf_samples s" "pa_open s"
    "0 < pa_in_channels s" "0 < pa_out_channels s" using b(5) s(9) by (auto simp: pa_ready_def)
  let ?b = "pa_heard n env" and ?z = "replicate (pa_outbuf_samples s) (0 :: u32)"
  have e: "fst (pa_read_result env old) = ?b" "length ?b = n" "pa_busy1 env" "pa_busy2 env" "pa_busy3 env"
    using assms(3) io(2) by (simp_all add: pa_suspended_cycle_def)
  obtain r' where r': "rb_write r (float_bytes ?b) (word_of_nat (4 * n)) = Some (r', word_of_nat (4 * n))" "rb_ok r'"
    "rb_contents r' = rb_contents r @ float_bytes ?b"
    using rb_put [OF s(2,10) _ s(7), of "float_bytes ?b"] e(2) by auto
  obtain c' where c': "rb_write c [PA_SUSPENDED_CYCLE] 1 = Some (c', 1)" "rb_ok c'" "rb_contents c' = ts @ [PA_SUSPENDED_CYCLE]"
    using rb_put [OF s(5,11), of "[PA_SUSPENDED_CYCLE]"] s(6) by auto
  define s1 where "s1 = s\<lparr>pa_inputs := Some ?b, pa_inputs_cache := Some r', pa_outputs := Some ?z\<rparr>"
  define s' where "s' = (if pa_write_result env \<noteq> 0 then pa_set_xrun s1 else s1)\<lparr>pa_cycle_counter := Some c'\<rparr>"
  have f: "pa_inputs s' = Some ?b" "pa_inputs_cache s' = Some r'" "pa_outputs s' = Some ?z" "pa_cycle_counter s' = Some c'"
    "pa_inbuf_samples s' = pa_inbuf_samples s" "pa_inbuf_bytes s' = pa_inbuf_bytes s" "pa_lisp_input s' = pa_lisp_input s"
    "pa_tmp_inputs s' = pa_tmp_inputs s" "pa_open s' = pa_open s" "frames_per_buffer s' = frames_per_buffer s"
    "pa_in_channels s' = pa_in_channels s" "pa_out_channels s' = pa_out_channels s" "pa_outbuf_samples s' = pa_outbuf_samples s"
    "pa_lisp_output s' = pa_lisp_output s" by (simp_all add: s'_def s1_def pa_set_xrun_def)
  have zero: "memset ys 0 0 (pa_outbuf_samples s) = Some ?z" using io(4) by (simp add: memset_in)
  have rd: "pa_read (pa_read_result env) s = Some (s\<lparr>pa_inputs := Some ?b\<rparr>)"
    using io e(1) by (cases "pa_read_result env old") (simp add: pa_read_def)
  have put: "put_inputs (s\<lparr>pa_inputs := Some ?b\<rparr>) = Some (s\<lparr>pa_inputs := Some ?b, pa_inputs_cache := Some r'\<rparr>, word_of_nat (4 * n))"
    using s(1,8) r'(1) by (simp add: put_inputs_def del: of_nat_mult)
  have sil: "pa_silence (s\<lparr>pa_inputs := Some ?b, pa_inputs_cache := Some r'\<rparr>) = Some s1"
    using io(3,7) zero by (simp add: pa_silence_def s1_def)
  have wr: "pa_write (pa_write_result env) s1 = Some (if pa_write_result env \<noteq> 0 then pa_set_xrun s1 else s1, ?z)"
    using io(5) by (simp add: pa_write_def s1_def)
  have inc: "pa_increment_cycle_counter PA_SUSPENDED_CYCLE (if pa_write_result env \<noteq> 0 then pa_set_xrun s1 else s1) = Some s'"
    using s(4) c'(1) by (simp add: pa_increment_cycle_counter_def s'_def s1_def pa_set_xrun_def)
  have o1: "0 < pa_out_channels s1" using io(7) by (simp add: s1_def)
  have "pa_process_cached_round env cycles s = Some (s', cycles + 1, Suspended (Some ?z))"
    using io(5,6) assms(4) rd put sil wr inc o1 e(3-5) by (simp add: pa_process_cached_round_def Let_def pa_enough_def pa_maybe_continue_def)
  moreover have "pa_caps s' = pa_caps s"
    using f(2,4) s(1,4) rb_write_capacity [OF r'(1)] rb_write_capacity [OF c'(1)] by (simp add: pa_caps_def)
  then have "pa_fits n k s'" using b(4) by (simp add: pa_fits_def)
  moreover have "pa_cached n s' (q @ [?b]) (ts @ [PA_SUSPENDED_CYCLE])"
    using b(1) f r'(2,3) c'(2,3) s(3) by (simp add: pa_cached_def)
  moreover have "pa_ready s'" using b(5) f e(2) s(9) by (simp add: pa_ready_def)
  ultimately show ?thesis using that f(10,13) b(2,3) e(2) by (simp add: pa_backlog_def)
qed

text \<open>The cycles that are suspended among the iterations \<open>evs\<close>, when a cycle has \<open>f\<close> frames.\<close>

definition pa_suspended_inputs :: "nat \<Rightarrow> nat \<Rightarrow> (bool \<times> 's pa_round_env) list \<Rightarrow> u32 list list" where
  "pa_suspended_inputs n f evs = map (\<lambda>(r, env). pa_heard n env) (filter (\<lambda>(r, env). pa_enough f env) evs)"

lemma pa_gc_run:
  assumes "pa_backlog n k s q ts" and "backlog_ok k (length q) (map (\<lambda>(r, env). (r, pa_enough (frames_per_buffer s) env)) evs)"
    and "\<forall>(r, env) \<in> set evs. pa_suspended_cycle n env"
  shows "\<exists>s' xs' p q' ts'. pa_cached_rounds (map (pa_gc_iteration conv) evs) cycles (m, xs) s =
      Some ((m, xs @ xs'), s', cycles + length evs,
        replicate (length (pa_suspended_inputs n (frames_per_buffer s) evs)) (Some (replicate (pa_outbuf_samples s) 0))) \<and>
    pa_backlog n k s' q' ts' \<and> length q' \<le> k \<and> q @ pa_suspended_inputs n (frames_per_buffer s) evs = p @ q' \<and>
    list_all2 (pa_delivered conv n) p xs' \<and> frames_per_buffer s' = frames_per_buffer s"
  using assms
proof (induction evs arbitrary: s q ts cycles xs)
  case Nil
  then show ?case
    by (intro exI [of _ s] exI [of _ "[]"] exI [of _ "[]"] exI [of _ q] exI [of _ ts]) (simp add: pa_suspended_inputs_def)
next
  case (Cons ev evs)
  obtain r env where ev: "ev = (r, env)" by (cases ev)
  let ?f = "frames_per_buffer s" and ?z = "Some (replicate (pa_outbuf_samples s) (0 :: u32))"
  obtain s1 xs1 p1 q1 ts1 where b: "pa_beside (pa_gc_iteration conv ev) (m, xs) s = Some ((m, xs @ xs1), s1)" "pa_backlog n k s1 q1 ts1"
    "q = p1 @ q1" "list_all2 (pa_delivered conv n) p1 xs1" "length q1 = (if r then length q - 1 else length q)"
    "frames_per_buffer s1 = ?f" "pa_outbuf_samples s1 = pa_outbuf_samples s"
  proof (cases r)
    case True
    then have "r = True" by simp
    show ?thesis
      by (rule pa_recovers_step [OF Cons.prems(1), of conv m xs], rule that [unfolded ev pa_gc_iteration_fields \<open>r = True\<close> if_True])
  next
    case False
    then show ?thesis using that [of "[]" s q ts "[]"] Cons.prems(1) by (simp add: pa_gc_iteration_def ev)
  qed
  have sus: "pa_suspended_cycle n env" "\<forall>(r, env) \<in> set evs. pa_suspended_cycle n env" using Cons.prems(3) by (auto simp: ev)
  show ?case
  proof (cases "pa_enough ?f env")
    case True
    have w: "length q1 < k" "backlog_ok k (length q1 + 1) (map (\<lambda>(r, env). (r, pa_enough ?f env)) evs)"
      using Cons.prems(2) b(5) True by (auto simp: ev Let_def)
    have en: "pa_enough (frames_per_buffer s1) env" using True b(6) by simp
    obtain s2 where s: "pa_process_cached_round env cycles s1 = Some (s2, cycles + 1, Suspended ?z)"
      "pa_backlog n k s2 (q1 @ [pa_heard n env]) (ts1 @ [PA_SUSPENDED_CYCLE])" "frames_per_buffer s2 = ?f"
      "pa_outbuf_samples s2 = pa_outbuf_samples s"
      using pa_suspended_step [OF b(2) w(1) sus(1) en, of cycles] b(6,7) by metis
    have "backlog_ok k (length (q1 @ [pa_heard n env])) (map (\<lambda>(r, env). (r, pa_enough (frames_per_buffer s2) env)) evs)"
      using w(2) s(3) by simp
    from Cons.IH [OF s(2) this sus(2), of "cycles + 1" "xs @ xs1", unfolded s(3,4)] obtain s' xs' p q' ts' where
      t: "pa_cached_rounds (map (pa_gc_iteration conv) evs) (cycles + 1) (m, xs @ xs1) s2 =
        Some ((m, (xs @ xs1) @ xs'), s', cycles + 1 + length evs, replicate (length (pa_suspended_inputs n ?f evs)) ?z)"
      "pa_backlog n k s' q' ts'" "length q' \<le> k" "(q1 @ [pa_heard n env]) @ pa_suspended_inputs n ?f evs = p @ q'"
      "list_all2 (pa_delivered conv n) p xs'" "frames_per_buffer s' = ?f" by blast
    have i: "pa_suspended_inputs n ?f (ev # evs) = pa_heard n env # pa_suspended_inputs n ?f evs"
      using True by (simp add: pa_suspended_inputs_def ev)
    have "pa_cached_rounds (map (pa_gc_iteration conv) (ev # evs)) cycles (m, xs) s =
        Some ((m, xs @ xs1 @ xs'), s', cycles + length (ev # evs), replicate (length (pa_suspended_inputs n ?f (ev # evs))) ?z)"
      using b(1) s(1) t(1) i by (simp add: ev pa_gc_iteration_fields)
    moreover have "q @ pa_suspended_inputs n ?f (ev # evs) = (p1 @ p) @ q'" using b(3) t(4) i by simp
    moreover have "list_all2 (pa_delivered conv n) (p1 @ p) (xs1 @ xs')" using b(4) t(5) by (rule list_all2_appendI)
    ultimately show ?thesis using t(2,3,6) by blast
  next
    case False
    have w: "backlog_ok k (length q1) (map (\<lambda>(r, env). (r, pa_enough (frames_per_buffer s1) env)) evs)"
      using Cons.prems(2) b(5,6) False by (auto simp: ev Let_def)
    have "pa_open s1" using b(2) by (simp add: pa_backlog_def pa_ready_def)
    then have s: "pa_process_cached_round env cycles s1 = Some (s1, cycles + 1, Delay)"
      using False b(6) by (simp add: pa_process_cached_round_def Let_def pa_enough_def)
    from Cons.IH [OF b(2) w sus(2), of "cycles + 1" "xs @ xs1", unfolded b(6,7)] obtain s' xs' p q' ts' where
      t: "pa_cached_rounds (map (pa_gc_iteration conv) evs) (cycles + 1) (m, xs @ xs1) s1 =
        Some ((m, (xs @ xs1) @ xs'), s', cycles + 1 + length evs, replicate (length (pa_suspended_inputs n ?f evs)) ?z)"
      "pa_backlog n k s' q' ts'" "length q' \<le> k" "q1 @ pa_suspended_inputs n ?f evs = p @ q'"
      "list_all2 (pa_delivered conv n) p xs'" "frames_per_buffer s' = ?f" by blast
    have i: "pa_suspended_inputs n ?f (ev # evs) = pa_suspended_inputs n ?f evs" using False by (simp add: pa_suspended_inputs_def ev)
    have "pa_cached_rounds (map (pa_gc_iteration conv) (ev # evs)) cycles (m, xs) s =
        Some ((m, xs @ xs1 @ xs'), s', cycles + length (ev # evs), replicate (length (pa_suspended_inputs n ?f (ev # evs))) ?z)"
      using b(1) s(1) t(1) i by (simp add: ev pa_gc_iteration_fields)
    moreover have "q @ pa_suspended_inputs n ?f (ev # evs) = (p1 @ p) @ q'" using b(3) t(4) i by simp
    moreover have "list_all2 (pa_delivered conv n) (p1 @ p) (xs1 @ xs')" using b(4) t(5) by (rule list_all2_appendI)
    ultimately show ?thesis using t(2,3,6) by blast
  qed
qed

section \<open>The cycle that Lisp continues\<close>

lemma pa_continue_step:
  assumes "pa_backlog n k s [] []" and "0 < k" and "pa_enough (frames_per_buffer s) env" and "\<not> pa_busy1 env"
  obtains s' where "pa_process_cached_round env cycles s = Some (s', cycles + 1, Resume)" and "pa_is_last_cycle s' = Some True"
proof -
  have b: "pa_cached n s [] []" "pa_fits n k s" "pa_ready s" using assms(1) by (simp_all add: pa_backlog_def)
  have "pa_room s" using pa_fits_room [OF b(1) _ b(2)] assms(2) by simp
  then obtain c where c: "pa_cycle_counter s = Some c" "rb_ok c" "rb_contents c = []" "1 \<le> unat (rb_write_space c)"
    using b(1) by (auto simp: pa_cached_def pa_room_def split: option.splits)
  obtain c' where c': "rb_write c [PA_CONTINUE_LAST_CYCLE] 1 = Some (c', 1)" "rb_ok c'" "rb_contents c' = [PA_CONTINUE_LAST_CYCLE]"
    using rb_put [OF c(2,4), of "[PA_CONTINUE_LAST_CYCLE]"] c(3) by auto
  obtain s1 where s1: "pa_read (pa_read_result env) s = Some s1" "pa_cycle_counter s1 = Some c"
  proof -
    obtain xs where xs: "pa_inputs s = Some xs" "pa_open s" "pa_out_channels s \<noteq> 0" using b(3) by (auto simp: pa_ready_def)
    then show ?thesis
      using c(1) that [of "s\<lparr>pa_inputs := Some (fst (pa_read_result env xs))\<rparr>"]
      by (cases "pa_read_result env xs") (simp add: pa_read_def Let_def)
  qed
  have none: "\<not> pa_has_cached_inputs s1" using s1(2) c(2,3) by (simp add: pa_has_cached_inputs_def rb_empty_iff)
  have "1 \<le> rb_read_space c'" using rb.used_contents [OF c'(2)] c'(3) by (simp add: word_le_nat_alt)
  then have "rb_peek c' [0] 1 = Some ([PA_CONTINUE_LAST_CYCLE], 1)" using rb.peek_exact [OF c'(2), of 1 "[0]"] c'(3) by simp
  then have last: "pa_is_last_cycle (s1\<lparr>pa_cycle_counter := Some c'\<rparr>) = Some True"
    using c'(2,3) by (simp add: pa_is_last_cycle_def pa_has_cached_inputs_def rb_empty_iff)
  have "resume_lisp (cycles + 1) s1 = Some (s1\<lparr>pa_cycle_counter := Some c'\<rparr>)"
    using none s1(2) c'(1) by (simp add: resume_lisp_def pa_increment_cycle_counter_def)
  then have "pa_process_cached_round env cycles s = Some (s1\<lparr>pa_cycle_counter := Some c'\<rparr>, cycles + 1, Resume)"
    using assms(3,4) b(3) s1(1) none by (simp add: pa_process_cached_round_def Let_def pa_enough_def pa_ready_def pa_maybe_continue_def)
  then show ?thesis using that last by blast
qed

lemma pa_recover_cycles_backlog:
  "recover_cycles (\<lambda>s. Some (pa_has_cached_inputs s)) (pa_recover conv) j s = Some (s', xs) \<Longrightarrow> pa_ready s \<Longrightarrow> pa_caps s' = pa_caps s \<and> frames_per_buffer s' = frames_per_buffer s \<and> pa_ready s'"
proof (induction j arbitrary: s xs)
  case (Suc j)
  show ?case
  proof (cases "pa_has_cached_inputs s")
    case True
    then obtain s1 x ys where r: "pa_recover conv s = Some (s1, x)"
      "recover_cycles (\<lambda>s. Some (pa_has_cached_inputs s)) (pa_recover conv) j s1 = Some (s', ys)"
      using Suc.prems(1) by (auto split: bind_splits)
    note f = pa_recover_frame [OF r(1)]
    have "length (pa_lisp_input s1) = length (pa_lisp_input s)" by (rule pa_recover_length [OF r(1)])
    then have "pa_ready s1" using Suc.prems(2) f by (simp add: pa_ready_def)
    from Suc.IH [OF r(2) this] show ?thesis using f(1,3) by simp
  qed (use Suc.prems in simp)
qed simp

text \<open>
  C28. The PortAudio driver in a garbage collection of any length while Lisp recovers. The C thread starts; whenever PortAudio has a cycle ready it suspends the cycle and plays silence,
  otherwise it naps, while beside it the thread of Lisp is stopped or recovers cycles, and the cache has room for the cycles that wait at a time. Lisp gets every suspended
  cycle exactly once and in order: some while the thread runs (\<open>xs\<close>), the others (\<open>ys\<close>) from the rest of its loop, which ends with an empty cache. In the next cycle in which the flag
  is cleared the control goes to Lisp, which finds the cycle marked as the one to continue.
\<close>

theorem pa_gc_cycles_in_order:
  assumes "pa_cached n s q ts" and "length q = length ts" and "\<forall>b \<in> set q. length b = n" and "pa_fits n k s" and "0 < k" and "pa_ready s"
    and "backlog_ok k (length q) (map (\<lambda>(r, env). (r, pa_enough (frames_per_buffer s) env)) evs)"
    and "\<forall>(r, env) \<in> set evs. pa_suspended_cycle n env"
    and "pa_enough (frames_per_buffer s) final" and "\<not> pa_busy1 final"
  shows "\<exists>s' xs s2 ys s3.
    pa_process_thread_with_cached_inputs 0 (map (pa_gc_iteration conv) evs) (m, []) s =
      Some ((m, xs), s', length evs,
        replicate (length (pa_suspended_inputs n (frames_per_buffer s) evs)) (Some (replicate (pa_outbuf_samples s) 0))) \<and>
    recover_cycles (\<lambda>s. Some (pa_has_cached_inputs s)) (pa_recover conv) (k + 1) s' = Some (s2, ys) \<and>
    list_all2 (pa_delivered conv n) (q @ pa_suspended_inputs n (frames_per_buffer s) evs) (xs @ ys) \<and> \<not> pa_has_cached_inputs s2 \<and>
    pa_process_cached_round final (length evs) s2 = Some (s3, length evs + 1, Resume) \<and> pa_is_last_cycle s3 = Some True"
proof -
  let ?s = "s\<lparr>pa_status := PA_RUNNING, pa_proc_thread := PA_RUNNING\<rparr>"
  have "pa_backlog n k ?s q ts" using assms(1-4,6) by (simp add: pa_backlog_def pa_cached_def pa_fits_def pa_caps_def pa_ready_def)
  from pa_gc_run [OF this _ assms(8), of conv 0 m "[]", unfolded append_Nil] assms(7) obtain s' xs p q' ts' where
    t: "pa_cached_rounds (map (pa_gc_iteration conv) evs) 0 (m, []) ?s = Some ((m, xs), s', length evs,
        replicate (length (pa_suspended_inputs n (frames_per_buffer s) evs)) (Some (replicate (pa_outbuf_samples s) 0)))"
    "pa_backlog n k s' q' ts'" "length q' \<le> k" "q @ pa_suspended_inputs n (frames_per_buffer s) evs = p @ q'"
    "list_all2 (pa_delivered conv n) p xs" "frames_per_buffer s' = frames_per_buffer s" by auto
  have b: "pa_cached n s' q' ts'" "length q' = length ts'" "\<forall>b \<in> set q'. length b = n" "pa_fits n k s'" "pa_ready s'"
    using t(2) by (simp_all add: pa_backlog_def)
  obtain s2 ys where r: "recover_cycles (\<lambda>s. Some (pa_has_cached_inputs s)) (pa_recover conv) (k + 1) s' = Some (s2, ys)"
    "pa_cached n s2 [] []" "list_all2 (pa_delivered conv n) q' ys"
    using pc.recover_all [OF b(1-3), of "k + 1" conv] t(3) by auto
  have f: "pa_caps s2 = pa_caps s'" "frames_per_buffer s2 = frames_per_buffer s'" "pa_ready s2"
    using pa_recover_cycles_backlog [OF r(1) b(5)] by simp_all
  then have bl: "pa_backlog n k s2 [] []" using r(2) b(4) by (simp add: pa_backlog_def pa_fits_def)
  have en: "pa_enough (frames_per_buffer s2) final" using assms(9) f(2) t(6) by simp
  obtain s3 where "pa_process_cached_round final (length evs) s2 = Some (s3, length evs + 1, Resume)" "pa_is_last_cycle s3 = Some True"
    by (rule pa_continue_step [OF bl assms(5) en assms(10)])
  moreover have "list_all2 (pa_delivered conv n) (q @ pa_suspended_inputs n (frames_per_buffer s) evs) (xs @ ys)"
    unfolding t(4) using t(5) r(3) by (rule list_all2_appendI)
  moreover have "\<not> pa_has_cached_inputs s2" using pc.cached_law [OF r(2)] by simp
  moreover have "pa_process_thread_with_cached_inputs 0 (map (pa_gc_iteration conv) evs) (m, []) s =
      Some ((m, xs), s', length evs,
        replicate (length (pa_suspended_inputs n (frames_per_buffer s) evs)) (Some (replicate (pa_outbuf_samples s) 0)))"
    using t(1) by (simp add: pa_process_thread_with_cached_inputs_def pa_thread_start_def)
  ultimately show ?thesis using r(1) by blast
qed

definition pa_gc_round :: "u32 pa_round_env" where
  "pa_gc_round = \<lparr>available = 2, pa_read_result = (\<lambda>_. ([1, 2], 0)), pa_write_result = 0, pa_now = 0, pa_busy1 = True, pa_busy2 = True, pa_busy3 = True\<rparr>"

text \<open>A cache with room for one cycle: two cycles with a nap between them, and Lisp recovers the first cycle before the second one.\<close>

theorem pa_gc_cycles_in_order_witness:
  "\<exists>s' xs s2 ys s3.
    pa_process_thread_with_cached_inputs 0
        (map (pa_gc_iteration id) [(False, pa_gc_round), (False, pa_gc_round\<lparr>available := 1\<rparr>), (True, pa_gc_round)]) ((), []) pa_example =
      Some (((), xs), s', 3, [Some [0, 0, 0, 0], Some [0, 0, 0, 0]]) \<and>
    recover_cycles (\<lambda>s. Some (pa_has_cached_inputs s)) (pa_recover id) 2 s' = Some (s2, ys) \<and>
    list_all2 (pa_delivered id 2) [[1, 2], [1, 2]] (xs @ ys) \<and> \<not> pa_has_cached_inputs s2 \<and>
    pa_process_cached_round (pa_gc_round\<lparr>pa_busy1 := False\<rparr>) 3 s2 = Some (s3, 4, Resume) \<and> pa_is_last_cycle s3 = Some True"
proof -
  let ?evs = "[(False, pa_gc_round), (False, pa_gc_round\<lparr>available := 1\<rparr>), (True, pa_gc_round)]"
  have f: "frames_per_buffer pa_example = 2" "pa_outbuf_samples pa_example = 4" by (simp_all add: pa_example_def Let_def)
  have fit: "pa_fits 2 1 pa_example" by (simp add: pa_fits_def pa_caps_def pa_example_def Let_def rb_capacity_def)
  have ready: "pa_ready pa_example" by (simp add: pa_ready_def pa_example_def Let_def)
  have en: "pa_enough 2 pa_gc_round" "pa_enough 2 (pa_gc_round\<lparr>pa_busy1 := False\<rparr>)" "\<not> pa_enough 2 (pa_gc_round\<lparr>available := 1\<rparr>)"
    by (simp_all add: pa_enough_def not_enough_def pa_gc_round_def)
  have h: "pa_heard 2 pa_gc_round = [1, 2]" by (simp add: pa_heard_def pa_gc_round_def)
  have "pa_suspended_cycle 2 pa_gc_round" "pa_suspended_cycle 2 (pa_gc_round\<lparr>available := 1\<rparr>)"
    by (simp_all add: pa_suspended_cycle_def pa_heard_def pa_gc_round_def)
  then have c: "\<forall>(r, env) \<in> set ?evs. pa_suspended_cycle 2 env" by simp
  have i: "[] @ pa_suspended_inputs 2 2 ?evs = [[1, 2], [1, 2]]" using en h by (simp add: pa_suspended_inputs_def)
  have i': "pa_suspended_inputs 2 2 ?evs = [[1, 2], [1, 2]]" using i by simp
  have run: "\<exists>s' xs s2 ys s3.
    pa_process_thread_with_cached_inputs 0 (map (pa_gc_iteration id) ?evs) ((), []) pa_example =
      Some (((), xs), s', length ?evs,
        replicate (length (pa_suspended_inputs 2 (frames_per_buffer pa_example) ?evs)) (Some (replicate (pa_outbuf_samples pa_example) 0))) \<and>
    recover_cycles (\<lambda>s. Some (pa_has_cached_inputs s)) (pa_recover id) (1 + 1) s' = Some (s2, ys) \<and>
    list_all2 (pa_delivered id 2) ([] @ pa_suspended_inputs 2 (frames_per_buffer pa_example) ?evs) (xs @ ys) \<and> \<not> pa_has_cached_inputs s2 \<and>
    pa_process_cached_round (pa_gc_round\<lparr>pa_busy1 := False\<rparr>) (length ?evs) s2 = Some (s3, length ?evs + 1, Resume) \<and>
    pa_is_last_cycle s3 = Some True"
    by (rule pa_gc_cycles_in_order [OF pa_example_cached(1) _ _ fit _ ready _ c]) (simp_all add: f en)
  have r: "replicate (length [[1, 2], [1, 2 :: u32]]) (Some (replicate 4 (0 :: u32))) = [Some [0, 0, 0, 0], Some [0, 0, 0, 0]]"
    by (simp add: numeral_eq_Suc)
  have l: "length ?evs = 3" "(3 :: nat) + 1 = 4" by simp_all
  show ?thesis by (rule run [unfolded f i' append_Nil r l one_add_one])
qed

end
