(* ===== verification/SoundFile.thy ===== *)
theory SoundFile
  imports Prelude Complex_Main
begin

text \<open>
  The small services of \<^verbatim>\<open>src/src/util.c\<close>: reading a sound file into a buffer in chunks, with or without a map of channels (lines 98
  to 158), zeroed memory, the tempo grid and the priority of a thread (lines 51 to 92), the handler of SIGTSTP (lines 478 to 505).
  \<open>readf n f\<close> is \<^verbatim>\<open>sf_readf_SAMPLE\<close>: the samples that are read and the new state of the file.
\<close>

section \<open>Reading a file\<close>

text \<open>
  \<open>sf_loop\<close> is the loop of \<^verbatim>\<open>sndfile_to_buffer\<close>; \<open>p\<close> is the index of the pointer. The number of frames read is subtracted
  from a signed number, so more than \<open>remain\<close> ends the loop too.
\<close>

function sf_loop ::
  "(nat \<Rightarrow> 'f \<Rightarrow> 's list \<times> 'f) \<Rightarrow> nat \<Rightarrow> nat \<Rightarrow> 's list \<Rightarrow> 'f \<Rightarrow> nat \<Rightarrow> nat \<Rightarrow> nat \<Rightarrow> ('s list \<times> 'f) option" where
  "sf_loop readf channels incr buf file p remain chunk =
     (if remain = 0 then Some (buf, file)
      else let (xs, file) = readf chunk file; n = length xs div channels in
        if n = 0 then Some (buf, file)
        else do {
          buf \<leftarrow> memcpy buf p xs 0 (length xs);
          sf_loop readf channels incr buf file (p + incr) (remain - n) (min chunk (remain - n))
        })"
  by pat_completeness auto
termination by (relation "measure (\<lambda>(readf, channels, incr, buf, file, p, remain, chunk). remain)") auto

declare sf_loop.simps [simp del]

definition sndfile_to_buffer ::
  "(nat \<Rightarrow> 'f \<Rightarrow> 's list \<times> 'f) \<Rightarrow> 's list \<Rightarrow> 'f \<Rightarrow> nat \<Rightarrow> nat \<Rightarrow> nat \<Rightarrow> nat \<Rightarrow> ('s list \<times> 'f) option" where
  "sndfile_to_buffer readf buf file frames channels buf_offset chunk_frames =
     (let chunk = min chunk_frames frames in
      sf_loop readf channels (chunk * channels) buf file (buf_offset * channels) frames chunk)"

text \<open>
  The copy of one frame and of a chunk through the channel map; \<open>c\<close> and \<open>p\<close> are indices. \<open>n\<close> is the number of rounds of the
  outer loop, which counts samples in steps of the channels.
\<close>

fun map_frame :: "nat list \<Rightarrow> nat list \<Rightarrow> 's list \<Rightarrow> nat \<Rightarrow> 's list \<Rightarrow> nat \<Rightarrow> 's list option" where
  "map_frame (d # dest) (s # src) q c buf p = do {
     x \<leftarrow> load q (c + s);
     buf \<leftarrow> store buf (p + d) x;
     map_frame dest src q c buf p
   }"
| "map_frame dest src q c buf p = Some buf"

fun map_frames ::
  "nat list \<Rightarrow> nat list \<Rightarrow> nat \<Rightarrow> nat \<Rightarrow> 's list \<Rightarrow> nat \<Rightarrow> nat \<Rightarrow> 's list \<Rightarrow> nat \<Rightarrow> ('s list \<times> nat) option" where
  "map_frames dest src channels buf_channels q 0 c buf p = Some (buf, p)"
| "map_frames dest src channels buf_channels q (Suc n) c buf p = do {
     buf \<leftarrow> map_frame dest src q c buf p;
     map_frames dest src channels buf_channels q n (c + channels) buf (p + buf_channels)
   }"

text \<open>
  The whole chunk of \<open>chunk\<close> frames is copied after each read, whatever the number of frames read.
\<close>

function map_loop ::
  "(nat \<Rightarrow> 'f \<Rightarrow> 's list \<times> 'f) \<Rightarrow> nat list \<Rightarrow> nat list \<Rightarrow> nat \<Rightarrow> nat \<Rightarrow> 's list \<Rightarrow> 's list \<Rightarrow> 'f \<Rightarrow> nat \<Rightarrow> nat \<Rightarrow> nat
     \<Rightarrow> ('s list \<times> 'f) option" where
  "map_loop readf dest src channels buf_channels q buf file p remain chunk =
     (if remain = 0 then Some (buf, file)
      else let (xs, file) = readf chunk file; n = length xs div channels in
        if n = 0 then Some (buf, file)
        else do {
          q \<leftarrow> memcpy q 0 xs 0 (length xs);
          (buf, p) \<leftarrow> map_frames dest src channels buf_channels q chunk 0 buf p;
          map_loop readf dest src channels buf_channels q buf file p (remain - n) (min chunk (remain - n))
        })"
  by pat_completeness auto
termination by (relation "measure (\<lambda>(readf, dest, src, channels, buf_channels, q, buf, file, p, remain, chunk). remain)") auto

declare map_loop.simps [simp del]

text \<open>
  \<open>malloc\<close> gives the temporary block and never null here, although the code uses the result without a test. The products of the
  number of frames in a chunk and the channels are of type \<^verbatim>\<open>int\<close> in the code and exact here, which is the same below \<open>2 ^ 31\<close>.
\<close>

definition map_sndfile_ch_to_buffer ::
  "(nat \<Rightarrow> 'f \<Rightarrow> 's list \<times> 'f) \<Rightarrow> (nat \<Rightarrow> 's list) \<Rightarrow> 's list \<Rightarrow> 'f \<Rightarrow> nat \<Rightarrow> nat \<Rightarrow> nat \<Rightarrow> nat \<Rightarrow> nat \<Rightarrow> nat list \<Rightarrow> nat list
     \<Rightarrow> ('s list \<times> 'f) option" where
  "map_sndfile_ch_to_buffer readf malloc buf file frames channels buf_channels buf_offset chunk_frames dest src =
     (let chunk = min chunk_frames frames in
      map_loop readf dest src channels buf_channels (malloc (chunk * channels)) buf file (buf_offset * buf_channels) frames chunk)"

section \<open>Memory, tempo, priority, signals\<close>

definition foreign_alloc_sample :: "(nat \<Rightarrow> 's::zero list option) \<Rightarrow> nat \<Rightarrow> 's list option option" where
  "foreign_alloc_sample malloc n =
     (case malloc n of None \<Rightarrow> Some None | Some p \<Rightarrow> do { p \<leftarrow> memset p 0 0 n; Some (Some p) })"

definition foreign_zero_sample :: "'s::zero list \<Rightarrow> nat \<Rightarrow> 's list option" where
  "foreign_zero_sample p n = memset p 0 0 n"

definition fmod :: "real \<Rightarrow> real \<Rightarrow> real" where
  "fmod x y = x - of_int (if 0 \<le> x / y then \<lfloor>x / y\<rfloor> else \<lceil>x / y\<rceil>) * y"

definition tempo_sync :: "real \<Rightarrow> real \<Rightarrow> real" where
  "tempo_sync now period = now + period - fmod now period"

text \<open>The priority that is set, for the bounds of the scheduling policy.\<close>

definition pthread_set_priority :: "int \<Rightarrow> int \<Rightarrow> int \<Rightarrow> int" where
  "pthread_set_priority minprio maxprio priority =
     (if priority < minprio then minprio else if maxprio < priority then maxprio else priority)"

text \<open>
  The handler of SIGTSTP and the saved one, \<open>None\<close> for \<^verbatim>\<open>SIG_IGN\<close>; \<open>ok\<close> tells whether \<^verbatim>\<open>sigaction\<close> succeeds.
\<close>

record 'h sigtstp =
  handler :: "'h option"
  oldact :: "'h option"

definition ignore_sigtstp :: "bool \<Rightarrow> 'h sigtstp \<Rightarrow> 'h sigtstp \<times> int" where
  "ignore_sigtstp ok s =
     (if handler s \<noteq> None
      then if ok then (s\<lparr>oldact := handler s, handler := None\<rparr>, 0) else (s, - 1)
      else (s, 0))"

definition reset_sigtstp_handler :: "bool \<Rightarrow> 'h sigtstp \<Rightarrow> 'h sigtstp \<times> int" where
  "reset_sigtstp_handler ok s =
     (if handler s = None \<and> oldact s \<noteq> None
      then if ok then (s\<lparr>handler := oldact s\<rparr>, 0) else (s, - 1)
      else (s, 0))"

section \<open>What the readers promise\<close>

text \<open>
  The documented behaviour of libsndfile: a call reads the next \<open>n\<close> frames, or those that are left; \<open>contents f\<close> are the interleaved samples
  that are left.
\<close>

definition sf_reads :: "(nat \<Rightarrow> 'f \<Rightarrow> 's list \<times> 'f) \<Rightarrow> nat \<Rightarrow> ('f \<Rightarrow> 's list) \<Rightarrow> bool" where
  "sf_reads readf channels contents \<longleftrightarrow>
     (\<forall>n f. fst (readf n f) = take (n * channels) (contents f) \<and> contents (snd (readf n f)) = drop (n * channels) (contents f))"

lemma sf_readE:
  assumes "sf_reads readf channels contents"
  obtains f' where "readf n f = (take (n * channels) (contents f), f')" "contents f' = drop (n * channels) (contents f)"
  using assms that unfolding sf_reads_def by (metis prod.collapse)

lemma sf_loop_eof:
  assumes "sf_reads readf channels contents" and "contents f = []"
  shows "\<exists>f'. sf_loop readf channels incr buf f p remain chunk = Some (buf, f') \<and> contents f' = []"
proof -
  obtain f' where "readf chunk f = (take (chunk * channels) (contents f), f')" "contents f' = drop (chunk * channels) (contents f)"
    by (rule sf_readE [OF assms(1)])
  then show ?thesis using assms(2) by (subst sf_loop.simps) simp
qed

lemma memcpy_all: "p + length xs \<le> length buf \<Longrightarrow> memcpy buf p xs 0 (length xs) = Some (take p buf @ xs @ drop (p + length xs) buf)"
  by (simp add: mem_simps)

lemma sf_loop_spec:
  assumes "sf_reads readf channels contents" and "0 < channels" and "channels dvd length (contents f)" and "0 < c0"
    and "chunk = min c0 remain" and "p + remain * channels \<le> length buf"
  shows "\<exists>f'. sf_loop readf channels (c0 * channels) buf f p remain chunk =
      Some (take p buf @ take (remain * channels) (contents f) @
        drop (p + length (take (remain * channels) (contents f))) buf, f') \<and>
    contents f' = drop (remain * channels) (contents f)"
  using assms(3,5,6)
proof (induction remain arbitrary: buf f p chunk rule: less_induct)
  case (less remain)
  show ?case
  proof (cases "remain = 0")
    case True
    then show ?thesis by (subst sf_loop.simps) simp
  next
    case False
    obtain m where m: "length (contents f) = m * channels" using less.prems(1) by (metis dvdE mult.commute)
    obtain f1 where f1: "readf chunk f = (take (chunk * channels) (contents f), f1)"
      "contents f1 = drop (chunk * channels) (contents f)" by (rule sf_readE [OF assms(1)])
    let ?xs = "take (chunk * channels) (contents f)"
    let ?buf = "take p buf @ ?xs @ drop (p + length ?xs) buf"
    have len: "length ?xs = min chunk m * channels" using m by (simp add: nat_mult_min_left min.commute)
    then have n: "length ?xs div channels = min chunk m" using assms(2) by simp
    have chunk: "0 < chunk" "chunk \<le> remain" using less.prems(2) False assms(4) by simp_all
    have fits: "p + length ?xs \<le> length buf"
    proof -
      have "length ?xs \<le> remain * channels" unfolding len using chunk(2) by (intro mult_right_mono) simp_all
      then show ?thesis using less.prems(3) by simp
    qed
    have loop: "sf_loop readf channels (c0 * channels) buf f p remain chunk =
        (if min chunk m = 0 then Some (buf, f1)
         else sf_loop readf channels (c0 * channels) ?buf f1 (p + c0 * channels) (remain - min chunk m)
           (min chunk (remain - min chunk m)))"
    proof -
      obtain j xs where j: "j = min chunk m" "xs = ?xs" by blast
      then have "readf chunk f = (xs, f1)" "length xs div channels = j"
        "memcpy buf p xs 0 (length xs) = Some (take p buf @ xs @ drop (p + length xs) buf)"
        using f1(1) n memcpy_all [OF fits] by simp_all
      then have "sf_loop readf channels (c0 * channels) buf f p remain chunk =
          (if j = 0 then Some (buf, f1)
           else sf_loop readf channels (c0 * channels) (take p buf @ xs @ drop (p + length xs) buf) f1 (p + c0 * channels) (remain - j)
             (min chunk (remain - j)))"
        using False by (subst sf_loop.simps) (simp add: Let_def)
      then show ?thesis unfolding j .
    qed
    consider "m = 0" | "0 < m" "m < chunk" | "chunk \<le> m" "chunk = remain" | "chunk \<le> m" "chunk = c0" "c0 < remain"
      using less.prems(2) by linarith
    then show ?thesis
    proof cases
      case 1
      then show ?thesis using loop m f1(2) by simp
    next
      case 2
      then have "contents f1 = []" using f1(2) m by simp
      from sf_loop_eof [OF assms(1) this] obtain f' where
        "sf_loop readf channels (c0 * channels) ?buf f1 (p + c0 * channels) (remain - min chunk m) (min chunk (remain - min chunk m)) =
           Some (?buf, f')" "contents f' = []" by blast
      moreover have "m * channels \<le> chunk * channels" "m * channels \<le> remain * channels" using 2 chunk(2) by simp_all
      ultimately show ?thesis using loop 2 m by simp
    next
      case 3
      then have "sf_loop readf channels (c0 * channels) buf f p remain chunk = Some (?buf, f1)"
        using loop chunk(1) by (subst (asm) (2) sf_loop.simps) simp
      then show ?thesis using 3 f1(2) by simp
    next
      case 4
      have less': "remain - c0 < remain" "channels dvd length (contents f1)" "p + c0 * channels + (remain - c0) * channels \<le> length ?buf"
        using less.prems(3) fits 4 f1(2) m assms(4) by (simp_all add: diff_mult_distrib dvd_diff_nat)
      from less.IH [OF less'(1,2) refl less'(3)] obtain f' where
        f': "sf_loop readf channels (c0 * channels) ?buf f1 (p + c0 * channels) (remain - c0) (min c0 (remain - c0)) =
          Some (take (p + c0 * channels) ?buf @ take ((remain - c0) * channels) (contents f1) @
            drop (p + c0 * channels + length (take ((remain - c0) * channels) (contents f1))) ?buf, f')"
        "contents f' = drop ((remain - c0) * channels) (contents f1)" by blast
      have lx: "length ?xs = c0 * channels" using len 4 by simp
      have sum: "c0 * channels + (remain - c0) * channels = remain * channels" using 4 by (simp add: diff_mult_distrib)
      have data: "take (remain * channels) (contents f) = ?xs @ take ((remain - c0) * channels) (contents f1)"
        unfolding f1(2) sum [symmetric] take_add using 4 by simp
      have "take (p + c0 * channels) ?buf = take p buf @ ?xs" using lx fits 4(2) by simp
      moreover have "drop (p + c0 * channels + k) ?buf = drop (p + c0 * channels + k) buf" for k
        using lx fits 4(2) by (simp add: add.commute add.left_commute)
      ultimately have "sf_loop readf channels (c0 * channels) buf f p remain chunk =
          Some (take p buf @ take (remain * channels) (contents f) @
            drop (p + length (take (remain * channels) (contents f))) buf, f')"
        using loop f'(1) 4 lx assms(4) unfolding data by (simp add: min_def add.assoc)
      moreover have "contents f' = drop (remain * channels) (contents f)"
        using f'(2) f1(2) 4 sum by (simp add: add.commute)
      ultimately show ?thesis by blast
    qed
  qed
qed

text \<open>
  C31. Reading \<open>frames\<close> frames in chunks of any size puts the next frames of the file, as many as there are, to the offset of the buffer, changes
  nothing else and leaves the file behind them; no access is out of the buffer.
\<close>

theorem sndfile_to_buffer_correct:
  assumes "sf_reads readf channels contents" and "0 < channels" and "channels dvd length (contents file)" and "0 < chunk_frames"
    and "(buf_offset + frames) * channels \<le> length buf" and "data = take (frames * channels) (contents file)"
  shows "\<exists>file'. sndfile_to_buffer readf buf file frames channels buf_offset chunk_frames =
      Some (take (buf_offset * channels) buf @ data @ drop (buf_offset * channels + length data) buf, file') \<and>
    contents file' = drop (frames * channels) (contents file)"
proof (cases "frames = 0")
  case True
  then show ?thesis using assms(6) by (simp add: sndfile_to_buffer_def sf_loop.simps)
next
  case False
  have "buf_offset * channels + frames * channels \<le> length buf" using assms(5) by (simp add: distrib_right)
  with False show ?thesis
    using sf_loop_spec [OF assms(1-3), of "min chunk_frames frames" "min chunk_frames frames" frames "buf_offset * channels" buf]
      assms(4,6) by (simp add: sndfile_to_buffer_def Let_def)
qed

definition list_readf :: "nat \<Rightarrow> nat \<Rightarrow> 's list \<Rightarrow> 's list \<times> 's list" where
  "list_readf channels n xs = (take (n * channels) xs, drop (n * channels) xs)"

lemma list_readf_reads: "sf_reads (list_readf c) c (\<lambda>f. f)"
  by (simp add: sf_reads_def list_readf_def)

theorem sndfile_to_buffer_correct_witness:
  "\<exists>file'. sndfile_to_buffer (list_readf 2) (replicate 10 (0 :: nat)) [1, 2, 3, 4, 5, 6, 7, 8] 3 2 1 2 =
     Some ([0, 0, 1, 2, 3, 4, 5, 6, 0, 0], file')"
proof -
  have "\<exists>file'. sndfile_to_buffer (list_readf 2) (replicate 10 (0 :: nat)) [1, 2, 3, 4, 5, 6, 7, 8] 3 2 1 2 =
      Some (take (1 * 2) (replicate 10 0) @ [1, 2, 3, 4, 5, 6] @ drop (1 * 2 + length [1, 2, 3, 4, 5, 6 :: nat]) (replicate 10 0), file') \<and>
    file' = drop (3 * 2) [1, 2, 3, 4, 5, 6, 7, 8]"
    by (rule sndfile_to_buffer_correct [OF list_readf_reads]) simp_all
  moreover have "replicate 10 (0 :: nat) = [0, 0, 0, 0, 0, 0, 0, 0, 0, 0]" by (simp add: numeral_eq_Suc)
  ultimately show ?thesis by simp
qed

section \<open>Reading through a channel map\<close>

lemma map_frame_spec:
  assumes "length dest = length src" and "distinct dest" and "\<forall>d \<in> set dest. p + d < length buf" and "\<forall>s \<in> set src. c + s < length q"
  shows "\<exists>buf'. map_frame dest src q c buf p = Some buf' \<and> length buf' = length buf \<and>
    (\<forall>k < length dest. buf' ! (p + dest ! k) = q ! (c + src ! k)) \<and> (\<forall>i. (\<forall>d \<in> set dest. i \<noteq> p + d) \<longrightarrow> buf' ! i = buf ! i)"
  using assms
proof (induction dest src arbitrary: buf rule: list_induct2')
  case (4 d ds s ss)
  let ?buf = "buf[p + d := q ! (c + s)]"
  have "\<exists>buf'. map_frame ds ss q c ?buf p = Some buf' \<and> length buf' = length ?buf \<and>
    (\<forall>k < length ds. buf' ! (p + ds ! k) = q ! (c + ss ! k)) \<and> (\<forall>i. (\<forall>d \<in> set ds. i \<noteq> p + d) \<longrightarrow> buf' ! i = ?buf ! i)"
    by (rule "4.IH") (use "4.prems" in auto)
  then obtain buf' where r: "map_frame ds ss q c ?buf p = Some buf'" "length buf' = length ?buf"
    "\<forall>k < length ds. buf' ! (p + ds ! k) = q ! (c + ss ! k)" "\<forall>i. (\<forall>d \<in> set ds. i \<noteq> p + d) \<longrightarrow> buf' ! i = ?buf ! i" by blast
  have "\<forall>e \<in> set ds. p + d \<noteq> p + e" using "4.prems"(2) by auto
  then have "buf' ! (p + d) = q ! (c + s)" using r(4) "4.prems"(3) by auto
  then have "\<forall>k < length (d # ds). buf' ! (p + (d # ds) ! k) = q ! (c + (s # ss) ! k)" using r(3) by (auto simp: nth_Cons split: nat.split)
  moreover have "\<forall>i. (\<forall>e \<in> set (d # ds). i \<noteq> p + e) \<longrightarrow> buf' ! i = buf ! i" using r(4) by auto
  ultimately show ?case using r(1,2) "4.prems" by (simp add: mem_simps)
qed auto

text \<open>
  \<open>mapped dest src ch bch q buf0 buf' c p n\<close>: \<open>buf'\<close> is \<open>buf0\<close> with \<open>n\<close> frames of \<open>q\<close> from \<open>c\<close> on at the frames from \<open>p\<close> on.
\<close>

definition mapped :: "nat list \<Rightarrow> nat list \<Rightarrow> nat \<Rightarrow> nat \<Rightarrow> (nat \<Rightarrow> 's) \<Rightarrow> 's list \<Rightarrow> 's list \<Rightarrow> nat \<Rightarrow> nat \<Rightarrow> bool" where
  "mapped dest src ch bch q buf buf' p n \<longleftrightarrow> length buf' = length buf \<and>
     (\<forall>t < n. \<forall>k < length dest. buf' ! (p + t * bch + dest ! k) = q (t * ch + src ! k)) \<and>
     (\<forall>i. (\<forall>t < n. \<forall>d \<in> set dest. i \<noteq> p + t * bch + d) \<longrightarrow> buf' ! i = buf ! i)"

lemma mapped_0: "mapped dest src ch bch q buf buf p 0"
  by (simp add: mapped_def)

lemma frame_apart: "d < b \<Longrightarrow> e < b \<Longrightarrow> t < n \<Longrightarrow> (p :: nat) + t * b + d \<noteq> p + n * b + e"
proof -
  assume a: "d < b" "e < b" "t < n"
  have "t * b + d < Suc t * b" using a(1) by simp
  also have "\<dots> \<le> n * b" using a(3) by (intro mult_right_mono) simp_all
  finally show ?thesis by simp
qed

text \<open>The two ranges of frames are different places because every destination channel is below the buffer's channels.\<close>

lemma mapped_append:
  assumes "mapped dest src ch bch q buf buf1 p n" and "mapped dest src ch bch (\<lambda>i. q (n * ch + i)) buf1 buf2 (p + n * bch) m"
    and "\<forall>d \<in> set dest. d < bch"
  shows "mapped dest src ch bch q buf buf2 p (n + m)"
proof -
  have old: "buf2 ! (p + t * bch + dest ! k) = buf1 ! (p + t * bch + dest ! k)" if "t < n" "k < length dest" for t k
  proof -
    have "p + t * bch + dest ! k \<noteq> p + n * bch + u * bch + d" if "d \<in> set dest" for u d
      using frame_apart [of "dest ! k" bch d t "n + u" p] assms(3) \<open>t < n\<close> \<open>k < length dest\<close> that by (simp add: distrib_right add.assoc)
    then show ?thesis using assms(2) by (simp add: mapped_def)
  qed
  have "buf2 ! (p + t * bch + dest ! k) = q (t * ch + src ! k)" if "t < n + m" "k < length dest" for t k
  proof (cases "t < n")
    case True
    then show ?thesis using old [OF True that(2)] assms(1) that(2) by (simp add: mapped_def)
  next
    case False
    define u where "u = t - n"
    have u: "t = n + u" "u < m" using False that(1) by (simp_all add: u_def)
    then have "buf2 ! (p + n * bch + u * bch + dest ! k) = q (n * ch + (u * ch + src ! k))"
      using assms(2) that(2) by (simp add: mapped_def)
    then show ?thesis using u(1) by (simp add: distrib_right add.assoc)
  qed
  moreover have "buf2 ! i = buf ! i" if "\<forall>t < n + m. \<forall>d \<in> set dest. i \<noteq> p + t * bch + d" for i
  proof -
    have "i \<noteq> p + n * bch + t * bch + d" if "t < m" "d \<in> set dest" for t d
    proof -
      have "n + t < n + m" using \<open>t < m\<close> by simp
      then have "i \<noteq> p + (n + t) * bch + d" using \<open>\<forall>t < n + m. _\<close> that(2) by blast
      then show ?thesis by (simp add: distrib_right add.assoc)
    qed
    moreover have "\<forall>t < n. \<forall>d \<in> set dest. i \<noteq> p + t * bch + d" using that by simp
    ultimately show ?thesis using assms(1,2) by (simp add: mapped_def)
  qed
  ultimately show ?thesis using assms(1,2) by (simp add: mapped_def)
qed

lemma mapped_cong:
  assumes "mapped dest src ch bch q buf buf' p n" and "\<And>i. i < n * ch \<Longrightarrow> q i = q' i" and "length dest = length src"
    and "\<forall>s \<in> set src. s < ch"
  shows "mapped dest src ch bch q' buf buf' p n"
proof -
  have "q (t * ch + src ! k) = q' (t * ch + src ! k)" if "t < n" "k < length dest" for t k
  proof (rule assms(2))
    have "src ! k < ch" using assms(3,4) that(2) by simp
    then have "t * ch + src ! k < Suc t * ch" by simp
    also have "\<dots> \<le> n * ch" using that(1) by (intro mult_right_mono) simp_all
    finally show "t * ch + src ! k < n * ch" .
  qed
  then show ?thesis using assms(1) by (simp add: mapped_def)
qed

lemma map_frames_spec:
  assumes "length dest = length src" and "distinct dest" and "\<forall>d \<in> set dest. d < bch" and "\<forall>s \<in> set src. s < ch"
    and "p + n * bch \<le> length buf" and "c + n * ch \<le> length q"
  shows "\<exists>buf'. map_frames dest src ch bch q n c buf p = Some (buf', p + n * bch) \<and>
    mapped dest src ch bch (\<lambda>i. q ! (c + i)) buf buf' p n"
  using assms(5,6)
proof (induction n arbitrary: c buf p)
  case 0
  then show ?case by (simp add: mapped_0)
next
  case (Suc n)
  have "\<exists>buf1. map_frame dest src q c buf p = Some buf1 \<and> length buf1 = length buf \<and>
    (\<forall>k < length dest. buf1 ! (p + dest ! k) = q ! (c + src ! k)) \<and> (\<forall>i. (\<forall>d \<in> set dest. i \<noteq> p + d) \<longrightarrow> buf1 ! i = buf ! i)"
    by (rule map_frame_spec [OF assms(1,2)]) (use assms(3,4) Suc.prems in fastforce)+
  then obtain buf1 where b1: "map_frame dest src q c buf p = Some buf1" "length buf1 = length buf"
    "mapped dest src ch bch (\<lambda>i. q ! (c + i)) buf buf1 p 1" by (auto simp: mapped_def)
  obtain buf2 where b2: "map_frames dest src ch bch q n (c + ch) buf1 (p + bch) = Some (buf2, p + bch + n * bch)"
    "mapped dest src ch bch (\<lambda>i. q ! (c + ch + i)) buf1 buf2 (p + bch) n"
    using Suc.IH [of "p + bch" buf1 "c + ch"] Suc.prems b1(2) by (auto simp: add.assoc)
  have "mapped dest src ch bch (\<lambda>i. q ! (c + i)) buf buf2 p (1 + n)"
    by (rule mapped_append [OF b1(3) _ assms(3)]) (use b2(2) in \<open>simp add: add.assoc\<close>)
  then show ?case using b1(1) b2(1) by (simp add: add.assoc)
qed

lemma map_loop_spec:
  assumes "sf_reads readf ch contents" and "0 < ch" and "length dest = length src" and "distinct dest" and "\<forall>d \<in> set dest. d < bch"
    and "\<forall>s \<in> set src. s < ch" and "0 < c0" and "remain * ch \<le> length (contents f)" and "chunk = min c0 remain"
    and "chunk * ch \<le> length q" and "p + remain * bch \<le> length buf"
  shows "\<exists>buf' f'. map_loop readf dest src ch bch q buf f p remain chunk = Some (buf', f') \<and>
    mapped dest src ch bch (\<lambda>i. contents f ! i) buf buf' p remain \<and> contents f' = drop (remain * ch) (contents f)"
  using assms(8-11)
proof (induction remain arbitrary: buf f p chunk q rule: less_induct)
  case (less remain)
  show ?case
  proof (cases "remain = 0")
    case True
    then show ?thesis by (subst map_loop.simps) (simp add: mapped_0)
  next
    case False
    then have chunk: "0 < chunk" "chunk \<le> remain" using less.prems(2) assms(7) by simp_all
    have enough: "chunk * ch \<le> length (contents f)" "p + chunk * bch \<le> length buf"
      using mult_right_mono [OF chunk(2), of ch] mult_right_mono [OF chunk(2), of bch] less.prems(1,4) by linarith+
    obtain f1 where f1: "readf chunk f = (take (chunk * ch) (contents f), f1)" "contents f1 = drop (chunk * ch) (contents f)"
      by (rule sf_readE [OF assms(1)])
    define xs where "xs = take (chunk * ch) (contents f)"
    define q1 where "q1 = xs @ drop (chunk * ch) q"
    have xs: "length xs = chunk * ch" "length xs div ch = chunk" using enough(1) assms(2) by (simp_all add: xs_def)
    have q1: "memcpy q 0 xs 0 (length xs) = Some q1" "chunk * ch \<le> length q1"
      using memcpy_all [of 0 xs q] xs(1) less.prems(3) by (simp_all add: q1_def)
    have "0 + chunk * ch \<le> length q1" using q1(2) by simp
    from map_frames_spec [OF assms(3-6) enough(2) this] obtain buf1 where
      b1: "map_frames dest src ch bch q1 chunk 0 buf p = Some (buf1, p + chunk * bch)"
        "mapped dest src ch bch (\<lambda>i. q1 ! (0 + i)) buf buf1 p chunk" by blast
    have m1: "mapped dest src ch bch (\<lambda>i. contents f ! i) buf buf1 p chunk"
      by (rule mapped_cong [OF b1(2) _ assms(3,6)]) (use enough(1) in \<open>simp add: q1_def nth_append xs xs_def\<close>)
    have loop: "map_loop readf dest src ch bch q buf f p remain chunk =
        map_loop readf dest src ch bch q1 buf1 f1 (p + chunk * bch) (remain - chunk) (min chunk (remain - chunk))"
      using False chunk(1) f1(1) xs q1(1) b1(1) by (subst map_loop.simps) (simp add: xs_def [symmetric] Let_def)
    have l: "length buf1 = length buf" using m1 by (simp add: mapped_def)
    have min: "min chunk (remain - chunk) = min c0 (remain - chunk)" using less.prems(2) by (auto simp: min_def)
    have "min chunk (remain - chunk) * ch \<le> chunk * ch" by (rule mult_right_mono) simp_all
    then have q2: "min chunk (remain - chunk) * ch \<le> length q1" using q1(2) by linarith
    have sum: "chunk * bch + (remain - chunk) * bch = remain * bch" "chunk * ch + (remain - chunk) * ch = remain * ch"
      using chunk(2) by (simp_all add: distrib_right [symmetric])
    have IH: "remain - chunk < remain" "(remain - chunk) * ch \<le> length (contents f1)"
      "min chunk (remain - chunk) = min c0 (remain - chunk)" "min chunk (remain - chunk) * ch \<le> length q1"
      "p + chunk * bch + (remain - chunk) * bch \<le> length buf1"
      using False chunk less.prems(1,4) f1(2) l min q2 sum by (simp_all, linarith+)
    from less.IH [OF this] obtain buf2 f2 where
      r: "map_loop readf dest src ch bch q1 buf1 f1 (p + chunk * bch) (remain - chunk) (min chunk (remain - chunk)) = Some (buf2, f2)"
        "mapped dest src ch bch (\<lambda>i. contents f1 ! i) buf1 buf2 (p + chunk * bch) (remain - chunk)"
        "contents f2 = drop ((remain - chunk) * ch) (contents f1)" by blast
    have "mapped dest src ch bch (\<lambda>i. contents f ! (chunk * ch + i)) buf1 buf2 (p + chunk * bch) (remain - chunk)"
      using r(2) f1(2) enough(1) by simp
    from mapped_append [OF m1 this assms(5)]
    have "mapped dest src ch bch (\<lambda>i. contents f ! i) buf buf2 p remain" using chunk(2) by simp
    moreover have "contents f2 = drop (remain * ch) (contents f)"
      using r(3) f1(2) sum(2) by (simp add: add.commute)
    ultimately show ?thesis using loop r(1) by auto
  qed
qed

text \<open>
  C32. When the file has the frames that are asked for, every channel of the map gets the samples of its source channel, frame by frame from the
  offset on, and every other place of the buffer keeps its value. (At the end of a shorter file the code copies a whole chunk, with the
  samples of the chunk before.)
\<close>

theorem map_sndfile_correct:
  assumes "sf_reads readf ch contents" and "0 < ch" and "length dest = length src" and "distinct dest" and "\<forall>d \<in> set dest. d < bch"
    and "\<forall>s \<in> set src. s < ch" and "0 < chunk_frames" and "frames * ch \<le> length (contents file)"
    and "(buf_offset + frames) * bch \<le> length buf" and "\<And>n. length (malloc n) = n"
  shows "\<exists>buf' file'. map_sndfile_ch_to_buffer readf malloc buf file frames ch bch buf_offset chunk_frames dest src = Some (buf', file') \<and>
    length buf' = length buf \<and> contents file' = drop (frames * ch) (contents file) \<and>
    (\<forall>t < frames. \<forall>k < length dest. buf' ! ((buf_offset + t) * bch + dest ! k) = contents file ! (t * ch + src ! k)) \<and>
    (\<forall>i. (\<forall>t < frames. \<forall>d \<in> set dest. i \<noteq> (buf_offset + t) * bch + d) \<longrightarrow> buf' ! i = buf ! i)"
proof (cases "frames = 0")
  case True
  then show ?thesis by (simp add: map_sndfile_ch_to_buffer_def map_loop.simps)
next
  case False
  let ?c = "min chunk_frames frames"
  have "0 < ?c" "?c = min ?c frames" "?c * ch \<le> length (malloc (?c * ch))" "buf_offset * bch + frames * bch \<le> length buf"
    using False assms(7,9,10) by (simp_all add: distrib_right)
  from map_loop_spec [OF assms(1-6) this(1) assms(8) this(2-4)] obtain buf' f' where
    r: "map_loop readf dest src ch bch (malloc (?c * ch)) buf file (buf_offset * bch) frames ?c = Some (buf', f')"
      "mapped dest src ch bch (\<lambda>i. contents file ! i) buf buf' (buf_offset * bch) frames"
      "contents f' = drop (frames * ch) (contents file)" by blast
  then show ?thesis
    by (intro exI [of _ buf'] exI [of _ f'])
      (simp add: map_sndfile_ch_to_buffer_def Let_def mapped_def distrib_right add.assoc)
qed

theorem map_sndfile_correct_witness:
  "\<exists>buf' file'. map_sndfile_ch_to_buffer (list_readf 2) (\<lambda>n. replicate n (0 :: nat)) [0, 0, 0, 0] [1, 2, 3, 4, 5, 6] 2 2 2 0 5 [1] [0] =
     Some (buf', file') \<and> buf' ! 1 = 1 \<and> buf' ! 3 = 3 \<and> buf' ! 0 = 0"
proof -
  have "\<exists>buf' file'. map_sndfile_ch_to_buffer (list_readf 2) (\<lambda>n. replicate n (0 :: nat)) [0, 0, 0, 0] [1, 2, 3, 4, 5, 6] 2 2 2 0 5 [1] [0] =
      Some (buf', file') \<and> length buf' = length [0 :: nat, 0, 0, 0] \<and> file' = drop (2 * 2) [1, 2, 3, 4, 5, 6] \<and>
    (\<forall>t < 2. \<forall>k < length [1 :: nat]. buf' ! ((0 + t) * 2 + [1] ! k) = [1, 2, 3, 4, 5, 6] ! (t * 2 + [0] ! k)) \<and>
    (\<forall>i. (\<forall>t < 2. \<forall>d \<in> set [1]. i \<noteq> (0 + t) * 2 + d) \<longrightarrow> buf' ! i = [0, 0, 0, 0] ! i)"
    by (rule map_sndfile_correct [OF list_readf_reads]) simp_all
  then obtain buf' file' where b:
    "map_sndfile_ch_to_buffer (list_readf 2) (\<lambda>n. replicate n (0 :: nat)) [0, 0, 0, 0] [1, 2, 3, 4, 5, 6] 2 2 2 0 5 [1] [0] = Some (buf', file')"
    "\<forall>t < 2. \<forall>k < length [1 :: nat]. buf' ! ((0 + t) * 2 + [1] ! k) = [1, 2, 3, 4, 5, 6] ! (t * 2 + [0] ! k)"
    "\<forall>i. (\<forall>t < 2. \<forall>d \<in> set [1]. i \<noteq> (0 + t) * 2 + d) \<longrightarrow> buf' ! i = [0, 0, 0, 0] ! i" by blast
  have "buf' ! 1 = 1" using spec [OF b(2), of 0] by simp
  moreover have "buf' ! 3 = 3" using spec [OF b(2), of 1] by simp
  moreover have "buf' ! 0 = 0" using spec [OF b(3), of 0] by simp
  ultimately show ?thesis using b(1) by blast
qed

section \<open>The tempo grid, signals\<close>

text \<open>
  For a time that is not negative, \<^verbatim>\<open>tempo_sync\<close> is the first multiple of the period after it: the next beat, never the current one.
\<close>

theorem tempo_sync_next_beat:
  assumes "0 \<le> now" and "0 < period"
  shows "\<exists>k. tempo_sync now period = real k * period \<and> now < tempo_sync now period \<and> tempo_sync now period \<le> now + period"
proof -
  let ?k = "nat \<lfloor>now / period\<rfloor> + 1"
  have q: "0 \<le> now / period" using assms by simp
  then have f: "real (nat \<lfloor>now / period\<rfloor>) = of_int \<lfloor>now / period\<rfloor>" by simp
  have t: "tempo_sync now period = real ?k * period"
    using q f by (simp add: tempo_sync_def fmod_def algebra_simps)
  have "of_int \<lfloor>now / period\<rfloor> * period \<le> now / period * period"
    using assms(2) by (intro mult_right_mono) simp_all
  moreover have "now / period * period < (of_int \<lfloor>now / period\<rfloor> + 1) * period"
    using assms(2) by (intro mult_strict_right_mono) simp_all
  moreover have "now / period * period = now" using assms(2) by simp
  ultimately have "of_int \<lfloor>now / period\<rfloor> * period \<le> now" "now < (of_int \<lfloor>now / period\<rfloor> + 1) * period" by simp_all
  then show ?thesis using t f by (intro exI [of _ ?k]) (simp add: algebra_simps)
qed

theorem tempo_sync_next_beat_witness: "\<exists>k. tempo_sync 5 2 = real k * 2 \<and> 5 < tempo_sync 5 2 \<and> tempo_sync 5 2 \<le> 5 + 2"
  by (rule tempo_sync_next_beat) simp_all

text \<open>
  Ignoring SIGTSTP and resetting its handler afterwards restores the handler, whether or not the signal was ignored before.
\<close>

lemma sigtstp_roundtrip:
  "handler s = Some h \<Longrightarrow> handler (fst (reset_sigtstp_handler True (fst (ignore_sigtstp True s)))) = Some h"
  "handler s = None \<Longrightarrow> oldact s = None \<Longrightarrow> reset_sigtstp_handler True (fst (ignore_sigtstp True s)) = (s, 0)"
  by (simp_all add: ignore_sigtstp_def reset_sigtstp_handler_def)

end
