(* ===== verification/TlsfMap.thy ===== *)
theory TlsfMap
  imports Prelude
begin

text \<open>
  The index of TLSF (\<^verbatim>\<open>src/contrib/tlsf/src/tlsf.c\<close>), the allocator of Incudine's pools of foreign memory: the positions of the lowest and
  the highest bit by table lookup, and the mapping of a size to a class (first and second level). A size of the class
  \<open>(fl, sl)\<close> lies in a range of width \<open>2 ^ (fl + 1)\<close>; the search rounds a request up, so that every block of the class found, or of a higher
  one, is large enough.
\<close>

section \<open>The code\<close>

definition MAX_FLI :: nat where "MAX_FLI = 30"
definition MAX_LOG2_SLI :: nat where "MAX_LOG2_SLI = 5"
definition MAX_SLI :: nat where "MAX_SLI = 32"
definition FLI_OFFSET :: nat where "FLI_OFFSET = 6"
definition REAL_FLI :: nat where "REAL_FLI = 24"
definition SMALL_BLOCK :: u64 where "SMALL_BLOCK = 128"

definition table :: "int list" where
  "table =
    [-1, 0, 1, 1, 2, 2, 2, 2, 3, 3, 3, 3, 3, 3, 3, 3, 4, 4, 4, 4, 4, 4, 4, 4, 4, 4, 4, 4, 4, 4, 4, 4,
     5, 5, 5, 5, 5, 5, 5, 5, 5, 5, 5, 5, 5, 5, 5, 5, 5, 5, 5, 5, 5, 5, 5, 5, 5, 5, 5, 5, 5, 5, 5, 5,
     6, 6, 6, 6, 6, 6, 6, 6, 6, 6, 6, 6, 6, 6, 6, 6, 6, 6, 6, 6, 6, 6, 6, 6, 6, 6, 6, 6, 6, 6, 6, 6,
     6, 6, 6, 6, 6, 6, 6, 6, 6, 6, 6, 6, 6, 6, 6, 6, 6, 6, 6, 6, 6, 6, 6, 6, 6, 6, 6, 6, 6, 6, 6, 6,
     7, 7, 7, 7, 7, 7, 7, 7, 7, 7, 7, 7, 7, 7, 7, 7, 7, 7, 7, 7, 7, 7, 7, 7, 7, 7, 7, 7, 7, 7, 7, 7,
     7, 7, 7, 7, 7, 7, 7, 7, 7, 7, 7, 7, 7, 7, 7, 7, 7, 7, 7, 7, 7, 7, 7, 7, 7, 7, 7, 7, 7, 7, 7, 7,
     7, 7, 7, 7, 7, 7, 7, 7, 7, 7, 7, 7, 7, 7, 7, 7, 7, 7, 7, 7, 7, 7, 7, 7, 7, 7, 7, 7, 7, 7, 7, 7,
     7, 7, 7, 7, 7, 7, 7, 7, 7, 7, 7, 7, 7, 7, 7, 7, 7, 7, 7, 7, 7, 7, 7, 7, 7, 7, 7, 7, 7, 7, 7, 7]"

text \<open>The lookup that both functions share: the shift \<open>a\<close> brings the highest byte that is not zero down.\<close>

definition table_bit :: "u32 \<Rightarrow> int" where
  "table_bit x =
     (let a = (if x \<le> 0xffff then if x \<le> 0xff then 0 else 8 else if x \<le> 0xffffff then 16 else 24) in
      table ! unat (drop_bit a x) + int a)"

definition ls_bit :: "u32 \<Rightarrow> int" where
  "ls_bit i = table_bit (i AND - i)"

definition ms_bit :: "u32 \<Rightarrow> int" where
  "ms_bit i = table_bit i"

text \<open>
  The conversion of a \<^verbatim>\<open>size_t\<close> to the parameter of type \<^verbatim>\<open>int\<close> keeps the low 32 bits. \<open>None\<close> is a shift by a negative number.
\<close>

definition mapping_search :: "u64 \<Rightarrow> (u64 \<times> nat \<times> nat) option" where
  "mapping_search r =
     (if r < SMALL_BLOCK then Some (r, 0, unat (r div 4))
      else if ms_bit (ucast r) < int MAX_LOG2_SLI then None
      else let t = push_bit (nat (ms_bit (ucast r)) - MAX_LOG2_SLI) 1 - 1; r = r + t; fl = ms_bit (ucast r) in
        if fl < int FLI_OFFSET then None
        else Some (r AND NOT t, nat fl - FLI_OFFSET, unat (drop_bit (nat fl - MAX_LOG2_SLI) r) - MAX_SLI))"

definition mapping_insert :: "u64 \<Rightarrow> (nat \<times> nat) option" where
  "mapping_insert r =
     (if r < SMALL_BLOCK then Some (0, unat (r div 4))
      else let fl = ms_bit (ucast r) in
        if fl < int FLI_OFFSET then None
        else Some (nat fl - FLI_OFFSET, unat (drop_bit (nat fl - MAX_LOG2_SLI) r) - MAX_SLI))"

section \<open>Bit positions\<close>

definition log_entry :: "nat \<Rightarrow> int \<Rightarrow> bool" where
  "log_entry n t \<longleftrightarrow> n = 0 \<or> 0 \<le> t \<and> t < 8 \<and> 2 ^ nat t \<le> n \<and> n < 2 ^ (nat t + 1)"

lemma table_check: "list_all2 log_entry [0..<256] table"
  unfolding table_def by code_simp

lemma table_bit_shift:
  assumes "0 < n div 2 ^ a" and "n div 2 ^ a < 256"
  shows "0 \<le> table ! (n div 2 ^ a) \<and> table ! (n div 2 ^ a) < 8 \<and>
    2 ^ nat (table ! (n div 2 ^ a) + int a) \<le> n \<and> n < 2 ^ (nat (table ! (n div 2 ^ a) + int a) + 1)"
proof -
  let ?m = "n div 2 ^ a" and ?t = "table ! (n div 2 ^ a)"
  have t: "0 \<le> ?t" "?t < 8" "2 ^ nat ?t \<le> ?m" "?m < 2 ^ (nat ?t + 1)"
    using list_all2_nthD [OF table_check, of ?m] assms by (auto simp: log_entry_def)
  have e: "nat (?t + int a) = nat ?t + a" using t(1) by simp
  have "2 ^ nat ?t * 2 ^ a \<le> ?m * 2 ^ a" using t(3) by simp
  also have "\<dots> \<le> n" by simp
  finally have lower: "2 ^ (nat ?t + a) \<le> n" by (simp add: power_add)
  have "n < (?m + 1) * 2 ^ a" by (simp add: dividend_less_div_times distrib_right) 
  also have "\<dots> \<le> 2 ^ (nat ?t + 1) * 2 ^ a" using t(4) by (intro mult_right_mono) simp_all
  finally have "n < 2 ^ (nat ?t + a + 1)" by (simp add: power_add mult.commute mult.left_commute)
  then show ?thesis using t(1,2) lower unfolding e by simp
qed

lemma table_bit_spec:
  assumes "x \<noteq> 0"
  shows "0 \<le> table_bit x \<and> table_bit x < 32 \<and> 2 ^ nat (table_bit x) \<le> unat x \<and> unat x < 2 ^ (nat (table_bit x) + 1)"
proof -
  have "unat x < 2 ^ 32" using unsigned_less [of x] by simp
  have pos: "0 < unat x" using assms by (simp add: unat_gt_0)
  have tb: "table_bit x = (let a = (if x \<le> 0xffff then if x \<le> 0xff then 0 else 8 else if x \<le> 0xffffff then 16 else 24) in
      table ! (unat x div 2 ^ a) + int a)"
    by (simp only: table_bit_def unat_drop_bit_eq) (simp only: drop_bit_eq_div)
  have le: "x \<le> c \<longleftrightarrow> unat x \<le> unat c" for c by (simp add: word_le_nat_alt)
  consider "unat x < 2 ^ 8" | "2 ^ 8 \<le> unat x" "unat x < 2 ^ 16" | "2 ^ 16 \<le> unat x" "unat x < 2 ^ 24" | "2 ^ 24 \<le> unat x" by linarith
  then obtain a where a: "table_bit x = table ! (unat x div 2 ^ a) + int a" "a \<in> {0, 8, 16, 24}" "0 < unat x div 2 ^ a" "unat x div 2 ^ a < 256"
  proof cases
    case 1
    then show ?thesis using pos by (intro that [of 0]) (simp_all add: tb le)
  next
    case 2
    then show ?thesis
      by (intro that [of 8]) (simp_all add: tb le div_greater_zero_iff less_mult_imp_div_less)
  next
    case 3
    then show ?thesis
      by (intro that [of 16]) (simp_all add: tb le div_greater_zero_iff less_mult_imp_div_less)
  next
    case 4
    then show ?thesis using \<open>unat x < 2 ^ 32\<close>
      by (intro that [of 24]) (simp_all add: tb le div_greater_zero_iff less_mult_imp_div_less)
  qed
  show ?thesis using table_bit_shift [OF a(3,4)] a(1,2) by auto
qed

text \<open>The highest bit of a number of at most 31 bits, as the code computes it from a \<^verbatim>\<open>size_t\<close>.\<close>

lemma ms_bit_unique:
  assumes "2 ^ k \<le> unat x" and "unat x < 2 ^ (k + 1)"
  shows "ms_bit x = int k"
proof -
  have two: "1 < (2 :: nat)" by simp
  have "x \<noteq> 0" using assms(1) by auto
  from table_bit_spec [OF this] have t: "0 \<le> table_bit x" "2 ^ nat (table_bit x) \<le> unat x" "unat x < 2 ^ (nat (table_bit x) + 1)" by auto
  have "2 ^ k < (2 :: nat) ^ (nat (table_bit x) + 1)" "2 ^ nat (table_bit x) < (2 :: nat) ^ (k + 1)" using assms t by linarith+
  then have "k < nat (table_bit x) + 1" "nat (table_bit x) < k + 1" using power_less_imp_less_exp [of "2 :: nat", OF two] by blast+
  then show ?thesis using t(1) by (simp add: ms_bit_def)
qed

text \<open>The lowest bit.\<close>

lemma and_minus_odd: "odd y \<Longrightarrow> y AND - y = (1 :: 'a::len word)"
proof -
  assume "odd y"
  then have y: "y = 2 * (y div 2) + 1" using mult_div_mod_eq [of 2 y] by (simp add: odd_iff_mod_2_eq_one)
  have "- y = NOT (y - 1)" by (simp add: not_eq_complement)
  have "bit (y AND - y) n \<longleftrightarrow> bit (1 :: 'a word) n" for n
  proof (cases n)
    case 0
    have "odd (- y)" unfolding \<open>- y = NOT (y - 1)\<close> using \<open>odd y\<close> y by (simp add: even_not_iff)
    then show ?thesis using 0 \<open>odd y\<close> by (simp add: bit_0 even_and_iff)
  next
    case (Suc m)
    have "y - 1 = 2 * (y div 2)" using y by (metis add_diff_cancel_right')
    moreover have "bit (2 * (y div 2)) (Suc m) \<longleftrightarrow> bit y (Suc m)"
      using bit_double_iff [of "y div 2" "Suc m"] bit_imp_possible_bit [of y "Suc m"] bit_Suc [of y m] by auto
    ultimately have "bit (- y) (Suc m) \<longleftrightarrow> \<not> bit y (Suc m) \<and> Suc m < LENGTH('a)"
      unfolding \<open>- y = NOT (y - 1)\<close> by (auto simp: bit_not_iff)
    then show ?thesis using Suc by (auto simp: bit_and_iff bit_1_iff)
  qed
  then show ?thesis by (rule bit_eqI)
qed

lemma ls_bit_0 [simp]: "ls_bit 0 = - 1"
  by (simp add: ls_bit_def table_bit_def table_def)

text \<open>For a word that is not zero the position is the one of its lowest bit that is set.\<close>

lemma ls_bit_spec:
  assumes "x \<noteq> 0"
  shows "\<exists>k < 32. ls_bit x = int k \<and> bit x k \<and> (\<forall>j < k. \<not> bit x j)"
proof -
  have "\<exists>k. bit x k" using assms by (metis bit_eqI bit_0_eq bot_apply bot_bool_def)
  define k where "k = (LEAST k. bit x k)"
  have k: "bit x k" "\<forall>j < k. \<not> bit x j" unfolding k_def using \<open>\<exists>k. bit x k\<close> by (auto intro: LeastI dest: not_less_Least)
  then have k32: "k < 32" using bit_imp_le_length [of x k] by simp
  have x: "x = push_bit k (drop_bit k x)"
  proof (rule bit_word_eqI)
    fix n
    show "bit x n \<longleftrightarrow> bit (push_bit k (drop_bit k x)) n" if "n < LENGTH(32)"
      using k(2) that by (cases "k \<le> n") (auto simp: bit_simps)
  qed
  have "odd (drop_bit k x)" using k(1) by (simp add: bit_iff_odd_drop_bit)
  have "- x = push_bit k (- drop_bit k x)" using x by (metis push_bit_minus)
  then have "x AND - x = push_bit k (drop_bit k x AND - drop_bit k x)" using x by (metis push_bit_and)
  also have "\<dots> = push_bit k 1" using and_minus_odd [OF \<open>odd (drop_bit k x)\<close>] by simp
  finally have "x AND - x = push_bit k 1" .
  moreover have "unat (push_bit k 1 :: u32) = 2 ^ k"
    using unat_pow2 [where 'a = 32, of k] k32 by (simp add: push_bit_eq_mult)
  ultimately have "ls_bit x = int k" using ms_bit_unique [of k "push_bit k 1"] by (simp add: ls_bit_def ms_bit_def)
  then show ?thesis using k k32 by blast
qed

section \<open>Classes of sizes\<close>

text \<open>The lower bound and the width of a class.\<close>

definition class_low :: "nat \<Rightarrow> nat \<Rightarrow> nat" where
  "class_low fl sl = (if fl = 0 then 4 * sl else 2 ^ (fl + 6) + sl * 2 ^ (fl + 1))"

definition class_width :: "nat \<Rightarrow> nat" where
  "class_width fl = (if fl = 0 then 4 else 2 ^ (fl + 1))"

lemma ms_bit_size:
  assumes "0 < n" and "n < 2 ^ 31"
  obtains k where "ms_bit (ucast (word_of_nat n :: u64)) = int k" "2 ^ k \<le> n" "n < 2 ^ (k + 1)"
proof -
  have u: "ucast (word_of_nat n :: u64) = (word_of_nat n :: u32)" by (rule bit_word_eqI) (simp add: bit_simps)
  have n: "unat (word_of_nat n :: u32) = n" using assms(2) by (simp add: unsigned_of_nat take_bit_nat_eq_self_iff)
  then have "(word_of_nat n :: u32) \<noteq> 0" using assms(1) by (metis gr_implies_not_zero unsigned_0)
  from table_bit_spec [OF this] show ?thesis
    by (intro that [of "nat (table_bit (word_of_nat n))"]) (simp_all add: u ms_bit_def n)
qed

lemma unat_u64: "n < 2 ^ 64 \<Longrightarrow> unat (word_of_nat n :: u64) = n"
  by (simp add: unsigned_of_nat take_bit_nat_eq_self_iff)

lemma unat_drop_u64: "n < 2 ^ 64 \<Longrightarrow> unat (drop_bit k (word_of_nat n :: u64)) = n div 2 ^ k"
  by (simp only: unat_drop_bit_eq unat_u64) (simp only: drop_bit_eq_div)

lemma small_block: "n < 2 ^ 64 \<Longrightarrow> (word_of_nat n :: u64) < SMALL_BLOCK \<longleftrightarrow> n < 128"
  by (simp add: SMALL_BLOCK_def word_less_nat_alt unat_u64)

lemma log_bounds:
  fixes n :: nat
  assumes "2 ^ k \<le> n" and "n < 2 ^ (k + 1)"
  shows "128 \<le> n \<Longrightarrow> 7 \<le> k" and "n < 2 ^ m \<Longrightarrow> k < m"
proof -
  have two: "1 < (2 :: nat)" by simp
  show "7 \<le> k" if "128 \<le> n"
  proof -
    have "(2 :: nat) ^ 7 < 2 ^ (k + 1)" using that assms(2) by simp
    from power_less_imp_less_exp [OF two this] show ?thesis by simp
  qed
  show "k < m" if "n < 2 ^ m"
    using power_less_imp_less_exp [OF two, of k m] assms(1) that by linarith
qed

lemma second_level:
  fixes n :: nat
  assumes "2 ^ k \<le> n" and "n < 2 ^ (k + 1)" and "5 \<le> k"
  shows "32 \<le> n div 2 ^ (k - 5)" and "n div 2 ^ (k - 5) < 64"
proof -
  have k: "(2 :: nat) ^ k = 32 * 2 ^ (k - 5)" using assms(3) power_add [of "2 :: nat" 5 "k - 5"] by simp
  have "32 * 2 ^ (k - 5) div 2 ^ (k - 5) \<le> n div 2 ^ (k - 5)" using assms(1) unfolding k by (rule div_le_mono)
  then show "32 \<le> n div 2 ^ (k - 5)" by simp
  have "n < 64 * 2 ^ (k - 5)" using assms(2) k by simp
  then show "n div 2 ^ (k - 5) < 64" by (rule less_mult_imp_div_less)
qed

text \<open>The class of a block: its size lies in the range of the class.\<close>

lemma mapping_insert_spec:
  assumes "n < 2 ^ 30"
  shows "\<exists>fl sl. mapping_insert (word_of_nat n) = Some (fl, sl) \<and> fl < REAL_FLI \<and> sl < MAX_SLI \<and>
    class_low fl sl \<le> n \<and> n < class_low fl sl + class_width fl"
proof (cases "n < 128")
  case True
  have "unat (word_of_nat n div 4 :: u64) = n div 4" using True by (simp add: unat_div unat_u64)
  moreover have "n div 4 < 32" "n < 4 * (n div 4) + 4" using True by presburger+
  ultimately show ?thesis using True
    by (simp add: mapping_insert_def small_block REAL_FLI_def MAX_SLI_def class_low_def class_width_def)
next
  case False
  then obtain k where k: "ms_bit (ucast (word_of_nat n :: u64)) = int k" "2 ^ k \<le> n" "n < 2 ^ (k + 1)"
    using ms_bit_size [of n] assms by auto
  have k7: "7 \<le> k" "k < 30" using log_bounds [OF k(2,3)] False assms by auto
  have sl: "32 \<le> n div 2 ^ (k - 5)" "n div 2 ^ (k - 5) < 64" using second_level [OF k(2,3)] k7 by auto
  have low: "class_low (k - 6) (n div 2 ^ (k - 5) - 32) = n div 2 ^ (k - 5) * 2 ^ (k - 5)"
  proof -
    have e: "k - 6 + 6 = k" "k - 6 + 1 = k - 5" "k - 6 \<noteq> 0" using k7 by simp_all
    have p: "(2 :: nat) ^ k = 32 * 2 ^ (k - 5)" using k7 power_add [of "2 :: nat" 5 "k - 5"] by simp
    obtain m where m: "n div 2 ^ (k - 5) = 32 + m" using sl(1) by (metis le_Suc_ex)
    show ?thesis unfolding class_low_def e m using e p by (simp add: distrib_right)
  qed
  have "mapping_insert (word_of_nat n) = Some (k - 6, n div 2 ^ (k - 5) - 32)"
    using False k7 assms k(1)
    by (simp add: mapping_insert_def small_block unat_drop_u64 FLI_OFFSET_def MAX_LOG2_SLI_def MAX_SLI_def)
  moreover have "class_width (k - 6) = 2 ^ (k - 5)"
    using k7 by (simp add: class_width_def Suc_diff_le [symmetric])
  moreover have "n div 2 ^ (k - 5) * 2 ^ (k - 5) \<le> n" "n < n div 2 ^ (k - 5) * 2 ^ (k - 5) + 2 ^ (k - 5)"
    using dividend_less_div_times [of "2 ^ (k - 5)" n] by (simp_all add: add.commute)
  moreover have "k - 6 < 24" "n div 2 ^ (k - 5) - 32 < 32" using k7 sl by linarith+
  ultimately show ?thesis using low by (simp add: REAL_FLI_def MAX_SLI_def)
qed

text \<open>A later class has a higher lower bound.\<close>

lemma class_low_next: "sl < 32 \<Longrightarrow> class_low fl sl + class_width fl \<le> class_low (fl + 1) 0"
proof (cases "fl = 0")
  case False
  assume "sl < 32"
  then have "(sl + 1) * 2 ^ fl \<le> (32 :: nat) * 2 ^ fl" by (intro mult_right_mono) simp_all
  then show ?thesis using False by (simp add: class_low_def class_width_def power_add algebra_simps)
qed (simp add: class_low_def class_width_def)

lemma class_low_mono_fl: "fl < fl' \<Longrightarrow> sl < 32 \<Longrightarrow> class_low fl sl + class_width fl \<le> class_low fl' sl'"
proof (induction fl' arbitrary: sl')
  case (Suc f)
  have low: "class_low (Suc f) 0 \<le> class_low (Suc f) sl'" by (simp add: class_low_def)
  show ?case
  proof (cases "fl = f")
    case True
    then show ?thesis using class_low_next [OF Suc.prems(2), of fl] low by simp
  next
    case False
    then have "class_low fl sl + class_width fl \<le> class_low f 0" using Suc by simp
    also have "\<dots> \<le> class_low (Suc f) 0" using class_low_next [of 0 f] by simp
    finally show ?thesis using low by simp
  qed
qed simp

lemma class_low_mono_sl: "sl < sl' \<Longrightarrow> class_low fl sl + class_width fl \<le> class_low fl sl'"
proof -
  assume "sl < sl'"
  then have "(sl + 1) * class_width fl \<le> sl' * class_width fl" by (intro mult_right_mono) simp_all
  then show ?thesis by (auto simp: class_low_def class_width_def algebra_simps)
qed

definition class_le :: "nat \<times> nat \<Rightarrow> nat \<times> nat \<Rightarrow> bool" where
  "class_le c d \<longleftrightarrow> fst c < fst d \<or> fst c = fst d \<and> snd c \<le> snd d"

lemma class_low_le: "class_le (fl, sl) (fl', sl') \<Longrightarrow> sl < 32 \<Longrightarrow> class_low fl sl \<le> class_low fl' sl'"
  using class_low_mono_fl [of fl fl' sl sl'] class_low_mono_sl [of sl sl' fl]
  by (cases "sl = sl'") (auto simp: class_le_def)

section \<open>The search rounds up\<close>

lemma and_not_mask: "(w :: u64) AND NOT (push_bit j 1 - 1) = push_bit j (drop_bit j w)"
proof -
  have m: "push_bit j 1 - 1 = (mask j :: u64)" by (simp add: mask_eq_exp_minus_1 push_bit_eq_mult)
  show ?thesis unfolding m
  proof (rule bit_word_eqI)
    fix n
    show "bit (w AND NOT (mask j)) n \<longleftrightarrow> bit (push_bit j (drop_bit j w)) n" if "n < LENGTH(64)"
      using that by (cases "j \<le> n") (auto simp: bit_simps)
  qed
qed

lemma push_drop: "n < 2 ^ 64 \<Longrightarrow> push_bit j (drop_bit j (word_of_nat n :: u64)) = word_of_nat (n div 2 ^ j * 2 ^ j)"
proof -
  assume n: "n < 2 ^ 64"
  have "n div 2 ^ j < 2 ^ 64" using n by (meson div_le_dividend le_less_trans)
  then have "drop_bit j (word_of_nat n :: u64) = word_of_nat (n div 2 ^ j)"
    unfolding word_unat_eq_iff unat_drop_u64 [OF n] by (simp only: unat_u64)
  then show ?thesis by (simp add: push_bit_eq_mult)
qed

lemma numeral_powers: "(2 :: nat) ^ 24 = 16777216" "(2 :: nat) ^ 30 = 1073741824"
  by simp_all

text \<open>
  The rounded request is the lower bound of the class where the search starts.
\<close>

lemma mapping_search_spec:
  assumes "n \<le> 2 ^ 30 - 2 ^ 24" and "16 dvd n"
  shows "\<exists>r fl sl. mapping_search (word_of_nat n) = Some (word_of_nat r, fl, sl) \<and> n \<le> r \<and> r \<le> n + n div 32 \<and> r < 2 ^ 30 \<and>
    16 dvd r \<and> fl < REAL_FLI \<and> sl < MAX_SLI \<and> class_low fl sl = r"
proof (cases "n < 128")
  case True
  have "unat (word_of_nat n div 4 :: u64) = n div 4" using True by (simp add: unat_div unat_u64)
  moreover have "n div 4 < 32" using True by presburger
  moreover have "4 * (n div 4) = n" using assms(2) by presburger
  ultimately show ?thesis using True assms
    by (intro exI [of _ n] exI [of _ 0] exI [of _ "n div 4"])
      (simp add: mapping_search_def small_block REAL_FLI_def MAX_SLI_def class_low_def)
next
  case False
  have "n < 2 ^ 31" "0 < n" using assms(1) False by simp_all
  then obtain k where k: "ms_bit (ucast (word_of_nat n :: u64)) = int k" "2 ^ k \<le> n" "n < 2 ^ (k + 1)"
    using ms_bit_size [of n] by auto
  have "n < 2 ^ 30" using assms(1) by simp
  then have k7: "7 \<le> k" "k < 30" using log_bounds [OF k(2,3)] False by auto
  let ?j = "k - 5"
  define n1 where "n1 = n + (2 ^ ?j - 1)"
  define r where "r = n1 div 2 ^ ?j * 2 ^ ?j"
  have p: "(2 :: nat) ^ k = 32 * 2 ^ ?j" using k7 power_add [of "2 :: nat" 5 "k - 5"] by simp
  have j24: "(2 :: nat) ^ ?j \<le> 2 ^ 24" using k7 by (intro power_increasing) simp_all
  moreover have one: "(1 :: nat) \<le> 2 ^ ?j" by simp
  ultimately have n1: "n1 < 2 ^ 30" "n \<le> n1" "2 ^ k \<le> n1"
    using assms(1) k(2) unfolding n1_def numeral_powers by linarith+
  have r: "r \<le> n1" "n1 < r + 2 ^ ?j"
    using dividend_less_div_times [of "2 ^ ?j" n1] by (simp_all add: r_def add.commute)
  then have "n \<le> r" using one unfolding n1_def by linarith
  have "2 ^ ?j \<le> n div 32" using k(2) p by simp
  then have "r \<le> n + n div 32" using r(1) one unfolding n1_def by linarith
  have "(push_bit ?j 1 :: u64) - 1 = word_of_nat (2 ^ ?j - 1)" by (simp add: push_bit_eq_mult of_nat_diff)
  then have w: "(word_of_nat n :: u64) + (push_bit ?j 1 - 1) = word_of_nat n1" by (simp only: n1_def of_nat_add)
  have "0 < n1" "n1 < 2 ^ 31" "n1 < 2 ^ 64" using n1 False by simp_all
  then obtain k1 where k1: "ms_bit (ucast (word_of_nat n1 :: u64)) = int k1" "2 ^ k1 \<le> n1" "n1 < 2 ^ (k1 + 1)"
    using ms_bit_size [of n1] by auto
  have k1_7: "7 \<le> k1" "k1 < 30" using log_bounds [OF k1(2,3)] n1 False by auto
  have sl: "32 \<le> n1 div 2 ^ (k1 - 5)" "n1 div 2 ^ (k1 - 5) < 64" using second_level [OF k1(2,3)] k1_7 by auto
  have search: "mapping_search (word_of_nat n) = Some (word_of_nat r, k1 - 6, n1 div 2 ^ (k1 - 5) - 32)"
  proof -
    have "(word_of_nat n1 :: u64) AND NOT (push_bit ?j 1 - 1) = word_of_nat r"
      unfolding and_not_mask push_drop [OF \<open>n1 < 2 ^ 64\<close>] r_def ..
    then show ?thesis using False k7 k1_7 k(1) k1(1) w \<open>n < 2 ^ 30\<close> \<open>n1 < 2 ^ 64\<close>
      by (simp add: mapping_search_def small_block MAX_LOG2_SLI_def FLI_OFFSET_def MAX_SLI_def Let_def unat_drop_u64 del: push_bit_eq_mult)
  qed
  have "16 dvd r"
  proof (cases "4 \<le> ?j")
    case True
    then have "(2 :: nat) ^ 4 dvd 2 ^ ?j" by (rule le_imp_power_dvd)
    then show ?thesis by (simp add: r_def)
  next
    case False
    then have "(2 :: nat) ^ ?j dvd 2 ^ 4" by (intro le_imp_power_dvd) simp
    then have "2 ^ ?j dvd n" using assms(2) by (simp add: dvd_trans)
    then obtain m where m: "n = 2 ^ ?j * m" by (elim dvdE)
    have n1m: "n1 = (2 ^ ?j - 1) + 2 ^ ?j * m" unfolding n1_def m by (rule add.commute)
    have "n1 div 2 ^ ?j = m" unfolding n1m by (subst div_mult_self2) simp_all
    then have "r = n" by (simp add: r_def m)
    then show ?thesis using assms(2) by simp
  qed
  moreover have "class_low (k1 - 6) (n1 div 2 ^ (k1 - 5) - 32) = r"
  proof -
    have "k \<le> k1"
    proof (rule ccontr)
      assume "\<not> k \<le> k1"
      then have "(2 :: nat) ^ (k1 + 1) \<le> 2 ^ k" by (intro power_increasing) simp_all
      then show False using k1(3) n1(3) by simp
    qed
    moreover have "k1 \<le> k + 1"
    proof (rule ccontr)
      assume "\<not> k1 \<le> k + 1"
      then have "(2 :: nat) ^ (k + 2) \<le> 2 ^ k1" by (intro power_increasing) simp_all
      then have "4 * 2 ^ k \<le> n1" using k1(2) by simp
      moreover have "n1 < 2 * 2 ^ k + 2 ^ ?j" using k(3) unfolding n1_def by simp
      ultimately show False using p by simp
    qed
    ultimately consider "k1 = k" | "k1 = k + 1" by linarith
    then show ?thesis
    proof cases
      case 1
      obtain m where m: "n1 div 2 ^ ?j = 32 + m" using sl(1) 1 by (metis le_Suc_ex)
      have "k - 6 + 6 = k" "k - 6 + 1 = k - 5" "k - 6 \<noteq> 0" using k7 by simp_all
      then show ?thesis using 1 p m by (simp add: class_low_def r_def distrib_right)
    next
      case 2
      have j1: "k1 - 5 = ?j + 1" "k1 - 6 + 6 = k + 1" "k1 - 6 \<noteq> 0" using 2 k7 by simp_all
      have lo: "64 * 2 ^ ?j \<le> n1" using k1(2) 2 p by simp
      have hi: "n1 < 64 * 2 ^ ?j + 2 ^ ?j" using k(3) p unfolding n1_def by simp
      have "n1 div 2 ^ ?j = 64"
        using div_le_mono [OF lo, of "2 ^ ?j"] less_mult_imp_div_less [of n1 65 "2 ^ ?j"] hi by simp
      moreover have "n1 div 2 ^ (?j + 1) = n1 div 2 ^ ?j div 2" by (simp only: power_add power_one_right div_mult2_eq)
      ultimately show ?thesis using j1 p by (simp add: class_low_def r_def)
    qed
  qed
  moreover have "k1 - 6 < REAL_FLI" "n1 div 2 ^ (k1 - 5) - 32 < MAX_SLI" using k1_7 sl unfolding REAL_FLI_def MAX_SLI_def by linarith+
  moreover have "r < 2 ^ 30" using r(1) n1(1) by linarith
  ultimately show ?thesis using search \<open>n \<le> r\<close> \<open>r \<le> n + n div 32\<close> by blast
qed

text \<open>
  The two mappings fit together: every block of the class where the search for a (rounded) request of up to about a gigabyte starts, or of a
  later class, is at least as large as the rounded size that the search returns, which is at least the request and at most a 32nd larger. So the first block of any
  list that is found can be used without looking at its size.
\<close>

theorem search_finds_large_enough:
  assumes "n \<le> 2 ^ 30 - 2 ^ 24" and "16 dvd n" and "b < 2 ^ 30"
  shows "\<exists>r c d. mapping_search (word_of_nat n) = Some (word_of_nat r, c) \<and> mapping_insert (word_of_nat b) = Some d \<and>
    n \<le> r \<and> r \<le> n + n div 32 \<and> 16 dvd r \<and> r < 2 ^ 30 \<and> fst c < REAL_FLI \<and> snd c < MAX_SLI \<and> (class_le c d \<longrightarrow> r \<le> b)"
proof -
  obtain r fl sl where r: "mapping_search (word_of_nat n) = Some (word_of_nat r, fl, sl)" "n \<le> r" "r \<le> n + n div 32" "r < 2 ^ 30" "16 dvd r"
    "fl < REAL_FLI" "sl < MAX_SLI" "class_low fl sl = r" using mapping_search_spec [OF assms(1,2)] by blast
  obtain fl' sl' where d: "mapping_insert (word_of_nat b) = Some (fl', sl')" "class_low fl' sl' \<le> b"
    using mapping_insert_spec [OF assms(3)] by blast
  have "r \<le> b" if "class_le (fl, sl) (fl', sl')"
    using class_low_le [OF that] r(7,8) d(2) by (simp add: MAX_SLI_def)
  then show ?thesis using r d by (intro exI [of _ r] exI [of _ "(fl, sl)"] exI [of _ "(fl', sl')"]) simp
qed

theorem search_finds_large_enough_witness:
  "\<exists>r c d. mapping_search (word_of_nat 1008) = Some (word_of_nat r, c) \<and> mapping_insert (word_of_nat 1040) = Some d \<and>
    1008 \<le> r \<and> r \<le> 1008 + 1008 div 32 \<and> 16 dvd r \<and> r < 2 ^ 30 \<and> fst c < REAL_FLI \<and> snd c < MAX_SLI \<and> (class_le c d \<longrightarrow> r \<le> 1040)"
  by (rule search_finds_large_enough) simp_all

end
