(* ===== verification/Tlsf.thy ===== *)
theory Tlsf
  imports TlsfMap
begin

text \<open>
  The allocator TLSF (\<^verbatim>\<open>src/contrib/tlsf/src/tlsf.c\<close>) as Incudine compiles it: 64-bit machine, blocks aligned to 32 bytes
  (\<^verbatim>\<open>BLOCK_ALIGN\<close>), statistics on, neither \<^verbatim>\<open>mmap\<close> nor \<^verbatim>\<open>sbrk\<close> nor locks.

  The memory of a pool is a function from addresses to headers of blocks: what the program would read through a pointer to \<^verbatim>\<open>bhdr_t\<close> there. The two
  low bits of \<^verbatim>\<open>size\<close> are separate fields and the rest is a natural number (\<^verbatim>\<open>BLOCK_SIZE\<close> keeps 32 bits; the theorems are about sizes below
  \<open>2 ^ 30\<close>); the pointers of a list of free blocks lie in the first 16 bytes of the block's data. Zero is
  the null pointer. \<open>None\<close> is an access outside of the index or a size that wraps around. Every address has a header, so an access to a
  header outside of the pool is not \<open>None\<close>: where the blocks and the sentinel lie is what the theorems state.
\<close>

section \<open>State\<close>

record bhdr =
  prev_hdr :: nat
  bsize :: nat
  is_free :: bool
  prev_free :: bool
  free_prev :: nat
  free_next :: nat

record tlsf =
  signature :: u32
  hdr :: "nat \<Rightarrow> bhdr"
  fl_bitmap :: u32
  sl_bitmap :: "nat \<Rightarrow> u32"
  matrix :: "nat \<Rightarrow> nat \<Rightarrow> nat"
  used_size :: u64
  max_size :: u64
  area_head :: nat

definition MIN_BLOCK_SIZE :: nat where "MIN_BLOCK_SIZE = 16"
definition BHDR_OVERHEAD :: nat where "BHDR_OVERHEAD = 16"
definition BHDR_SIZE :: nat where "BHDR_SIZE = 32"
definition BLOCK_ALIGN :: nat where "BLOCK_ALIGN = 32"

definition ROUNDUP_SIZE :: "nat \<Rightarrow> nat" where
  "ROUNDUP_SIZE r = (r + (BLOCK_ALIGN - 1)) div BLOCK_ALIGN * BLOCK_ALIGN"

definition ROUNDDOWN_SIZE :: "nat \<Rightarrow> nat" where
  "ROUNDDOWN_SIZE r = r div BLOCK_ALIGN * BLOCK_ALIGN"

text \<open>\<^verbatim>\<open>GET_NEXT_BLOCK(b->ptr.buffer, r)\<close>, for a block at address \<open>b\<close>.\<close>

definition next_block :: "nat \<Rightarrow> nat \<Rightarrow> nat" where
  "next_block b r = b + BHDR_OVERHEAD + r"

definition upd :: "nat \<Rightarrow> (bhdr \<Rightarrow> bhdr) \<Rightarrow> tlsf \<Rightarrow> tlsf" where
  "upd b f t = t\<lparr>hdr := (hdr t)(b := f (hdr t b))\<rparr>"

definition set_bit :: "nat \<Rightarrow> u32 \<Rightarrow> u32" where
  "set_bit nr w = w OR push_bit nr 1"

definition clear_bit :: "nat \<Rightarrow> u32 \<Rightarrow> u32" where
  "clear_bit nr w = w AND NOT (push_bit nr 1)"

definition TLSF_ADD_SIZE :: "nat \<Rightarrow> tlsf \<Rightarrow> tlsf" where
  "TLSF_ADD_SIZE b t =
     (let used = used_size t + word_of_nat (bsize (hdr t b) + BHDR_OVERHEAD) in
      t\<lparr>used_size := used, max_size := (if max_size t < used then used else max_size t)\<rparr>)"

definition TLSF_REMOVE_SIZE :: "nat \<Rightarrow> tlsf \<Rightarrow> tlsf" where
  "TLSF_REMOVE_SIZE b t = t\<lparr>used_size := used_size t - word_of_nat (bsize (hdr t b) + BHDR_OVERHEAD)\<rparr>"

section \<open>The lists of free blocks\<close>

definition set_matrix :: "nat \<Rightarrow> nat \<Rightarrow> nat \<Rightarrow> tlsf \<Rightarrow> tlsf" where
  "set_matrix fl sl b t = t\<lparr>matrix := (matrix t)(fl := (matrix t fl)(sl := b))\<rparr>"

text \<open>The bits of an empty list are cleared.\<close>

definition clear_class :: "nat \<Rightarrow> nat \<Rightarrow> tlsf \<Rightarrow> tlsf" where
  "clear_class fl sl t =
     (let t = t\<lparr>sl_bitmap := (sl_bitmap t)(fl := clear_bit sl (sl_bitmap t fl))\<rparr> in
      if sl_bitmap t fl = 0 then t\<lparr>fl_bitmap := clear_bit fl (fl_bitmap t)\<rparr> else t)"

definition FIND_SUITABLE_BLOCK :: "nat \<Rightarrow> nat \<Rightarrow> tlsf \<Rightarrow> nat \<times> nat \<times> nat" where
  "FIND_SUITABLE_BLOCK fl sl t =
     (let tmp = sl_bitmap t fl AND push_bit sl (NOT 0) in
      if tmp \<noteq> 0 then let sl = nat (ls_bit tmp) in (matrix t fl sl, fl, sl)
      else let fl' = ls_bit (fl_bitmap t AND push_bit (fl + 1) (NOT 0)) in
        if 0 < fl' then let sl = nat (ls_bit (sl_bitmap t (nat fl'))) in (matrix t (nat fl') sl, nat fl', sl)
        else (0, 0, sl))"

definition EXTRACT_BLOCK_HDR :: "nat \<Rightarrow> nat \<Rightarrow> nat \<Rightarrow> tlsf \<Rightarrow> tlsf" where
  "EXTRACT_BLOCK_HDR b fl sl t =
     (let t = set_matrix fl sl (free_next (hdr t b)) t;
          t = (if matrix t fl sl \<noteq> 0 then upd (matrix t fl sl) (free_prev_update (\<lambda>_. 0)) t else clear_class fl sl t) in
      upd b (\<lambda>h. h\<lparr>free_prev := 0, free_next := 0\<rparr>) t)"

definition EXTRACT_BLOCK :: "nat \<Rightarrow> nat \<Rightarrow> nat \<Rightarrow> tlsf \<Rightarrow> tlsf" where
  "EXTRACT_BLOCK b fl sl t =
     (let n = free_next (hdr t b); p = free_prev (hdr t b);
          t = (if n \<noteq> 0 then upd n (free_prev_update (\<lambda>_. p)) t else t);
          t = (if p \<noteq> 0 then upd p (free_next_update (\<lambda>_. n)) t else t);
          t = (if matrix t fl sl = b then
                 let t = set_matrix fl sl n t in if matrix t fl sl = 0 then clear_class fl sl t else t
               else t) in
      upd b (\<lambda>h. h\<lparr>free_prev := 0, free_next := 0\<rparr>) t)"

definition INSERT_BLOCK :: "nat \<Rightarrow> nat \<Rightarrow> nat \<Rightarrow> tlsf \<Rightarrow> tlsf" where
  "INSERT_BLOCK b fl sl t =
     (let t = upd b (\<lambda>h. h\<lparr>free_prev := 0, free_next := matrix t fl sl\<rparr>) t;
          t = (if matrix t fl sl \<noteq> 0 then upd (matrix t fl sl) (free_prev_update (\<lambda>_. b)) t else t);
          t = set_matrix fl sl b t in
      t\<lparr>sl_bitmap := (sl_bitmap t)(fl := set_bit sl (sl_bitmap t fl)), fl_bitmap := set_bit fl (fl_bitmap t)\<rparr>)"

text \<open>Extraction and insertion of a block in the class of its size.\<close>

definition mapping :: "nat \<Rightarrow> (nat \<times> nat) option" where
  "mapping n =
     (case mapping_insert (word_of_nat n) of
        None \<Rightarrow> None
      | Some (fl, sl) \<Rightarrow> if fl < REAL_FLI \<and> sl < MAX_SLI then Some (fl, sl) else None)"

definition extract_free :: "nat \<Rightarrow> tlsf \<Rightarrow> tlsf option" where
  "extract_free b t = do { (fl, sl) \<leftarrow> mapping (bsize (hdr t b)); Some (EXTRACT_BLOCK b fl sl t) }"

definition insert_free :: "nat \<Rightarrow> tlsf \<Rightarrow> tlsf option" where
  "insert_free b t = do { (fl, sl) \<leftarrow> mapping (bsize (hdr t b)); Some (INSERT_BLOCK b fl sl t) }"

section \<open>Allocation\<close>

text \<open>
  A block at \<open>b\<close> gets the size \<open>n\<close> and the rest of \<open>tmp_size\<close> bytes becomes a free block; the statements that \<^verbatim>\<open>malloc_ex\<close> and \<^verbatim>\<open>realloc_ex\<close>
  share. \<open>next_b\<close> is the block behind.
\<close>

definition split_block :: "nat \<Rightarrow> nat \<Rightarrow> nat \<Rightarrow> nat \<Rightarrow> tlsf \<Rightarrow> tlsf option" where
  "split_block b n tmp_size next_b t =
     (let b2 = next_block b n;
          t = upd b2 (\<lambda>h. h\<lparr>bsize := tmp_size - BHDR_OVERHEAD, is_free := True, prev_free := False\<rparr>) t;
          t = upd next_b (prev_hdr_update (\<lambda>_. b2)) t in do {
        t \<leftarrow> insert_free b2 t;
        Some (upd b (\<lambda>h. h\<lparr>bsize := n, is_free := False\<rparr>) t)
      })"

definition round_request :: "nat \<Rightarrow> nat" where
  "round_request sz = (if sz < MIN_BLOCK_SIZE then MIN_BLOCK_SIZE else ROUNDUP_SIZE sz)"

definition malloc_ex :: "nat \<Rightarrow> tlsf \<Rightarrow> (tlsf \<times> nat) option" where
  "malloc_ex sz t = do {
     (r, fl, sl) \<leftarrow> mapping_search (word_of_nat (round_request sz));
     if fl < REAL_FLI \<and> sl < MAX_SLI then
       let sz = unat r; (b, fl, sl) = FIND_SUITABLE_BLOCK fl sl t in
       if b = 0 then Some (t, 0)
       else let t = EXTRACT_BLOCK_HDR b fl sl t; next_b = next_block b (bsize (hdr t b)) in
         if bsize (hdr t b) < sz then None
         else let tmp_size = bsize (hdr t b) - sz in do {
           t \<leftarrow> (if BHDR_SIZE \<le> tmp_size then split_block b sz tmp_size next_b t
                 else Some (upd b (is_free_update (\<lambda>_. False)) (upd next_b (prev_free_update (\<lambda>_. False)) t)));
           Some (TLSF_ADD_SIZE b t, b + BHDR_OVERHEAD)
         }
     else None
   }"

section \<open>Release\<close>

text \<open>The block \<open>n\<close>, which is free, leaves its list and becomes a part of the block \<open>b\<close> before it.\<close>

definition join_next :: "nat \<Rightarrow> nat \<Rightarrow> tlsf \<Rightarrow> tlsf option" where
  "join_next b n t = do {
     t \<leftarrow> extract_free n t;
     Some (upd b (\<lambda>h. h\<lparr>bsize := bsize h + (bsize (hdr t n) + BHDR_OVERHEAD)\<rparr>) t)
   }"

definition join_previous :: "nat \<Rightarrow> tlsf \<Rightarrow> (tlsf \<times> nat) option" where
  "join_previous b t =
     (let p = prev_hdr (hdr t b) in do {
        t \<leftarrow> extract_free p t;
        Some (upd p (\<lambda>h. h\<lparr>bsize := bsize h + (bsize (hdr t b) + BHDR_OVERHEAD)\<rparr>) t, p)
      })"

definition free_ex :: "nat \<Rightarrow> tlsf \<Rightarrow> tlsf option" where
  "free_ex ptr t =
     (if ptr = 0 then Some t
      else let b = ptr - BHDR_OVERHEAD;
               t = TLSF_REMOVE_SIZE b (upd b (is_free_update (\<lambda>_. True)) t);
               t = upd b (\<lambda>h. h\<lparr>free_prev := 0, free_next := 0\<rparr>) t;
               n = next_block b (bsize (hdr t b)) in do {
        t \<leftarrow> (if is_free (hdr t n) then join_next b n t else Some t);
        (t, b) \<leftarrow> (if prev_free (hdr t b) then join_previous b t else Some (t, b));
        t \<leftarrow> insert_free b t;
        Some (upd (next_block b (bsize (hdr t b))) (\<lambda>h. h\<lparr>prev_free := True, prev_hdr := b\<rparr>) t)
      })"

section \<open>Reallocation\<close>

text \<open>
  The result is the pointer and, when the data moved, the arguments of \<^verbatim>\<open>memcpy\<close>: the new block, the old one and the number of
  bytes, an \<^verbatim>\<open>unsigned int\<close>. The flag of the block behind is set before the rest is split off; the code sets it between the
  two assignments to headers with which \<open>split_block\<close> begins.
\<close>

definition give_back :: "nat \<Rightarrow> nat \<Rightarrow> nat \<Rightarrow> nat \<Rightarrow> tlsf \<Rightarrow> tlsf option" where
  "give_back b n tmp_size next_b t =
     (if BHDR_SIZE \<le> tmp_size then split_block b n tmp_size next_b (upd next_b (prev_free_update (\<lambda>_. True)) t) else Some t)"

definition shrink_block :: "nat \<Rightarrow> nat \<Rightarrow> tlsf \<Rightarrow> tlsf option" where
  "shrink_block b n t =
     (let next_b = next_block b (bsize (hdr t b)); tmp_size = bsize (hdr t b); t = TLSF_REMOVE_SIZE b t in do {
        (t, tmp_size, next_b) \<leftarrow>
          (if is_free (hdr t next_b) then do {
             t \<leftarrow> extract_free next_b t;
             Some (t, tmp_size + (bsize (hdr t next_b) + BHDR_OVERHEAD), next_block next_b (bsize (hdr t next_b)))
           }
           else Some (t, tmp_size, next_b));
        t \<leftarrow> give_back b n (tmp_size - n) next_b t;
        Some (TLSF_ADD_SIZE b t)
      })"

definition grow_block :: "nat \<Rightarrow> nat \<Rightarrow> tlsf \<Rightarrow> tlsf option" where
  "grow_block b n t =
     (let next_b = next_block b (bsize (hdr t b)); t = TLSF_REMOVE_SIZE b t in do {
        t \<leftarrow> join_next b next_b t;
        let next_b = next_block b (bsize (hdr t b));
        let t = upd next_b (\<lambda>h. h\<lparr>prev_hdr := b, prev_free := False\<rparr>) t;
        t \<leftarrow> give_back b n (bsize (hdr t b) - n) next_b t;
        Some (TLSF_ADD_SIZE b t)
      })"

definition realloc_ex :: "nat \<Rightarrow> nat \<Rightarrow> tlsf \<Rightarrow> (tlsf \<times> nat \<times> (nat \<times> nat \<times> nat) option) option" where
  "realloc_ex ptr new_size t =
     (if ptr = 0 then
        if new_size \<noteq> 0 then do { (t, p) \<leftarrow> malloc_ex new_size t; Some (t, p, None) } else Some (t, 0, None)
      else if new_size = 0 then do { t \<leftarrow> free_ex ptr t; Some (t, 0, None) }
      else let b = ptr - BHDR_OVERHEAD; n = round_request new_size; next_b = next_block b (bsize (hdr t b)) in
        if n \<le> bsize (hdr t b) then do { t \<leftarrow> shrink_block b n t; Some (t, b + BHDR_OVERHEAD, None) }
        else if is_free (hdr t next_b) \<and> n \<le> bsize (hdr t b) + bsize (hdr t next_b) then
          do { t \<leftarrow> grow_block b n t; Some (t, b + BHDR_OVERHEAD, None) }
        else do {
          (t, p) \<leftarrow> malloc_ex n t;
          if p = 0 then Some (t, 0, None)
          else do {
            let cpsize = (if bsize (hdr t b) > n then n else bsize (hdr t b)) mod 2 ^ 32;
            t \<leftarrow> free_ex ptr t;
            Some (t, p, Some (p, ptr, cpsize))
          }
        })"

text \<open>The arguments of \<^verbatim>\<open>memset\<close> are a part of the result. The product of the sizes wraps around.\<close>

definition calloc_ex :: "nat \<Rightarrow> nat \<Rightarrow> tlsf \<Rightarrow> (tlsf \<times> nat \<times> (nat \<times> nat) option) option" where
  "calloc_ex nelem elem_size t =
     (if nelem = 0 \<or> elem_size = 0 then Some (t, 0, None)
      else do {
        let sz = nelem * elem_size mod 2 ^ 64;
        (t, p) \<leftarrow> malloc_ex sz t;
        if p = 0 then Some (t, 0, None) else Some (t, p, Some (p, sz))
      })"

section \<open>Pools\<close>

definition TLSF_SIGNATURE :: u32 where "TLSF_SIGNATURE = 0x2A59FA59"

text \<open>
  \<^verbatim>\<open>sizeof(tlsf_t)\<close>: the signature and its padding, the statistics, the list of areas, \<open>1 + 24\<close> bitmaps with their
  padding and the matrix. \<^verbatim>\<open>sizeof(area_info_t)\<close> is 16, not less than \<open>MIN_BLOCK_SIZE\<close>.
\<close>

definition SIZEOF_TLSF :: nat where "SIZEOF_TLSF = 8 + 16 + 8 + (4 + 24 * 4 + 4) + 24 * 32 * 8"
definition INFO_SIZE :: nat where "INFO_SIZE = ROUNDUP_SIZE 16"

text \<open>
  The result is the block of the area's information, the block behind it and the sentinel. The information lies in the data of its block,
  \<^verbatim>\<open>end\<close> where \<open>free_prev\<close> is and \<^verbatim>\<open>next\<close> where \<open>free_next\<close> is.
\<close>

definition process_area :: "nat \<Rightarrow> nat \<Rightarrow> tlsf \<Rightarrow> tlsf \<times> nat \<times> nat \<times> nat" where
  "process_area area sz t =
     (let ib = area; b = next_block ib INFO_SIZE; bs = ROUNDDOWN_SIZE (sz - 3 * BHDR_OVERHEAD - INFO_SIZE); lb = next_block b bs;
          t = upd ib (\<lambda>h. h\<lparr>bsize := INFO_SIZE, is_free := False, prev_free := False\<rparr>) t;
          t = upd b (\<lambda>h. h\<lparr>bsize := bs, is_free := False, prev_free := False, free_prev := 0, free_next := 0\<rparr>) t;
          t = upd lb (\<lambda>h. h\<lparr>prev_hdr := b, bsize := 0, is_free := False, prev_free := True\<rparr>) t;
          t = upd ib (\<lambda>h. h\<lparr>free_next := 0, free_prev := lb\<rparr>) t in
      (t, ib, b, lb))"

text \<open>The result \<^verbatim>\<open>-1\<close> is an error.\<close>

definition init_memory_pool :: "nat \<Rightarrow> nat \<Rightarrow> tlsf \<Rightarrow> (tlsf \<times> int) option" where
  "init_memory_pool sz mem t =
     (if mem = 0 \<or> sz = 0 \<or> sz < SIZEOF_TLSF + BHDR_OVERHEAD * 8 then Some (t, -1)
      else if mem mod 8 \<noteq> 0 then Some (t, -1)
      else if signature t = TLSF_SIGNATURE then Some (t, int (bsize (hdr t (mem + ROUNDUP_SIZE SIZEOF_TLSF))))
      else let t = t\<lparr>signature := TLSF_SIGNATURE, fl_bitmap := 0, sl_bitmap := \<lambda>_. 0, matrix := \<lambda>_ _. 0, used_size := 0, max_size := 0,
                   area_head := 0\<rparr>;
               (t, ib, b, lb) = process_area (mem + ROUNDUP_SIZE SIZEOF_TLSF) (ROUNDDOWN_SIZE (sz - SIZEOF_TLSF)) t in do {
        t \<leftarrow> free_ex (b + BHDR_OVERHEAD) t;
        let used = word_of_nat (sz - bsize (hdr t b));
        Some (t\<lparr>area_head := ib + BHDR_OVERHEAD, used_size := used, max_size := used\<rparr>, int (bsize (hdr t b)))
      })"

section \<open>Areas\<close>

text \<open>\<^verbatim>\<open>memset(area, 0, area_size)\<close>, as seen through headers: the words of a header are at the offsets 0, 8, 16 and 24.\<close>

definition clear_area :: "nat \<Rightarrow> nat \<Rightarrow> tlsf \<Rightarrow> tlsf" where
  "clear_area area sz t =
     (let zero = (\<lambda>a. area \<le> a \<and> a < area + sz) in
      t\<lparr>hdr := \<lambda>a. let h = hdr t a in
        \<lparr>prev_hdr = (if zero a then 0 else prev_hdr h), bsize = (if zero (a + 8) then 0 else bsize h),
         is_free = (\<not> zero (a + 8) \<and> is_free h), prev_free = (\<not> zero (a + 8) \<and> prev_free h),
         free_prev = (if zero (a + 16) then 0 else free_prev h), free_next = (if zero (a + 24) then 0 else free_next h)\<rparr>\<rparr>)"

text \<open>The area \<open>ptr\<close> leaves the list of areas; \<open>ptr_prev\<close> is the one before it.\<close>

definition unlink_area :: "nat \<Rightarrow> nat \<Rightarrow> tlsf \<Rightarrow> tlsf" where
  "unlink_area ptr ptr_prev t =
     (let nxt = free_next (hdr t (ptr - BHDR_OVERHEAD)) in
      if area_head t = ptr then t\<lparr>area_head := nxt\<rparr> else upd (ptr_prev - BHDR_OVERHEAD) (free_next_update (\<lambda>_. nxt)) t)"

text \<open>
  The loop that merges a new area with the ones that touch it. The list of areas could be cyclic, so the loop may not end. The result has the
  block of the area's information, the block to release and the sentinel.
\<close>

partial_function (option) merge_areas :: "nat \<Rightarrow> nat \<Rightarrow> nat \<Rightarrow> nat \<Rightarrow> nat \<Rightarrow> tlsf \<Rightarrow> (tlsf \<times> nat \<times> nat \<times> nat) option" where
  "merge_areas ptr ptr_prev ib0 b0 lb0 t =
     (if ptr = 0 then Some (t, ib0, b0, lb0)
      else let ib1 = ptr - BHDR_OVERHEAD; b1 = next_block ib1 (bsize (hdr t ib1)); lb1 = free_prev (hdr t ib1); nxt = free_next (hdr t ib1) in
        if ib1 = lb0 + BHDR_OVERHEAD then
          let t = unlink_area ptr ptr_prev t;
              n = ROUNDDOWN_SIZE (bsize (hdr t b0) + bsize (hdr t ib1) + 2 * BHDR_OVERHEAD);
              t = upd b1 (prev_hdr_update (\<lambda>_. b0)) (upd b0 (\<lambda>h. h\<lparr>bsize := n, is_free := False, prev_free := False\<rparr>) t) in
          merge_areas nxt ptr_prev ib0 b0 lb1 t
        else if lb1 + BHDR_OVERHEAD = ib0 then
          let t = unlink_area ptr ptr_prev t;
              n = ROUNDDOWN_SIZE (bsize (hdr t b0) + bsize (hdr t ib0) + 2 * BHDR_OVERHEAD);
              t = upd lb1 (\<lambda>h. h\<lparr>bsize := n, is_free := False\<rparr>) t;
              t = upd (next_block lb1 n) (prev_hdr_update (\<lambda>_. lb1)) t in
          merge_areas nxt ptr_prev ib1 lb1 lb0 t
        else merge_areas nxt ptr ib0 b0 lb0 t)"

definition add_new_area :: "nat \<Rightarrow> nat \<Rightarrow> tlsf \<Rightarrow> (tlsf \<times> nat) option" where
  "add_new_area area sz t =
     (let t = clear_area area sz t; ptr = area_head t; (t, ib0, b0, lb0) = process_area area sz t in do {
        (t, ib0, b0, lb0) \<leftarrow> merge_areas ptr 0 ib0 b0 lb0 t;
        let t = upd ib0 (\<lambda>h. h\<lparr>free_next := area_head t, free_prev := lb0\<rparr>) t;
        let t = t\<lparr>area_head := ib0 + BHDR_OVERHEAD\<rparr>;
        t \<leftarrow> free_ex (b0 + BHDR_OVERHEAD) t;
        Some (t, bsize (hdr t b0))
      })"

section \<open>The default pool\<close>

text \<open>
  The pools by their addresses and \<^verbatim>\<open>mp\<close>, the pool that was initialised last. The wrappers read through \<^verbatim>\<open>mp\<close>: without a pool this is undefined, apart from
  the release of null and the requests that fail before they look at the pool.
\<close>

record pools =
  mp :: nat
  pool_at :: "nat \<Rightarrow> tlsf"

definition set_pool :: "nat \<Rightarrow> tlsf \<Rightarrow> pools \<Rightarrow> pools" where
  "set_pool a t s = s\<lparr>pool_at := (pool_at s)(a := t)\<rparr>"

definition init_pools :: "nat \<Rightarrow> nat \<Rightarrow> pools \<Rightarrow> (pools \<times> int) option" where
  "init_pools sz mem s = do {
     (t, r) \<leftarrow> init_memory_pool sz mem (pool_at s mem);
     Some (if r = -1 then s else (set_pool mem t s)\<lparr>mp := mem\<rparr>, r)
   }"

definition tlsf_malloc :: "nat \<Rightarrow> pools \<Rightarrow> (pools \<times> nat) option" where
  "tlsf_malloc sz s =
     (if mp s = 0 then None
      else do { (t, p) \<leftarrow> malloc_ex sz (pool_at s (mp s)); Some (set_pool (mp s) t s, p) })"

definition tlsf_free :: "nat \<Rightarrow> pools \<Rightarrow> pools option" where
  "tlsf_free ptr s =
     (if ptr = 0 then Some s
      else if mp s = 0 then None
      else do { t \<leftarrow> free_ex ptr (pool_at s (mp s)); Some (set_pool (mp s) t s) })"

definition tlsf_realloc :: "nat \<Rightarrow> nat \<Rightarrow> pools \<Rightarrow> (pools \<times> nat \<times> (nat \<times> nat \<times> nat) option) option" where
  "tlsf_realloc ptr sz s =
     (if ptr = 0 \<and> sz = 0 then Some (s, 0, None)
      else if mp s = 0 then None
      else do { (t, r) \<leftarrow> realloc_ex ptr sz (pool_at s (mp s)); Some (set_pool (mp s) t s, r) })"

definition tlsf_calloc :: "nat \<Rightarrow> nat \<Rightarrow> pools \<Rightarrow> (pools \<times> nat \<times> (nat \<times> nat) option) option" where
  "tlsf_calloc nelem elem_size s =
     (if nelem = 0 \<or> elem_size = 0 then Some (s, 0, None)
      else if mp s = 0 then None
      else do { (t, r) \<leftarrow> calloc_ex nelem elem_size (pool_at s (mp s)); Some (set_pool (mp s) t s, r) })"

definition get_used_size :: "tlsf \<Rightarrow> u64" where
  "get_used_size t = used_size t"

definition get_max_size :: "tlsf \<Rightarrow> u64" where
  "get_max_size t = max_size t"

definition destroy_memory_pool :: "tlsf \<Rightarrow> tlsf" where
  "destroy_memory_pool t = t\<lparr>signature := 0\<rparr>"

end
