(* ===== verification/TlsfIndex.thy ===== *)
theory TlsfIndex
  imports Tlsf
begin

text \<open>
  The index of free blocks: doubly linked lists, one for each class, with the bitmaps that tell which lists are not empty. \<open>L fl sl\<close> is the
  list of a class.
\<close>

section \<open>Segments of a list\<close>

text \<open>\<open>dseg h p xs e\<close>: the blocks \<open>xs\<close> are linked, the one before the first is \<open>p\<close>, the one after the last is \<open>e\<close>.\<close>

fun dseg :: "(nat \<Rightarrow> bhdr) \<Rightarrow> nat \<Rightarrow> nat list \<Rightarrow> nat \<Rightarrow> bool" where
  "dseg h p [] e = True"
| "dseg h p (a # as) e \<longleftrightarrow> a \<noteq> 0 \<and> free_prev (h a) = p \<and> free_next (h a) = hd (as @ [e]) \<and> dseg h a as e"

lemma dseg_append: "dseg h p (xs @ ys) e \<longleftrightarrow> dseg h p xs (hd (ys @ [e])) \<and> dseg h (last (p # xs)) ys e"
proof (induction xs arbitrary: p)
  case (Cons a xs)
  have "hd ((xs @ ys) @ [e]) = hd (xs @ [hd (ys @ [e])])" by (cases xs) auto
  then show ?case using Cons by auto
qed simp

lemma dseg_frame:
  assumes "dseg h p xs e" and "\<And>a. a \<in> set xs \<Longrightarrow> free_prev (h' a) = free_prev (h a) \<and> free_next (h' a) = free_next (h a)"
  shows "dseg h' p xs e"
  using assms by (induction xs arbitrary: p) auto

lemma dseg_nonzero: "dseg h p xs e \<Longrightarrow> 0 \<notin> set xs"
  by (induction xs arbitrary: p) auto

lemma dseg_change_end:
  assumes "dseg h p xs e" and "distinct xs" and "\<And>a. a \<in> set xs \<Longrightarrow> free_prev (h' a) = free_prev (h a)"
    and "\<And>a. a \<in> set xs \<Longrightarrow> a \<noteq> last xs \<Longrightarrow> free_next (h' a) = free_next (h a)"
    and "xs \<noteq> [] \<Longrightarrow> free_next (h' (last xs)) = e'"
  shows "dseg h' p xs e'"
  using assms
proof (induction xs arbitrary: p)
  case (Cons a xs)
  show ?case
  proof (cases xs)
    case Nil
    then show ?thesis using Cons.prems by simp
  next
    case (Cons b ys)
    then have "last (a # xs) = last xs" "a \<noteq> last xs" using Cons.prems(2) by auto
    moreover have "dseg h' a xs e'" using Cons.prems Cons calculation by (intro Cons.IH) auto
    ultimately show ?thesis using Cons.prems Cons by auto
  qed
qed simp

lemma dseg_change_start:
  assumes "dseg h p xs e" and "distinct xs" and "\<And>a. a \<in> set xs \<Longrightarrow> free_next (h' a) = free_next (h a)"
    and "\<And>a. a \<in> set xs \<Longrightarrow> a \<noteq> hd xs \<Longrightarrow> free_prev (h' a) = free_prev (h a)"
    and "xs \<noteq> [] \<Longrightarrow> free_prev (h' (hd xs)) = p'"
  shows "dseg h' p' xs e"
proof (cases xs)
  case (Cons a ys)
  have "dseg h' a ys e"
    by (rule dseg_frame [of h]) (use assms Cons in auto)
  then show ?thesis using assms Cons by auto
qed simp

section \<open>The invariant of the index\<close>

text \<open>What insertions and extractions do not touch.\<close>

definition same_blocks :: "tlsf \<Rightarrow> tlsf \<Rightarrow> bool" where
  "same_blocks t t' \<longleftrightarrow> used_size t' = used_size t \<and> max_size t' = max_size t \<and>
     (\<forall>a. bsize (hdr t' a) = bsize (hdr t a) \<and> is_free (hdr t' a) = is_free (hdr t a) \<and>
       prev_free (hdr t' a) = prev_free (hdr t a) \<and> prev_hdr (hdr t' a) = prev_hdr (hdr t a))"

lemma same_blocks_refl: "same_blocks t t"
  by (simp add: same_blocks_def)

lemma same_blocks_trans: "same_blocks t u \<Longrightarrow> same_blocks u v \<Longrightarrow> same_blocks t v"
  by (simp add: same_blocks_def)

definition list_ok :: "tlsf \<Rightarrow> nat \<Rightarrow> nat \<Rightarrow> nat list \<Rightarrow> bool" where
  "list_ok t f s xs \<longleftrightarrow> dseg (hdr t) 0 xs 0 \<and> distinct xs \<and> matrix t f s = hd (xs @ [0]) \<and> (bit (sl_bitmap t f) s \<longleftrightarrow> xs \<noteq> [])"

definition index_ok :: "tlsf \<Rightarrow> (nat \<Rightarrow> nat \<Rightarrow> nat list) \<Rightarrow> bool" where
  "index_ok t L \<longleftrightarrow> (\<forall>f < REAL_FLI. \<forall>s < MAX_SLI. list_ok t f s (L f s)) \<and>
     (\<forall>f < REAL_FLI. bit (fl_bitmap t) f \<longleftrightarrow> sl_bitmap t f \<noteq> 0) \<and> (\<forall>f \<ge> REAL_FLI. \<not> bit (fl_bitmap t) f) \<and>
     (\<forall>f s. \<forall>a \<in> set (L f s). mapping (bsize (hdr t a)) = Some (f, s))"

definition members :: "(nat \<Rightarrow> nat \<Rightarrow> nat list) \<Rightarrow> nat set" where
  "members L = {a. \<exists>f s. a \<in> set (L f s)}"

lemma mapping_range: "mapping n = Some (f, s) \<Longrightarrow> f < REAL_FLI \<and> s < MAX_SLI"
  by (auto simp: mapping_def split: option.splits if_splits)

lemma index_okD:
  assumes "index_ok t L" and "f < REAL_FLI" and "s < MAX_SLI"
  shows "dseg (hdr t) 0 (L f s) 0" and "distinct (L f s)" and "matrix t f s = hd (L f s @ [0])"
    and "bit (sl_bitmap t f) s \<longleftrightarrow> L f s \<noteq> []"
  using assms by (simp_all add: index_ok_def list_ok_def)

lemma index_ok_class: "index_ok t L \<Longrightarrow> a \<in> set (L f s) \<Longrightarrow> mapping (bsize (hdr t a)) = Some (f, s)"
  by (simp add: index_ok_def)

lemma members_nonzero:
  assumes "index_ok t L" and "a \<in> members L"
  shows "a \<noteq> 0"
proof -
  obtain f s where a: "a \<in> set (L f s)" using assms(2) by (auto simp: members_def)
  have "f < REAL_FLI" "s < MAX_SLI" using mapping_range [OF index_ok_class [OF assms(1) a]] by simp_all
  from dseg_nonzero [OF index_okD(1) [OF assms(1) this]] a show ?thesis by metis
qed

text \<open>A change of one list: the bits of the other lists stay, the headers of their blocks too.\<close>

lemma index_ok_change:
  assumes "index_ok t L" and "f < REAL_FLI" and "s < MAX_SLI" and "same_blocks t t'" and "list_ok t' f s xs"
    and "\<And>f' s' a. (f', s') \<noteq> (f, s) \<Longrightarrow> a \<in> set (L f' s') \<Longrightarrow> hdr t' a = hdr t a"
    and "\<And>f' s'. (f', s') \<noteq> (f, s) \<Longrightarrow> matrix t' f' s' = matrix t f' s' \<and> bit (sl_bitmap t' f') s' = bit (sl_bitmap t f') s'"
    and "\<And>f'. f' < REAL_FLI \<Longrightarrow> bit (fl_bitmap t') f' \<longleftrightarrow> sl_bitmap t' f' \<noteq> 0" and "\<And>f'. f' \<ge> REAL_FLI \<Longrightarrow> \<not> bit (fl_bitmap t') f'"
    and "\<And>a. a \<in> set xs \<Longrightarrow> mapping (bsize (hdr t a)) = Some (f, s)"
  shows "index_ok t' (L(f := (L f)(s := xs)))"
proof -
  let ?L = "L(f := (L f)(s := xs))"
  have "list_ok t' f' s' (?L f' s')" if "f' < REAL_FLI" "s' < MAX_SLI" for f' s'
  proof (cases "(f', s') = (f, s)")
    case False
    then have L: "?L f' s' = L f' s'" by auto
    have "dseg (hdr t') 0 (L f' s') 0"
      by (rule dseg_frame [OF index_okD(1) [OF assms(1) that]]) (use assms(6) [OF False] in simp)
    then show ?thesis using index_okD [OF assms(1) that] assms(7) [OF False] unfolding L by (simp add: list_ok_def)
  qed (use assms(5) in simp)
  moreover have "mapping (bsize (hdr t' a)) = Some (f', s')" if "a \<in> set (?L f' s')" for a f' s'
  proof (cases "(f', s') = (f, s)")
    case True
    then show ?thesis using that assms(4,10) by (simp add: same_blocks_def)
  next
    case False
    then have "a \<in> set (L f' s')" using that by (auto split: if_splits)
    then show ?thesis using index_ok_class [OF assms(1)] assms(4) by (simp add: same_blocks_def)
  qed
  ultimately show ?thesis using assms(8,9) unfolding index_ok_def by blast
qed
lemma bit_set_bit: "s < 32 \<Longrightarrow> bit (set_bit s w) j \<longleftrightarrow> j = s \<or> bit w j"
  by (auto simp: set_bit_def bit_simps)

lemma bit_clear_bit: "s < 32 \<Longrightarrow> bit (clear_bit s w) j \<longleftrightarrow> bit w j \<and> j \<noteq> s"
  by (auto simp: clear_bit_def bit_simps dest: bit_imp_le_length)

lemma set_bit_nonzero: "s < 32 \<Longrightarrow> set_bit s w \<noteq> 0"
  using bit_set_bit [of s w s] by auto

section \<open>Insertion\<close>

definition insert_in :: "nat \<Rightarrow> nat \<Rightarrow> nat \<Rightarrow> (nat \<Rightarrow> nat \<Rightarrow> nat list) \<Rightarrow> nat \<Rightarrow> nat \<Rightarrow> nat list" where
  "insert_in b f s L = L(f := (L f)(s := b # L f s))"

definition remove_from :: "nat \<Rightarrow> nat \<Rightarrow> nat \<Rightarrow> (nat \<Rightarrow> nat \<Rightarrow> nat list) \<Rightarrow> nat \<Rightarrow> nat \<Rightarrow> nat list" where
  "remove_from b f s L = L(f := (L f)(s := remove1 b (L f s)))"

lemma same_blocks_upd:
  assumes "\<And>h. bsize (g h) = bsize h \<and> is_free (g h) = is_free h \<and> prev_free (g h) = prev_free h \<and> prev_hdr (g h) = prev_hdr h"
  shows "same_blocks t (upd a g t)"
  using assms by (simp add: same_blocks_def upd_def)

lemma INSERT_BLOCK_ok:
  assumes "index_ok t L" and "b \<noteq> 0" and "b \<notin> members L" and "mapping (bsize (hdr t b)) = Some (f, s)"
  shows "index_ok (INSERT_BLOCK b f s t) (insert_in b f s L)" and "same_blocks t (INSERT_BLOCK b f s t)"
proof -
  have r: "f < REAL_FLI" "s < MAX_SLI" "f < 32" "s < 32" using mapping_range [OF assms(4)] by (simp_all add: REAL_FLI_def MAX_SLI_def)
  let ?xs = "L f s" and ?t' = "INSERT_BLOCK b f s t" and ?m = "matrix t f s"
  have xs: "dseg (hdr t) 0 ?xs 0" "distinct ?xs" "?m = hd (?xs @ [0])" "bit (sl_bitmap t f) s \<longleftrightarrow> ?xs \<noteq> []"
    using index_okD [OF assms(1) r(1,2)] by simp_all
  have b: "b \<notin> set ?xs" using assms(3) by (auto simp: members_def)
  have m: "?m \<noteq> 0 \<longleftrightarrow> ?xs \<noteq> []" "?xs \<noteq> [] \<Longrightarrow> ?m = hd ?xs"
    using xs(1,3) dseg_nonzero [OF xs(1)] by (cases ?xs; simp)+
  have "?m \<noteq> b" using m b assms(2) by (metis hd_in_set)
  have hdr: "hdr ?t' = (if ?xs = [] then (hdr t)(b := (hdr t b)\<lparr>free_prev := 0, free_next := ?m\<rparr>)
      else (hdr t)(b := (hdr t b)\<lparr>free_prev := 0, free_next := ?m\<rparr>, ?m := (hdr t ?m)\<lparr>free_prev := b\<rparr>))"
    using m(1) \<open>?m \<noteq> b\<close> by (auto simp: INSERT_BLOCK_def Let_def upd_def set_matrix_def)
  have other: "matrix ?t' f' s' = (if (f', s') = (f, s) then b else matrix t f' s')"
    "sl_bitmap ?t' f' = (if f' = f then set_bit s (sl_bitmap t f) else sl_bitmap t f')"
    "fl_bitmap ?t' = set_bit f (fl_bitmap t)" for f' s'
    by (auto simp: INSERT_BLOCK_def Let_def upd_def set_matrix_def)
  show same: "same_blocks t ?t'"
    by (auto simp: same_blocks_def INSERT_BLOCK_def Let_def upd_def set_matrix_def)
  show "index_ok ?t' (insert_in b f s L)" unfolding insert_in_def
  proof (rule index_ok_change [OF assms(1) r(1,2) same])
    have "dseg (hdr ?t') b ?xs 0"
    proof (rule dseg_change_start [OF xs(1,2)])
      show "free_next (hdr ?t' a) = free_next (hdr t a)" if "a \<in> set ?xs" for a using that b by (auto simp: hdr)
      show "free_prev (hdr ?t' a) = free_prev (hdr t a)" if "a \<in> set ?xs" "a \<noteq> hd ?xs" for a
        using that b m by (auto simp: hdr)
      show "free_prev (hdr ?t' (hd ?xs)) = b" if "?xs \<noteq> []" using that m by (simp add: hdr)
    qed
    moreover have "free_prev (hdr ?t' b) = 0 \<and> free_next (hdr ?t' b) = hd (?xs @ [0])"
      using \<open>?m \<noteq> b\<close> xs(3) by (auto simp: hdr)
    ultimately show "list_ok ?t' f s (b # ?xs)"
      using assms(2) b xs(2) r(4) by (simp add: list_ok_def other bit_set_bit)
    show "hdr ?t' a = hdr t a" if "(f', s') \<noteq> (f, s)" "a \<in> set (L f' s')" for f' s' a
    proof -
      have "a \<noteq> b" using that(2) assms(3) by (auto simp: members_def)
      moreover have "a \<notin> set ?xs" using index_ok_class [OF assms(1) that(2)] index_ok_class [OF assms(1), of a f s] that(1) by auto
      ultimately show ?thesis using m by (auto simp: hdr)
    qed
    show "matrix ?t' f' s' = matrix t f' s' \<and> bit (sl_bitmap ?t' f') s' = bit (sl_bitmap t f') s'" if "(f', s') \<noteq> (f, s)" for f' s'
      using that r(4) by (auto simp: other bit_set_bit)
    show "bit (fl_bitmap ?t') f' \<longleftrightarrow> sl_bitmap ?t' f' \<noteq> 0" if "f' < REAL_FLI" for f'
      using that assms(1) r(3,4) by (auto simp: other bit_set_bit set_bit_nonzero index_ok_def)
    show "\<not> bit (fl_bitmap ?t') f'" if "f' \<ge> REAL_FLI" for f'
      using that assms(1) r(1,3) by (auto simp: other bit_set_bit index_ok_def)
    show "mapping (bsize (hdr t a)) = Some (f, s)" if "a \<in> set (b # ?xs)" for a
      using that assms(4) index_ok_class [OF assms(1)] by auto
  qed
qed

lemma members_insert: "members (insert_in b f s L) = insert b (members L)"
  by (auto simp: members_def insert_in_def split: if_splits)

section \<open>Extraction\<close>

lemma clear_class_fields:
  "hdr (clear_class f s t) = hdr t" "matrix (clear_class f s t) = matrix t" "used_size (clear_class f s t) = used_size t"
  "max_size (clear_class f s t) = max_size t"
  "sl_bitmap (clear_class f s t) f' = (if f' = f then clear_bit s (sl_bitmap t f) else sl_bitmap t f')"
  "fl_bitmap (clear_class f s t) = (if clear_bit s (sl_bitmap t f) = 0 then clear_bit f (fl_bitmap t) else fl_bitmap t)"
  by (simp_all add: clear_class_def Let_def)

lemma EXTRACT_BLOCK_ok:
  assumes "index_ok t L" and "b \<in> set (L f s)"
  shows "index_ok (EXTRACT_BLOCK b f s t) (remove_from b f s L)" and "same_blocks t (EXTRACT_BLOCK b f s t)"
proof -
  have map: "mapping (bsize (hdr t b)) = Some (f, s)" by (rule index_ok_class [OF assms])
  have r: "f < REAL_FLI" "s < MAX_SLI" "f < 32" "s < 32" using mapping_range [OF map] by (simp_all add: REAL_FLI_def MAX_SLI_def)
  obtain xs ys where L: "L f s = xs @ b # ys" using split_list [OF assms(2)] by blast
  let ?t' = "EXTRACT_BLOCK b f s t"
  define n where "n = hd (ys @ [0])"
  define p where "p = last (0 # xs)"
  have old: "dseg (hdr t) 0 (xs @ b # ys) 0" "distinct (xs @ b # ys)" "matrix t f s = hd (xs @ [b])"
    using index_okD [OF assms(1) r(1,2)] L by (simp_all add: hd_append)
  have segs: "dseg (hdr t) 0 xs b" "dseg (hdr t) b ys 0" "b \<noteq> 0" "free_prev (hdr t b) = p" "free_next (hdr t b) = n"
    using old(1) by (simp_all add: dseg_append n_def p_def)
  have nz: "0 \<notin> set xs" "0 \<notin> set ys" using dseg_nonzero [OF segs(1)] dseg_nonzero [OF segs(2)] by simp_all
  have n: "n \<noteq> 0 \<longleftrightarrow> ys \<noteq> []" "ys \<noteq> [] \<Longrightarrow> n = hd ys" "n \<noteq> 0 \<Longrightarrow> n \<in> set ys"
    using nz(2) by (cases ys; auto simp: n_def)+
  have p: "p \<noteq> 0 \<longleftrightarrow> xs \<noteq> []" "xs \<noteq> [] \<Longrightarrow> p = last xs" "p \<noteq> 0 \<Longrightarrow> p \<in> set xs"
  proof -
    have "xs \<noteq> [] \<Longrightarrow> last xs \<noteq> 0" using nz(1) last_in_set by metis
    then show "p \<noteq> 0 \<longleftrightarrow> xs \<noteq> []" "xs \<noteq> [] \<Longrightarrow> p = last xs" "p \<noteq> 0 \<Longrightarrow> p \<in> set xs"
      by (auto simp: p_def split: if_splits)
  qed
  have apart: "b \<noteq> n" "b \<noteq> p" "n \<noteq> 0 \<Longrightarrow> p \<noteq> n" using n(3) p(3) old(2) segs(3) by (cases "n = 0"; cases "p = 0"; auto)+
  have first: "matrix t f s = b \<longleftrightarrow> xs = []" using old(2,3) by (cases xs) auto
  have hdr: "free_prev (hdr ?t' a) = (if a = b then 0 else if a = n \<and> n \<noteq> 0 then p else free_prev (hdr t a))"
    "free_next (hdr ?t' a) = (if a = b then 0 else if a = p \<and> p \<noteq> 0 then n else free_next (hdr t a))" for a
    using apart segs(4,5) by (auto simp: EXTRACT_BLOCK_def Let_def upd_def set_matrix_def clear_class_fields)
  have keep: "hdr ?t' a = hdr t a" if "a \<noteq> b" "a \<notin> set xs" "a \<notin> set ys" for a
    using that n(3) p(3) segs(4,5) by (auto simp: EXTRACT_BLOCK_def Let_def upd_def set_matrix_def clear_class_fields)
  have matrix: "matrix ?t' f' s' = (if (f', s') = (f, s) then hd ((xs @ ys) @ [0]) else matrix t f' s')" for f' s'
    using first segs(5) old(3) by (auto simp: EXTRACT_BLOCK_def Let_def upd_def set_matrix_def clear_class_fields n_def hd_append)
  have clear: "xs = [] \<and> ys = [] \<longleftrightarrow> xs @ ys = []" by simp
  have bits: "sl_bitmap ?t' f' = (if f' = f \<and> xs @ ys = [] then clear_bit s (sl_bitmap t f) else sl_bitmap t f')"
    "fl_bitmap ?t' = (if xs @ ys = [] \<and> clear_bit s (sl_bitmap t f) = 0 then clear_bit f (fl_bitmap t) else fl_bitmap t)" for f'
    using first segs(5) n(1) by (auto simp: EXTRACT_BLOCK_def Let_def upd_def set_matrix_def clear_class_fields)
  show same: "same_blocks t ?t'"
    by (auto simp: same_blocks_def EXTRACT_BLOCK_def Let_def upd_def set_matrix_def clear_class_fields)
  have rem: "remove_from b f s L = L(f := (L f)(s := xs @ ys))"
    using old(2) by (simp add: remove_from_def L remove1_append)
  show "index_ok ?t' (remove_from b f s L)" unfolding rem
  proof (rule index_ok_change [OF assms(1) r(1,2) same])
    have d: "distinct xs" "distinct ys" "b \<notin> set xs" "b \<notin> set ys" "\<And>a. a \<in> set xs \<Longrightarrow> a \<notin> set ys" using old(2) by auto
    have "dseg (hdr ?t') 0 xs n"
    proof (rule dseg_change_end [OF segs(1) d(1)])
      show "free_prev (hdr ?t' a) = free_prev (hdr t a)" if "a \<in> set xs" for a
        using that d(3) d(5) [OF that] n(3) by (auto simp: hdr)
      show "free_next (hdr ?t' a) = free_next (hdr t a)" if "a \<in> set xs" "a \<noteq> last xs" for a
        using that d(3) p(1,2) by (auto simp: hdr)
      show "free_next (hdr ?t' (last xs)) = n" if "xs \<noteq> []"
        using that apart(2) p(1,2) by (auto simp: hdr)
    qed
    moreover have "dseg (hdr ?t') p ys 0"
    proof (rule dseg_change_start [OF segs(2) d(2)])
      show "free_next (hdr ?t' a) = free_next (hdr t a)" if "a \<in> set ys" for a
        using that d(4,5) p(3) by (auto simp: hdr)
      show "free_prev (hdr ?t' a) = free_prev (hdr t a)" if "a \<in> set ys" "a \<noteq> hd ys" for a
        using that d(4) n(1,2) by (auto simp: hdr)
      show "free_prev (hdr ?t' (hd ys)) = p" if "ys \<noteq> []"
        using that apart(1) n(1,2) by (auto simp: hdr)
    qed
    moreover have "bit (sl_bitmap t f) s" using index_okD(4) [OF assms(1) r(1,2)] L by simp
    ultimately show "list_ok ?t' f s (xs @ ys)"
      using old(2) r(4) by (auto simp: list_ok_def dseg_append matrix bits bit_clear_bit n_def p_def)
    show "hdr ?t' a = hdr t a" if "(f', s') \<noteq> (f, s)" "a \<in> set (L f' s')" for f' s' a
    proof -
      have "a \<notin> set (L f s)" using index_ok_class [OF assms(1) that(2)] index_ok_class [OF assms(1), of a f s] that(1) by auto
      then show ?thesis using L by (intro keep) auto
    qed
    show "matrix ?t' f' s' = matrix t f' s' \<and> bit (sl_bitmap ?t' f') s' = bit (sl_bitmap t f') s'" if "(f', s') \<noteq> (f, s)" for f' s'
      using that r(4) by (auto simp: matrix bits bit_clear_bit)
    have "sl_bitmap t f \<noteq> 0" using index_okD(4) [OF assms(1) r(1,2)] L by auto
    then show "bit (fl_bitmap ?t') f' \<longleftrightarrow> sl_bitmap ?t' f' \<noteq> 0" if "f' < REAL_FLI" for f'
      using that assms(1) r(1,3,4) by (auto simp: bits bit_clear_bit index_ok_def)
    show "\<not> bit (fl_bitmap ?t') f'" if "f' \<ge> REAL_FLI" for f'
      using that assms(1) r(3) by (auto simp: bits bit_clear_bit index_ok_def)
    show "mapping (bsize (hdr t a)) = Some (f, s)" if "a \<in> set (xs @ ys)" for a
      using that index_ok_class [OF assms(1), of a f s] L by auto
  qed
qed

lemma EXTRACT_BLOCK_HDR_eq:
  assumes "index_ok t L" and "L f s = b # ys"
  shows "EXTRACT_BLOCK_HDR b f s t = EXTRACT_BLOCK b f s t"
proof -
  have b: "b \<in> set (L f s)" using assms(2) by simp
  have r: "f < REAL_FLI" "s < MAX_SLI" using mapping_range [OF index_ok_class [OF assms(1) b]] by simp_all
  have "matrix t f s = b" "free_prev (hdr t b) = 0"
    using index_okD [OF assms(1) r] assms(2) by simp_all
  then show ?thesis
    by (auto simp: EXTRACT_BLOCK_HDR_def EXTRACT_BLOCK_def Let_def upd_def set_matrix_def)
qed

lemma members_remove:
  assumes "index_ok t L" and "b \<in> set (L f s)"
  shows "members (remove_from b f s L) = members L - {b}"
proof -
  have r: "f < REAL_FLI" "s < MAX_SLI" using mapping_range [OF index_ok_class [OF assms]] by simp_all
  have "b \<notin> set (L f' s')" if "(f', s') \<noteq> (f, s)" for f' s'
    using index_ok_class [OF assms] index_ok_class [OF assms(1), of b f' s'] that by auto
  then have "set (remove_from b f s L f' s') = set (L f' s') - {b}" for f' s'
    using index_okD(2) [OF assms(1) r] by (auto simp: remove_from_def)
  then show ?thesis by (auto simp: members_def)
qed

end
