(* ===== verification/TlsfChain.thy ===== *)
theory TlsfChain
  imports TlsfIndex
begin

text \<open>
  What the search in the index returns, and the physical order of the blocks: each block ends where the next one begins, the flag for a free
  predecessor and the pointer back to it are right, and two free blocks never touch.
\<close>

section \<open>The search\<close>

lemma bit_from: "bit ((w :: u32) AND push_bit s (NOT 0)) j \<longleftrightarrow> bit w j \<and> s \<le> j"
  by (auto simp: bit_simps dest: bit_imp_le_length)

text \<open>The search returns the head of a list of the requested class or of a higher one, or the null pointer when all of these are empty.\<close>

lemma FIND_SUITABLE_BLOCK_spec:
  assumes "index_ok t L" and "f < REAL_FLI" and "s < MAX_SLI" and "FIND_SUITABLE_BLOCK f s t = (b, f', s')"
  shows "if b = 0 then \<forall>g u. g < REAL_FLI \<and> u < MAX_SLI \<and> class_le (f, s) (g, u) \<longrightarrow> L g u = []
    else f' < REAL_FLI \<and> s' < MAX_SLI \<and> class_le (f, s) (f', s') \<and> (\<exists>ys. L f' s' = b # ys)"
proof -
  have head: "\<exists>ys. L g u = matrix t g u # ys \<and> matrix t g u \<noteq> 0" if "g < REAL_FLI" "u < MAX_SLI" "bit (sl_bitmap t g) u" for g u
  proof -
    have "L g u \<noteq> []" using index_okD(4) [OF assms(1) that(1,2)] that(3) by simp
    then obtain a ys where "L g u = a # ys" by (meson neq_Nil_conv)
    then show ?thesis using index_okD(1,3) [OF assms(1) that(1,2)] by simp
  qed
  let ?tmp = "sl_bitmap t f AND push_bit s (NOT 0)"
  let ?up = "fl_bitmap t AND push_bit (f + 1) (NOT 0)"
  have sl: "L g u = []" if "g < REAL_FLI" "u < MAX_SLI" "\<not> bit (sl_bitmap t g) u" for g u
    using index_okD(4) [OF assms(1) that(1,2)] that(3) by simp
  show ?thesis
  proof (cases "?tmp = 0")
    case False
    obtain k where k: "k < 32" "ls_bit ?tmp = int k" "bit ?tmp k" using ls_bit_spec [OF False] by blast
    have r: "b = matrix t f k" "f' = f" "s' = k" using assms(4) False
      by (auto simp only: FIND_SUITABLE_BLOCK_def Let_def k(2) nat_int if_True simp_thms prod.inject)
    have bits: "bit (sl_bitmap t f) k" "s \<le> k" using k(3) unfolding bit_from by simp_all
    show ?thesis using head [OF assms(2) _ bits(1)] k(1) bits(2) assms(2) r by (auto simp: MAX_SLI_def class_le_def)
  next
    case tmp: True
    have here: "L f u = []" if "u < MAX_SLI" "s \<le> u" for u
    proof -
      have "\<not> bit ?tmp u" unfolding tmp by simp
      then show ?thesis using that(2) sl [OF assms(2) that(1)] unfolding bit_from by blast
    qed
    show ?thesis
    proof (cases "?up = 0")
      case True
      have "L g u = []" if "g < REAL_FLI" "u < MAX_SLI" "f < g" for g u
      proof -
        have "\<not> bit ?up g" unfolding True by simp
        then have "\<not> bit (fl_bitmap t) g" using that(3) unfolding bit_from by simp
        then have "sl_bitmap t g = 0" using assms(1) that(1) by (simp add: index_ok_def)
        then show ?thesis using sl [OF that(1,2)] by simp
      qed
      moreover have "b = 0" using assms(4) tmp True by (simp add: FIND_SUITABLE_BLOCK_def Let_def)
      ultimately show ?thesis using here by (auto simp: class_le_def)
    next
      case False
      obtain k where k: "k < 32" "ls_bit ?up = int k" "bit ?up k" using ls_bit_spec [OF False] by blast
      have bits: "bit (fl_bitmap t) k" "f < k" using k(3) unfolding bit_from by simp_all
      have "k < REAL_FLI" using bits(1) assms(1) by (meson index_ok_def leI)
      then have "sl_bitmap t k \<noteq> 0" using bits(1) assms(1) by (simp add: index_ok_def)
      then obtain j where j: "j < 32" "ls_bit (sl_bitmap t k) = int j" "bit (sl_bitmap t k) j" using ls_bit_spec by blast
      have "b = matrix t k j" "f' = k" "s' = j"
        using assms(4) bits(2) by (simp_all only: FIND_SUITABLE_BLOCK_def Let_def tmp k(2) j(2) nat_int simp_thms if_False) auto
      then show ?thesis using head [OF \<open>k < REAL_FLI\<close> _ j(3)] j(1) \<open>k < REAL_FLI\<close> bits(2) by (auto simp: MAX_SLI_def class_le_def)
    qed
  qed
qed

section \<open>The physical order\<close>

text \<open>A block at \<open>a\<close> that ends at the block \<open>n\<close>.\<close>

definition link :: "(nat \<Rightarrow> bhdr) \<Rightarrow> nat \<Rightarrow> nat \<Rightarrow> bool" where
  "link h a n \<longleftrightarrow> 0 < a \<and> 16 \<le> bsize (h a) \<and> 16 dvd bsize (h a) \<and> n = a + 16 + bsize (h a) \<and> prev_free (h n) = is_free (h a) \<and>
     (is_free (h a) \<longrightarrow> prev_hdr (h n) = a)"

fun pseg :: "(nat \<Rightarrow> bhdr) \<Rightarrow> nat list \<Rightarrow> nat \<Rightarrow> bool" where
  "pseg h [] e = True"
| "pseg h (a # as) e \<longleftrightarrow> link h a (hd (as @ [e])) \<and> pseg h as e"

lemma pseg_append: "pseg h (xs @ ys) e \<longleftrightarrow> pseg h xs (hd (ys @ [e])) \<and> pseg h ys e"
proof (induction xs)
  case (Cons a xs)
  have "hd ((xs @ ys) @ [e]) = hd (xs @ [hd (ys @ [e])])" by (cases xs) auto
  then show ?case using Cons by auto
qed simp

lemma pseg_bounds: "pseg h xs e \<Longrightarrow> a \<in> set xs \<Longrightarrow> hd (xs @ [e]) \<le> a \<and> a + 16 + bsize (h a) \<le> e"
proof (induction xs arbitrary: a)
  case (Cons b xs)
  have b: "b + 16 + bsize (h b) = hd (xs @ [e])" "pseg h xs e" using Cons.prems(1) by (simp_all add: link_def)
  have "hd (xs @ [e]) \<le> e"
  proof (cases xs)
    case (Cons c ys)
    then show ?thesis using Cons.IH [OF b(2), of c] by simp
  qed simp
  then show ?case using Cons.IH [OF b(2)] Cons.prems(2) b(1) by fastforce
qed simp

lemma pseg_hd_le: "pseg h xs e \<Longrightarrow> hd (xs @ [e]) \<le> e"
  using pseg_bounds [of h xs e "hd xs"] by (cases xs) auto

lemma pseg_distinct: "pseg h xs e \<Longrightarrow> distinct xs"
proof (induction xs)
  case (Cons b xs)
  have b: "b + 16 + bsize (h b) = hd (xs @ [e])" "pseg h xs e" using Cons.prems by (simp_all add: link_def)
  then have "b \<notin> set xs" using pseg_bounds [OF b(2), of b] by auto
  then show ?case using Cons.IH [OF b(2)] by simp
qed simp

lemma pseg_block: "pseg h xs e \<Longrightarrow> a \<in> set xs \<Longrightarrow> 0 < a \<and> 16 \<le> bsize (h a) \<and> 16 dvd bsize (h a)"
  by (induction xs) (auto simp: link_def)

text \<open>
  The fields of a header that the physical order depends on. Those of the block behind a segment are the flag and the pointer back; the
  pointer back counts when the flag is set.
\<close>

definition same_back :: "bhdr \<Rightarrow> bhdr \<Rightarrow> bool" where
  "same_back h h' \<longleftrightarrow> prev_free h' = prev_free h \<and> (prev_free h \<longrightarrow> prev_hdr h' = prev_hdr h)"

definition same_size :: "bhdr \<Rightarrow> bhdr \<Rightarrow> bool" where
  "same_size h h' \<longleftrightarrow> bsize h' = bsize h \<and> is_free h' = is_free h"

lemma same_refl [simp]: "same_back h h" "same_size h h"
  by (simp_all add: same_back_def same_size_def)

lemma link_frame: "same_size (h a) (h' a) \<Longrightarrow> same_back (h n) (h' n) \<Longrightarrow> link h' a n \<longleftrightarrow> link h a n"
  by (auto simp: link_def same_size_def same_back_def)

lemma pseg_frame:
  assumes "pseg h xs e" and "\<And>a. a \<in> set xs \<Longrightarrow> same_size (h a) (h' a)"
    and "\<And>a. a \<in> set (tl xs @ [e]) \<Longrightarrow> same_back (h a) (h' a)"
  shows "pseg h' xs e"
  using assms
proof (induction xs)
  case (Cons a xs)
  have "same_back (h (hd (xs @ [e]))) (h' (hd (xs @ [e])))" using Cons.prems(3) by (cases xs) auto
  moreover have "same_back (h c) (h' c)" if "c \<in> set (tl xs @ [e])" for c
    using that Cons.prems(3) by (cases xs) auto
  ultimately show ?case using Cons link_frame [of h a h'] by simp
qed simp

section \<open>A gap in the order\<close>

text \<open>
  The blocks \<open>xs\<close> end at \<open>b\<close>, the blocks \<open>ys\<close> follow a gap behind \<open>b\<close> up to the sentinel \<open>e\<close>. An operation opens a gap, changes the
  block there and closes the gap.
\<close>

abbreviation apart :: "(nat \<Rightarrow> bhdr) \<Rightarrow> nat \<Rightarrow> nat \<Rightarrow> bool" where
  "apart h a b \<equiv> \<not> (is_free (h a) \<and> is_free (h b))"

definition gap :: "(nat \<Rightarrow> bhdr) \<Rightarrow> nat list \<Rightarrow> nat \<Rightarrow> nat list \<Rightarrow> nat \<Rightarrow> bool" where
  "gap h xs b ys e \<longleftrightarrow> pseg h xs b \<and> pseg h ys e \<and> successively (apart h) xs \<and> successively (apart h) ys \<and>
     0 < b \<and> b + 32 \<le> hd (ys @ [e]) \<and> 16 dvd hd (ys @ [e]) - b \<and> \<not> prev_free (h (hd (xs @ [b]))) \<and>
     bsize (h e) = 0 \<and> \<not> is_free (h e) \<and> e < hd (xs @ [b]) + 2 ^ 30"

definition order_ok :: "(nat \<Rightarrow> bhdr) \<Rightarrow> nat list \<Rightarrow> nat \<Rightarrow> bool" where
  "order_ok h as e \<longleftrightarrow> pseg h as e \<and> successively (apart h) as \<and> \<not> prev_free (h (hd (as @ [e]))) \<and>
     bsize (h e) = 0 \<and> \<not> is_free (h e) \<and> e < hd (as @ [e]) + 2 ^ 30"

lemma order_open:
  assumes "order_ok h (xs @ b # ys) e"
  shows "gap h xs b ys e" and "link h b (hd (ys @ [e]))"
proof -
  have "pseg h xs b" "pseg h ys e" and l: "link h b (hd (ys @ [e]))" using assms by (simp_all add: order_ok_def pseg_append)
  then show "gap h xs b ys e" using assms
    by (auto simp: gap_def order_ok_def link_def successively_append_iff successively_Cons hd_append)
  show "link h b (hd (ys @ [e]))" by (rule l)
qed

lemma gap_close:
  assumes "gap h xs b ys e" and "link h b (hd (ys @ [e]))"
    and "is_free (h b) \<Longrightarrow> xs \<noteq> [] \<Longrightarrow> \<not> is_free (h (last xs))" and "is_free (h b) \<Longrightarrow> \<not> is_free (h (hd (ys @ [e])))"
  shows "order_ok h (xs @ b # ys) e"
  using assms unfolding order_ok_def gap_def
  by (auto simp: pseg_append successively_append_iff successively_Cons hd_append)

text \<open>The gap grows over a neighbour.\<close>

lemma gap_next:
  assumes "gap h xs b (n # ys) e"
  shows "gap h xs b ys e" and "link h n (hd (ys @ [e]))"
proof -
  have l: "link h n (hd (ys @ [e]))" using assms by (simp add: gap_def)
  then have "hd (ys @ [e]) - b = (n - b) + (16 + bsize (h n))" "b + 32 \<le> n" "16 dvd n - b" "16 dvd 16 + bsize (h n)"
    using assms by (auto simp: gap_def link_def)
  then have "16 dvd hd (ys @ [e]) - b" "b + 32 \<le> hd (ys @ [e])" using l unfolding link_def by (metis dvd_add, linarith)
  then show "gap h xs b ys e" using assms by (auto simp: gap_def successively_Cons)
  show "link h n (hd (ys @ [e]))" by (rule l)
qed

lemma gap_previous:
  assumes "gap h (xs @ [p]) b ys e"
  shows "gap h xs p ys e" and "link h p b"
proof -
  have l: "link h p b" using assms by (simp add: gap_def pseg_append)
  then have "hd (ys @ [e]) - p = (hd (ys @ [e]) - b) + (16 + bsize (h p))" "p + 32 \<le> b" "16 dvd 16 + bsize (h p)"
    "16 dvd hd (ys @ [e]) - b" "b + 32 \<le> hd (ys @ [e])"
    using assms by (auto simp: gap_def link_def)
  moreover from this have "16 dvd hd (ys @ [e]) - p" by (metis dvd_add)
  ultimately show "gap h xs p ys e" using assms l
    by (auto simp: gap_def link_def pseg_append successively_append_iff hd_append split: if_splits)
  show "link h p b" by (rule l)
qed

end
