(* ===== verification/TlsfHeap.thy ===== *)
theory TlsfHeap
  imports TlsfChain
begin

text \<open>
  The invariant of a pool, the map of the blocks in use and the steps that the operations share: opening a gap, taking a free neighbour into
  it, and closing it with a block in use, with a free block or with both.
\<close>

section \<open>Positions\<close>

lemma gap_positions:
  assumes "gap h xs b ys e"
  shows "a \<in> set xs \<Longrightarrow> a < b" and "a \<in> set (ys @ [e]) \<Longrightarrow> hd (ys @ [e]) \<le> a" and "b + 32 \<le> hd (ys @ [e])"
    and "a \<in> set (tl (ys @ [e])) \<Longrightarrow> hd (ys @ [e]) < a" and "hd (xs @ [b]) \<le> b" and "hd (ys @ [e]) \<le> e"
proof -
  have x: "pseg h xs b" and y: "pseg h ys e" and b: "b + 32 \<le> hd (ys @ [e])" using assms by (simp_all add: gap_def)
  show "a < b" if "a \<in> set xs" using pseg_bounds [OF x that] by simp
  show "hd (ys @ [e]) \<le> a" if "a \<in> set (ys @ [e])" using pseg_bounds [OF y] pseg_hd_le [OF y] that by auto
  show "b + 32 \<le> hd (ys @ [e])" by (rule b)
  show "hd (ys @ [e]) < a" if "a \<in> set (tl (ys @ [e]))"
  proof (cases ys)
    case (Cons c zs)
    have l: "link h c (hd (zs @ [e]))" and z: "pseg h zs e" using y Cons by simp_all
    have "hd (zs @ [e]) \<le> a" using pseg_bounds [OF z] pseg_hd_le [OF z] that Cons by auto
    then show ?thesis using l Cons by (simp add: link_def)
  qed (use that in simp)
  show "hd (xs @ [b]) \<le> b" by (rule pseg_hd_le [OF x])
  show "hd (ys @ [e]) \<le> e" by (rule pseg_hd_le [OF y])
qed

lemma set_mono_tl: "a \<in> set (tl xs) \<Longrightarrow> a \<in> set xs"
  by (cases xs) auto

lemma gap_frame:
  assumes "gap h xs b ys e" and "\<And>a. a \<in> set (xs @ ys @ [e]) \<Longrightarrow> same_size (h a) (h' a)"
    and "\<And>a. a \<in> set (xs @ [b]) \<union> set (tl (ys @ [e])) \<Longrightarrow> same_back (h a) (h' a)"
  shows "gap h' xs b ys e"
proof -
  have "pseg h' xs b" by (rule pseg_frame [of h]) (use assms in \<open>auto simp: gap_def dest: set_mono_tl\<close>)
  moreover have "pseg h' ys e"
  proof (cases ys)
    case (Cons c zs)
    then have tl: "tl (ys @ [e]) = tl ys @ [e]" by simp
    have "pseg h ys e" using assms(1) by (simp add: gap_def)
    then show ?thesis by (rule pseg_frame) (use assms(2,3) tl in auto)
  qed simp
  moreover have "successively (apart h') zs" if "successively (apart h) zs" "set zs \<subseteq> set (xs @ ys)" for zs
    by (rule successively_mono [OF that(1)]) (use assms(2) that(2) in \<open>auto simp: same_size_def\<close>)
  moreover have "prev_free (h' (hd (xs @ [b]))) = prev_free (h (hd (xs @ [b])))"
    using assms(3) [of "hd (xs @ [b])"] by (cases xs) (auto simp: same_back_def)
  moreover have "same_size (h e) (h' e)" using assms(2) by simp
  ultimately show ?thesis using assms(1) by (simp add: gap_def same_size_def)
qed

lemma gap_upd:
  assumes "gap (hdr t) xs b ys e" and "a \<in> set (xs @ ys @ [e]) \<Longrightarrow> same_size (hdr t a) (g (hdr t a))"
    and "a \<in> set (xs @ [b]) \<union> set (tl (ys @ [e])) \<Longrightarrow> same_back (hdr t a) (g (hdr t a))"
  shows "gap (hdr (upd a g t)) xs b ys e"
  by (rule gap_frame [OF assms(1)]) (use assms(2,3) in \<open>auto simp: upd_def\<close>)

lemma same_blocksD:
  assumes "same_blocks t t'"
  shows "same_size (hdr t a) (hdr t' a)" and "same_back (hdr t a) (hdr t' a)"
  using assms by (simp_all add: same_blocks_def same_size_def same_back_def)

lemma gap_same: "gap (hdr t) xs b ys e \<Longrightarrow> same_blocks t t' \<Longrightarrow> gap (hdr t') xs b ys e"
  by (rule gap_frame [of "hdr t"]) (simp_all only: same_blocksD)

text \<open>The changes that the operations make: to the block in the gap, to a new block inside of the gap and to the block behind.\<close>

lemma gap_upd_block:
  assumes "gap (hdr t) xs b ys e" and "same_back (hdr t b) (g (hdr t b))"
  shows "gap (hdr (upd b g t)) xs b ys e"
  by (rule gap_upd [OF assms(1)])
    (use assms(2) gap_positions(1) [OF assms(1), of b] gap_positions(2) [OF assms(1), of b] gap_positions(3) [OF assms(1)] in auto)

lemma gap_upd_inside:
  assumes "gap (hdr t) xs b ys e" and "b < a" and "a < hd (ys @ [e])"
  shows "gap (hdr (upd a g t)) xs b ys e"
proof (rule gap_upd [OF assms(1)])
  have "a \<notin> set xs" using gap_positions(1) [OF assms(1), of a] assms(2) by auto
  moreover have "a \<notin> set (ys @ [e])" using gap_positions(2) [OF assms(1), of a] assms(3) by auto
  moreover have "a \<notin> set (tl (ys @ [e]))" using gap_positions(4) [OF assms(1), of a] assms(3) by auto
  ultimately have no: "a \<notin> set (xs @ ys @ [e])" "a \<notin> set (xs @ [b]) \<union> set (tl (ys @ [e]))" using assms(2) by auto
  show "same_size (hdr t a) (g (hdr t a))" if "a \<in> set (xs @ ys @ [e])" using that no(1) by blast
  show "same_back (hdr t a) (g (hdr t a))" if "a \<in> set (xs @ [b]) \<union> set (tl (ys @ [e]))" using that no(2) by blast
qed

lemma gap_upd_next:
  assumes "gap (hdr t) xs b ys e" and "same_size (hdr t (hd (ys @ [e]))) (g (hdr t (hd (ys @ [e]))))"
  shows "gap (hdr (upd (hd (ys @ [e])) g t)) xs b ys e"
proof (rule gap_upd [OF assms(1)])
  let ?n = "hd (ys @ [e])"
  have "?n \<notin> set (xs @ [b])" using gap_positions(1) [OF assms(1), of ?n] gap_positions(3) [OF assms(1)] by auto
  moreover have "?n \<notin> set (tl (ys @ [e]))" using gap_positions(4) [OF assms(1), of ?n] by auto
  ultimately show "same_back (hdr t ?n) (g (hdr t ?n))" if "?n \<in> set (xs @ [b]) \<union> set (tl (ys @ [e]))" using that by blast
qed (rule assms(2))

lemma gap_split:
  assumes "gap h xs b ys e" and "link h b b2" and "b2 + 32 \<le> hd (ys @ [e])" and "\<not> is_free (h b)"
  shows "gap h (xs @ [b]) b2 ys e"
proof -
  have "hd (ys @ [e]) - b2 = (hd (ys @ [e]) - b) - (16 + bsize (h b))" "16 dvd hd (ys @ [e]) - b" "16 dvd 16 + bsize (h b)"
    using assms by (auto simp: gap_def link_def)
  then have "16 dvd hd (ys @ [e]) - b2" by (metis dvd_diff_nat)
  then show ?thesis using assms by (auto simp: gap_def pseg_append successively_append_iff hd_append link_def split: if_splits)
qed

section \<open>The invariant of a pool\<close>

definition free_set :: "(nat \<Rightarrow> bhdr) \<Rightarrow> nat list \<Rightarrow> nat set" where
  "free_set h as = {a \<in> set as. is_free (h a)}"

definition tlsf_ok :: "tlsf \<Rightarrow> nat list \<Rightarrow> nat \<Rightarrow> (nat \<Rightarrow> nat \<Rightarrow> nat list) \<Rightarrow> bool" where
  "tlsf_ok t as e L \<longleftrightarrow> index_ok t L \<and> order_ok (hdr t) as e \<and> members L = free_set (hdr t) as"

definition gap_ok :: "tlsf \<Rightarrow> nat list \<Rightarrow> nat \<Rightarrow> nat list \<Rightarrow> nat \<Rightarrow> (nat \<Rightarrow> nat \<Rightarrow> nat list) \<Rightarrow> bool" where
  "gap_ok t xs b ys e L \<longleftrightarrow> index_ok t L \<and> gap (hdr t) xs b ys e \<and> members L = free_set (hdr t) (xs @ ys)"

text \<open>The blocks in use with their sizes, and the bytes they take with their headers.\<close>

definition used :: "(nat \<Rightarrow> bhdr) \<Rightarrow> nat list \<Rightarrow> nat \<Rightarrow> nat option" where
  "used h as a = (if a \<in> set as \<and> \<not> is_free (h a) then Some (bsize (h a)) else None)"

definition used_bytes :: "(nat \<Rightarrow> bhdr) \<Rightarrow> nat list \<Rightarrow> nat" where
  "used_bytes h as = (\<Sum>a\<leftarrow>as. if is_free (h a) then 0 else bsize (h a) + 16)"

lemma used_bytes_append: "used_bytes h (xs @ ys) = used_bytes h xs + used_bytes h ys"
  by (simp add: used_bytes_def)

lemma used_bytes_Cons: "used_bytes h (a # xs) = (if is_free (h a) then 0 else bsize (h a) + 16) + used_bytes h xs"
  by (simp add: used_bytes_def)

lemma used_bytes_cong:
  assumes "\<And>a. a \<in> set xs \<Longrightarrow> same_size (h a) (h' a)"
  shows "used_bytes h' xs = used_bytes h xs"
  unfolding used_bytes_def using assms by (intro arg_cong [where f = sum_list] map_cong) (auto simp: same_size_def)

lemma used_cong: "(\<And>a. a \<in> set xs \<Longrightarrow> same_size (h a) (h' a)) \<Longrightarrow> used h' xs = used h xs"
  by (rule ext) (auto simp: used_def same_size_def)

lemma free_set_cong: "(\<And>a. a \<in> set xs \<Longrightarrow> same_size (h a) (h' a)) \<Longrightarrow> free_set h' xs = free_set h xs"
  by (auto simp: free_set_def same_size_def)

lemma used_block: "used h (xs @ b # ys) = (if is_free (h b) then used h (xs @ ys) else (used h (xs @ ys))(b \<mapsto> bsize (h b)))"
  by (rule ext) (auto simp: used_def)

lemma free_set_block: "free_set h (xs @ b # ys) = (if is_free (h b) then insert b (free_set h (xs @ ys)) else free_set h (xs @ ys))"
  if "b \<notin> set (xs @ ys)"
  using that by (auto simp: free_set_def)

lemma gap_fresh:
  assumes "gap h xs b ys e" and "b \<le> a" and "a < hd (ys @ [e])"
  shows "a \<notin> set (xs @ ys @ [e])"
  using gap_positions(1,2) [OF assms(1), of a] assms(2,3) by auto

section \<open>Frames of the index\<close>

lemma index_upd:
  assumes "index_ok t L"
    and "a \<in> members L \<Longrightarrow> bsize (g (hdr t a)) = bsize (hdr t a) \<and> free_prev (g (hdr t a)) = free_prev (hdr t a) \<and>
      free_next (g (hdr t a)) = free_next (hdr t a)"
  shows "index_ok (upd a g t) L"
proof -
  have same: "bsize (hdr (upd a g t) c) = bsize (hdr t c) \<and> free_prev (hdr (upd a g t) c) = free_prev (hdr t c) \<and>
    free_next (hdr (upd a g t) c) = free_next (hdr t c)" if "c \<in> set (L f s)" for c f s
    using assms(2) that by (auto simp: upd_def members_def)
  have other: "matrix (upd a g t) = matrix t" "sl_bitmap (upd a g t) = sl_bitmap t" "fl_bitmap (upd a g t) = fl_bitmap t"
    by (simp_all add: upd_def)
  have "list_ok (upd a g t) f s (L f s)" if "f < REAL_FLI" "s < MAX_SLI" for f s
    using index_okD [OF assms(1) that] dseg_frame [of "hdr t" 0 "L f s" 0 "hdr (upd a g t)"] same
    by (simp add: list_ok_def other)
  then show ?thesis using assms(1) same unfolding index_ok_def other by simp
qed

lemma index_stat [simp]: "index_ok (t\<lparr>used_size := u\<rparr>) L = index_ok t L" "index_ok (t\<lparr>max_size := m\<rparr>) L = index_ok t L"
  by (simp_all add: index_ok_def list_ok_def)

lemma mapping_Some:
  assumes "n < 2 ^ 30"
  obtains f s where "mapping n = Some (f, s)" and "class_low f s \<le> n" and "n < class_low f s + class_width f"
  using mapping_insert_spec [OF assms] that by (force simp: mapping_def)

section \<open>Opening a gap\<close>

lemma open_used:
  assumes "tlsf_ok t (xs @ b # ys) e L" and "\<not> is_free (hdr t b)"
  shows "gap_ok t xs b ys e L" and "link (hdr t) b (hd (ys @ [e]))"
proof -
  have o: "order_ok (hdr t) (xs @ b # ys) e" and i: "index_ok t L" and m: "members L = free_set (hdr t) (xs @ b # ys)"
    using assms(1) by (simp_all add: tlsf_ok_def)
  note gap = order_open [OF o]
  have "b \<notin> set (xs @ ys)" using gap_fresh [OF gap(1), of b] gap_positions(3) [OF gap(1)] by auto
  then have "members L = free_set (hdr t) (xs @ ys)" using m assms(2) free_set_block by simp
  then show "gap_ok t xs b ys e L" using i gap(1) by (simp add: gap_ok_def)
  show "link (hdr t) b (hd (ys @ [e]))" by (rule gap(2))
qed

text \<open>A free block is taken out of the index.\<close>

lemma open_free:
  assumes "tlsf_ok t (xs @ b # ys) e L" and "is_free (hdr t b)" and "b \<in> set (L f s)"
  shows "gap_ok (EXTRACT_BLOCK b f s t) xs b ys e (remove_from b f s L)" and "link (hdr t) b (hd (ys @ [e]))"
    and "xs \<noteq> [] \<Longrightarrow> \<not> is_free (hdr t (last xs))" and "ys \<noteq> [] \<Longrightarrow> \<not> is_free (hdr t (hd ys))"
proof -
  have o: "order_ok (hdr t) (xs @ b # ys) e" and i: "index_ok t L" and m: "members L = free_set (hdr t) (xs @ b # ys)"
    using assms(1) by (simp_all add: tlsf_ok_def)
  note gap = order_open [OF o]
  note ex = EXTRACT_BLOCK_ok [OF i assms(3)]
  have b: "b \<notin> set (xs @ ys)" using gap_fresh [OF gap(1), of b] gap_positions(3) [OF gap(1)] by auto
  have "members (remove_from b f s L) = free_set (hdr t) (xs @ b # ys) - {b}" using members_remove [OF i assms(3)] m by simp
  also have "\<dots> = free_set (hdr t) (xs @ ys)" using free_set_block [OF b] b assms(2) by (auto simp: free_set_def)
  also have "\<dots> = free_set (hdr (EXTRACT_BLOCK b f s t)) (xs @ ys)"
    by (rule free_set_cong [symmetric]) (rule same_blocksD(1) [OF ex(2)])
  finally show "gap_ok (EXTRACT_BLOCK b f s t) xs b ys e (remove_from b f s L)"
    using ex gap_same [OF gap(1) ex(2)] by (simp add: gap_ok_def)
  show "link (hdr t) b (hd (ys @ [e]))" by (rule gap(2))
  show "xs \<noteq> [] \<Longrightarrow> \<not> is_free (hdr t (last xs))" "ys \<noteq> [] \<Longrightarrow> \<not> is_free (hdr t (hd ys))"
    using o assms(2) by (auto simp: order_ok_def successively_append_iff successively_Cons)
qed

text \<open>A free neighbour of the gap is taken out of the index.\<close>

lemma extract_gap:
  assumes "index_ok t L" and "a \<in> members L"
  obtains t' L' where "extract_free a t = Some t'" and "index_ok t' L'" and "same_blocks t t'" and "members L' = members L - {a}"
proof -
  obtain f s where a: "a \<in> set (L f s)" using assms(2) by (auto simp: members_def)
  have "extract_free a t = Some (EXTRACT_BLOCK a f s t)"
    using index_ok_class [OF assms(1) a] by (simp add: extract_free_def)
  then show ?thesis using that EXTRACT_BLOCK_ok [OF assms(1) a] members_remove [OF assms(1) a] by blast
qed

lemma absorb_next:
  assumes "gap_ok t xs b (n # ys) e L" and "is_free (hdr t n)"
  obtains t' L' where "extract_free n t = Some t'" and "same_blocks t t'" and "gap_ok t' xs b ys e L'" and "link (hdr t') n (hd (ys @ [e]))"
proof -
  have i: "index_ok t L" and g: "gap (hdr t) xs b (n # ys) e" and m: "members L = free_set (hdr t) (xs @ n # ys)"
    using assms(1) by (simp_all add: gap_ok_def)
  have "n \<in> members L" using m assms(2) by (simp add: free_set_def)
  then obtain t' L' where x: "extract_free n t = Some t'" "index_ok t' L'" "same_blocks t t'" "members L' = members L - {n}"
    using extract_gap [OF i] by blast
  have "n \<notin> set xs" using gap_positions(1) [OF g, of n] gap_positions(3) [OF g] by auto
  moreover have "n \<notin> set ys" using g pseg_distinct [of "hdr t" "n # ys" e] by (simp add: gap_def)
  ultimately have n: "n \<notin> set (xs @ ys)" by simp
  have "members L' = free_set (hdr t) (xs @ ys)" using x(4) m free_set_block [OF n] assms(2) n by (auto simp: free_set_def)
  also have "\<dots> = free_set (hdr t') (xs @ ys)" by (rule free_set_cong [symmetric]) (rule same_blocksD(1) [OF x(3)])
  finally have "gap_ok t' xs b ys e L'" using x(2) gap_same [OF gap_next(1) [OF g] x(3)] by (simp add: gap_ok_def)
  then show ?thesis using that x(1,3) gap_next(2) [OF gap_same [OF g x(3)]] by blast
qed

lemma absorb_previous:
  assumes "gap_ok t (xs @ [p]) b ys e L" and "is_free (hdr t p)"
  obtains t' L' where "extract_free p t = Some t'" and "same_blocks t t'" and "gap_ok t' xs p ys e L'" and "link (hdr t') p b"
proof -
  have i: "index_ok t L" and g: "gap (hdr t) (xs @ [p]) b ys e" and m: "members L = free_set (hdr t) (xs @ p # ys)"
    using assms(1) by (simp_all add: gap_ok_def)
  have "p \<in> members L" using m assms(2) by (simp add: free_set_def)
  then obtain t' L' where x: "extract_free p t = Some t'" "index_ok t' L'" "same_blocks t t'" "members L' = members L - {p}"
    using extract_gap [OF i] by blast
  note gp = gap_previous(1) [OF g]
  have n: "p \<notin> set (xs @ ys)" using gap_fresh [OF gp, of p] gap_positions(3) [OF gp] by auto
  have "members L' = free_set (hdr t) (xs @ ys)" using x(4) m free_set_block [OF n] assms(2) n by (auto simp: free_set_def)
  also have "\<dots> = free_set (hdr t') (xs @ ys)" by (rule free_set_cong [symmetric]) (rule same_blocksD(1) [OF x(3)])
  finally have "gap_ok t' xs p ys e L'" using x(2) gap_same [OF gp x(3)] by (simp add: gap_ok_def)
  then show ?thesis using that x(1,3) gap_previous(2) [OF gap_same [OF g x(3)]] by blast
qed

section \<open>Changes in a gap\<close>

lemma gap_okD:
  assumes "gap_ok t xs b ys e L"
  shows "index_ok t L" and "gap (hdr t) xs b ys e" and "members L = free_set (hdr t) (xs @ ys)" and "0 < b"
    and "b \<le> a \<Longrightarrow> a < hd (ys @ [e]) \<Longrightarrow> a \<notin> set (xs @ ys) \<and> a \<notin> members L" and "hd (ys @ [e]) - b - 16 < 2 ^ 30"
proof -
  show i: "index_ok t L" and g: "gap (hdr t) xs b ys e" and m: "members L = free_set (hdr t) (xs @ ys)" and "0 < b"
    using assms by (simp_all add: gap_ok_def gap_def)
  show "b \<le> a \<Longrightarrow> a < hd (ys @ [e]) \<Longrightarrow> a \<notin> set (xs @ ys) \<and> a \<notin> members L"
    using gap_fresh [OF g, of a] m by (auto simp: free_set_def)
  have "e < hd (xs @ [b]) + 2 ^ 30" using g by (simp add: gap_def)
  then have "hd (ys @ [e]) < b + 2 ^ 30" using gap_positions(5,6) [OF g] by linarith
  then show "hd (ys @ [e]) - b - 16 < 2 ^ 30" by simp
qed

lemma gap_ok_fresh: "gap_ok t xs b ys e L \<Longrightarrow> b \<le> a \<Longrightarrow> a < hd (ys @ [e]) \<Longrightarrow> a \<notin> set (xs @ ys) \<and> a \<notin> members L"
  by (rule gap_okD(5))

lemma gap_ok_block: "gap_ok t xs b ys e L \<Longrightarrow> b \<notin> set (xs @ ys) \<and> b \<notin> members L"
  using gap_positions(3) [OF gap_okD(2), of t xs b ys e L] by (intro gap_ok_fresh) auto

lemma gap_ok_upd:
  assumes "gap_ok t xs b ys e L" and "gap (hdr (upd a g t)) xs b ys e"
    and "a \<in> set (xs @ ys) \<Longrightarrow> same_size (hdr t a) (g (hdr t a)) \<and> free_prev (g (hdr t a)) = free_prev (hdr t a) \<and>
      free_next (g (hdr t a)) = free_next (hdr t a)"
  shows "gap_ok (upd a g t) xs b ys e L"
proof -
  have "a \<in> members L \<Longrightarrow> a \<in> set (xs @ ys)" using gap_okD(3) [OF assms(1)] by (auto simp: free_set_def)
  then have "index_ok (upd a g t) L" using assms(3) by (intro index_upd [OF gap_okD(1) [OF assms(1)]]) (auto simp: same_size_def)
  moreover have "free_set (hdr (upd a g t)) (xs @ ys) = free_set (hdr t) (xs @ ys)"
    using assms(3) by (intro free_set_cong) (auto simp: upd_def)
  ultimately show ?thesis using assms(2) gap_okD(3) [OF assms(1)] by (simp add: gap_ok_def)
qed

lemma gap_ok_upd_block:
  assumes "gap_ok t xs b ys e L" and "same_back (hdr t b) (g (hdr t b))"
  shows "gap_ok (upd b g t) xs b ys e L"
  by (rule gap_ok_upd [OF assms(1) gap_upd_block [where g = g, OF gap_okD(2) [OF assms(1)] assms(2)]])
    (use gap_ok_block [OF assms(1)] in simp)

lemma gap_ok_upd_inside:
  assumes "gap_ok t xs b ys e L" and "b < a" and "a < hd (ys @ [e])"
  shows "gap_ok (upd a g t) xs b ys e L"
  by (rule gap_ok_upd [OF assms(1) gap_upd_inside [where g = g, OF gap_okD(2) [OF assms(1)] assms(2,3)]])
    (use gap_ok_fresh [OF assms(1), of a] assms(2,3) in simp)

lemma gap_ok_upd_next:
  assumes "gap_ok t xs b ys e L" and "n = hd (ys @ [e])"
    and "same_size (hdr t n) (g (hdr t n)) \<and> free_prev (g (hdr t n)) = free_prev (hdr t n) \<and> free_next (g (hdr t n)) = free_next (hdr t n)"
  shows "gap_ok (upd n g t) xs b ys e L"
  by (rule gap_ok_upd [OF assms(1)]) (use gap_upd_next [where g = g, OF gap_okD(2) [OF assms(1)]] assms(2,3) in auto)

lemma gap_ok_stat [simp]:
  "gap_ok (t\<lparr>used_size := u\<rparr>) xs b ys e L = gap_ok t xs b ys e L" "gap_ok (t\<lparr>max_size := m\<rparr>) xs b ys e L = gap_ok t xs b ys e L"
  by (simp_all add: gap_ok_def)

lemma tlsf_ok_stat [simp]:
  "tlsf_ok (t\<lparr>used_size := u\<rparr>) as e L = tlsf_ok t as e L" "tlsf_ok (t\<lparr>max_size := m\<rparr>) as e L = tlsf_ok t as e L"
  by (simp_all add: tlsf_ok_def)

lemma insert_new:
  assumes "index_ok t L" and "0 < a" and "a \<notin> members L" and "bsize (hdr t a) < 2 ^ 30"
  obtains t' L' where "insert_free a t = Some t'" and "index_ok t' L'" and "same_blocks t t'" and "members L' = insert a (members L)"
proof -
  obtain f s where m: "mapping (bsize (hdr t a)) = Some (f, s)" using mapping_Some [OF assms(4)] by metis
  then have "insert_free a t = Some (INSERT_BLOCK a f s t)" by (simp add: insert_free_def)
  then show ?thesis using that INSERT_BLOCK_ok [OF assms(1) _ assms(3) m] assms(2) members_insert by blast
qed

section \<open>Closing a gap\<close>

lemma close_used:
  assumes "gap_ok t xs b ys e L" and "link (hdr t) b (hd (ys @ [e]))" and "\<not> is_free (hdr t b)"
  shows "tlsf_ok t (xs @ b # ys) e L"
  using assms gap_close [OF gap_okD(2) [OF assms(1)] assms(2)] free_set_block [of b xs ys "hdr t"] gap_ok_block [OF assms(1)]
  by (simp add: tlsf_ok_def gap_ok_def)

lemma close_free:
  assumes "index_ok t L" and "gap (hdr t) xs b ys e" and "members L = insert b (free_set (hdr t) (xs @ ys))"
    and "link (hdr t) b (hd (ys @ [e]))" and "is_free (hdr t b)"
    and "xs \<noteq> [] \<Longrightarrow> \<not> is_free (hdr t (last xs))" and "\<not> is_free (hdr t (hd (ys @ [e])))"
  shows "tlsf_ok t (xs @ b # ys) e L"
proof -
  have "b \<notin> set (xs @ ys)" using gap_fresh [OF assms(2), of b] gap_positions(3) [OF assms(2)] by auto
  then show ?thesis using assms gap_close [OF assms(2,4)] free_set_block [of b xs ys "hdr t"] by (simp add: tlsf_ok_def)
qed

text \<open>A block in use with a free rest behind it: the statements that the allocation and the two cases of the reallocation share.\<close>

lemma split_block_ok:
  assumes "gap_ok t xs b ys e L" and "16 \<le> n" and "16 dvd n" and "b + 16 + n + tmp = nb" and "nb = hd (ys @ [e])" and "32 \<le> tmp"
    and "prev_free (hdr t nb)" and "\<not> is_free (hdr t nb)"
  obtains t' L' where "split_block b n tmp nb t = Some t'" and "tlsf_ok t' (xs @ b # (b + 16 + n) # ys) e L'"
    and "bsize (hdr t' b) = n" and "\<not> is_free (hdr t' b)" and "is_free (hdr t' (b + 16 + n))"
    and "\<forall>a \<in> set (xs @ ys). same_size (hdr t a) (hdr t' a)" and "used_size t' = used_size t" and "max_size t' = max_size t"
proof -
  define c where "c = b + 16 + n"
  have c: "b < c" "c < nb" "c + 16 + (tmp - 16) = nb" "c \<noteq> nb" using assms(4,6) by (simp_all add: c_def)
  define t1 where "t1 = upd c (\<lambda>h. h\<lparr>bsize := tmp - 16, is_free := True, prev_free := False\<rparr>) t"
  define t2 where "t2 = upd nb (prev_hdr_update (\<lambda>_. c)) t1"
  have g1: "gap_ok t1 xs b ys e L" unfolding t1_def by (rule gap_ok_upd_inside [OF assms(1) c(1)]) (use c(2) assms(5) in simp)
  have g2: "gap_ok t2 xs b ys e L" unfolding t2_def by (rule gap_ok_upd_next [OF g1 assms(5)]) (simp add: same_size_def)
  have h2: "hdr t2 c = (hdr t c)\<lparr>bsize := tmp - 16, is_free := True, prev_free := False\<rparr>" "hdr t2 nb = (hdr t nb)\<lparr>prev_hdr := c\<rparr>"
    "\<And>a. a \<noteq> c \<Longrightarrow> a \<noteq> nb \<Longrightarrow> hdr t2 a = hdr t a"
    using c(4) by (auto simp: t2_def t1_def upd_def)
  have small: "tmp - 16 < 2 ^ 30" using gap_okD(6) [OF assms(1)] assms(4,5) by simp
  have no: "c \<notin> set (xs @ ys)" "c \<notin> members L" "b \<notin> set (xs @ ys)" "b \<notin> members L"
    using gap_ok_fresh [OF g2, of c] gap_ok_block [OF g2] c assms(5) by simp_all
  have sc: "0 < c" "bsize (hdr t2 c) < 2 ^ 30" using c(1) small unfolding h2(1) by simp_all
  obtain t3 L' where t3: "insert_free c t2 = Some t3" "index_ok t3 L'" "same_blocks t2 t3" "members L' = insert c (members L)"
    by (rule insert_new [OF gap_okD(1) [OF g2] sc(1) no(2) sc(2)])
  define t4 where "t4 = upd b (\<lambda>h. h\<lparr>bsize := n, is_free := False\<rparr>) t3"
  have nb: "nb \<noteq> b" using c by simp
  have h4: "hdr t4 b = (hdr t3 b)\<lparr>bsize := n, is_free := False\<rparr>" "\<And>a. a \<noteq> b \<Longrightarrow> hdr t4 a = hdr t3 a"
    by (simp_all add: t4_def upd_def)
  have s3: "bsize (hdr t3 a) = bsize (hdr t2 a)" "is_free (hdr t3 a) = is_free (hdr t2 a)"
    "prev_free (hdr t3 a) = prev_free (hdr t2 a)" "prev_hdr (hdr t3 a) = prev_hdr (hdr t2 a)" for a
    using t3(3) by (simp_all add: same_blocks_def)
  have same: "same_size (hdr t a) (hdr t4 a)" if "a \<in> set (xs @ ys)" for a
  proof -
    have "a \<noteq> b" "a \<noteq> c" using that no by auto
    then show ?thesis using h4(2) s3(1,2) h2(2,3) by (cases "a = nb") (simp_all add: same_size_def)
  qed
  have g4: "gap (hdr t4) xs b ys e" unfolding t4_def
    by (rule gap_upd_block [OF gap_same [OF gap_okD(2) [OF g2] t3(3)]]) (simp add: same_back_def)
  have cb: "c \<noteq> b" using c(1) by simp
  have "link (hdr t4) b c"
    using assms(2,3) gap_okD(4) [OF assms(1)] h4(1) h4(2) [OF cb] s3(3) h2(1) by (simp add: link_def c_def)
  then have g5: "gap (hdr t4) (xs @ [b]) c ys e"
    by (rule gap_split [OF g4]) (use h4(1) c(3) assms(5,6) in simp_all)
  have i4: "index_ok t4 L'" unfolding t4_def
    by (rule index_upd [OF t3(2)]) (use t3(4) no(4) cb in simp)
  have "free_set (hdr t4) (xs @ ys) = free_set (hdr t) (xs @ ys)" by (rule free_set_cong) (rule same)
  moreover have "free_set (hdr t4) ((xs @ [b]) @ ys) = free_set (hdr t4) (xs @ ys)" using h4(1) by (auto simp: free_set_def)
  ultimately have m4: "members L' = insert c (free_set (hdr t4) ((xs @ [b]) @ ys))" using t3(4) gap_okD(3) [OF assms(1)] by simp
  have hc: "bsize (hdr t4 c) = tmp - 16" "is_free (hdr t4 c)" using h4(2) [OF cb] s3(1,2) h2(1) by simp_all
  have hn: "prev_free (hdr t4 nb)" "prev_hdr (hdr t4 nb) = c" "\<not> is_free (hdr t4 nb)"
    using h4(2) [OF nb] s3(2,3,4) h2(2) assms(7,8) by simp_all
  have "16 dvd hd (ys @ [e]) - c" using g5 by (simp add: gap_def)
  moreover have "hd (ys @ [e]) - c = tmp - 16 + 16" using c(3) assms(5) by simp
  ultimately have "16 dvd tmp - 16" by (simp add: dvd_add_left_iff)
  then have l: "link (hdr t4) c (hd (ys @ [e]))" using hc hn c(1,3) assms(5,6) by (simp add: link_def)
  have ok: "tlsf_ok t4 ((xs @ [b]) @ c # ys) e L'"
    by (rule close_free [OF i4 g5 m4 l hc(2)]) (use h4(1) hn(3) assms(5) in simp_all)
  have "split_block b n tmp nb t = Some t4"
    using t3(1) by (simp add: split_block_def next_block_def BHDR_OVERHEAD_def c_def t1_def t2_def t4_def Let_def)
  moreover have "used_size t4 = used_size t" "max_size t4 = max_size t"
    using t3(3) by (simp_all add: same_blocks_def t4_def t2_def t1_def upd_def)
  ultimately show ?thesis using that [of t4 L'] ok h4(1) hc(2) same by (simp add: c_def)
qed

end
