(* ===== verification/TlsfAlloc.thy ===== *)
theory TlsfAlloc
  imports TlsfHeap
begin

text \<open>
  Allocation and release keep the invariant of a pool and do to the map of the blocks in use what an allocator promises.
\<close>

section \<open>Requests\<close>

lemma round_request_spec:
  assumes "sz \<le> 2 ^ 30 - 2 ^ 24"
  shows "sz \<le> round_request sz" and "round_request sz \<le> 2 ^ 30 - 2 ^ 24" and "16 dvd round_request sz" and "round_request sz < sz + 32"
    and "16 \<le> round_request sz"
proof -
  have s: "sz \<le> 1056964608" using assms by simp
  define q where "q = (sz + 31) div 32"
  have q: "32 * q \<le> sz + 31" "sz + 31 < 32 * q + 32" unfolding q_def by linarith+
  have r: "round_request sz = (if sz < 16 then 16 else q * 32)"
    by (simp add: round_request_def ROUNDUP_SIZE_def BLOCK_ALIGN_def MIN_BLOCK_SIZE_def q_def)
  show "sz \<le> round_request sz" using q unfolding r by simp
  have "q \<le> 33030144" using q s by simp
  then show "round_request sz \<le> 2 ^ 30 - 2 ^ 24" unfolding r by simp
  have "16 dvd q * 32" by (simp add: dvd_mult)
  then show "16 dvd round_request sz" unfolding r by simp
  show "round_request sz < sz + 32" using q unfolding r by simp
  show "16 \<le> round_request sz" using q unfolding r by auto
qed

text \<open>The search fails only when every free block is smaller than the rounded request.\<close>

lemma class_le_if: "class_low f s \<le> n \<Longrightarrow> n < class_low g u + class_width g \<Longrightarrow> s < 32 \<Longrightarrow> u < 32 \<Longrightarrow> class_le (f, s) (g, u)"
  using class_low_mono_fl [of g f u s] class_low_mono_sl [of u s g] by (force simp: class_le_def)

lemma free_block_size:
  assumes "tlsf_ok t as e L" and "a \<in> free_set (hdr t) as"
  obtains f s where "a \<in> set (L f s)" and "f < REAL_FLI" and "s < MAX_SLI" and "class_low f s \<le> bsize (hdr t a)"
    and "bsize (hdr t a) < class_low f s + class_width f" and "bsize (hdr t a) < 2 ^ 30"
proof -
  have "a \<in> members L" using assms by (simp add: tlsf_ok_def)
  then obtain f s where a: "a \<in> set (L f s)" by (auto simp: members_def)
  have i: "index_ok t L" and o: "order_ok (hdr t) as e" using assms(1) by (simp_all add: tlsf_ok_def)
  have m: "mapping (bsize (hdr t a)) = Some (f, s)" by (rule index_ok_class [OF i a])
  have p: "pseg (hdr t) as e" "e < hd (as @ [e]) + 2 ^ 30" using o by (simp_all add: order_ok_def)
  then have small: "bsize (hdr t a) < 2 ^ 30" using pseg_bounds [OF p(1), of a] assms(2) by (simp add: free_set_def)
  then show ?thesis using that a mapping_range [OF m] mapping_Some [OF small] m by (metis option.inject prod.inject)
qed

section \<open>Allocation\<close>

text \<open>What an allocation of \<open>sz\<close> bytes that returns \<open>p\<close> does.\<close>

definition allocated :: "nat \<Rightarrow> tlsf \<Rightarrow> nat list \<Rightarrow> nat \<Rightarrow> tlsf \<Rightarrow> nat \<Rightarrow> bool" where
  "allocated sz t as e t' p \<longleftrightarrow> 16 < p \<and>
     (\<exists>as' L' n. tlsf_ok t' as' e L' \<and> hd (as' @ [e]) = hd (as @ [e]) \<and> sz \<le> n \<and> n < sz + sz div 32 + 32 \<and>
       used (hdr t) as (p - 16) = None \<and>
       used (hdr t') as' = (used (hdr t) as)(p - 16 \<mapsto> n) \<and> used_bytes (hdr t') as' = used_bytes (hdr t) as + (n + 16) \<and>
       used_size t' = used_size t + word_of_nat (n + 16) \<and> max_size t' = max (max_size t) (used_size t'))"

lemma used_None: "b \<notin> set as \<Longrightarrow> used h as b = None"
  by (simp add: used_def)

lemma malloc_step:
  assumes "tlsf_ok t as e L" and "sz \<le> 2 ^ 30 - 2 ^ 24"
  obtains (none) r where "malloc_ex sz t = Some (t, 0)" and "round_request sz \<le> r" and "r \<le> round_request sz + round_request sz div 32"
      and "\<And>a. a \<in> free_set (hdr t) as \<Longrightarrow> bsize (hdr t a) < r"
    | (some) t' p where "malloc_ex sz t = Some (t', p)" and "allocated (round_request sz) t as e t' p"
proof -
  define N where "N = round_request sz"
  have N: "N \<le> 2 ^ 30 - 2 ^ 24" "16 dvd N" "16 \<le> N" using round_request_spec [OF assms(2)] by (simp_all add: N_def)
  obtain r f s where r: "mapping_search (word_of_nat N) = Some (word_of_nat r, f, s)" "N \<le> r" "r \<le> N + N div 32" "r < 2 ^ 30"
    "16 dvd r" "f < REAL_FLI" "s < MAX_SLI" "class_low f s = r" using mapping_search_spec [OF N(1,2)] by blast
  have unat_r: "unat (word_of_nat r :: u64) = r" using r(4) by (intro unat_u64) simp
  obtain b g u where find: "FIND_SUITABLE_BLOCK f s t = (b, g, u)" by (metis prod_cases3)
  have i: "index_ok t L" and o: "order_ok (hdr t) as e" and m: "members L = free_set (hdr t) as"
    using assms(1) by (simp_all add: tlsf_ok_def)
  note spec = FIND_SUITABLE_BLOCK_spec [OF i r(6,7) find]
  show ?thesis
  proof (cases "b = 0")
    case True
    have "malloc_ex sz t = Some (t, 0)" using r(1,6,7) find True by (simp add: malloc_ex_def N_def [symmetric] unat_r)
    moreover have "bsize (hdr t a) < r" if fr: "a \<in> free_set (hdr t) as" for a
    proof (rule ccontr)
      assume "\<not> bsize (hdr t a) < r"
      obtain f' s' where a: "a \<in> set (L f' s')" "f' < REAL_FLI" "s' < MAX_SLI" "bsize (hdr t a) < class_low f' s' + class_width f'"
        using free_block_size [OF assms(1) fr] by metis
      have "class_le (f, s) (f', s')"
        by (rule class_le_if [of _ _ "bsize (hdr t a)"]) (use \<open>\<not> bsize (hdr t a) < r\<close> a r(7,8) in \<open>simp_all add: MAX_SLI_def\<close>)
      then show False using spec True a(1,2,3) by simp
    qed
    ultimately show ?thesis using none [of r] r(2,3) by (simp add: N_def)
  next
    case False
    then obtain ys0 where c: "g < REAL_FLI" "u < MAX_SLI" "class_le (f, s) (g, u)" "L g u = b # ys0" using spec by auto
    have bL: "b \<in> set (L g u)" using c(4) by simp
    have "b \<in> free_set (hdr t) as" using m bL by (auto simp: members_def)
    then have bas: "b \<in> set as" "is_free (hdr t b)" by (simp_all add: free_set_def)
    have "class_low g u \<le> bsize (hdr t b)"
      using free_block_size [OF assms(1) \<open>b \<in> free_set (hdr t) as\<close>] index_ok_class [OF i bL] index_ok_class [OF i]
      by (metis option.inject prod.inject)
    then have rb: "r \<le> bsize (hdr t b)" using class_low_le [OF c(3)] r(7,8) by (simp add: MAX_SLI_def)
    obtain xs ys where as: "as = xs @ b # ys" using split_list [OF bas(1)] by blast
    note op = open_free [OF assms(1) [unfolded as] bas(2) bL]
    define nb where "nb = hd (ys @ [e])"
    define t1 where "t1 = EXTRACT_BLOCK b g u t"
    have ext: "EXTRACT_BLOCK_HDR b g u t = t1" unfolding t1_def by (rule EXTRACT_BLOCK_HDR_eq [OF i c(4)])
    have same: "same_blocks t t1" unfolding t1_def by (rule EXTRACT_BLOCK_ok(2) [OF i bL])
    have s1: "bsize (hdr t1 a) = bsize (hdr t a)" "is_free (hdr t1 a) = is_free (hdr t a)" "prev_free (hdr t1 a) = prev_free (hdr t a)"
      "used_size t1 = used_size t" "max_size t1 = max_size t" for a
      using same by (simp_all add: same_blocks_def)
    have g1: "gap_ok t1 xs b ys e (remove_from b g u L)" unfolding t1_def by (rule op(1))
    have l: "0 < b" "nb = b + 16 + bsize (hdr t b)" "prev_free (hdr t nb)" "16 dvd bsize (hdr t b)" "16 \<le> bsize (hdr t b)"
      using op(2) bas(2) unfolding link_def nb_def by blast+
    have nfree: "\<not> is_free (hdr t nb)"
      using op(4) o by (cases ys) (simp_all add: nb_def order_ok_def)
    have fresh: "b \<notin> set (xs @ ys)" using gap_ok_block [OF g1] by simp
    have U: "used (hdr t) as = used (hdr t) (xs @ ys)" "used_bytes (hdr t) as = used_bytes (hdr t) (xs @ ys)"
      using used_block [of "hdr t" xs b ys] bas(2) by (simp_all add: as used_bytes_append used_bytes_Cons)
    have fin: "allocated N t as e (TLSF_ADD_SIZE b t2) (b + 16)"
      if ok: "tlsf_ok t2 (xs @ b # zs @ ys) e L2" and b2: "N \<le> bsize (hdr t2 b)" "\<not> is_free (hdr t2 b)" "bsize (hdr t2 b) < N + N div 32 + 32"
        and zs: "zs = [] \<or> zs = [c] \<and> is_free (hdr t2 c)"
        and keep: "\<And>a. a \<in> set (xs @ ys) \<Longrightarrow> same_size (hdr t1 a) (hdr t2 a)"
        and st: "used_size t2 = used_size t1" "max_size t2 = max_size t1" for t2 zs c L2
    proof -
      have keep': "same_size (hdr t a) (hdr t2 a)" if "a \<in> set (xs @ ys)" for a
        using keep [OF that] s1(1,2) by (simp add: same_size_def)
      have "used (hdr t2) (xs @ b # zs @ ys) = (used (hdr t2) (xs @ zs @ ys))(b \<mapsto> bsize (hdr t2 b))"
        using b2(2) used_block [of "hdr t2" xs b "zs @ ys"] by simp
      also have "used (hdr t2) (xs @ zs @ ys) = used (hdr t2) (xs @ ys)" using zs used_block [of "hdr t2" xs c ys] by auto
      also have "\<dots> = used (hdr t) as" unfolding U by (rule used_cong) (rule keep')
      finally have u: "used (hdr t2) (xs @ b # zs @ ys) = (used (hdr t) as)(b \<mapsto> bsize (hdr t2 b))" .
      have "used_bytes (hdr t2) zs = 0" using zs by (auto simp: used_bytes_def)
      moreover have "used_bytes (hdr t2) xs = used_bytes (hdr t) xs" "used_bytes (hdr t2) ys = used_bytes (hdr t) ys"
        by (rule used_bytes_cong, rule keep', simp)+
      ultimately have ub: "used_bytes (hdr t2) (xs @ b # zs @ ys) = used_bytes (hdr t) as + (bsize (hdr t2 b) + 16)"
        using b2(2) U(2) by (simp add: used_bytes_append used_bytes_Cons)
      have "used (hdr t) as b = None" unfolding U by (rule used_None [OF fresh])
      moreover have "hdr (TLSF_ADD_SIZE b t2) = hdr t2" "used_size (TLSF_ADD_SIZE b t2) = used_size t + word_of_nat (bsize (hdr t2 b) + 16)"
        "max_size (TLSF_ADD_SIZE b t2) = max (max_size t) (used_size (TLSF_ADD_SIZE b t2))"
        using st s1(4,5) by (auto simp: TLSF_ADD_SIZE_def Let_def BHDR_OVERHEAD_def max_def)
      moreover have "tlsf_ok (TLSF_ADD_SIZE b t2) (xs @ b # zs @ ys) e L2" using ok by (simp add: TLSF_ADD_SIZE_def Let_def)
      moreover have "hd ((xs @ b # zs @ ys) @ [e]) = hd (as @ [e])" by (simp add: as hd_append)
      ultimately show ?thesis using u ub b2(1,3) l(1) unfolding allocated_def
        by (intro conjI exI [of _ "xs @ b # zs @ ys"] exI [of _ L2] exI [of _ "bsize (hdr t2 b)"]) simp_all
    qed
    define tmp where "tmp = bsize (hdr t b) - r"
    define k where "k = (\<lambda>t2. Some (TLSF_ADD_SIZE b t2, b + 16))"
    have run: "malloc_ex sz t = (if 32 \<le> tmp then split_block b r tmp nb t1
        else Some (upd b (is_free_update (\<lambda>_. False)) (upd nb (prev_free_update (\<lambda>_. False)) t1))) \<bind> k"
      using r(1,6,7) find False ext rb s1(1) l(2)
      by (simp add: malloc_ex_def N_def [symmetric] unat_r Let_def tmp_def next_block_def BHDR_OVERHEAD_def BHDR_SIZE_def k_def)
    show ?thesis
    proof (cases "32 \<le> tmp")
      case True
      have rest: "b + 16 + r + tmp = nb" using l(2) rb by (simp add: tmp_def)
      have p: "16 \<le> r" "prev_free (hdr t1 nb)" "\<not> is_free (hdr t1 nb)" using r(2) N(3) s1(2,3) l(3) nfree by simp_all
      obtain t2 L2 where t2: "split_block b r tmp nb t1 = Some t2" "tlsf_ok t2 (xs @ b # (b + 16 + r) # ys) e L2" "bsize (hdr t2 b) = r"
        "\<not> is_free (hdr t2 b)" "is_free (hdr t2 (b + 16 + r))" "\<forall>a \<in> set (xs @ ys). same_size (hdr t1 a) (hdr t2 a)"
        "used_size t2 = used_size t1" "max_size t2 = max_size t1"
        by (rule split_block_ok [OF g1 p(1) r(5) rest nb_def True p(2,3)])
      have "allocated N t as e (TLSF_ADD_SIZE b t2) (b + 16)"
        by (rule fin [where zs = "[b + 16 + r]" and c = "b + 16 + r" and ?L2.0 = L2]) (use t2 r(2,3) in simp_all)
      then show ?thesis using some run True t2(1) by (simp add: k_def N_def)
    next
      case False
      define t2 where "t2 = upd b (is_free_update (\<lambda>_. False)) (upd nb (prev_free_update (\<lambda>_. False)) t1)"
      have "gap_ok (upd nb (prev_free_update (\<lambda>_. False)) t1) xs b ys e (remove_from b g u L)"
        by (rule gap_ok_upd_next [OF g1 nb_def]) (simp add: same_size_def)
      then have g2: "gap_ok t2 xs b ys e (remove_from b g u L)"
        unfolding t2_def by (rule gap_ok_upd_block) (simp add: same_back_def)
      have "b \<noteq> nb" using l(2) by simp
      then have h2: "hdr t2 b = (hdr t1 b)\<lparr>is_free := False\<rparr>" "hdr t2 nb = (hdr t1 nb)\<lparr>prev_free := False\<rparr>"
        "\<And>a. a \<noteq> b \<Longrightarrow> a \<noteq> nb \<Longrightarrow> hdr t2 a = hdr t1 a" by (auto simp: t2_def upd_def)
      have "link (hdr t2) b nb" using l h2(1,2) s1(1) by (simp add: link_def)
      then have ok: "tlsf_ok t2 (xs @ b # [] @ ys) e (remove_from b g u L)"
        using close_used [OF g2] h2(1) by (simp add: nb_def)
      have keep: "same_size (hdr t1 a) (hdr t2 a)" if "a \<in> set (xs @ ys)" for a
        using that fresh h2(2) h2(3) [of a] by (cases "a = nb"; cases "a = b"; simp add: same_size_def)
      have st: "used_size t2 = used_size t1" "max_size t2 = max_size t1" by (simp_all add: t2_def upd_def)
      have "N \<le> bsize (hdr t2 b)" "\<not> is_free (hdr t2 b)" "bsize (hdr t2 b) < N + N div 32 + 32"
        using h2(1) rb r(2,3) s1(1) False by (simp_all add: tmp_def)
      from fin [OF ok this disjI1 [OF refl] keep st] have "allocated N t as e (TLSF_ADD_SIZE b t2) (b + 16)" by blast
      then show ?thesis using some run False by (simp add: k_def N_def t2_def)
    qed
  qed
qed

end
