(* ===== verification/TlsfFree.thy ===== *)
theory TlsfFree
  imports TlsfAlloc
begin

text \<open>
  The release of a block: the free neighbours join it, so that free blocks never touch. The lemmas start from a gap, as the initialisation of
  a pool releases its only block in a state that is not yet a pool.
\<close>

section \<open>Joining the neighbours\<close>

text \<open>What the steps keep: the blocks in use outside of the gap and the statistics.\<close>

definition same_used :: "tlsf \<Rightarrow> nat list \<Rightarrow> tlsf \<Rightarrow> nat list \<Rightarrow> bool" where
  "same_used t as t' as' \<longleftrightarrow> used (hdr t') as' = used (hdr t) as \<and> used_bytes (hdr t') as' = used_bytes (hdr t) as \<and>
     used_size t' = used_size t \<and> max_size t' = max_size t"

lemma same_used_trans: "same_used t as u bs \<Longrightarrow> same_used u bs v cs \<Longrightarrow> same_used t as v cs"
  by (simp add: same_used_def)

lemma same_used_refl [simp]: "same_used t as t as"
  by (simp add: same_used_def)

lemma same_used_blocks: "same_blocks t t' \<Longrightarrow> same_used t as t' as"
  by (auto simp: same_used_def same_blocks_def same_size_def intro: used_cong used_bytes_cong)

lemma same_used_drop: "is_free (hdr t n) \<Longrightarrow> same_used t (xs @ n # ys) t (xs @ ys)"
  by (simp add: same_used_def used_block used_bytes_append used_bytes_Cons)

lemma same_used_upd: "a \<notin> set as \<or> same_size (hdr t a) (g (hdr t a)) \<Longrightarrow> same_used t as (upd a g t) as"
  by (auto simp: same_used_def upd_def intro!: used_cong used_bytes_cong)

lemma upd_same [simp]: "hdr (upd a g t) a = g (hdr t a)"
  and upd_other: "c \<noteq> a \<Longrightarrow> hdr (upd a g t) c = hdr t c"
  by (simp_all add: upd_def)

text \<open>The block in the gap fills it up to the block behind.\<close>

abbreviation fills :: "tlsf \<Rightarrow> nat \<Rightarrow> nat list \<Rightarrow> nat \<Rightarrow> bool" where
  "fills t b ys e \<equiv> b + 16 + bsize (hdr t b) = hd (ys @ [e])"

lemma gap_next_used:
  assumes "gap h xs b (n # ys) e" and "is_free (h n)"
  shows "\<not> is_free (h (hd (ys @ [e])))"
  using assms by (cases ys) (auto simp: gap_def successively_Cons)

lemma join_next_ok:
  assumes "gap_ok t xs b (n # ys) e L" and "is_free (hdr t n)" and "fills t b (n # ys) e"
  obtains t' L' where "join_next b n t = Some t'" and "gap_ok t' xs b ys e L'" and "fills t' b ys e"
    and "\<not> is_free (hdr t' (hd (ys @ [e])))" and "is_free (hdr t' b) = is_free (hdr t b)" and "same_back (hdr t b) (hdr t' b)"
    and "same_used t (xs @ n # ys) t' (xs @ ys)"
proof -
  obtain t1 L1 where t1: "extract_free n t = Some t1" "same_blocks t t1" "gap_ok t1 xs b ys e L1" "link (hdr t1) n (hd (ys @ [e]))"
    using absorb_next [OF assms(1,2)] .
  define t' where "t' = upd b (\<lambda>h. h\<lparr>bsize := bsize h + (bsize (hdr t1 n) + 16)\<rparr>) t1"
  have g: "gap_ok t' xs b ys e L1" unfolding t'_def by (rule gap_ok_upd_block [OF t1(3)]) (simp add: same_back_def)
  have s1: "bsize (hdr t1 a) = bsize (hdr t a)" "is_free (hdr t1 a) = is_free (hdr t a)" "prev_free (hdr t1 a) = prev_free (hdr t a)"
    "prev_hdr (hdr t1 a) = prev_hdr (hdr t a)" for a using t1(2) by (simp_all add: same_blocks_def)
  have "fills t' b ys e" using t1(4) assms(3) s1(1) by (simp add: t'_def link_def)
  moreover have "\<not> is_free (hdr t (hd (ys @ [e])))" by (rule gap_next_used [OF gap_okD(2) [OF assms(1)] assms(2)])
  then have "\<not> is_free (hdr t' (hd (ys @ [e])))" using s1(2) by (auto simp: t'_def upd_def)
  moreover have "same_used t (xs @ n # ys) t' (xs @ ys)"
  proof (rule same_used_trans [OF same_used_drop [OF assms(2)]], rule same_used_trans [OF same_used_blocks [OF t1(2)]])
    show "same_used t1 (xs @ ys) t' (xs @ ys)" unfolding t'_def using gap_ok_block [OF t1(3)] by (intro same_used_upd) simp
  qed
  moreover have "is_free (hdr t' b) = is_free (hdr t b)" "same_back (hdr t b) (hdr t' b)"
    using s1 by (simp_all add: t'_def same_back_def)
  ultimately show ?thesis using that [of t' L1] g t1(1) by (simp add: join_next_def t'_def BHDR_OVERHEAD_def)
qed

lemma join_previous_ok:
  assumes "gap_ok t (xs @ [p]) b ys e L" and "prev_free (hdr t b)" and "fills t b ys e" and "\<not> is_free (hdr t (hd (ys @ [e])))"
  obtains t' L' where "join_previous b t = Some (t', p)" and "gap_ok t' xs p ys e L'" and "fills t' p ys e"
    and "\<not> is_free (hdr t' (hd (ys @ [e])))" and "is_free (hdr t' p)" and "xs \<noteq> [] \<longrightarrow> \<not> is_free (hdr t' (last xs))"
    and "same_used t (xs @ [p] @ ys) t' (xs @ ys)"
proof -
  have g: "gap (hdr t) (xs @ [p]) b ys e" by (rule gap_okD(2) [OF assms(1)])
  then have lp: "link (hdr t) p b" by (simp add: gap_def pseg_append)
  then have p: "is_free (hdr t p)" "prev_hdr (hdr t b) = p" using assms(2) unfolding link_def by blast+
  obtain t1 L1 where t1: "extract_free p t = Some t1" "same_blocks t t1" "gap_ok t1 xs p ys e L1" "link (hdr t1) p b"
    using absorb_previous [OF assms(1) p(1)] .
  define t' where "t' = upd p (\<lambda>h. h\<lparr>bsize := bsize h + (bsize (hdr t1 b) + 16)\<rparr>) t1"
  have g': "gap_ok t' xs p ys e L1" unfolding t'_def by (rule gap_ok_upd_block [OF t1(3)]) (simp add: same_back_def)
  have s1: "bsize (hdr t1 a) = bsize (hdr t a)" "is_free (hdr t1 a) = is_free (hdr t a)" for a
    using t1(2) by (simp_all add: same_blocks_def)
  have "fills t' p ys e" using t1(4) assms(3) s1(1) by (simp add: t'_def link_def)
  moreover have "\<not> is_free (hdr t' (hd (ys @ [e])))" using assms(4) s1(2) by (auto simp: t'_def upd_def)
  moreover have "is_free (hdr t' p)" using p(1) s1(2) by (simp add: t'_def)
  moreover have "\<not> is_free (hdr t' (last xs))" if "xs \<noteq> []"
    using g p(1) s1(2) that by (auto simp: t'_def upd_def gap_def successively_append_iff)
  moreover have "same_used t (xs @ [p] @ ys) t' (xs @ ys)"
  proof (rule same_used_trans [of t _ t "xs @ ys"], use same_used_drop [OF p(1)] in simp, rule same_used_trans [OF same_used_blocks [OF t1(2)]])
    show "same_used t1 (xs @ ys) t' (xs @ ys)" unfolding t'_def using gap_ok_block [OF t1(3)] by (intro same_used_upd) simp
  qed
  ultimately show ?thesis using that [of t' L1] g' t1(1) p(2)
    by (simp add: join_previous_def Let_def t'_def BHDR_OVERHEAD_def)
qed

section \<open>The block enters the index\<close>

lemma enter_free:
  assumes "gap_ok t xs b ys e L" and "fills t b ys e" and "is_free (hdr t b)" and "xs \<noteq> [] \<Longrightarrow> \<not> is_free (hdr t (last xs))"
    and "\<not> is_free (hdr t (hd (ys @ [e])))"
  obtains t' L' where
    "insert_free b t \<bind> (\<lambda>t. Some (upd (next_block b (bsize (hdr t b))) (\<lambda>h. h\<lparr>prev_free := True, prev_hdr := b\<rparr>) t)) = Some t'"
    and "tlsf_ok t' (xs @ b # ys) e L'" and "same_used t (xs @ b # ys) t' (xs @ b # ys)" and "bsize (hdr t' b) = bsize (hdr t b)"
    and "is_free (hdr t' b)"
proof -
  let ?n = "hd (ys @ [e])"
  note g = gap_okD(1-4) [OF assms(1)]
  have small: "bsize (hdr t b) < 2 ^ 30" using gap_okD(6) [OF assms(1)] assms(2) by simp
  obtain t1 L1 where t1: "insert_free b t = Some t1" "index_ok t1 L1" "same_blocks t t1" "members L1 = insert b (members L)"
    using insert_new [OF g(1,4) _ small] gap_ok_block [OF assms(1)] by blast
  define t' where "t' = upd ?n (\<lambda>h. h\<lparr>prev_free := True, prev_hdr := b\<rparr>) t1"
  have s1: "bsize (hdr t1 a) = bsize (hdr t a)" "is_free (hdr t1 a) = is_free (hdr t a)" for a
    using t1(3) by (simp_all add: same_blocks_def)
  have s2: "same_size (hdr t a) (hdr t' a)" for a using s1 by (cases "a = ?n") (simp_all add: t'_def upd_def same_size_def)
  have n: "next_block b (bsize (hdr t1 b)) = ?n" using assms(2) s1(1) by (simp add: next_block_def BHDR_OVERHEAD_def)
  have i: "index_ok t' L1" unfolding t'_def by (rule index_upd [OF t1(2)]) simp
  have gp: "gap (hdr t') xs b ys e" unfolding t'_def by (rule gap_upd_next [OF gap_same [OF g(2) t1(3)]]) (simp add: same_size_def)
  have fs: "free_set (hdr t') (xs @ ys) = free_set (hdr t) (xs @ ys)" by (rule free_set_cong) (rule s2)
  have l: "link (hdr t') b ?n"
  proof -
    have "16 dvd ?n - b" "b + 32 \<le> ?n" using g(2) by (simp_all add: gap_def)
    moreover have "?n - b = bsize (hdr t b) + 16" using assms(2) by simp
    ultimately have "16 dvd bsize (hdr t b)" "16 \<le> bsize (hdr t b)" by (simp_all add: dvd_add_left_iff)
    moreover have "b \<noteq> ?n" using assms(2) by simp
    ultimately show ?thesis using s2 [of b] g(4) assms(2,3) by (simp add: link_def same_size_def t'_def)
  qed
  have "tlsf_ok t' (xs @ b # ys) e L1"
    by (rule close_free [OF i gp _ l]) (use t1(4) g(3) fs s2 assms(3,4,5) in \<open>simp_all add: same_size_def\<close>)
  moreover have "same_used t (xs @ b # ys) t' (xs @ b # ys)"
    by (rule same_used_trans [OF same_used_blocks [OF t1(3)]]) (simp add: t'_def same_used_upd same_size_def)
  ultimately show ?thesis using that [of t' L1] t1(1) n s2 [of b] assms(3) by (simp add: t'_def same_size_def)
qed

section \<open>Release\<close>

lemma free_gap:
  assumes "gap_ok t xs b ys e L" and "fills t b ys e"
  obtains t' as' L' where "free_ex (b + 16) t = Some t'" and "tlsf_ok t' as' e L'" and "used (hdr t') as' = used (hdr t) (xs @ ys)"
    and "used_bytes (hdr t') as' = used_bytes (hdr t) (xs @ ys)" and "used_size t' = used_size t - word_of_nat (bsize (hdr t b) + 16)"
    and "max_size t' = max_size t" and "hd (as' @ [e]) = hd (xs @ [b])"
    and "xs = [] \<Longrightarrow> ys = [] \<Longrightarrow> as' = [b] \<and> bsize (hdr t' b) = bsize (hdr t b) \<and> is_free (hdr t' b)"
proof -
  define t1 where "t1 = upd b (\<lambda>h. h\<lparr>free_prev := 0, free_next := 0\<rparr>) (TLSF_REMOVE_SIZE b (upd b (is_free_update (\<lambda>_. True)) t))"
  have g1: "gap_ok t1 xs b ys e L"
    unfolding t1_def TLSF_REMOVE_SIZE_def by (intro gap_ok_upd_block gap_ok_stat [THEN iffD2] assms(1)) (simp_all add: same_back_def)
  have b: "b \<notin> set (xs @ ys)" using gap_ok_block [OF assms(1)] by simp
  have h1: "hdr t1 b = (hdr t b)\<lparr>is_free := True, free_prev := 0, free_next := 0\<rparr>" "\<And>a. a \<noteq> b \<Longrightarrow> hdr t1 a = hdr t a"
    by (simp_all add: t1_def TLSF_REMOVE_SIZE_def upd_def)
  have keep: "same_size (hdr t a) (hdr t1 a)" if "a \<in> set (xs @ ys)" for a
    using h1(2) [of a] b that by (cases "a = b") auto
  have u1: "used (hdr t1) (xs @ ys) = used (hdr t) (xs @ ys)" "used_bytes (hdr t1) (xs @ ys) = used_bytes (hdr t) (xs @ ys)"
    by (rule used_cong used_bytes_cong; rule keep; assumption)+
  have st: "used_size t1 = used_size t - word_of_nat (bsize (hdr t b) + 16)" "max_size t1 = max_size t"
    by (simp_all add: t1_def TLSF_REMOVE_SIZE_def upd_def BHDR_OVERHEAD_def)
  have f1: "fills t1 b ys e" using assms(2) h1(1) by simp
  let ?n = "hd (ys @ [e])"
  define join where "join = (\<lambda>t. if is_free (hdr t ?n) then join_next b ?n t else Some t)"
  obtain t2 ys2 L2 where t2: "join t1 = Some t2" "gap_ok t2 xs b ys2 e L2" "fills t2 b ys2 e" "\<not> is_free (hdr t2 (hd (ys2 @ [e])))"
    "is_free (hdr t2 b)" "same_back (hdr t1 b) (hdr t2 b)" "same_used t1 (xs @ ys) t2 (xs @ ys2)" "ys = [] \<longrightarrow> ys2 = [] \<and> t2 = t1"
  proof (cases "is_free (hdr t1 ?n)")
    case True
    have "\<not> is_free (hdr t1 e)" using gap_okD(2) [OF g1] by (simp add: gap_def)
    then obtain n zs where ys: "ys = n # zs" using True by (cases ys) auto
    have n: "is_free (hdr t1 n)" using True ys by simp
    obtain t2 L2 where "join_next b n t1 = Some t2" "gap_ok t2 xs b zs e L2" "fills t2 b zs e" "\<not> is_free (hdr t2 (hd (zs @ [e])))"
      "is_free (hdr t2 b) = is_free (hdr t1 b)" "same_back (hdr t1 b) (hdr t2 b)" "same_used t1 (xs @ n # zs) t2 (xs @ zs)"
      using join_next_ok [OF g1 [unfolded ys] n f1 [unfolded ys]] .
    then show ?thesis using that [of t2 zs L2] n ys h1(1) by (simp add: join_def)
  next
    case False
    then show ?thesis using that [of t1 ys L] g1 f1 h1(1) by (simp add: join_def)
  qed
  define prev where "prev = (\<lambda>t. if prev_free (hdr t b) then join_previous b t else Some (t, b))"
  obtain t3 c xs3 L3 where t3: "prev t2 = Some (t3, c)" "gap_ok t3 xs3 c ys2 e L3" "fills t3 c ys2 e" "\<not> is_free (hdr t3 (hd (ys2 @ [e])))"
    "is_free (hdr t3 c)" "xs3 \<noteq> [] \<longrightarrow> \<not> is_free (hdr t3 (last xs3))" "same_used t2 (xs @ ys2) t3 (xs3 @ ys2)"
    "xs = [] \<longrightarrow> xs3 = [] \<and> c = b \<and> t3 = t2" "hd (xs3 @ [c]) = hd (xs @ [b])"
  proof (cases "prev_free (hdr t2 b)")
    case True
    then have "xs \<noteq> []" using gap_okD(2) [OF t2(2)] by (auto simp: gap_def)
    then obtain zs p where xs: "xs = zs @ [p]" by (metis rev_exhaust)
    obtain t3 L3 where j: "join_previous b t2 = Some (t3, p)" "gap_ok t3 zs p ys2 e L3" "fills t3 p ys2 e"
      "\<not> is_free (hdr t3 (hd (ys2 @ [e])))" "is_free (hdr t3 p)" "zs \<noteq> [] \<longrightarrow> \<not> is_free (hdr t3 (last zs))"
      "same_used t2 (zs @ [p] @ ys2) t3 (zs @ ys2)"
      using join_previous_ok [OF t2(2) [unfolded xs] True t2(3,4)] .
    have "prev t2 = Some (t3, p)" using True j(1) by (simp add: prev_def)
    moreover have "same_used t2 (xs @ ys2) t3 (zs @ ys2)" using j(7) xs by simp
    moreover have "xs = [] \<longrightarrow> zs = [] \<and> p = b \<and> t3 = t2" "hd (zs @ [p]) = hd (xs @ [b])" using xs by (simp_all add: hd_append)
    ultimately show ?thesis using that j(2-6) by blast
  next
    case False
    have "\<not> is_free (hdr t2 (last xs))" if ne: "xs \<noteq> []"
    proof -
      obtain zs p where xs: "xs = zs @ [p]" using ne by (metis rev_exhaust)
      have "link (hdr t2) p b" using gap_okD(2) [OF t2(2)] xs by (simp add: gap_def pseg_append)
      then show ?thesis using False xs by (simp add: link_def)
    qed
    then show ?thesis using that [of t2 b xs L2] False t2 by (simp add: prev_def)
  qed
  obtain t4 L4 where t4:
    "insert_free c t3 \<bind> (\<lambda>t. Some (upd (next_block c (bsize (hdr t c))) (\<lambda>h. h\<lparr>prev_free := True, prev_hdr := c\<rparr>) t)) = Some t4"
    "tlsf_ok t4 (xs3 @ c # ys2) e L4" "same_used t3 (xs3 @ c # ys2) t4 (xs3 @ c # ys2)" "bsize (hdr t4 c) = bsize (hdr t3 c)" "is_free (hdr t4 c)"
    using enter_free [OF t3(2,3,5) t3(6) [rule_format] t3(4)] .
  have "free_ex (b + 16) t = Some t4"
  proof -
    have n: "next_block b (bsize (hdr t1 b)) = ?n" using f1 by (simp add: next_block_def BHDR_OVERHEAD_def)
    have "free_ex (b + 16) t = join t1 \<bind> (\<lambda>t. prev t \<bind> (\<lambda>(t, b). insert_free b t \<bind>
      (\<lambda>t. Some (upd (next_block b (bsize (hdr t b))) (\<lambda>h. h\<lparr>prev_free := True, prev_hdr := b\<rparr>) t))))"
      by (simp only: free_ex_def Let_def BHDR_OVERHEAD_def add_diff_cancel_right' t1_def [symmetric] n join_def prev_def
          add_is_0 zero_neq_numeral [symmetric] simp_thms if_False)
    then show ?thesis using t2(1) t3(1) t4(1) by simp
  qed
  moreover have "same_used t1 (xs @ ys) t4 (xs3 @ c # ys2)"
  proof -
    have "same_used t3 (xs3 @ ys2) t3 (xs3 @ c # ys2)" using same_used_drop [OF t3(5)] by (simp add: same_used_def)
    then show ?thesis using t2(7) t3(7) t4(3) same_used_trans by blast
  qed
  moreover have "xs3 @ c # ys2 = [b] \<and> bsize (hdr t4 b) = bsize (hdr t b) \<and> is_free (hdr t4 b)" if "xs = []" "ys = []"
    using that t2(8) t3(8) t4(4,5) h1(1) by simp
  moreover have "hd ((xs3 @ c # ys2) @ [e]) = hd (xs @ [b])" using t3(9) by (simp add: hd_append split: if_splits)
  ultimately show ?thesis using that [of t4 "xs3 @ c # ys2" L4] t4(2) u1 st by (simp add: same_used_def)
qed

lemma used_split:
  assumes "used h as b = Some n"
  obtains xs ys where "as = xs @ b # ys" and "\<not> is_free (h b)" and "bsize (h b) = n"
proof -
  have "b \<in> set as" "\<not> is_free (h b)" "bsize (h b) = n" using assms by (auto simp: used_def split: if_splits)
  then show ?thesis using that by (metis split_list)
qed

text \<open>What the operations do to the statistics: the bytes in use and the counter change by the same amount.\<close>

definition stat_step :: "tlsf \<Rightarrow> nat list \<Rightarrow> tlsf \<Rightarrow> nat list \<Rightarrow> bool" where
  "stat_step t as t' as' \<longleftrightarrow>
     used_size t' - word_of_nat (used_bytes (hdr t') as') = used_size t - word_of_nat (used_bytes (hdr t) as) \<and> max_size t \<le> max_size t'"

lemma stat_step_trans: "stat_step t as u bs \<Longrightarrow> stat_step u bs v cs \<Longrightarrow> stat_step t as v cs"
  by (auto simp: stat_step_def)

lemma stat_step_refl [simp]: "stat_step t as t as"
  by (simp add: stat_step_def)

lemma stat_step_add:
  assumes "used_bytes (hdr t') as' = used_bytes (hdr t) as + k" and "used_size t' = used_size t + word_of_nat k" and "max_size t \<le> max_size t'"
  shows "stat_step t as t' as'"
  using assms by (simp add: stat_step_def)

lemma stat_step_sub:
  assumes "used_bytes (hdr t') as' + k = used_bytes (hdr t) as" and "used_size t' = used_size t - word_of_nat k" and "max_size t \<le> max_size t'"
  shows "stat_step t as t' as'"
  using assms by (simp add: stat_step_def flip: assms(1))

lemma free_step:
  assumes "tlsf_ok t as e L" and "used (hdr t) as b = Some n"
  obtains t' as' L' where "free_ex (b + 16) t = Some t'" and "tlsf_ok t' as' e L'" and "used (hdr t') as' = (used (hdr t) as)(b := None)"
    and "stat_step t as t' as'" and "used_size t' = used_size t - word_of_nat (n + 16)" and "max_size t' = max_size t"
    and "hd (as' @ [e]) = hd (as @ [e])"
proof -
  obtain xs ys where as: "as = xs @ b # ys" and b: "\<not> is_free (hdr t b)" "bsize (hdr t b) = n" using used_split [OF assms(2)] .
  note op = open_used [OF assms(1) [unfolded as] b(1)]
  have fresh: "used (hdr t) (xs @ ys) b = None" using gap_ok_block [OF op(1)] by (intro used_None) simp
  have f: "fills t b ys e" using op(2) by (simp add: link_def)
  obtain t' as' L' where t': "free_ex (b + 16) t = Some t'" "tlsf_ok t' as' e L'" "used (hdr t') as' = used (hdr t) (xs @ ys)"
    "used_bytes (hdr t') as' = used_bytes (hdr t) (xs @ ys)" "used_size t' = used_size t - word_of_nat (bsize (hdr t b) + 16)"
    "max_size t' = max_size t" "hd (as' @ [e]) = hd (xs @ [b])" using free_gap [OF op(1) f] by metis
  have "used (hdr t) (xs @ ys) = (used (hdr t) as)(b := None)" using fresh b(1) by (auto simp: as used_block)
  moreover have "used_bytes (hdr t') as' + (n + 16) = used_bytes (hdr t) as"
    using t'(4) b by (simp add: as used_bytes_append used_bytes_Cons)
  from stat_step_sub [OF this] have "stat_step t as t' as'" using t'(5,6) b(2) by simp
  moreover have "hd (as' @ [e]) = hd (as @ [e])" using t'(7) by (simp add: as hd_append)
  ultimately show ?thesis using that [of t' as' L'] t' b(2) by simp
qed

end
