(* ===== verification/TlsfRealloc.thy ===== *)
theory TlsfRealloc
  imports TlsfFree
begin

text \<open>
  Reallocation: a block shrinks or grows in place when the space behind it suffices, and moves otherwise.
\<close>

section \<open>The rest is given back\<close>

lemma give_back_ok:
  assumes "gap_ok t xs b ys e L" and "16 \<le> n" and "16 dvd n" and "b + 16 + n + tmp = nb" and "nb = hd (ys @ [e])"
    and "\<not> is_free (hdr t nb)" and "tmp < 32 \<Longrightarrow> link (hdr t) b nb \<and> \<not> is_free (hdr t b)"
  obtains t' as' L' m where "give_back b n tmp nb t = Some t'" and "tlsf_ok t' as' e L'" and "n \<le> m" and "bsize (hdr t' b) = m"
    and "used (hdr t') as' = (used (hdr t) (xs @ ys))(b \<mapsto> m)" and "used_bytes (hdr t') as' = used_bytes (hdr t) (xs @ ys) + (m + 16)"
    and "used_size t' = used_size t" and "max_size t' = max_size t" and "hd (as' @ [e]) = hd (xs @ [b])"
proof (cases "32 \<le> tmp")
  case True
  let ?t = "upd nb (prev_free_update (\<lambda>_. True)) t" and ?c = "b + 16 + n"
  have g: "gap_ok ?t xs b ys e L" by (rule gap_ok_upd_next [OF assms(1,5)]) (simp add: same_size_def)
  have "prev_free (hdr ?t nb)" "\<not> is_free (hdr ?t nb)" using assms(6) by simp_all
  note s = split_block_ok [OF g assms(2-5) True this]
  obtain t' L' where t': "split_block b n tmp nb ?t = Some t'" "tlsf_ok t' (xs @ b # ?c # ys) e L'" "bsize (hdr t' b) = n"
    "\<not> is_free (hdr t' b)" "is_free (hdr t' ?c)" "\<forall>a \<in> set (xs @ ys). same_size (hdr ?t a) (hdr t' a)" "used_size t' = used_size ?t"
    "max_size t' = max_size ?t" using s .
  have keep: "same_size (hdr t a) (hdr t' a)" if "a \<in> set (xs @ ys)" for a
    using t'(6) that by (auto simp: upd_def same_size_def split: if_splits)
  have "used (hdr t') (xs @ b # ?c # ys) = (used (hdr t') (xs @ ys))(b \<mapsto> n)"
    using t'(3,4,5) used_block [of "hdr t'" xs b "?c # ys"] used_block [of "hdr t'" xs ?c ys] by simp
  also have "used (hdr t') (xs @ ys) = used (hdr t) (xs @ ys)" by (rule used_cong) (rule keep)
  finally have u: "used (hdr t') (xs @ b # ?c # ys) = (used (hdr t) (xs @ ys))(b \<mapsto> n)" .
  have "used_bytes (hdr t') (xs @ ys) = used_bytes (hdr t) (xs @ ys)" by (rule used_bytes_cong) (rule keep)
  then have "used_bytes (hdr t') (xs @ b # ?c # ys) = used_bytes (hdr t) (xs @ ys) + (n + 16)"
    using t'(3,4,5) by (simp add: used_bytes_append used_bytes_Cons)
  then show ?thesis using that [of t' "xs @ b # ?c # ys" L' n] t' True u by (simp add: give_back_def BHDR_SIZE_def upd_def hd_append)
next
  case False
  have l: "link (hdr t) b (hd (ys @ [e]))" "\<not> is_free (hdr t b)" using assms(5,7) False by simp_all
  have "tlsf_ok t (xs @ b # ys) e L" by (rule close_used [OF assms(1) l])
  moreover have "n \<le> bsize (hdr t b)" using l(1) assms(4,5) by (simp add: link_def)
  moreover have "used (hdr t) (xs @ b # ys) = (used (hdr t) (xs @ ys))(b \<mapsto> bsize (hdr t b))" using l(2) by (simp add: used_block)
  ultimately show ?thesis using that [of t "xs @ b # ys" L "bsize (hdr t b)"] False l(2)
    by (simp add: give_back_def BHDR_SIZE_def used_bytes_append used_bytes_Cons hd_append)
qed

text \<open>The end of both cases in place.\<close>

definition resized :: "nat \<Rightarrow> nat \<Rightarrow> tlsf \<Rightarrow> nat list \<Rightarrow> nat \<Rightarrow> tlsf \<Rightarrow> bool" where
  "resized n b t as e t' \<longleftrightarrow>
     (\<exists>as' L' m. tlsf_ok t' as' e L' \<and> hd (as' @ [e]) = hd (as @ [e]) \<and> n \<le> m \<and> used (hdr t') as' = (used (hdr t) as)(b \<mapsto> m) \<and> stat_step t as t' as')"

lemma resized_in_place:
  assumes "as = xs @ b # ys" and "\<not> is_free (hdr t b)" and "b \<notin> set (xs @ ys)"
    and "same_used t (xs @ ys) u (xs @ zs)" and "used_size u' = used_size u - word_of_nat (bsize (hdr t b) + 16)" and "max_size u' = max_size u"
    and "tlsf_ok t' as' e L'" and "n \<le> m" and "bsize (hdr t' b) = m" and "used (hdr t') as' = (used (hdr u) (xs @ zs))(b \<mapsto> m)"
    and "used_bytes (hdr t') as' = used_bytes (hdr u) (xs @ zs) + (m + 16)" and "used_size t' = used_size u'" and "max_size t' = max_size u'"
    and "hd (as' @ [e]) = hd (xs @ [b])"
  shows "resized n b t as e (TLSF_ADD_SIZE b t')"
proof -
  have "used (hdr t) as = (used (hdr t) (xs @ ys))(b \<mapsto> bsize (hdr t b))" using assms(1,2) by (simp add: used_block)
  then have "used (hdr t') as' = (used (hdr t) as)(b \<mapsto> m)" using assms(4,10) by (simp add: same_used_def)
  moreover have "stat_step t as (TLSF_ADD_SIZE b t') as'"
  proof -
    have "used_bytes (hdr t) as = used_bytes (hdr t) (xs @ ys) + (bsize (hdr t b) + 16)"
      using assms(1,2) by (simp add: used_bytes_append used_bytes_Cons)
    then show ?thesis using assms(4-6,9,11-13)
      by (auto simp: stat_step_def same_used_def TLSF_ADD_SIZE_def Let_def BHDR_OVERHEAD_def)
  qed
  moreover have "tlsf_ok (TLSF_ADD_SIZE b t') as' e L'" "hdr (TLSF_ADD_SIZE b t') = hdr t'"
    using assms(7) by (simp_all add: TLSF_ADD_SIZE_def Let_def)
  moreover have "hd (as' @ [e]) = hd (as @ [e])" using assms(1,14) by (simp add: hd_append)
  ultimately show ?thesis using assms(8) unfolding resized_def by metis
qed

section \<open>Smaller or larger in place\<close>

lemma shrink_ok:
  assumes "tlsf_ok t as e L" and "used (hdr t) as b = Some old" and "n \<le> old" and "16 \<le> n" and "16 dvd n"
  obtains t' where "shrink_block b n t = Some t'" and "resized n b t as e t'"
proof -
  obtain xs ys where as: "as = xs @ b # ys" and b: "\<not> is_free (hdr t b)" "bsize (hdr t b) = old" using used_split [OF assms(2)] .
  note op = open_used [OF assms(1) [unfolded as] b(1)]
  have fresh: "b \<notin> set (xs @ ys)" using gap_ok_block [OF op(1)] by simp
  define u where "u = TLSF_REMOVE_SIZE b t"
  have u: "hdr u = hdr t" "used_size u = used_size t - word_of_nat (bsize (hdr t b) + 16)" "max_size u = max_size t"
    by (simp_all add: u_def TLSF_REMOVE_SIZE_def BHDR_OVERHEAD_def)
  have g: "gap_ok u xs b ys e L" using op(1) by (simp add: u_def TLSF_REMOVE_SIZE_def)
  let ?n = "hd (ys @ [e])"
  have next_b: "next_block b (bsize (hdr t b)) = ?n" "?n = b + 16 + old" using op(2) b(2)
    by (simp_all add: link_def next_block_def BHDR_OVERHEAD_def)
  show ?thesis
  proof (cases "is_free (hdr u ?n)")
    case True
    have "\<not> is_free (hdr u e)" using gap_okD(2) [OF g] by (simp add: gap_def)
    then obtain a zs where ys: "ys = a # zs" using True by (cases ys) auto
    have a: "is_free (hdr u a)" using True ys by simp
    obtain u1 L1 where u1: "extract_free a u = Some u1" "same_blocks u u1" "gap_ok u1 xs b zs e L1" "link (hdr u1) a (hd (zs @ [e]))"
      using absorb_next [OF g [unfolded ys] a] .
    let ?s = "bsize (hdr u1 a)" and ?m = "hd (zs @ [e])"
    have sizes: "?m = a + 16 + ?s" "16 \<le> ?s" "a = b + 16 + old" using u1(4) next_b(2) ys by (simp_all add: link_def)
    have free: "\<not> is_free (hdr u1 ?m)"
      using gap_next_used [OF gap_okD(2) [OF g [unfolded ys]] a] u1(2) by (simp add: same_blocks_def)
    have tmp: "b + 16 + n + (old + (?s + 16) - n) = ?m" "\<not> old + (?s + 16) - n < 32" using sizes assms(3) by simp_all
    obtain t' as' L' m where t': "give_back b n (old + (?s + 16) - n) ?m u1 = Some t'" "tlsf_ok t' as' e L'" "n \<le> m" "bsize (hdr t' b) = m"
      "used (hdr t') as' = (used (hdr u1) (xs @ zs))(b \<mapsto> m)" "used_bytes (hdr t') as' = used_bytes (hdr u1) (xs @ zs) + (m + 16)"
      "used_size t' = used_size u1" "max_size t' = max_size u1" "hd (as' @ [e]) = hd (xs @ [b])"
      using give_back_ok [OF u1(3) assms(4,5) tmp(1) refl free] tmp(2) by blast
    have "same_used u (xs @ ys) u1 (xs @ zs)"
      unfolding ys by (rule same_used_trans [OF same_used_drop [OF a] same_used_blocks [OF u1(2)]])
    then have su: "same_used t (xs @ ys) (u1\<lparr>used_size := used_size t, max_size := max_size t\<rparr>) (xs @ zs)" using u by (simp add: same_used_def)
    have us: "used_size u1 = used_size u" "max_size u1 = max_size u" using u1(2) by (simp_all add: same_blocks_def)
    have "resized n b t as e (TLSF_ADD_SIZE b t')"
      by (rule resized_in_place [OF as b(1) fresh su, where u' = u1]) (use t' us u in simp_all)
    moreover have "shrink_block b n t = Some (TLSF_ADD_SIZE b t')"
    proof -
      have "is_free (hdr u a)" "next_block b old = a" "next_block a ?s = ?m"
        using True ys sizes by (simp_all add: next_block_def BHDR_OVERHEAD_def)
      then show ?thesis using u1(1) t'(1) b(2)
        by (simp add: shrink_block_def Let_def u_def [symmetric] BHDR_OVERHEAD_def)
    qed
    ultimately show ?thesis using that by blast
  next
    case False
    have tmp: "b + 16 + n + (old - n) = ?n" using next_b(2) assms(3) by simp
    have l: "link (hdr u) b ?n \<and> \<not> is_free (hdr u b)" using op(2) b(1) u(1) by simp
    obtain t' as' L' m where t': "give_back b n (old - n) ?n u = Some t'" "tlsf_ok t' as' e L'" "n \<le> m" "bsize (hdr t' b) = m"
      "used (hdr t') as' = (used (hdr u) (xs @ ys))(b \<mapsto> m)" "used_bytes (hdr t') as' = used_bytes (hdr u) (xs @ ys) + (m + 16)"
      "used_size t' = used_size u" "max_size t' = max_size u" "hd (as' @ [e]) = hd (xs @ [b])"
      using give_back_ok [OF g assms(4,5) tmp refl False] l by blast
    have "resized n b t as e (TLSF_ADD_SIZE b t')"
      by (rule resized_in_place [OF as b(1) fresh same_used_refl, where u' = u]) (use t' u in simp_all)
    moreover have "shrink_block b n t = Some (TLSF_ADD_SIZE b t')"
      using False t'(1) b(2) next_b(1) by (simp add: shrink_block_def Let_def u_def [symmetric])
    ultimately show ?thesis using that by blast
  qed
qed

lemma grow_ok:
  assumes "tlsf_ok t as e L" and "used (hdr t) as b = Some old" and "16 \<le> n" and "16 dvd n"
    and "next_b = next_block b old" and "is_free (hdr t next_b)" and "n \<le> old + bsize (hdr t next_b)"
  obtains t' where "grow_block b n t = Some t'" and "resized n b t as e t'"
proof -
  obtain xs ys where as: "as = xs @ b # ys" and b: "\<not> is_free (hdr t b)" "bsize (hdr t b) = old" using used_split [OF assms(2)] .
  note op = open_used [OF assms(1) [unfolded as] b(1)]
  have fresh: "b \<notin> set (xs @ ys)" using gap_ok_block [OF op(1)] by simp
  define u where "u = TLSF_REMOVE_SIZE b t"
  have u: "hdr u = hdr t" "used_size u = used_size t - word_of_nat (bsize (hdr t b) + 16)" "max_size u = max_size t"
    by (simp_all add: u_def TLSF_REMOVE_SIZE_def BHDR_OVERHEAD_def)
  have g: "gap_ok u xs b ys e L" using op(1) by (simp add: u_def TLSF_REMOVE_SIZE_def)
  have nb: "next_b = hd (ys @ [e])" using op(2) b(2) assms(5) by (simp add: link_def next_block_def BHDR_OVERHEAD_def)
  have "\<not> is_free (hdr u e)" using gap_okD(2) [OF g] by (simp add: gap_def)
  then obtain zs where ys: "ys = next_b # zs" using assms(6) nb u(1) by (cases ys) auto
  have a: "is_free (hdr u next_b)" using assms(6) u(1) by simp
  have f: "fills u b (next_b # zs) e" using op(2) ys u(1) by (simp add: link_def)
  obtain v L1 where v: "join_next b next_b u = Some v" "gap_ok v xs b zs e L1" "fills v b zs e" "\<not> is_free (hdr v (hd (zs @ [e])))"
    "is_free (hdr v b) = is_free (hdr u b)" "same_back (hdr u b) (hdr v b)" "same_used u (xs @ next_b # zs) v (xs @ zs)"
    using join_next_ok [OF g [unfolded ys] a f] .
  let ?m = "hd (zs @ [e])" and ?s = "bsize (hdr v b)"
  define w where "w = upd ?m (\<lambda>h. h\<lparr>prev_hdr := b, prev_free := False\<rparr>) v"
  have gw: "gap_ok w xs b zs e L1" unfolding w_def by (rule gap_ok_upd_next [OF v(2) refl]) (simp add: same_size_def)
  have mb: "?m \<noteq> b" using v(3) by simp
  have w: "hdr w b = hdr v b" "hdr w ?m = (hdr v ?m)\<lparr>prev_hdr := b, prev_free := False\<rparr>" "used_size w = used_size v" "max_size w = max_size v"
    using mb by (simp_all add: w_def upd_def)
  have "link (hdr u) next_b ?m" using gap_next(2) [OF gap_okD(2) [OF g [unfolded ys]]] .
  then have "old + bsize (hdr t next_b) \<le> ?s" using v(3) f u(1) b(2) by (simp add: link_def)
  then have tmp: "b + 16 + n + (?s - n) = ?m" using v(3) assms(7) by simp
  have l: "link (hdr w) b ?m \<and> \<not> is_free (hdr w b)"
  proof -
    have "16 dvd ?m - b" "b + 32 \<le> ?m" "0 < b" using gap_okD(2) [OF gw] by (simp_all add: gap_def)
    moreover have "?m - b = ?s + 16" using v(3) by simp
    ultimately have "16 dvd ?s" "16 \<le> ?s" by (simp_all add: dvd_add_left_iff)
    then show ?thesis using w v(3,5) b(1) u(1) \<open>0 < b\<close> by (simp add: link_def)
  qed
  have free: "\<not> is_free (hdr w ?m)" using w(2) v(4) by simp
  obtain t' as' L' m where t': "give_back b n (?s - n) ?m w = Some t'" "tlsf_ok t' as' e L'" "n \<le> m" "bsize (hdr t' b) = m"
    "used (hdr t') as' = (used (hdr w) (xs @ zs))(b \<mapsto> m)" "used_bytes (hdr t') as' = used_bytes (hdr w) (xs @ zs) + (m + 16)"
    "used_size t' = used_size w" "max_size t' = max_size w" "hd (as' @ [e]) = hd (xs @ [b])"
    using give_back_ok [OF gw assms(3,4) tmp refl free] l by blast
  have "same_used v (xs @ zs) w (xs @ zs)" unfolding w_def by (rule same_used_upd) (simp add: same_size_def)
  with v(7) have sw: "same_used u (xs @ ys) w (xs @ zs)" unfolding ys by (rule same_used_trans)
  then have su: "same_used t (xs @ ys) (w\<lparr>used_size := used_size t, max_size := max_size t\<rparr>) (xs @ zs)" using u(1) by (simp add: same_used_def)
  have us: "used_size w = used_size u" "max_size w = max_size u" using sw by (simp_all add: same_used_def)
  have "resized n b t as e (TLSF_ADD_SIZE b t')"
    by (rule resized_in_place [OF as b(1) fresh su, where u' = w]) (use t' us u in simp_all)
  moreover have "grow_block b n t = Some (TLSF_ADD_SIZE b t')"
  proof -
    have "next_block b ?s = ?m" using v(3) by (simp add: next_block_def BHDR_OVERHEAD_def)
    moreover have "next_block b (bsize (hdr t b)) = next_b" using b(2) assms(5) by simp
    ultimately show ?thesis using v(1) t'(1) w(1)
      by (simp add: grow_block_def Let_def u_def [symmetric] w_def [symmetric])
  qed
  ultimately show ?thesis using that by blast
qed

end
