(* ===== verification/TlsfPool.thy ===== *)
theory TlsfPool
  imports TlsfRealloc
begin

text \<open>
  A pool as its client sees it: a map from pointers to the sizes of the blocks in use. \<open>lo\<close> is the first block, \<open>e\<close> the sentinel, \<open>k\<close> the part
  of the counter of used bytes that no block in use accounts for.
\<close>

section \<open>The abstract heap\<close>

definition pool_rep :: "nat \<Rightarrow> nat \<Rightarrow> u64 \<Rightarrow> tlsf \<Rightarrow> (nat \<rightharpoonup> nat) \<Rightarrow> bool" where
  "pool_rep lo e k t m \<longleftrightarrow>
     (\<exists>as L. tlsf_ok t as e L \<and> hd (as @ [e]) = lo \<and> m = (\<lambda>p. used (hdr t) as (p - 16)) \<and>
       used_size t - word_of_nat (used_bytes (hdr t) as) = k)"

lemma pointer_upd: "16 < p \<Longrightarrow> (\<lambda>q. (f(p - 16 := x)) (q - 16)) = (\<lambda>q. f (q - 16))(p := x)" for p :: nat
  by (rule ext) auto

lemma used_pos:
  assumes "tlsf_ok t as e L" and "used (hdr t) as a = Some n"
  shows "0 < a" and "a + 16 + n \<le> e" and "hd (as @ [e]) \<le> a" and "16 \<le> n" and "16 dvd n"
proof -
  have a: "a \<in> set as" "bsize (hdr t a) = n" using assms(2) by (auto simp: used_def split: if_splits)
  have p: "pseg (hdr t) as e" using assms(1) by (simp add: tlsf_ok_def order_ok_def)
  show "a + 16 + n \<le> e" "hd (as @ [e]) \<le> a" using pseg_bounds [OF p a(1)] a(2) by simp_all
  show "0 < a" "16 \<le> n" "16 dvd n" using pseg_block [OF p a(1)] a(2) by simp_all
qed

lemma pool_pointer:
  assumes "pool_rep lo e k t m" and "m p = Some n"
  shows "16 < p" and "lo + 16 \<le> p" and "p + n \<le> e" and "16 \<le> n" and "16 dvd n"
proof -
  obtain as L where r: "tlsf_ok t as e L" "hd (as @ [e]) = lo" "m = (\<lambda>p. used (hdr t) as (p - 16))"
    using assms(1) by (auto simp: pool_rep_def)
  have "used (hdr t) as (p - 16) = Some n" using assms(2) r(3) by simp
  note u = used_pos [OF r(1) this]
  show "16 < p" "lo + 16 \<le> p" "p + n \<le> e" "16 \<le> n" "16 dvd n" using u r(2) by simp_all
qed

text \<open>Two blocks in use do not overlap; the header of the later one lies between them.\<close>

lemma pseg_apart:
  assumes "pseg h as e" and "a \<in> set as" and "c \<in> set as" and "a < c"
  shows "a + 16 + bsize (h a) \<le> c"
proof -
  obtain xs ys where as: "as = xs @ a # ys" using split_list [OF assms(2)] by blast
  have p: "pseg h xs a" "link h a (hd (ys @ [e]))" "pseg h ys e" using assms(1) by (simp_all add: as pseg_append)
  have "c \<notin> set xs" using pseg_bounds [OF p(1), of c] assms(4) by auto
  then have "c \<in> set ys" using assms(3,4) as by auto
  then show ?thesis using pseg_bounds [OF p(3), of c] p(2) by (simp add: link_def)
qed

lemma pool_apart:
  assumes "pool_rep lo e k t m" and "m p = Some n" and "m q = Some l" and "p < q"
  shows "p + n + 16 \<le> q"
proof -
  obtain as L where r: "tlsf_ok t as e L" "m = (\<lambda>p. used (hdr t) as (p - 16))" using assms(1) by (auto simp: pool_rep_def)
  have s: "pseg (hdr t) as e" using r(1) by (simp add: tlsf_ok_def order_ok_def)
  have a: "p - 16 \<in> set as" "q - 16 \<in> set as" "bsize (hdr t (p - 16)) = n"
    using assms(2,3) r(2) by (auto simp: used_def split: if_splits)
  have "16 < p" "16 < q" using pool_pointer(1) [OF assms(1)] assms(2,3) by blast+
  then show ?thesis using pseg_apart [OF s a(1,2)] a(3) assms(4) by linarith
qed

section \<open>The operations on the abstract heap\<close>

lemma malloc_rep:
  assumes "pool_rep lo e k t m" and "sz \<le> 2 ^ 30 - 2 ^ 24"
  obtains (none) "malloc_ex sz t = Some (t, 0)"
    | (some) t' p n where "malloc_ex sz t = Some (t', p)" and "16 < p" and "m p = None" and "round_request sz \<le> n"
      and "n < round_request sz + round_request sz div 32 + 32"
      and "pool_rep lo e k t' (m(p \<mapsto> n))"
proof -
  obtain as L where r: "tlsf_ok t as e L" "hd (as @ [e]) = lo" "m = (\<lambda>p. used (hdr t) as (p - 16))"
    "used_size t - word_of_nat (used_bytes (hdr t) as) = k" using assms(1) by (auto simp: pool_rep_def)
  show ?thesis
  proof (cases rule: malloc_step [OF r(1) assms(2), case_names none some])
    case (some t' p)
    then obtain as' L' n where s: "16 < p" "tlsf_ok t' as' e L'" "hd (as' @ [e]) = hd (as @ [e])" "round_request sz \<le> n"
      "n < round_request sz + round_request sz div 32 + 32" "used (hdr t) as (p - 16) = None" "used (hdr t') as' = (used (hdr t) as)(p - 16 \<mapsto> n)"
      "used_bytes (hdr t') as' = used_bytes (hdr t) as + (n + 16)" "used_size t' = used_size t + word_of_nat (n + 16)"
      by (auto simp: allocated_def)
    have "pool_rep lo e k t' (m(p \<mapsto> n))" unfolding pool_rep_def
      by (intro exI [of _ as'] exI [of _ L']) (use s r pointer_upd [OF s(1), of "used (hdr t) as" "Some n"] in simp)
    then show ?thesis using that(2) some(1) s r(3) by simp
  qed (use that(1) in blast)
qed

lemma free_rep:
  assumes "pool_rep lo e k t m" and "m p = Some n"
  obtains t' where "free_ex p t = Some t'" and "pool_rep lo e k t' (m(p := None))"
proof -
  obtain as L where r: "tlsf_ok t as e L" "hd (as @ [e]) = lo" "m = (\<lambda>p. used (hdr t) as (p - 16))"
    "used_size t - word_of_nat (used_bytes (hdr t) as) = k" using assms(1) by (auto simp: pool_rep_def)
  have p: "16 < p" by (rule pool_pointer(1) [OF assms])
  have u: "used (hdr t) as (p - 16) = Some n" using assms(2) r(3) by simp
  obtain t' as' L' where t': "free_ex (p - 16 + 16) t = Some t'" "tlsf_ok t' as' e L'" "used (hdr t') as' = (used (hdr t) as)(p - 16 := None)"
    "stat_step t as t' as'" "hd (as' @ [e]) = hd (as @ [e])" using free_step [OF r(1) u] .
  have "pool_rep lo e k t' (m(p := None))" unfolding pool_rep_def
    by (intro exI [of _ as'] exI [of _ L'])
      (use t' r pointer_upd [OF p, of "used (hdr t) as" None] in \<open>simp add: stat_step_def\<close>)
  then show ?thesis using that t'(1) p by simp
qed

text \<open>The cases of a reallocation of a block that exists to a size that is not zero.\<close>

lemma realloc_rep:
  assumes "pool_rep lo e k t m" and "m p = Some old" and "0 < sz" and "sz \<le> 2 ^ 30 - 2 ^ 24"
  obtains (none) "realloc_ex p sz t = Some (t, 0, None)" and "old < round_request sz"
    | (place) t' n where "realloc_ex p sz t = Some (t', p, None)" and "sz \<le> n" and "pool_rep lo e k t' (m(p \<mapsto> n))"
    | (moved) t' q n where "realloc_ex p sz t = Some (t', q, Some (q, p, old))" and "16 < q" and "m q = None" and "sz \<le> n" and "old < n"
      and "pool_rep lo e k t' ((m(p := None))(q \<mapsto> n))"
proof -
  obtain as L where r: "tlsf_ok t as e L" "hd (as @ [e]) = lo" "m = (\<lambda>p. used (hdr t) as (p - 16))"
    "used_size t - word_of_nat (used_bytes (hdr t) as) = k" using assms(1) by (auto simp: pool_rep_def)
  have p: "16 < p" by (rule pool_pointer(1) [OF assms(1,2)])
  define b where "b = p - 16"
  have b: "p = b + 16" using p by (simp add: b_def)
  have u: "used (hdr t) as b = Some old" using assms(2) r(3) by (simp add: b_def)
  have sb: "bsize (hdr t b) = old" using u by (auto simp: used_def split: if_splits)
  define N where "N = round_request sz"
  have N: "sz \<le> N" "N \<le> 2 ^ 30 - 2 ^ 24" "16 dvd N" "16 \<le> N" using round_request_spec [OF assms(4)] by (simp_all add: N_def)
  have rsz: "pool_rep lo e k t' (m(p \<mapsto> n))"
    if "tlsf_ok t' as' e L'" "hd (as' @ [e]) = hd (as @ [e])" "used (hdr t') as' = (used (hdr t) as)(b \<mapsto> n)" "stat_step t as t' as'" for t' as' L' n
    unfolding pool_rep_def
    by (intro exI [of _ as'] exI [of _ L'])
      (use that r pointer_upd [OF p, of "used (hdr t) as" "Some n"] in \<open>simp add: stat_step_def b_def\<close>)
  have place': thesis if "realloc_ex p sz t = Some (t', p, None)" "resized N b t as e t'" for t'
    using that(2) place [OF that(1)] rsz N(1) unfolding resized_def by (meson le_trans)
  let ?nb = "next_block b old"
  consider (small) "N \<le> old" | (grow) "old < N" "is_free (hdr t ?nb)" "N \<le> old + bsize (hdr t ?nb)"
    | (move) "old < N" "\<not> (is_free (hdr t ?nb) \<and> N \<le> old + bsize (hdr t ?nb))" by linarith
  then show ?thesis
  proof cases
    case small
    obtain t' where t': "shrink_block b N t = Some t'" "resized N b t as e t'" using shrink_ok [OF r(1) u small N(4,3)] .
    have "realloc_ex p sz t = Some (t', p, None)"
      using small assms(3) t'(1) b sb by (simp add: realloc_ex_def Let_def BHDR_OVERHEAD_def N_def)
    then show ?thesis using place' t'(2) by blast
  next
    case grow
    obtain t' where t': "grow_block b N t = Some t'" "resized N b t as e t'" using grow_ok [OF r(1) u N(4,3) refl grow(2,3)] .
    have "realloc_ex p sz t = Some (t', p, None)"
      using grow assms(3) t'(1) b sb by (simp add: realloc_ex_def Let_def BHDR_OVERHEAD_def N_def [symmetric])
    then show ?thesis using place' t'(2) by blast
  next
    case move
    have re: "realloc_ex p sz t = malloc_ex N t \<bind> (\<lambda>(t, q). if q = 0 then Some (t, 0, None) else
        free_ex p t \<bind> (\<lambda>t'. Some (t', q, Some (q, p, (if bsize (hdr t b) > N then N else bsize (hdr t b)) mod 2 ^ 32))))"
      using move assms(3) p unfolding realloc_ex_def Let_def BHDR_OVERHEAD_def b_def [symmetric] N_def [symmetric] sb by auto
    show ?thesis
    proof (cases rule: malloc_rep [OF assms(1) N(2), case_names none some])
      case none
      then show ?thesis using that(1) re move(1) by (simp add: N_def)
    next
      case (some t1 q n)
      note rep1 = some(6)
      have mp: "(m(q \<mapsto> n)) p = Some old" using assms(2) some(3) by auto
      have "p + old \<le> e" "16 \<le> old" using pool_pointer(3,4) [OF assms(1,2)] .
      obtain as1 L1 where r1: "m(q \<mapsto> n) = (\<lambda>p. used (hdr t1) as1 (p - 16))" using rep1 by (auto simp: pool_rep_def)
      have "used (hdr t1) as1 b = Some old" using mp unfolding r1 b_def .
      then have s1: "bsize (hdr t1 b) = old" by (auto simp: used_def split: if_splits)
      obtain t2 where t2: "free_ex p t1 = Some t2" "pool_rep lo e k t2 ((m(q \<mapsto> n))(p := None))" using free_rep [OF rep1 mp] .
      have "p \<noteq> q" using assms(2) some(3) by auto
      then have mm: "(m(q \<mapsto> n))(p := None) = (m(p := None))(q \<mapsto> n)" by (simp add: fun_upd_twist)
      have "N \<le> n" using some(4) round_request_spec(1) [OF N(2)] by simp
      have "old mod 2 ^ 32 = old" using move(1) N(2) by simp
      then have run: "realloc_ex p sz t = Some (t2, q, Some (q, p, old))" using re some(1,2) t2(1) s1 move(1) by simp
      have "sz \<le> n" "old < n" using \<open>N \<le> n\<close> move(1) N(1) by linarith+
      then show ?thesis using that(3) [OF run some(2,3)] t2(2) unfolding mm by blast
    qed
  qed
qed

end
