(* ===== verification/TlsfInit.thy ===== *)
theory TlsfInit
  imports TlsfPool
begin

text \<open>The initialisation of a pool: one free block between the block of the area's information and the sentinel.\<close>

section \<open>The layout\<close>

text \<open>The first block, its size and the sentinel of a pool of \<open>sz\<close> bytes at \<open>mem\<close>.\<close>

definition first_block :: "nat \<Rightarrow> nat" where
  "first_block mem = mem + ROUNDUP_SIZE SIZEOF_TLSF + BHDR_OVERHEAD + INFO_SIZE"

definition first_size :: "nat \<Rightarrow> nat" where
  "first_size sz = ROUNDDOWN_SIZE (ROUNDDOWN_SIZE (sz - SIZEOF_TLSF) - 3 * BHDR_OVERHEAD - INFO_SIZE)"

definition pool_end :: "nat \<Rightarrow> nat \<Rightarrow> nat" where
  "pool_end mem sz = first_block mem + BHDR_OVERHEAD + first_size sz"

lemma layout_numbers: "SIZEOF_TLSF = 6280" "ROUNDUP_SIZE 6280 = 6304" "INFO_SIZE = 32" "BHDR_OVERHEAD = 16"
  by (simp_all add: SIZEOF_TLSF_def ROUNDUP_SIZE_def BLOCK_ALIGN_def INFO_SIZE_def BHDR_OVERHEAD_def)

lemma first_size_bounds:
  assumes "6408 \<le> sz"
  shows "first_size sz = (sz - 6280) div 32 * 32 - 96" and "32 \<le> first_size sz" and "first_size sz + 6376 \<le> sz" and "16 dvd first_size sz"
proof -
  define q where "q = (sz - 6280) div 32"
  have q: "4 \<le> q" "q * 32 \<le> sz - 6280" using assms unfolding q_def by simp_all
  have "(q * 32 - 80) div 32 = q - 3"
  proof -
    have "q * 32 - 80 = 16 + (q - 3) * 32" using q(1) by simp
    then show ?thesis by simp
  qed
  then have f: "first_size sz = (q - 3) * 32"
    by (simp add: first_size_def layout_numbers ROUNDDOWN_SIZE_def BLOCK_ALIGN_def flip: q_def)
  then show "first_size sz = (sz - 6280) div 32 * 32 - 96" unfolding q_def [symmetric] by simp
  show "32 \<le> first_size sz" "first_size sz + 6376 \<le> sz" unfolding f using q assms by simp_all
  show "16 dvd first_size sz" unfolding f by (simp add: dvd_mult)
qed

section \<open>The only area\<close>

text \<open>The information of the only area of a pool lies before its first block \<open>lo\<close> and names its sentinel \<open>e\<close>.\<close>

definition one_area :: "nat \<Rightarrow> nat \<Rightarrow> tlsf \<Rightarrow> bool" where
  "one_area lo e t \<longleftrightarrow> 48 < lo \<and> area_head t = lo - 32 \<and> bsize (hdr t (lo - 48)) = 32 \<and> free_prev (hdr t (lo - 48)) = e \<and>
     free_next (hdr t (lo - 48)) = 0"

text \<open>A fresh pool has one area.\<close>

lemma free_frame:
  assumes "free_ex (b + 16) t = Some t'" and "\<not> is_free (hdr t (next_block b (bsize (hdr t b))))" and "\<not> prev_free (hdr t b)"
    and "matrix t = (\<lambda>_ _. 0)" and "a \<noteq> b" and "a \<noteq> next_block b (bsize (hdr t b))"
    and "next_block b (bsize (hdr t b)) \<noteq> b"
  shows "hdr t' a = hdr t a"
proof -
  let ?n = "next_block b (bsize (hdr t b))"
  define t1 where "t1 = upd b (\<lambda>h. h\<lparr>free_prev := 0, free_next := 0\<rparr>) (TLSF_REMOVE_SIZE b (upd b (is_free_update (\<lambda>_. True)) t))"
  have h1: "hdr t1 b = (hdr t b)\<lparr>is_free := True, free_prev := 0, free_next := 0\<rparr>" "\<And>c. c \<noteq> b \<Longrightarrow> hdr t1 c = hdr t c" "matrix t1 = matrix t"
    by (simp_all add: t1_def TLSF_REMOVE_SIZE_def upd_def)
  have "free_ex (b + 16) t = insert_free b t1 \<bind> (\<lambda>t. Some (upd (next_block b (bsize (hdr t b))) (\<lambda>h. h\<lparr>prev_free := True, prev_hdr := b\<rparr>) t))"
    using assms(2,3) h1(1) h1(2) [OF assms(7)]
    unfolding free_ex_def Let_def BHDR_OVERHEAD_def add_diff_cancel_right' t1_def [symmetric] by simp
  then obtain t2 where t2: "insert_free b t1 = Some t2" "t' = upd (next_block b (bsize (hdr t2 b))) (\<lambda>h. h\<lparr>prev_free := True, prev_hdr := b\<rparr>) t2"
    using assms(1) by (cases "insert_free b t1") auto
  obtain f s where "t2 = INSERT_BLOCK b f s t1"
    using t2(1) by (cases "mapping (bsize (hdr t1 b))") (auto simp: insert_free_def)
  then have "bsize (hdr t2 b) = bsize (hdr t1 b)" "\<And>c. c \<noteq> b \<Longrightarrow> hdr t2 c = hdr t1 c"
    using assms(4) h1(3) by (simp_all add: INSERT_BLOCK_def Let_def upd_def set_matrix_def)
  then show ?thesis using t2(2) h1 assms(5,6) by (simp add: upd_def)
qed

section \<open>The pool\<close>

lemma index_empty:
  assumes "fl_bitmap t = 0" and "sl_bitmap t = (\<lambda>_. 0)" and "matrix t = (\<lambda>_ _. 0)"
  shows "index_ok t (\<lambda>_ _. [])"
  using assms by (simp add: index_ok_def list_ok_def)

lemma init_pool:
  assumes "mem \<noteq> 0" and "mem mod 8 = 0" and "6408 \<le> sz" and "sz \<le> 2 ^ 30" and "signature t \<noteq> TLSF_SIGNATURE"
  obtains t' where "init_memory_pool sz mem t = Some (t', int (first_size sz))"
    and "pool_rep (first_block mem) (pool_end mem sz) (word_of_nat (sz - first_size sz)) t' Map.empty"
    and "used_size t' = word_of_nat (sz - first_size sz)" and "max_size t' = used_size t'"
    and "one_area (first_block mem) (pool_end mem sz) t'"
proof -
  let ?b = "first_block mem" and ?e = "pool_end mem sz" and ?s = "first_size sz"
  note sz = first_size_bounds [OF assms(3)]
  define t0 where "t0 = t\<lparr>signature := TLSF_SIGNATURE, fl_bitmap := 0, sl_bitmap := \<lambda>_. 0, matrix := \<lambda>_ _. 0, used_size := 0, max_size := 0,
    area_head := 0\<rparr>"
  define ib where "ib = mem + 6304"
  obtain t1 where pa: "process_area ib (ROUNDDOWN_SIZE (sz - SIZEOF_TLSF)) t0 = (t1, ib, ?b, ?e)"
    by (simp add: process_area_def Let_def first_block_def pool_end_def first_size_def next_block_def ib_def layout_numbers)
  have be: "?b = ib + 48" "?e = ?b + 16 + ?s" by (simp_all add: first_block_def pool_end_def ib_def layout_numbers)
  have h: "bsize (hdr t1 ?b) = ?s" "\<not> prev_free (hdr t1 ?b)" "bsize (hdr t1 ?e) = 0" "\<not> is_free (hdr t1 ?e)"
    and i: "fl_bitmap t1 = 0" "sl_bitmap t1 = (\<lambda>_. 0)" "matrix t1 = (\<lambda>_ _. 0)"
    and inf: "bsize (hdr t1 ib) = 32" "free_prev (hdr t1 ib) = ?e" "free_next (hdr t1 ib) = 0"
  proof -
    have "t1 = fst (process_area ib (ROUNDDOWN_SIZE (sz - SIZEOF_TLSF)) t0)" by (simp add: pa)
    moreover have "next_block ib INFO_SIZE = ?b" "next_block ?b ?s = ?e" using be by (simp_all add: next_block_def layout_numbers)
    ultimately have "t1 = upd ib (\<lambda>h. h\<lparr>free_next := 0, free_prev := ?e\<rparr>) (upd ?e (\<lambda>h. h\<lparr>prev_hdr := ?b, bsize := 0, is_free := False, prev_free := True\<rparr>)
      (upd ?b (\<lambda>h. h\<lparr>bsize := ?s, is_free := False, prev_free := False, free_prev := 0, free_next := 0\<rparr>)
      (upd ib (\<lambda>h. h\<lparr>bsize := INFO_SIZE, is_free := False, prev_free := False\<rparr>) t0)))"
      by (simp add: process_area_def Let_def first_size_def)
    moreover have "?e \<noteq> ?b" "?e \<noteq> ib" "?b \<noteq> ib" using be by simp_all
    ultimately show "bsize (hdr t1 ?b) = ?s" "\<not> prev_free (hdr t1 ?b)" "bsize (hdr t1 ?e) = 0" "\<not> is_free (hdr t1 ?e)"
      "fl_bitmap t1 = 0" "sl_bitmap t1 = (\<lambda>_. 0)" "matrix t1 = (\<lambda>_ _. 0)"
      "bsize (hdr t1 ib) = 32" "free_prev (hdr t1 ib) = ?e" "free_next (hdr t1 ib) = 0"
      by (simp_all add: upd_def t0_def layout_numbers)
  qed
  have "?e < ?b + 2 ^ 30" using be(2) sz(3) assms(4) by simp
  moreover have "16 dvd 16 + ?s" using sz(4) by simp
  ultimately have "gap (hdr t1) [] ?b [] ?e" using h be sz(2) by (simp add: gap_def)
  then have g: "gap_ok t1 [] ?b [] ?e (\<lambda>_ _. [])"
    using index_empty [OF i] by (simp add: gap_ok_def members_def free_set_def)
  have f: "fills t1 ?b [] ?e" using h(1) be(2) by simp
  obtain t2 as L where t2: "free_ex (?b + 16) t1 = Some t2" "tlsf_ok t2 as ?e L" "used (hdr t2) as = used (hdr t1) ([] @ [])"
    "used_bytes (hdr t2) as = used_bytes (hdr t1) ([] @ [])" "hd (as @ [?e]) = hd ([] @ [?b])" "as = [?b] \<and> bsize (hdr t2 ?b) = bsize (hdr t1 ?b)"
    using free_gap [OF g f] by (metis append_Nil)
  define t' where "t' = t2\<lparr>area_head := ib + 16, used_size := word_of_nat (sz - ?s), max_size := word_of_nat (sz - ?s)\<rparr>"
  have "\<not> sz < SIZEOF_TLSF + BHDR_OVERHEAD * 8" "sz \<noteq> 0" using assms(3) by (simp_all add: layout_numbers)
  then have run: "init_memory_pool sz mem t = Some (t', int ?s)"
    using assms(1,2,5) pa t2(1,6) h(1) by (simp add: init_memory_pool_def t0_def [symmetric] ib_def [symmetric] layout_numbers t'_def Let_def)
  have "tlsf_ok (t2\<lparr>area_head := ib + 16\<rparr>) as ?e L" using t2(2) by (simp add: tlsf_ok_def index_ok_def list_ok_def)
  then have "tlsf_ok t' as ?e L" unfolding t'_def by simp
  moreover have "used_bytes (hdr t2) as = 0" "used (hdr t2) as = Map.empty" unfolding t2(3,4) by (auto simp: used_def used_bytes_def)
  then have "used_bytes (hdr t') as = 0" "used (hdr t') as = Map.empty" "used_size t' = word_of_nat (sz - ?s)" by (simp_all add: t'_def)
  ultimately have rep: "pool_rep ?b ?e (word_of_nat (sz - ?s)) t' Map.empty" unfolding pool_rep_def
    by (intro exI [of _ as] exI [of _ L]) (use t2(5) in simp)
  have n: "next_block ?b (bsize (hdr t1 ?b)) = ?e" using h(1) be(2) by (simp add: next_block_def layout_numbers)
  have "hdr t2 ib = hdr t1 ib"
    using free_frame [OF t2(1), of ib, unfolded n] h(2,4) i(3) be by simp
  moreover have "?b - 48 = ib" "?b - 32 = ib + 16" "48 < ?b" using be(1) assms(1) by (simp_all add: ib_def)
  ultimately have "one_area ?b ?e t'" using inf by (simp add: one_area_def t'_def)
  with rep show ?thesis using that [of t'] run by (simp add: t'_def)
qed

end
