(* ===== verification/TlsfProps.thy ===== *)
theory TlsfProps
  imports TlsfInit
begin

text \<open>
  The contract of an allocator as a locale, its client lemma for any sequence of requests, the interpretation on TLSF, and the properties of
  the pools.
\<close>

section \<open>The contract\<close>

datatype request = Malloc nat | Free nat | Realloc nat nat

primrec request_size :: "request \<Rightarrow> nat" where
  "request_size (Malloc n) = n"
| "request_size (Free p) = 0"
| "request_size (Realloc p n) = n"

text \<open>
  A client that keeps a map of the sizes it has asked for, and releases or resizes only blocks of its map.
\<close>

fun run_requests :: "(nat \<Rightarrow> 's \<Rightarrow> ('s \<times> nat) option) \<Rightarrow> (nat \<Rightarrow> 's \<Rightarrow> 's option) \<Rightarrow> (nat \<Rightarrow> nat \<Rightarrow> 's \<Rightarrow> ('s \<times> nat \<times> 'c) option) \<Rightarrow>
    request list \<Rightarrow> 's \<Rightarrow> (nat \<rightharpoonup> nat) \<Rightarrow> ('s \<times> (nat \<rightharpoonup> nat)) option" where
  "run_requests malloc free realloc [] s c = Some (s, c)"
| "run_requests malloc free realloc (Malloc n # rs) s c = do {
     (s, p) \<leftarrow> malloc n s;
     run_requests malloc free realloc rs s (if p = 0 then c else c(p \<mapsto> n))
   }"
| "run_requests malloc free realloc (Free p # rs) s c =
     (if c p = None then run_requests malloc free realloc rs s c
      else do { s \<leftarrow> free p s; run_requests malloc free realloc rs s (c(p := None)) })"
| "run_requests malloc free realloc (Realloc p n # rs) s c =
     (if c p = None \<or> n = 0 then run_requests malloc free realloc rs s c
      else do {
        (s, q, _) \<leftarrow> realloc p n s;
        run_requests malloc free realloc rs s (if q = 0 then c else (c(p := None))(q \<mapsto> n))
      })"

text \<open>The client's map is right: it knows every block, and each block has at least the size asked for.\<close>

definition covers :: "(nat \<rightharpoonup> nat) \<Rightarrow> (nat \<rightharpoonup> nat) \<Rightarrow> bool" where
  "covers m c \<longleftrightarrow> dom m = dom c \<and> (\<forall>p n k. c p = Some n \<and> m p = Some k \<longrightarrow> n \<le> k)"

lemma covers_upd: "covers m c \<Longrightarrow> n \<le> k \<Longrightarrow> covers (m(p \<mapsto> k)) (c(p \<mapsto> n))"
  and covers_del: "covers m c \<Longrightarrow> covers (m(p := None)) (c(p := None))"
  by (auto simp: covers_def)

lemma covers_Some: "covers m c \<Longrightarrow> c p = Some n \<Longrightarrow> \<exists>k. m p = Some k \<and> n \<le> k"
  unfolding covers_def by (metis domD domI)

locale allocator =
  fixes rep :: "'s \<Rightarrow> (nat \<rightharpoonup> nat) \<Rightarrow> bool" and malloc :: "nat \<Rightarrow> 's \<Rightarrow> ('s \<times> nat) option" and free :: "nat \<Rightarrow> 's \<Rightarrow> 's option"
    and realloc :: "nat \<Rightarrow> nat \<Rightarrow> 's \<Rightarrow> ('s \<times> nat \<times> 'c) option" and limit :: nat and lo :: nat and e :: nat
  assumes malloc_law: "rep s m \<Longrightarrow> n \<le> limit \<Longrightarrow>
      \<exists>s' p. malloc n s = Some (s', p) \<and> (p = 0 \<and> rep s' m \<or> p \<noteq> 0 \<and> m p = None \<and> (\<exists>k \<ge> n. rep s' (m(p \<mapsto> k))))"
    and free_law: "rep s m \<Longrightarrow> m p = Some k \<Longrightarrow> \<exists>s'. free p s = Some s' \<and> rep s' (m(p := None))"
    and realloc_law: "rep s m \<Longrightarrow> m p = Some old \<Longrightarrow> 0 < n \<Longrightarrow> n \<le> limit \<Longrightarrow>
      \<exists>s' q x. realloc p n s = Some (s', q, x) \<and>
        (q = 0 \<and> rep s' m \<or> q \<noteq> 0 \<and> (q = p \<or> m q = None) \<and> (\<exists>k \<ge> n. rep s' ((m(p := None))(q \<mapsto> k))))"
    and inside_law: "rep s m \<Longrightarrow> m p = Some k \<Longrightarrow> lo \<le> p \<and> p + k \<le> e"
    and apart_law: "rep s m \<Longrightarrow> m p = Some k \<Longrightarrow> m q = Some l \<Longrightarrow> p < q \<Longrightarrow> p + k \<le> q"
begin

lemma run_requests_safe:
  assumes "rep s m" and "covers m c" and "\<forall>r \<in> set rs. request_size r \<le> limit"
  shows "\<exists>s' m' c'. run_requests malloc free realloc rs s c = Some (s', c') \<and> rep s' m' \<and> covers m' c'"
  using assms
proof (induction rs arbitrary: s m c)
  case (Cons r rs)
  have lim: "\<forall>r \<in> set rs. request_size r \<le> limit" using Cons.prems(3) by simp
  note step = Cons.IH [OF _ _ lim]
  show ?case
  proof (cases r)
    case (Malloc n)
    then have "n \<le> limit" using Cons.prems(3) by simp
    then obtain s' p where sp: "malloc n s = Some (s', p)"
      "p = 0 \<and> rep s' m \<or> p \<noteq> 0 \<and> m p = None \<and> (\<exists>k \<ge> n. rep s' (m(p \<mapsto> k)))" using malloc_law [OF Cons.prems(1)] by blast
    then show ?thesis using step Cons.prems(2) covers_upd Malloc by (cases "p = 0") (auto, blast)
  next
    case (Free p)
    show ?thesis
    proof (cases "c p")
      case (Some n)
      then obtain k where "m p = Some k" using covers_Some [OF Cons.prems(2)] by blast
      then obtain s' where f: "free p s = Some s'" "rep s' (m(p := None))" using free_law [OF Cons.prems(1)] by blast
      have run: "run_requests malloc free realloc (r # rs) s c = run_requests malloc free realloc rs s' (c(p := None))"
        using Some Free f(1) by simp
      show ?thesis unfolding run by (rule step [OF f(2) covers_del [OF Cons.prems(2)]])
    qed (use step [OF Cons.prems(1,2)] Free in simp)
  next
    case (Realloc p n)
    show ?thesis
    proof (cases "c p = None \<or> n = 0")
      case False
      then obtain n' where "c p = Some n'" by auto
      then obtain old where old: "m p = Some old" using covers_Some [OF Cons.prems(2)] by blast
      have n: "0 < n" "n \<le> limit" using False Cons.prems(3) Realloc by simp_all
      obtain s' q x where sq: "realloc p n s = Some (s', q, x)"
        "q = 0 \<and> rep s' m \<or> q \<noteq> 0 \<and> (\<exists>k \<ge> n. rep s' ((m(p := None))(q \<mapsto> k)))" using realloc_law [OF Cons.prems(1) old n] by metis
      have run: "run_requests malloc free realloc (r # rs) s c =
          run_requests malloc free realloc rs s' (if q = 0 then c else (c(p := None))(q \<mapsto> n))"
        using False Realloc sq(1) by auto
      show ?thesis
      proof (cases "q = 0")
        case False
        then obtain k where k: "n \<le> k" "rep s' ((m(p := None))(q \<mapsto> k))" using sq(2) by blast
        have "(if q = 0 then c else (c(p := None))(q \<mapsto> n)) = (c(p := None))(q \<mapsto> n)" using False by (rule if_not_P)
        then show ?thesis unfolding run
          using step [OF k(2) covers_upd [OF covers_del [OF Cons.prems(2)] k(1)]] by (simp only:)
      qed (use step [OF _ Cons.prems(2)] sq(2) in \<open>simp add: run\<close>)
    qed (use step [OF Cons.prems(1,2)] Realloc in auto)
  qed
qed (use assms in auto)

text \<open>Whatever the client does, its areas lie in the pool and do not overlap.\<close>

lemma client_areas:
  assumes "rep s m" and "covers m c" and "c p = Some n"
  shows "lo \<le> p \<and> p + n \<le> e" and "c q = Some l \<Longrightarrow> p < q \<Longrightarrow> p + n \<le> q"
proof -
  obtain k where k: "m p = Some k" "n \<le> k" using covers_Some [OF assms(2,3)] by blast
  show "lo \<le> p \<and> p + n \<le> e" using inside_law [OF assms(1) k(1)] k(2) by simp
  show "p + n \<le> q" if q: "c q = Some l" "p < q"
  proof -
    obtain k' where "m q = Some k'" using covers_Some [OF assms(2) q(1)] by blast
    then show ?thesis using apart_law [OF assms(1) k(1) _ q(2)] k(2) by fastforce
  qed
qed

end

text \<open>TLSF keeps the contract on every pool.\<close>

interpretation pool: allocator "pool_rep lo e k" malloc_ex free_ex realloc_ex "2 ^ 30 - 2 ^ 24" "lo + 16" e for lo e k
proof (rule allocator.intro)
  fix s m n
  assume r: "pool_rep lo e k s m" and n: "n \<le> (2 :: nat) ^ 30 - 2 ^ 24"
  show "\<exists>s' p. malloc_ex n s = Some (s', p) \<and>
    (p = 0 \<and> pool_rep lo e k s' m \<or> p \<noteq> 0 \<and> m p = None \<and> (\<exists>l \<ge> n. pool_rep lo e k s' (m(p \<mapsto> l))))"
  proof (cases rule: malloc_rep [OF r n, case_names none some])
    case none
    then show ?thesis using r by blast
  next
    case (some t' p l)
    moreover have "n \<le> l" using some(4) round_request_spec(1) [OF n] by linarith
    ultimately show ?thesis by (intro exI [of _ t'] exI [of _ p]) auto
  qed
next
  show "\<exists>s'. free_ex p s = Some s' \<and> pool_rep lo e k s' (m(p := None))" if "pool_rep lo e k s m" "m p = Some l" for s m p l
    using free_rep [OF that] by metis
next
  fix s m p old n
  assume r: "pool_rep lo e k s m" "m p = Some old" "0 < n" "n \<le> (2 :: nat) ^ 30 - 2 ^ 24"
  show "\<exists>s' q x. realloc_ex p n s = Some (s', q, x) \<and>
    (q = 0 \<and> pool_rep lo e k s' m \<or> q \<noteq> 0 \<and> (q = p \<or> m q = None) \<and> (\<exists>l \<ge> n. pool_rep lo e k s' ((m(p := None))(q \<mapsto> l))))"
  proof (cases rule: realloc_rep [OF r, case_names none place moved])
    case none
    then show ?thesis using r(1) by blast
  next
    case (place t' l)
    then show ?thesis using pool_pointer(1) [OF r(1,2)]
      by (intro exI [of _ t'] exI [of _ p] exI [of _ None]) auto
  next
    case (moved t' q l)
    then show ?thesis by (intro exI [of _ t'] exI [of _ q] exI [of _ "Some (q, p, old)"]) auto
  qed
next
  show "lo + 16 \<le> p \<and> p + l \<le> e" if "pool_rep lo e k s m" "m p = Some l" for s m p l
    using pool_pointer(2,3) [OF that] by simp
next
  show "p + l \<le> q" if "pool_rep lo e k s m" "m p = Some l" "m q = Some l'" "p < q" for s m p q l l'
    using pool_apart [OF that] by simp
qed

end
