(* ===== verification/TlsfTheorems.thy ===== *)
theory TlsfTheorems
  imports TlsfProps
begin

text \<open>The properties of TLSF, with witnesses on a pool of 64 kB.\<close>

section \<open>A fresh pool\<close>

definition raw_memory :: tlsf where
  "raw_memory = \<lparr>signature = 0, hdr = (\<lambda>_. \<lparr>prev_hdr = 0, bsize = 0, is_free = False, prev_free = False, free_prev = 0, free_next = 0\<rparr>),
     fl_bitmap = 0, sl_bitmap = (\<lambda>_. 0), matrix = (\<lambda>_ _. 0), used_size = 0, max_size = 0, area_head = 0\<rparr>"

lemma fresh_pool:
  obtains t where "init_memory_pool 65536 4096 raw_memory = Some (t, 59136)" and "pool_rep 10448 69600 6400 t Map.empty" and "one_area 10448 69600 t"
proof -
  have s: "first_size 65536 = 59136" "first_block 4096 = 10448" "pool_end 4096 65536 = 69600"
    by (simp_all add: pool_end_def first_block_def layout_numbers first_size_bounds)
  have "signature raw_memory \<noteq> TLSF_SIGNATURE" by (simp add: raw_memory_def TLSF_SIGNATURE_def)
  then show ?thesis using init_pool [of 4096 65536 raw_memory] that by (simp add: s) metis
qed

section \<open>Pools\<close>

text \<open>
  A heap that is empty is one free block again: whatever was allocated and released, nothing stays behind and no fragments are left.
\<close>

lemma empty_heap_is_one_block:
  assumes "pool_rep lo e k t Map.empty" and "lo < e"
  shows "is_free (hdr t lo) \<and> lo + 16 + bsize (hdr t lo) = e \<and> used_size t = k"
proof -
  obtain as L where r: "tlsf_ok t as e L" "hd (as @ [e]) = lo" "Map.empty = (\<lambda>p. used (hdr t) as (p - 16))"
    "used_size t - word_of_nat (used_bytes (hdr t) as) = k" using assms(1) by (auto simp: pool_rep_def)
  have o: "pseg (hdr t) as e" "successively (apart (hdr t)) as" using r(1) by (simp_all add: tlsf_ok_def order_ok_def)
  have free: "is_free (hdr t a)" if "a \<in> set as" for a
  proof -
    have "used (hdr t) as (a + 16 - 16) = None" by (rule fun_cong [OF r(3), of "a + 16", symmetric])
    then show ?thesis using that by (simp add: used_def split: if_splits)
  qed
  obtain ys where as: "as = lo # ys" using r(2) assms(2) by (cases as) auto
  have "ys = []"
  proof (rule ccontr)
    assume "ys \<noteq> []"
    then obtain c zs where "ys = c # zs" by (cases ys) auto
    then show False using o(2) free as by simp
  qed
  moreover have "used_bytes (hdr t) as = 0" using free as \<open>ys = []\<close> by (simp add: used_bytes_def)
  ultimately show ?thesis using o(1) r(4) free as by (simp add: link_def)
qed

text \<open>Small requests to this pool succeed.\<close>

lemma fresh_pool_serves:
  assumes "pool_rep 10448 69600 6400 t Map.empty" and "sz \<le> 50000"
  shows "malloc_ex sz t \<noteq> Some (t', 0)"
proof -
  have f: "is_free (hdr t 10448)" "bsize (hdr t 10448) = 59136" using empty_heap_is_one_block [OF assms(1)] by simp_all
  obtain as L where ok: "tlsf_ok t as 69600 L" "hd (as @ [69600]) = 10448" using assms(1) by (auto simp: pool_rep_def)
  have r: "10448 \<in> free_set (hdr t) as" using ok(2) f(1) by (cases as) (auto simp: free_set_def)
  have lim: "sz \<le> 2 ^ 30 - 2 ^ 24" using assms(2) by simp
  show ?thesis
  proof (cases rule: malloc_step [OF ok(1) lim, case_names none some])
    case (none q)
    then show ?thesis using none(4) [OF r] f(2) round_request_spec(4) [OF lim] assms(2) by simp
  qed (simp add: allocated_def)
qed

lemma used_pool:
  obtains t p n where "pool_rep 10448 69600 6400 t [p \<mapsto> n]" and "1000 \<le> n"
proof -
  obtain t where t: "init_memory_pool 65536 4096 raw_memory = Some (t, 59136)" "pool_rep 10448 69600 6400 t Map.empty"
    by (rule fresh_pool)
  show ?thesis
  proof (cases rule: malloc_rep [OF t(2), of 1000, case_names lim none some])
    case (some t' p n)
    then show ?thesis using that [of t' p n] round_request_spec(1) [of 1000] by simp
  qed (use fresh_pool_serves [OF t(2), of 1000] in simp_all)
qed

lemma pool_end_inside:
  assumes "6408 \<le> sz"
  shows "pool_end mem sz + BHDR_OVERHEAD \<le> mem + sz \<longleftrightarrow> \<not> (8 \<le> sz mod 32 \<and> sz mod 32 < 16)"
proof -
  define q where "q = (sz - 6280) div 32"
  define x where "x = (sz - 6280) mod 32"
  have sz: "sz = 6280 + (32 * q + x)" "x < 32" using assms by (simp_all add: q_def x_def)
  have q: "4 \<le> q" using assms by (simp add: q_def)
  have f: "first_size sz = 32 * q - 96" using first_size_bounds(1) [OF assms] by (simp add: q_def)
  have "pool_end mem sz + BHDR_OVERHEAD = mem + 6288 + 32 * q"
    using q by (simp add: pool_end_def first_block_def layout_numbers f)
  then have "pool_end mem sz + BHDR_OVERHEAD \<le> mem + sz \<longleftrightarrow> 8 \<le> x" using sz by simp
  moreover have "sz = (8 + x) + 32 * (196 + q)" using sz(1) by simp
  then have "sz mod 32 = (8 + x) mod 32" by (metis mod_mult_self2)
  moreover have "(8 + x) mod 32 = (if x < 24 then 8 + x else x - 24)" using sz(2) by (simp add: mod_if)
  ultimately show ?thesis using sz(2) by (auto split: if_splits)
qed

text \<open>
  C33. The pool for any sequence of requests. A fresh pool of up to a gigabyte, of a size whose end is inside the memory (see C38), serves every
  sequence of allocations, releases and reallocations (of up to \<open>2 ^ 30 - 2 ^ 24\<close> bytes each): every call returns, and no index leaves the class
  tables. The areas a client has got and not released do not overlap; they lie behind the allocator's structure and before the
  sentinel, whose header is inside the memory too. When the client has released everything, the pool is one free block of the
  original size again and the counter of used bytes has its original value.
\<close>

theorem pool_requests_safe:
  assumes "mem \<noteq> 0" and "mem mod 8 = 0" and "6408 \<le> sz" and "sz \<le> 2 ^ 30" and "signature t \<noteq> TLSF_SIGNATURE"
    and "\<forall>r \<in> set rs. request_size r \<le> 2 ^ 30 - 2 ^ 24" and "\<not> (8 \<le> sz mod 32 \<and> sz mod 32 < 16)"
  shows "\<exists>t0 t' c. init_memory_pool sz mem t = Some (t0, int (first_size sz)) \<and>
    run_requests malloc_ex free_ex realloc_ex rs t0 Map.empty = Some (t', c) \<and>
    mem + SIZEOF_TLSF \<le> first_block mem \<and> pool_end mem sz + BHDR_OVERHEAD \<le> mem + sz \<and>
    (\<forall>p n. c p = Some n \<longrightarrow> first_block mem + 16 \<le> p \<and> p + n \<le> pool_end mem sz) \<and>
    (\<forall>p n q l. c p = Some n \<and> c q = Some l \<and> p < q \<longrightarrow> p + n \<le> q) \<and>
    (c = Map.empty \<longrightarrow> is_free (hdr t' (first_block mem)) \<and> bsize (hdr t' (first_block mem)) = first_size sz \<and>
      get_used_size t' = get_used_size t0)"
proof -
  let ?k = "word_of_nat (sz - first_size sz) :: u64"
  obtain t0 where t0: "init_memory_pool sz mem t = Some (t0, int (first_size sz))"
    "pool_rep (first_block mem) (pool_end mem sz) ?k t0 Map.empty" "used_size t0 = ?k"
    using init_pool [OF assms(1-5)] by blast
  have "covers Map.empty Map.empty" by (simp add: covers_def)
  from pool.run_requests_safe [OF t0(2) this assms(6)] obtain t' m c where r:
    "run_requests malloc_ex free_ex realloc_ex rs t0 Map.empty = Some (t', c)" "pool_rep (first_block mem) (pool_end mem sz) ?k t' m"
    "covers m c" by blast
  have "is_free (hdr t' (first_block mem)) \<and> bsize (hdr t' (first_block mem)) = first_size sz \<and> get_used_size t' = get_used_size t0"
    if "c = Map.empty"
  proof -
    have "m = Map.empty" using r(3) that by (auto simp: covers_def)
    moreover have "first_block mem < pool_end mem sz" by (simp add: pool_end_def BHDR_OVERHEAD_def)
    ultimately show ?thesis using empty_heap_is_one_block [of "first_block mem" "pool_end mem sz" ?k t'] r(2) t0(3)
      by (simp add: get_used_size_def pool_end_def BHDR_OVERHEAD_def)
  qed
  moreover note pool.client_areas [OF r(2,3)]
  moreover have "mem + SIZEOF_TLSF \<le> first_block mem" by (simp add: first_block_def layout_numbers)
  moreover have "pool_end mem sz + BHDR_OVERHEAD \<le> mem + sz" using pool_end_inside [OF assms(3)] assms(7) by blast
  ultimately show ?thesis using t0(1) r(1) by blast
qed

theorem pool_requests_safe_witness:
  "\<exists>t0 t' c. init_memory_pool 65536 4096 raw_memory = Some (t0, int (first_size 65536)) \<and>
    run_requests malloc_ex free_ex realloc_ex [Malloc 100, Malloc 5000, Free 10464, Malloc 40, Realloc 10464 3000] t0 Map.empty = Some (t', c) \<and>
    4096 + SIZEOF_TLSF \<le> first_block 4096 \<and> pool_end 4096 65536 + BHDR_OVERHEAD \<le> 4096 + 65536 \<and>
    (\<forall>p n. c p = Some n \<longrightarrow> first_block 4096 + 16 \<le> p \<and> p + n \<le> pool_end 4096 65536) \<and>
    (\<forall>p n q l. c p = Some n \<and> c q = Some l \<and> p < q \<longrightarrow> p + n \<le> q) \<and>
    (c = Map.empty \<longrightarrow> is_free (hdr t' (first_block 4096)) \<and> bsize (hdr t' (first_block 4096)) = first_size 65536 \<and>
      get_used_size t' = get_used_size t0)"
  by (rule pool_requests_safe) (simp_all add: raw_memory_def TLSF_SIGNATURE_def)

text \<open>
  C38. The end of a pool. The initialisation rounds the size of the structure at the pool's beginning up and the rest down, each for itself.
  The header of the sentinel it writes, which the area's information names, ends inside the pool exactly when the size of the pool modulo 32 is
  not in \<open>{8..<16}\<close>; otherwise \<^verbatim>\<open>lb->size\<close> is written up to 8 bytes behind the pool's end.
\<close>

theorem pool_sentinel_inside_iff:
  assumes "mem \<noteq> 0" and "mem mod 8 = 0" and "6408 \<le> sz" and "sz \<le> 2 ^ 30" and "signature t \<noteq> TLSF_SIGNATURE"
  shows "\<exists>t' r lb. init_memory_pool sz mem t = Some (t', r) \<and> lb = free_prev (hdr t' (area_head t' - BHDR_OVERHEAD)) \<and> bsize (hdr t' lb) = 0 \<and>
    (lb + BHDR_OVERHEAD \<le> mem + sz \<longleftrightarrow> \<not> (8 \<le> sz mod 32 \<and> sz mod 32 < 16))"
proof -
  obtain t' where t': "init_memory_pool sz mem t = Some (t', int (first_size sz))"
    "pool_rep (first_block mem) (pool_end mem sz) (word_of_nat (sz - first_size sz)) t' Map.empty"
    "one_area (first_block mem) (pool_end mem sz) t'" using init_pool [OF assms] by blast
  have z: "bsize (hdr t' (pool_end mem sz)) = 0" using t'(2) by (auto simp: pool_rep_def tlsf_ok_def order_ok_def)
  have e: "pool_end mem sz = free_prev (hdr t' (area_head t' - BHDR_OVERHEAD))"
    using t'(3) by (simp add: one_area_def BHDR_OVERHEAD_def)
  show ?thesis by (intro exI conjI) (rule t'(1), rule e, rule z, rule pool_end_inside [OF assms(3)])
qed

theorem pool_sentinel_inside_iff_witness:
  "\<exists>t r lb. init_memory_pool 65544 4096 raw_memory = Some (t, r) \<and> lb = free_prev (hdr t (area_head t - BHDR_OVERHEAD)) \<and> bsize (hdr t lb) = 0 \<and>
    4096 + 65544 < lb + BHDR_OVERHEAD"
proof -
  have "signature raw_memory \<noteq> TLSF_SIGNATURE" by (simp add: raw_memory_def TLSF_SIGNATURE_def)
  with pool_sentinel_inside_iff [of 4096 65544 raw_memory]
  obtain t r lb where "init_memory_pool 65544 4096 raw_memory = Some (t, r)" "lb = free_prev (hdr t (area_head t - BHDR_OVERHEAD))"
    "bsize (hdr t lb) = 0" "\<not> lb + BHDR_OVERHEAD \<le> 4096 + 65544" by auto
  then show ?thesis by (metis not_le)
qed

section \<open>The operations\<close>

text \<open>
  C34. Allocation. On a pool that represents the heap \<open>m\<close> a request of up to \<open>2 ^ 30 - 2 ^ 24\<close> bytes returns null and changes nothing, or the
  pointer of a block that was not in use, inside the pool, of at least the size asked for and of at most a 32nd plus 32 bytes more than the
  rounded request; every other block in use keeps its size, and the pool represents the heap with the new block.
\<close>

theorem malloc_on_heap:
  assumes "pool_rep lo e k t m" and "sz \<le> 2 ^ 30 - 2 ^ 24"
  shows "\<exists>t' p. malloc_ex sz t = Some (t', p) \<and>
    (p = 0 \<and> t' = t \<or>
     lo + 16 \<le> p \<and> m p = None \<and> (\<exists>n. sz \<le> n \<and> n < round_request sz + round_request sz div 32 + 32 \<and> p + n \<le> e \<and>
       pool_rep lo e k t' (m(p \<mapsto> n))))"
proof (cases rule: malloc_rep [OF assms, case_names none some])
  case (some t' p n)
  have "lo + 16 \<le> p" "p + n \<le> e" using pool_pointer(2,3) [OF some(6), of p n] by simp_all
  moreover have "sz \<le> n" using some(4) round_request_spec(1) [OF assms(2)] by linarith
  ultimately show ?thesis using some by (intro exI [of _ t'] exI [of _ p]) auto
qed simp

theorem malloc_on_heap_witness:
  "\<exists>t t' p n. init_memory_pool 65536 4096 raw_memory = Some (t, 59136) \<and> malloc_ex 1000 t = Some (t', p) \<and>
    10464 \<le> p \<and> 1000 \<le> n \<and> n < 1088 \<and> p + n \<le> 69600 \<and> pool_rep 10448 69600 6400 t' [p \<mapsto> n]"
proof (rule fresh_pool)
  fix t
  assume t: "init_memory_pool 65536 4096 raw_memory = Some (t, 59136)" "pool_rep 10448 69600 6400 t Map.empty"
  have "round_request 1000 = 1024" by (simp add: round_request_def ROUNDUP_SIZE_def BLOCK_ALIGN_def MIN_BLOCK_SIZE_def)
  moreover obtain t' p where m: "malloc_ex 1000 t = Some (t', p)"
    "p = 0 \<and> t' = t \<or> 10448 + 16 \<le> p \<and> Map.empty p = (None :: nat option) \<and> (\<exists>n. 1000 \<le> n \<and>
      n < round_request 1000 + round_request 1000 div 32 + 32 \<and> p + n \<le> 69600 \<and> pool_rep 10448 69600 6400 t' (Map.empty(p \<mapsto> n)))"
    using malloc_on_heap [OF t(2), of 1000] by auto
  moreover have "p \<noteq> 0" using fresh_pool_serves [OF t(2), of 1000] m(1) by auto
  ultimately show ?thesis using t(1) by auto
qed

text \<open>
  C37. Good fit. An allocation returns null only when every free block of the pool is smaller than the rounded request plus a 32nd of it: the search
  through the bitmaps misses no larger block, in whatever class it is.
\<close>

theorem malloc_good_fit:
  assumes "tlsf_ok t as e L" and "sz \<le> 2 ^ 30 - 2 ^ 24" and "malloc_ex sz t = Some (t', 0)"
  shows "t' = t \<and> (\<forall>a \<in> set as. is_free (hdr t a) \<longrightarrow> bsize (hdr t a) < round_request sz + round_request sz div 32)"
proof (cases rule: malloc_step [OF assms(1,2), case_names none some])
  case (none r)
  have "bsize (hdr t a) < round_request sz + round_request sz div 32" if "a \<in> set as" "is_free (hdr t a)" for a
    using none(4) [of a] none(3) that by (fastforce simp: free_set_def)
  then show ?thesis using none(1) assms(3) by simp
next
  case (some t'' p)
  then show ?thesis using assms(3) by (simp add: allocated_def)
qed

text \<open>A pool that refuses: its only free block has 59136 bytes.\<close>

theorem malloc_good_fit_witness:
  "\<exists>t as L t'. tlsf_ok t as 69600 L \<and> malloc_ex 100000 t = Some (t', 0) \<and> t' = t \<and>
    (\<forall>a \<in> set as. is_free (hdr t a) \<longrightarrow> bsize (hdr t a) < round_request 100000 + round_request 100000 div 32)"
proof (rule fresh_pool)
  fix t
  assume t: "init_memory_pool 65536 4096 raw_memory = Some (t, 59136)" "pool_rep 10448 69600 6400 t Map.empty"
  obtain as L where ok: "tlsf_ok t as 69600 L" using t(2) by (auto simp: pool_rep_def)
  have "malloc_ex 100000 t = Some (t, 0)"
  proof (cases rule: malloc_rep [OF t(2), of 100000, case_names lim none some])
    case (some t' p n)
    have "100000 \<le> n" using some(4) round_request_spec(1) [of 100000] by simp
    then show ?thesis using pool_pointer(2,3) [OF some(6), of p n] by simp
  qed simp_all
  then show ?thesis using ok malloc_good_fit [OF ok, of 100000 t] by auto
qed

text \<open>
  C35. Release. Releasing a block in use always works, gives exactly this block back and keeps every other block; releasing null does nothing.
\<close>

theorem free_on_heap:
  assumes "pool_rep lo e k t m" and "m p = Some n"
  shows "(\<exists>t'. free_ex p t = Some t' \<and> pool_rep lo e k t' (m(p := None))) \<and> free_ex 0 t = Some t"
  using free_rep [OF assms] by (metis free_ex_def)

theorem free_on_heap_witness:
  "\<exists>t p n. pool_rep 10448 69600 6400 t [p \<mapsto> n] \<and>
    (\<exists>t'. free_ex p t = Some t' \<and> pool_rep 10448 69600 6400 t' ([p \<mapsto> n](p := None))) \<and> free_ex 0 t = Some t"
proof (rule used_pool)
  fix t p n
  assume t: "pool_rep 10448 69600 6400 t [p \<mapsto> n]" "(1000 :: nat) \<le> n"
  have "[p \<mapsto> n] p = Some n" by simp
  with t(1) show ?thesis using free_on_heap [OF t(1), of p n] by blast
qed

text \<open>
  C36. Reallocation of a block in use to \<open>sz > 0\<close> bytes. It fails and changes nothing (then the old block is smaller than the rounded request); or the block
  stays where it is; or the data of the old block, all of it, is copied to a new block that was not in use, and the old one is released. In
  both cases the block has at least \<open>sz\<close> bytes in the end and the other blocks in use are kept.
\<close>

theorem realloc_on_heap:
  assumes "pool_rep lo e k t m" and "m p = Some old" and "0 < sz" and "sz \<le> 2 ^ 30 - 2 ^ 24"
  shows "\<exists>t' q copied. realloc_ex p sz t = Some (t', q, copied) \<and>
    (q = 0 \<and> t' = t \<and> copied = None \<and> old < round_request sz \<or>
     (\<exists>n \<ge> sz. lo + 16 \<le> q \<and> q + n \<le> e \<and> pool_rep lo e k t' ((m(p := None))(q \<mapsto> n)) \<and>
       (q = p \<and> copied = None \<or> m q = None \<and> copied = Some (q, p, old) \<and> old < n)))"
proof (cases rule: realloc_rep [OF assms, case_names none place moved])
  case none
  then show ?thesis by simp
next
  case (place t' n)
  have "lo + 16 \<le> p" "p + n \<le> e" using pool_pointer(2,3) [OF place(3), of p n] by simp_all
  then show ?thesis using place by (intro exI [of _ t'] exI [of _ p] exI [of _ None]) auto
next
  case (moved t' q n)
  have "lo + 16 \<le> q" "q + n \<le> e" using pool_pointer(2,3) [OF moved(6), of q n] by simp_all
  then show ?thesis using moved by (intro exI [of _ t'] exI [of _ q] exI [of _ "Some (q, p, old)"]) auto
qed

theorem realloc_on_heap_witness:
  "\<exists>t p old t' q copied. pool_rep 10448 69600 6400 t [p \<mapsto> old] \<and> realloc_ex p 4000 t = Some (t', q, copied) \<and>
    (q = 0 \<and> t' = t \<and> copied = None \<and> old < round_request 4000 \<or>
     (\<exists>n \<ge> 4000. 10448 + 16 \<le> q \<and> q + n \<le> 69600 \<and> pool_rep 10448 69600 6400 t' (([p \<mapsto> old](p := None))(q \<mapsto> n)) \<and>
       (q = p \<and> copied = None \<or> [p \<mapsto> old] q = None \<and> copied = Some (q, p, old) \<and> old < n)))"
proof (rule used_pool)
  fix t p n
  assume t: "pool_rep 10448 69600 6400 t [p \<mapsto> n]" "(1000 :: nat) \<le> n"
  have "\<exists>t' q copied. realloc_ex p 4000 t = Some (t', q, copied) \<and>
    (q = 0 \<and> t' = t \<and> copied = None \<and> n < round_request 4000 \<or>
     (\<exists>l \<ge> 4000. 10448 + 16 \<le> q \<and> q + l \<le> 69600 \<and> pool_rep 10448 69600 6400 t' (([p \<mapsto> n](p := None))(q \<mapsto> l)) \<and>
       (q = p \<and> copied = None \<or> [p \<mapsto> n] q = None \<and> copied = Some (q, p, n) \<and> n < l)))"
    by (rule realloc_on_heap [OF t(1)]) simp_all
  then show ?thesis using t(1) by blast
qed

section \<open>Requests out of range\<close>

text \<open>
  C39. \<^verbatim>\<open>calloc_ex\<close> multiplies without a check. Whenever the product of the sizes is a multiple of \<open>2 ^ 64\<close>, a call that succeeds returns a block
  of less than 50 bytes for elements of more than \<open>2 ^ 63\<close> bytes, and clears nothing.
\<close>

theorem calloc_product_wraps:
  assumes "pool_rep lo e k t m" and "2 ^ 64 dvd nelem * elem_size" and "0 < nelem" and "0 < elem_size"
  shows "\<exists>t' p cleared. calloc_ex nelem elem_size t = Some (t', p, cleared) \<and>
    (p \<noteq> 0 \<longrightarrow> cleared = Some (p, 0) \<and> (\<exists>n < 50. pool_rep lo e k t' (m(p \<mapsto> n)))) \<and> 2 ^ 63 < nelem * elem_size"
proof -
  have z: "nelem * elem_size mod 2 ^ 64 = 0" using assms(2) by (rule dvd_imp_mod_0)
  have "2 ^ 64 \<le> nelem * elem_size" using assms(2-4) by (intro dvd_imp_le) simp_all
  then have big: "2 ^ 63 < nelem * elem_size" by simp
  have run: "calloc_ex nelem elem_size t = malloc_ex 0 t \<bind> (\<lambda>(t, p). if p = 0 then Some (t, 0, None) else Some (t, p, Some (p, 0)))"
    using assms(3,4) z by (simp add: calloc_ex_def Let_def)
  have r0: "round_request 0 = 16" by (simp add: round_request_def MIN_BLOCK_SIZE_def)
  show ?thesis
  proof (cases rule: malloc_rep [OF assms(1), of 0, case_names lim none some])
    case (some t' p n)
    have "n < 50" using some(5) by (simp add: r0)
    then show ?thesis using some(1,2,6) run big by auto
  qed (use run big in auto)
qed

theorem calloc_product_wraps_witness:
  "\<exists>t t' p n. init_memory_pool 65536 4096 raw_memory = Some (t, 59136) \<and> calloc_ex (2 ^ 32) (2 ^ 32) t = Some (t', p, Some (p, 0)) \<and>
    p \<noteq> 0 \<and> n < 50 \<and> pool_rep 10448 69600 6400 t' [p \<mapsto> n]"
proof (rule fresh_pool)
  fix t
  assume t: "init_memory_pool 65536 4096 raw_memory = Some (t, 59136)" "pool_rep 10448 69600 6400 t Map.empty"
  have d: "(2 :: nat) ^ 64 dvd 2 ^ 32 * 2 ^ 32" by simp
  obtain t' p cleared where c: "calloc_ex (2 ^ 32) (2 ^ 32) t = Some (t', p, cleared)"
    "p \<noteq> 0 \<longrightarrow> cleared = Some (p, 0) \<and> (\<exists>n < 50. pool_rep 10448 69600 6400 t' (Map.empty(p \<mapsto> n)))"
    using calloc_product_wraps [OF t(2) d] by auto
  have "p \<noteq> 0"
    using fresh_pool_serves [OF t(2), of 0] c(1) by (cases "malloc_ex 0 t") (auto simp: calloc_ex_def Let_def split: if_splits)
  then show ?thesis using t(1) c by blast
qed

text \<open>
  Requests of a gigabyte and more are not refused: the search would read the second-level bitmaps behind their end. In the
  model this is undefined behaviour for every state of the pool.
\<close>

theorem malloc_too_large:
  assumes "2 ^ 30 \<le> sz" and "sz \<le> 2 ^ 30 + 2 ^ 29"
  shows "malloc_ex sz t = None"
proof -
  define q where "q = (sz + 31) div 32"
  define n where "n = q * 32"
  have n: "round_request sz = n" using assms(1) by (simp add: round_request_def ROUNDUP_SIZE_def BLOCK_ALIGN_def MIN_BLOCK_SIZE_def n_def q_def)
  have "32 * q \<le> sz + 31" "sz + 31 < 32 * q + 32" unfolding q_def by linarith+
  then have b: "1073741824 \<le> n" "n \<le> 1610612800" using assms by (simp_all add: n_def)
  have ms: "ms_bit (ucast (word_of_nat l :: u64)) = 30" if "1073741824 \<le> l" "l < 2147483648" for l
  proof -
    have "unat (ucast (word_of_nat l :: u64) :: u32) = l" using that
      by (simp add: unsigned_ucast_eq unsigned_of_nat take_bit_nat_eq_self_iff)
    then show ?thesis using ms_bit_unique [of 30 "ucast (word_of_nat l :: u64)"] that by simp
  qed
  have fl: "ms_bit (ucast (word_of_nat n + (33554431 :: u64))) = 30"
    using ms [of "n + 33554431"] b by simp
  have small: "\<not> (word_of_nat n :: u64) < SMALL_BLOCK" using b by (simp add: small_block)
  have "\<exists>x y. mapping_search (word_of_nat n) = Some (x, 24, y)"
    using small ms [OF b(1)] b(2) fl by (simp add: mapping_search_def Let_def MAX_LOG2_SLI_def FLI_OFFSET_def)
  then show ?thesis by (auto simp: malloc_ex_def n REAL_FLI_def)
qed

theorem malloc_too_large_witness: "malloc_ex (2 ^ 30 + 1000) raw_memory = None"
  by (rule malloc_too_large) simp_all

end
