(* ===== verification/TlsfArea.thy ===== *)
theory TlsfArea
  imports TlsfTheorems
begin

text \<open>A new area directly behind the only one of a pool extends the pool.\<close>

section \<open>Clearing\<close>

lemma clear_area_fields [simp]:
  "matrix (clear_area area sz t) = matrix t" "sl_bitmap (clear_area area sz t) = sl_bitmap t"
  "fl_bitmap (clear_area area sz t) = fl_bitmap t" "used_size (clear_area area sz t) = used_size t" "area_head (clear_area area sz t) = area_head t"
  by (simp_all add: clear_area_def Let_def)

lemma clear_area_before: "a + 32 \<le> area \<Longrightarrow> hdr (clear_area area sz t) a = hdr t a"
  by (simp add: clear_area_def Let_def)

text \<open>Of the sentinel before the area only the data is cleared.\<close>

lemma clear_area_sentinel:
  assumes "a + 16 \<le> area"
  shows "same_size (hdr t a) (hdr (clear_area area sz t) a)" and "same_back (hdr t a) (hdr (clear_area area sz t) a)"
  using assms by (simp_all add: clear_area_def Let_def same_size_def same_back_def)

section \<open>The merge\<close>

text \<open>The size of the block that \<^verbatim>\<open>process_area\<close> puts into an area.\<close>

definition area_size :: "nat \<Rightarrow> nat" where
  "area_size sz = ROUNDDOWN_SIZE (sz - 3 * BHDR_OVERHEAD - INFO_SIZE)"

lemma area_size_dvd: "32 dvd area_size sz" "112 \<le> sz \<Longrightarrow> 32 \<le> area_size sz"
  by (simp_all add: area_size_def ROUNDDOWN_SIZE_def BLOCK_ALIGN_def layout_numbers)

lemma round_exact: "32 dvd n \<Longrightarrow> ROUNDDOWN_SIZE n = n"
  by (simp add: ROUNDDOWN_SIZE_def BLOCK_ALIGN_def)

lemma add_area_state:
  assumes "one_area lo e t" and "lo \<le> e" and "112 \<le> sz"
  obtains t3 where "\<And>a. a + 16 \<le> e \<Longrightarrow> a \<noteq> lo - 48 \<Longrightarrow> hdr t3 a = hdr (clear_area (e + 16) sz t) a"
    and "bsize (hdr t3 e) = area_size sz + 64" and "prev_free (hdr t3 e) = prev_free (hdr t e)" and "prev_hdr (hdr t3 e) = prev_hdr (hdr t e)"
    and "bsize (hdr t3 (e + 80 + area_size sz)) = 0" and "\<not> is_free (hdr t3 (e + 80 + area_size sz))"
    and "matrix t3 = matrix t" and "sl_bitmap t3 = sl_bitmap t" and "fl_bitmap t3 = fl_bitmap t" and "used_size t3 = used_size t"
    and "one_area lo (e + 80 + area_size sz) t3"
    and "add_new_area (e + 16) sz t = free_ex (e + 16) t3 \<bind> (\<lambda>t. Some (t, bsize (hdr t e)))"
proof -
  let ?s = "area_size sz"
  define ib where "ib = lo - 48"
  define l where "l = e + 80 + ?s"
  have one: "lo = ib + 48" "0 < ib" "area_head t = ib + 16" "bsize (hdr t ib) = 32" "free_prev (hdr t ib) = e" "free_next (hdr t ib) = 0"
    using assms(1) by (auto simp: one_area_def ib_def)
  have lt: "ib + 48 \<le> e" "e < e + 16" "e + 16 < e + 64" "e + 64 < l" using one(1) assms(2) by (simp_all add: l_def)
  define t0 where "t0 = clear_area (e + 16) sz t"
  define t1 where "t1 = upd (e + 16) (\<lambda>h. h\<lparr>free_next := 0, free_prev := l\<rparr>)
    (upd l (\<lambda>h. h\<lparr>prev_hdr := e + 64, bsize := 0, is_free := False, prev_free := True\<rparr>)
    (upd (e + 64) (\<lambda>h. h\<lparr>bsize := ?s, is_free := False, prev_free := False, free_prev := 0, free_next := 0\<rparr>)
    (upd (e + 16) (\<lambda>h. h\<lparr>bsize := 32, is_free := False, prev_free := False\<rparr>) t0)))"
  have pa: "process_area (e + 16) sz t0 = (t1, e + 16, e + 64, l)"
    by (simp add: process_area_def Let_def next_block_def layout_numbers area_size_def [unfolded layout_numbers] t1_def l_def ac_simps)
  have h1: "hdr t1 a = hdr t0 a" if "a \<notin> {e + 16, e + 64, l}" for a using that by (simp add: t1_def upd_def)
  have b1: "bsize (hdr t1 (e + 64)) = ?s" "bsize (hdr t1 (e + 16)) = 32" using lt by (simp_all add: t1_def upd_def)
  have l1: "bsize (hdr t1 l) = 0" "\<not> is_free (hdr t1 l)" using lt by (simp_all add: t1_def upd_def)
  have ib1: "hdr t1 ib = hdr t ib" using h1 [of ib] lt clear_area_before [of ib "e + 16" sz t] by (simp add: t0_def)
  define t2 where "t2 = upd l (prev_hdr_update (\<lambda>_. e)) (upd e (\<lambda>h. h\<lparr>bsize := ?s + 64, is_free := False\<rparr>) (t1\<lparr>area_head := 0\<rparr>))"
  have head: "area_head t1 = ib + 16" using one(3) by (simp add: t1_def t0_def upd_def)
  have merge: "merge_areas (ib + 16) 0 (e + 16) (e + 64) l t1 = Some (t2, ib, e, l)"
  proof -
    have "32 dvd ?s + 64" using area_size_dvd(1) [of sz] by simp
    then have rnd: "ROUNDDOWN_SIZE (?s + 32 + 2 * 16) = ?s + 64" using round_exact [of "?s + 64"] by (simp add: add.commute)
    have nb: "next_block e (?s + 64) = l" by (simp add: next_block_def layout_numbers l_def)
    have un: "unlink_area (ib + 16) 0 t1 = t1\<lparr>area_head := 0\<rparr>" using head ib1 one(6) by (simp add: unlink_area_def layout_numbers)
    have "ib \<noteq> l + 16" using lt by simp
    then show ?thesis
      using ib1 one(5,6) b1 rnd nb un
      by (subst merge_areas.simps) (simp add: layout_numbers Let_def t2_def merge_areas.simps [of 0])
  qed
  define t3 where "t3 = (upd ib (\<lambda>h. h\<lparr>free_next := area_head t2, free_prev := l\<rparr>) t2)\<lparr>area_head := ib + 16\<rparr>"
  have head2: "area_head t2 = 0" by (simp add: t2_def upd_def)
  have "area_head t0 = ib + 16" using one(3) by (simp add: t0_def)
  then have run: "add_new_area (e + 16) sz t = free_ex (e + 16) t3 \<bind> (\<lambda>t. Some (t, bsize (hdr t e)))"
    using pa merge by (simp add: add_new_area_def Let_def t0_def [symmetric] t3_def layout_numbers)
  have h3: "hdr t3 a = hdr t2 a" if "a \<noteq> ib" for a using that by (simp add: t3_def upd_def)
  have h2: "hdr t2 a = hdr t1 a" if "a \<noteq> e" "a \<noteq> l" for a using that by (simp add: t2_def upd_def)
  have e2: "hdr t2 e = (hdr t1 e)\<lparr>bsize := ?s + 64, is_free := False\<rparr>" using lt by (simp add: t2_def upd_def)
  have e1: "hdr t1 e = hdr t0 e" using h1 [of e] lt by simp
  have l3: "hdr t3 l = (hdr t1 l)\<lparr>prev_hdr := e\<rparr>" using h3 [of l] lt by (simp add: t2_def upd_def)
  have e0: "prev_free (hdr t0 e) = prev_free (hdr t e)" "prev_hdr (hdr t0 e) = prev_hdr (hdr t e)"
    by (simp_all add: t0_def clear_area_def Let_def)
  show ?thesis
  proof (rule that [of t3])
    show "hdr t3 a = hdr (clear_area (e + 16) sz t) a" if "a + 16 \<le> e" "a \<noteq> lo - 48" for a
      using h3 [of a] h2 [of a] h1 [of a] that lt by (simp add: ib_def t0_def)
    show "one_area lo (e + 80 + ?s) t3"
      using one(1,2,4) ib1 head2 h2 [of ib] lt by (simp add: one_area_def t3_def upd_def l_def)
  qed (use h3 [of e] e2 e1 e0 l3 l1 lt run in \<open>simp_all add: l_def [symmetric]\<close>,
    simp_all add: t3_def t2_def t1_def t0_def upd_def)
qed

section \<open>The extended pool\<close>

lemma index_frame:
  assumes "index_ok t L" and "\<And>a. a \<in> members L \<Longrightarrow> hdr t' a = hdr t a" and "matrix t' = matrix t" and "sl_bitmap t' = sl_bitmap t"
    and "fl_bitmap t' = fl_bitmap t"
  shows "index_ok t' L"
proof -
  have h: "hdr t' a = hdr t a" if "a \<in> set (L f s)" for a f s using assms(2) that by (auto simp: members_def)
  have "list_ok t' f s (L f s)" if "f < REAL_FLI" "s < MAX_SLI" for f s
    using index_okD [OF assms(1) that] dseg_frame [of "hdr t" 0 "L f s" 0 "hdr t'"] h assms(3,4) by (simp add: list_ok_def)
  then show ?thesis using assms(1,5) h assms(4) unfolding index_ok_def by simp
qed

text \<open>
  C40. An area that begins right behind the sentinel of a pool with one area extends the pool: the old sentinel becomes the header of a block that
  spans the border, is released and joins a free block before it; every block in use is kept. But the counter of used bytes falls by
  the size of this block with its header, although nothing was released.
\<close>

theorem add_area_extends:
  assumes "pool_rep lo e k t m" and "one_area lo e t" and "112 \<le> sz" and "e + 80 + area_size sz < lo + 2 ^ 30"
  shows "\<exists>t' r. add_new_area (e + 16) sz t = Some (t', r) \<and>
    pool_rep lo (e + 80 + area_size sz) (k - word_of_nat (area_size sz + 80)) t' m"
proof -
  let ?s = "area_size sz" and ?e = "e + 80 + area_size sz"
  obtain as L where r: "tlsf_ok t as e L" "hd (as @ [e]) = lo" "m = (\<lambda>p. used (hdr t) as (p - 16))"
    "used_size t - word_of_nat (used_bytes (hdr t) as) = k" using assms(1) by (auto simp: pool_rep_def)
  have i: "index_ok t L" and o: "order_ok (hdr t) as e" and mem: "members L = free_set (hdr t) as"
    using r(1) by (simp_all add: tlsf_ok_def)
  have p: "pseg (hdr t) as e" "successively (apart (hdr t)) as" "\<not> prev_free (hdr t lo)" using o r(2) by (simp_all add: order_ok_def)
  have "lo \<le> e" using pseg_hd_le [OF p(1)] r(2) by simp
  note st = add_area_state [OF assms(2) this assms(3)]
  obtain t3 where t3: "\<And>a. a + 16 \<le> e \<Longrightarrow> a \<noteq> lo - 48 \<Longrightarrow> hdr t3 a = hdr (clear_area (e + 16) sz t) a"
    "bsize (hdr t3 e) = ?s + 64" "prev_free (hdr t3 e) = prev_free (hdr t e)" "prev_hdr (hdr t3 e) = prev_hdr (hdr t e)"
    "bsize (hdr t3 ?e) = 0" "\<not> is_free (hdr t3 ?e)" "matrix t3 = matrix t" "sl_bitmap t3 = sl_bitmap t" "fl_bitmap t3 = fl_bitmap t"
    "used_size t3 = used_size t" "add_new_area (e + 16) sz t = free_ex (e + 16) t3 \<bind> (\<lambda>t. Some (t, bsize (hdr t e)))"
    by (rule st) blast
  have keep: "hdr t3 a = hdr t a" if "a \<in> set as" for a
  proof -
    have "lo \<le> a" "a + 16 + bsize (hdr t a) \<le> e" "16 \<le> bsize (hdr t a)" "48 < lo"
      using pseg_bounds [OF p(1) that] pseg_block [OF p(1) that] r(2) assms(2) by (simp_all add: one_area_def)
    then show ?thesis using t3(1) [of a] clear_area_before [of a "e + 16" sz t] by simp
  qed
  have "same_back (hdr t e) (hdr t3 e)" using t3(3,4) by (simp add: same_back_def)
  then have "same_back (hdr t a) (hdr t3 a)" if "a \<in> set (tl as @ [e])" for a
    using keep [of a] that set_mono_tl [of a as] by auto
  then have seg: "pseg (hdr t3) as e" by (intro pseg_frame [OF p(1)]) (use keep in simp_all)
  have ap: "successively (apart (hdr t3)) as" by (rule successively_mono [OF p(2)]) (use keep in simp)
  have first: "\<not> prev_free (hdr t3 (hd (as @ [e])))" using p(3) r(2) keep [of lo] t3(3) by (cases as) auto
  have "0 < e" using \<open>lo \<le> e\<close> assms(2) by (simp add: one_area_def)
  have s: "32 dvd ?s" "32 \<le> ?s" using area_size_dvd assms(3) by blast+
  have "(16 :: nat) dvd 32" by simp
  then have "16 dvd ?s" using s(1) by (rule dvd_trans)
  then have "16 dvd ?e - e" by simp
  then have g: "gap (hdr t3) as e [] ?e"
    using seg ap first t3(5,6) assms(4) r(2) s(2) \<open>0 < e\<close> by (simp add: gap_def)
  have "members L \<subseteq> set as" using mem by (auto simp: free_set_def)
  then have "index_ok t3 L" by (intro index_frame [OF i] t3(7-9)) (use keep in blast)
  moreover have "free_set (hdr t3) as = free_set (hdr t) as" using keep by (auto simp: free_set_def)
  ultimately have gok: "gap_ok t3 as e [] ?e L" using g mem by (simp add: gap_ok_def)
  have f: "fills t3 e [] ?e" using t3(2) by simp
  obtain t4 as' L' where t4: "free_ex (e + 16) t3 = Some t4" "tlsf_ok t4 as' ?e L'" "used (hdr t4) as' = used (hdr t3) (as @ [])"
    "used_bytes (hdr t4) as' = used_bytes (hdr t3) (as @ [])" "used_size t4 = used_size t3 - word_of_nat (bsize (hdr t3 e) + 16)"
    "hd (as' @ [?e]) = hd (as @ [e])" using free_gap [OF gok f] by metis
  have u: "used (hdr t3) as = used (hdr t) as" "used_bytes (hdr t3) as = used_bytes (hdr t) as"
    by (rule used_cong used_bytes_cong; simp add: keep)+
  have "pool_rep lo ?e (k - word_of_nat (?s + 80)) t4 m" unfolding pool_rep_def
    by (intro exI [of _ as'] exI [of _ L']) (use t4 u r t3(2,10) in \<open>auto simp: algebra_simps\<close>)
  then show ?thesis using t3(11) t4(1) by simp
qed

text \<open>64 kB more for the fresh pool: the counter falls from 6400 below zero.\<close>

theorem add_area_extends_witness:
  "\<exists>t t' r. init_memory_pool 65536 4096 raw_memory = Some (t, 59136) \<and> add_new_area (69600 + 16) 65536 t = Some (t', r) \<and>
    pool_rep 10448 (69600 + 80 + area_size 65536) (6400 - word_of_nat (area_size 65536 + 80)) t' Map.empty"
proof (rule fresh_pool)
  fix t
  assume t: "init_memory_pool 65536 4096 raw_memory = Some (t, 59136)" "pool_rep 10448 69600 6400 t Map.empty" "one_area 10448 69600 t"
  have "69600 + 80 + area_size 65536 < 10448 + 2 ^ 30" by (simp add: area_size_def layout_numbers ROUNDDOWN_SIZE_def BLOCK_ALIGN_def)
  from add_area_extends [OF t(2,3) _ this] show ?thesis using t(1) by simp
qed

end
