(* ===== verification/Spec2Isabelle.thy ===== *)
theory Spec2Isabelle
  imports RingBuffer RingBufferSPSC OscSlip SampleRing MidiTuning OscBundle OscReserve OscNet JackMidiProps JackAudioProps
    JackClientProps JackThread JackHandover PortAudioProps PortAudioLife PortAudioThread SoundFile TlsfArea
begin

text \<open>
  Verification of the C core of Incudine, a music and sound synthesis environment for Common Lisp. The Lisp system compiles the synthesis;
  the C files under \<^verbatim>\<open>src/src\<close> are what its real-time thread calls: the audio and MIDI drivers, the network side of OSC, and loops over
  blocks of samples. This development models those files and proves what they promise.

  \<^bold>\<open>The program and its parts.\<close>

  A garbage collection stops the Lisp thread. The C process thread of the driver (\<^verbatim>\<open>rtjack.c\<close> or \<^verbatim>\<open>rtpa.c\<close>) then takes the cycles of the audio
  server over, plays silence, and caches the inputs in ring buffers (\<^verbatim>\<open>ringbuffer.c\<close>), one byte of a cycle counter per cycle. When Lisp is
  back it recovers the cached cycles in order and gets the control of the server back. MIDI events pass through ring buffers of the same
  kind; OSC packets arrive over sockets (\<^verbatim>\<open>network/osc.c\<close>), framed by SLIP or by a length where the transport is a stream, and are indexed in
  place, so that Lisp reads their values through a table of pointers. The real-time thread takes its foreign memory from pools of the
  allocator TLSF (\<^verbatim>\<open>contrib/tlsf/src/tlsf.c\<close>, compiled into the same library). \<^verbatim>\<open>util.c\<close> has the inner loops for analysis and convolution, the readers
  of MIDI tuning dumps and of sound files.

  \<^bold>\<open>Theories and code.\<close>

  \<^item> \<open>Prelude\<close>: machine words, blocks of memory as lists with checked accesses (\<^verbatim>\<open>memcpy\<close>, \<^verbatim>\<open>memset\<close>), masks of powers of two, resources that are
    allocated and released, the collections \<open>mem_simps\<close> and \<open>ring_arith\<close>.
  \<^item> \<open>RingBuffer\<close>, \<open>RingBufferSPSC\<close>: \<^verbatim>\<open>ringbuffer.c\<close>, \<^verbatim>\<open>ringbuffer.h\<close>. The record \<open>ringbuffer\<close> is the structure of C with its two heads of 32 bits. The locale
    \<open>byte_fifo\<close> is the contract of a bounded queue of bytes that the drivers rely on, interpreted as \<open>rb\<close>. \<open>RingBufferSPSC\<close> splits writing and
    reading into single memory accesses of one writer and one reader, in any interleaving.
  \<^item> \<open>OscSlip\<close>, \<open>OscMem\<close>, \<open>OscMsg\<close>, \<open>OscBundle\<close>, \<open>OscReserve\<close>, \<open>OscNet\<close>: \<^verbatim>\<open>network/osc.c\<close>, \<^verbatim>\<open>network/osc.h\<close>. SLIP coding, the memory of a packet,
    messages (matching, indexing, composing), bundles, resizing of a value in place, and the connections with the receiver of framed packets.
  \<^item> \<open>JackMem\<close>, \<open>JackMidi\<close>, \<open>JackMidiIO\<close>, \<open>JackMidiProps\<close>: the MIDI half of \<^verbatim>\<open>rtjack.c\<close>: the layout of events, the tables of ports, the process
    callback, reading, writing, recovery.
  \<^item> \<open>JackAudio\<close>, \<open>JackAudioProps\<close>, \<open>JackClient\<close>, \<open>JackClientProps\<close>, \<open>JackThread\<close>, \<open>JackHandover\<close>: the audio half of \<^verbatim>\<open>rtjack.c\<close>, \<^verbatim>\<open>rtjack.h\<close>: the cache of inputs, the
    cycle, the life cycle of the client with its ports and callbacks, the rounds and the loops of the process threads beside Lisp's recovery, and the handover between the
    threads as an interleaving of their steps.
  \<^item> \<open>CycleCache\<close>: the contract \<open>cycle_cache\<close> between a driver and Lisp's recovery loop, interpreted for JACK (\<open>jc\<close>) and PortAudio (\<open>pc\<close>).
  \<^item> \<open>PortAudio\<close>, \<open>PortAudioClient\<close>, \<open>PortAudioProps\<close>, \<open>PortAudioLife\<close>, \<open>PortAudioThread\<close>: \<^verbatim>\<open>rtpa.c\<close>, \<^verbatim>\<open>rtpa.h\<close>, with the same division.
  \<^item> \<open>TlsfMap\<close>, \<open>Tlsf\<close>: \<^verbatim>\<open>tlsf.c\<close>: the classes of sizes; headers, free lists, split and join, \<^verbatim>\<open>malloc_ex\<close>, \<^verbatim>\<open>free_ex\<close>, \<^verbatim>\<open>realloc_ex\<close>,
    \<^verbatim>\<open>calloc_ex\<close>, \<^verbatim>\<open>init_memory_pool\<close>. The record \<open>tlsf\<close> is the structure at the beginning of a pool together with the headers in the pool.
    \<open>TlsfIndex\<close> (the invariant of lists and bitmaps), \<open>TlsfChain\<close> (the search, the physical order, gaps in it), \<open>TlsfHeap\<close> (opening, changing and
    closing a gap), \<open>TlsfAlloc\<close>, \<open>TlsfFree\<close>, \<open>TlsfRealloc\<close> (the operations), \<open>TlsfPool\<close> (the abstract heap a pool represents), \<open>TlsfInit\<close>,
    \<open>TlsfProps\<close> (the contract \<open>allocator\<close>, interpreted as \<open>pool\<close>), \<open>TlsfTheorems\<close>, \<open>TlsfArea\<close>
    (a pool that grows by an area behind it).
  \<^item> \<open>SampleRing\<close>, \<open>MidiTuning\<close>, \<open>SoundFile\<close>: \<^verbatim>\<open>util.c\<close>.

  \<^bold>\<open>Conventions.\<close>

  Functions of C are functions on explicit states. \<open>None\<close> is undefined behaviour (an access outside of a block, a null or dangling pointer, an
  uninitialised read) or, for a \<open>partial_function\<close>, a loop that does not end; error returns of the code are values. In the theories of
  TLSF \<open>None\<close> is an index outside of the class tables only: headers exist at every address there, and the theorems state where the blocks lie. Integers have the width of the code where
  wrap-around can matter (32-bit heads, lengths of OSC, the comparison of a signed with an unsigned 64-bit number) and are natural
  numbers where they are indices into blocks. Samples that are only moved are words or of an abstract type; where the code calculates with them they are real or
  abstract numbers without rounding; positions of the sample counter are natural numbers below \<open>2 ^ 53\<close>. Calls of
  JACK, PortAudio, libsndfile and of the system are parameters, their documented behaviour a hypothesis where a property needs it. The
  life cycles of the drivers are closed under every answer of these calls: where an answer leads to undefined behaviour the
  property says which (\<open>client_life_cycle\<close>, \<open>pa_life_cycle\<close>), and so does the receiver of OSC for the descriptors that
  \<^verbatim>\<open>accept\<close> returns (\<open>recv_round_ok\<close>). The steps of the handover include the spurious wake-ups of condition variables.

  \<^bold>\<open>What the lemmas show.\<close>

  Invariants kept by every operation (\<open>rb_ok\<close>, \<open>spsc_step_inv\<close>, \<open>vec_ok\<close>, \<open>fds_ok\<close>, \<open>ja_ok\<close>, \<open>client_ok\<close>, \<open>hand_inv\<close>, \<open>weak_inv\<close>, \<open>pa_inv\<close>, \<open>tlsf_ok\<close>), refinement of a
  queue by the ring buffer, sequentially and under interleaving, and of an abstract heap by a pool, functional descriptions of each operation on its branches, round trips of the codings, the copy loops as
  closed expressions, the life cycles without leaks, and some errors of the code as theorems: each is stated where it was found and listed with its line in the manifest.

  \<^bold>\<open>Loops and bounds.\<close>

  Loops over indices are structural recursions on lists of indices or functions with a measure. The loop of \<^verbatim>\<open>__next_pow_of_two\<close> may not end and is a
  \<open>partial_function\<close>. The list of areas that \<^verbatim>\<open>add_new_area\<close> walks could be cyclic, so this loop is a \<open>partial_function\<close> too. The other
  operations of the allocator have no loops; its theorems are about pools and requests below a gigabyte, the bound of its index. The loops of the process
  threads run over a list of iterations, whose length is not bounded. The loops of naps have the bounds of the code (3000 and 2000). The recovery loop
  has a bound of rounds; one more than the number of cached cycles is enough (\<open>recover_all\<close>).

  \<^bold>\<open>Not modelled.\<close>

  \<^item> The branches for Windows of \<^verbatim>\<open>network/osc.c\<close> and \<^verbatim>\<open>rtpa.c\<close>: the same protocol over another system interface.
  \<^item> \<^verbatim>\<open>mouse.c\<close>: reads of X11 into a structure. \<^verbatim>\<open>config_test.c\<close>, \<^verbatim>\<open>common.h\<close>: definitions for the compiler (\<^verbatim>\<open>barrier.h\<close> is generated).
  \<^item> Of \<^verbatim>\<open>tlsf.c\<close>: what is compiled out (locks, \<^verbatim>\<open>mmap\<close>, \<^verbatim>\<open>sbrk\<close>, printing); the contents of blocks, apart from the arguments of \<^verbatim>\<open>memcpy\<close>
    and \<^verbatim>\<open>memset\<close>; its test programs.
  \<^item> Functions that only return a variable (\<^verbatim>\<open>ja_get_xruns\<close>, \<^verbatim>\<open>pa_stream\<close>, \<^verbatim>\<open>pthread_priority\<close> and the like) or only pass their arguments to JACK
    (\<^verbatim>\<open>jm_port_register\<close>, \<^verbatim>\<open>ja_silent_errors\<close>), and the arrays of names for the ports.
  \<^item> The Lisp sources, apart from the recovery loop and the order of calls of the real-time thread that the C code relies on.
  \<^item> Overflow of counters of type \<^verbatim>\<open>int\<close> that would take \<open>2 ^ 31\<close> rounds or samples (the cycles of a PortAudio thread, the samples in a chunk of a
    sound file), the indices of SLIP for packets of \<open>2 ^ 31\<close> bytes, and rounding of floating-point numbers.
  \<^item> The access of TLSF to headers outside of a pool as an error (see the conventions); \<open>pool_sentinel_inside_iff\<close> tells when its
    initialisation makes one.
  \<^item> Weak memory: the accesses of \<open>RingBufferSPSC\<close> and \<open>JackHandover\<close> are sequentially consistent, which the memory barriers of the code
    are meant to ensure.
\<close>

end
